(* ===== verification/Vprelude.thy ===== *)
theory Vprelude
  imports Main "HOL-Library.Word"
begin

text \<open>
  Shared vocabulary of the development: the C integer types the components keep at their
  width, the error codes the C functions return, the arithmetic helpers of
  \<^verbatim>\<open>src/vessel/src/inc/base/stddef.h\<close>, the array updates the components share, and the
  generic lemmas that carry the component proofs.
\<close>

unbundle bit_operations_syntax

named_theorems opt_run \<open>facts that open a successful run of code in the option monad\<close>

declare Option.bind_eq_Some_conv [opt_run] Let_def [opt_run]

section \<open>C types and return codes\<close>

type_synonym u32 = "32 word"
type_synonym u64 = "64 word"

datatype errno = EINVAL | ENOENT | EBUSY | ENOMEM | EAGAIN | EACCES | ERANGE | EIO | ENAVAIL

text \<open>A C function that returns \<open>0\<close> on success and \<open>-errno\<close> (or \<open>errno\<close>) on failure.\<close>

datatype ret = Ok | Err errno

section \<open>Arithmetic helpers (stddef.h)\<close>

definition is_power_of_two :: "'a::len word \<Rightarrow> bool" where
  "is_power_of_two x \<longleftrightarrow> x \<noteq> 0 \<and> (x AND (x - 1)) = 0"

definition align_up :: "u64 \<Rightarrow> u64 \<Rightarrow> u64" where
  "align_up x align = ((x - 1) OR (align - 1)) + 1"

definition align_down :: "u64 \<Rightarrow> u64 \<Rightarrow> u64" where
  "align_down x align = x AND NOT (align - 1)"

definition div_up :: "nat \<Rightarrow> nat \<Rightarrow> nat" where
  "div_up x d = (x + d - 1) div d"

definition wraps_lt :: "u32 \<Rightarrow> u32 \<Rightarrow> bool" where
  "wraps_lt a b \<longleftrightarrow> sint (a - b) < 0"

definition wraps_lte :: "u32 \<Rightarrow> u32 \<Rightarrow> bool" where
  "wraps_lte a b \<longleftrightarrow> sint (a - b) \<le> 0"

definition wraps_gt :: "u32 \<Rightarrow> u32 \<Rightarrow> bool" where
  "wraps_gt a b \<longleftrightarrow> sint (b - a) < 0"

definition wraps_gte :: "u32 \<Rightarrow> u32 \<Rightarrow> bool" where
  "wraps_gte a b \<longleftrightarrow> sint (b - a) \<le> 0"

section \<open>The first index that satisfies a predicate\<close>

definition first_idx :: "(nat \<Rightarrow> bool) \<Rightarrow> nat \<Rightarrow> nat \<Rightarrow> nat" where
  "first_idx P a n = (case find P [a..<n] of None \<Rightarrow> n | Some q \<Rightarrow> q)"

lemma first_idx_cases:
  obtains (hit) r where "first_idx P a n = r" "a \<le> r" "r < n" "P r" "\<And>q. a \<le> q \<Longrightarrow> q < r \<Longrightarrow> \<not> P q"
  | (miss) "first_idx P a n = n" "\<And>q. a \<le> q \<Longrightarrow> q < n \<Longrightarrow> \<not> P q"
proof (cases "find P [a..<n]")
  case None
  then have "first_idx P a n = n" by (simp add: first_idx_def)
  moreover have "\<And>q. a \<le> q \<Longrightarrow> q < n \<Longrightarrow> \<not> P q" using None by (simp add: find_None_iff)
  ultimately show ?thesis by (rule miss)
next
  case (Some r)
  then obtain i where i: "i < n - a" "r = a + i" "P (a + i)" "\<forall>j<i. \<not> P (a + j)"
    by (fastforce simp: find_Some_iff)
  have "\<not> P q" if "a \<le> q" "q < r" for q
    using i(2) i(4) [rule_format, of "q - a"] that by auto
  with Some i show ?thesis by (intro hit [of r]) (auto simp: first_idx_def)
qed

lemma first_idx_hit:
  "first_idx P a n < n \<Longrightarrow> P (first_idx P a n) \<and> (\<forall>q. a \<le> q \<and> q < first_idx P a n \<longrightarrow> \<not> P q)"
  by (rule first_idx_cases [of P a n]) auto

lemma first_idx_miss: "\<not> first_idx P a n < n \<Longrightarrow> a \<le> q \<Longrightarrow> q < n \<Longrightarrow> \<not> P q"
  by (rule first_idx_cases [of P a n]) auto

lemma first_idx_eqI:
  assumes "r < n \<Longrightarrow> a \<le> r" "r < n \<Longrightarrow> P r" "r \<le> n" "\<And>q. a \<le> q \<Longrightarrow> q < r \<Longrightarrow> \<not> P q"
  shows "first_idx P a n = r"
proof (rule first_idx_cases [of P a n])
  fix q assume q: "first_idx P a n = q" "a \<le> q" "q < n" "P q" "\<And>k. a \<le> k \<Longrightarrow> k < q \<Longrightarrow> \<not> P k"
  have "\<not> q < r" using assms(4) [of q] q by blast
  moreover have "\<not> r < q" using assms(1,2) q(3) q(5) [of r] by auto
  ultimately show ?thesis using q(1) by simp
next
  assume "first_idx P a n = n" and none: "\<And>q. a \<le> q \<Longrightarrow> q < n \<Longrightarrow> \<not> P q"
  with assms(1-3) none [of r] show ?thesis by (cases "r < n") auto
qed

lemma first_idx_le: "first_idx P a n \<le> n"
  by (rule first_idx_cases [of P a n]) auto

lemma first_idx_shift:
  assumes "a \<le> b" "\<And>q. a \<le> q \<Longrightarrow> q < b \<Longrightarrow> \<not> P q" "\<And>q. b \<le> q \<Longrightarrow> P q = P' q"
  shows "first_idx P a n = first_idx P' b n"
proof (rule first_idx_cases [of P' b n])
  fix r assume r: "first_idx P' b n = r" "b \<le> r" "r < n" "P' r" "\<And>q. b \<le> q \<Longrightarrow> q < r \<Longrightarrow> \<not> P' q"
  have "\<not> P q" if "a \<le> q" "q < r" for q
    using assms(2,3) [of q] r(5) [of q] that by (cases "q < b") auto
  with r assms show ?thesis by (intro first_idx_eqI) auto
next
  assume r: "first_idx P' b n = n" "\<And>q. b \<le> q \<Longrightarrow> q < n \<Longrightarrow> \<not> P' q"
  have "\<not> P q" if "a \<le> q" "q < n" for q
    using assms(2,3) [of q] r(2) [of q] that by (cases "q < b") auto
  with r show ?thesis by (intro first_idx_eqI) auto
qed

lemma first_idx_cong:
  "(\<And>q. a \<le> q \<Longrightarrow> q < n \<Longrightarrow> P q = P' q) \<Longrightarrow> first_idx P a n = first_idx P' a n"
  unfolding first_idx_def by (rule arg_cong [where f = "case_option n (\<lambda>q. q)"]) (auto intro: find_cong)

section \<open>Options as lists\<close>

definition opt_list :: "'a option \<Rightarrow> 'a list" where
  "opt_list x = (case x of None \<Rightarrow> [] | Some a \<Rightarrow> [a])"

lemma opt_list_simps [simp]: "opt_list None = []" "opt_list (Some a) = [a]"
  by (simp_all add: opt_list_def)

lemma set_opt_list [simp]: "a \<in> set (opt_list x) \<longleftrightarrow> x = Some a"
  by (cases x) auto

end
