(* ===== verification/Bitmap.thy ===== *)
theory Bitmap
  imports Vprelude
begin

text \<open>
  The bit array library, \<^verbatim>\<open>src/vessel/src/inc/base/bitmap.h\<close> and
  \<^verbatim>\<open>src/vessel/src/base/bitmap.c\<close>. A bitmap is the array of 64-bit words an
  \<^verbatim>\<open>unsigned long *\<close> points to, as a function from the word index; the number of bits
  is passed to the operations that need it, as in the code. The atomic variants differ
  from the plain ones only in the instruction used and are single steps here.
\<close>

type_synonym bitmap = "nat \<Rightarrow> u64"

definition BITS_PER_LONG :: nat where
  "BITS_PER_LONG = 64"

definition BITMAP_LONG_SIZE :: "nat \<Rightarrow> nat" where
  "BITMAP_LONG_SIZE nbits = div_up nbits BITS_PER_LONG"

definition BITMAP_POS_IDX :: "nat \<Rightarrow> nat" where
  "BITMAP_POS_IDX pos = pos div BITS_PER_LONG"

definition BITMAP_POS_SHIFT :: "nat \<Rightarrow> nat" where
  "BITMAP_POS_SHIFT pos = pos mod BITS_PER_LONG"

section \<open>Single bits\<close>

definition bitmap_set :: "bitmap \<Rightarrow> nat \<Rightarrow> bitmap" where
  "bitmap_set bits pos =
     bits(BITMAP_POS_IDX pos := bits (BITMAP_POS_IDX pos) OR push_bit (BITMAP_POS_SHIFT pos) 1)"

definition bitmap_clear :: "bitmap \<Rightarrow> nat \<Rightarrow> bitmap" where
  "bitmap_clear bits pos =
     bits(BITMAP_POS_IDX pos := bits (BITMAP_POS_IDX pos) AND NOT (push_bit (BITMAP_POS_SHIFT pos) 1))"

definition bitmap_test :: "bitmap \<Rightarrow> nat \<Rightarrow> bool" where
  "bitmap_test bits pos \<longleftrightarrow>
     (bits (BITMAP_POS_IDX pos) AND push_bit (BITMAP_POS_SHIFT pos) 1) \<noteq> 0"

text \<open>\<^verbatim>\<open>atomic64_fetch_and_or\<close> returns the old word; the bit is set in memory either way.\<close>

definition bitmap_atomic_test_and_set :: "bitmap \<Rightarrow> nat \<Rightarrow> bool \<times> bitmap" where
  "bitmap_atomic_test_and_set bits pos =
     (let bit = push_bit (BITMAP_POS_SHIFT pos) 1;
          old = bits (BITMAP_POS_IDX pos)
      in ((old AND bit) \<noteq> 0, bits(BITMAP_POS_IDX pos := old OR bit)))"

text \<open>The other single-bit operations on shared bitmaps: one atomic access each.\<close>

definition bitmap_atomic_set :: "bitmap \<Rightarrow> nat \<Rightarrow> bitmap" where
  "bitmap_atomic_set bits pos =
     bits(BITMAP_POS_IDX pos := bits (BITMAP_POS_IDX pos) OR push_bit (BITMAP_POS_SHIFT pos) 1)"

definition bitmap_atomic_clear :: "bitmap \<Rightarrow> nat \<Rightarrow> bitmap" where
  "bitmap_atomic_clear bits pos =
     bits(BITMAP_POS_IDX pos := bits (BITMAP_POS_IDX pos) AND NOT (push_bit (BITMAP_POS_SHIFT pos) 1))"

definition bitmap_atomic_test :: "bitmap \<Rightarrow> nat \<Rightarrow> bool" where
  "bitmap_atomic_test bits pos \<longleftrightarrow>
     (bits (BITMAP_POS_IDX pos) AND push_bit (BITMAP_POS_SHIFT pos) 1) \<noteq> 0"

section \<open>Whole bitmaps\<close>

fun popcount_loop :: "bitmap \<Rightarrow> nat \<Rightarrow> nat \<Rightarrow> nat" where
  "popcount_loop bits 0 i = 0"
| "popcount_loop bits (Suc n) i =
     length (filter (bit (bits i)) [0..<BITS_PER_LONG]) + popcount_loop bits n (Suc i)"

definition bitmap_popcount :: "bitmap \<Rightarrow> nat \<Rightarrow> nat" where
  "bitmap_popcount bits nbits = popcount_loop bits (BITMAP_LONG_SIZE nbits) 0"

fun word_loop :: "(u64 \<Rightarrow> u64 \<Rightarrow> u64) \<Rightarrow> bitmap \<Rightarrow> bitmap \<Rightarrow> bitmap \<Rightarrow> nat \<Rightarrow> nat \<Rightarrow> bitmap" where
  "word_loop f dst src1 src2 0 i = dst"
| "word_loop f dst src1 src2 (Suc n) i =
     word_loop f (dst(i := f (src1 i) (src2 i))) src1 src2 n (Suc i)"

definition bitmap_and :: "bitmap \<Rightarrow> bitmap \<Rightarrow> bitmap \<Rightarrow> nat \<Rightarrow> bitmap" where
  "bitmap_and dst src1 src2 nbits = word_loop (\<lambda>a b. a AND b) dst src1 src2 (BITMAP_LONG_SIZE nbits) 0"

definition bitmap_or :: "bitmap \<Rightarrow> bitmap \<Rightarrow> bitmap \<Rightarrow> nat \<Rightarrow> bitmap" where
  "bitmap_or dst src1 src2 nbits = word_loop (\<lambda>a b. a OR b) dst src1 src2 (BITMAP_LONG_SIZE nbits) 0"

definition bitmap_atomic_or :: "bitmap \<Rightarrow> bitmap \<Rightarrow> nat \<Rightarrow> bitmap" where
  "bitmap_atomic_or dst src nbits = word_loop (\<lambda>a b. a OR b) dst dst src (BITMAP_LONG_SIZE nbits) 0"

definition bitmap_xor :: "bitmap \<Rightarrow> bitmap \<Rightarrow> bitmap \<Rightarrow> nat \<Rightarrow> bitmap" where
  "bitmap_xor dst src1 src2 nbits = word_loop (\<lambda>a b. a XOR b) dst src1 src2 (BITMAP_LONG_SIZE nbits) 0"

text \<open>\<^verbatim>\<open>memset\<close> of the words that hold \<open>nbits\<close> bits; words beyond them keep their value.\<close>

definition bitmap_init :: "bitmap \<Rightarrow> nat \<Rightarrow> bool \<Rightarrow> bitmap" where
  "bitmap_init bits nbits st =
     (\<lambda>i. if i < BITMAP_LONG_SIZE nbits then (if st then - 1 else 0) else bits i)"

section \<open>Searching\<close>

text \<open>\<^verbatim>\<open>__builtin_ffsl\<close>: one plus the index of the least set bit, 0 for the zero word.\<close>

definition ffsl :: "u64 \<Rightarrow> nat" where
  "ffsl w = (case find (bit w) [0..<BITS_PER_LONG] of None \<Rightarrow> 0 | Some n \<Rightarrow> Suc n)"

function find_next_loop :: "bitmap \<Rightarrow> nat \<Rightarrow> nat \<Rightarrow> u64 \<Rightarrow> bool \<Rightarrow> nat" where
  "find_next_loop bits nbits idx msk invert =
     (if idx < nbits then
        (let val = bits (BITMAP_POS_IDX idx);
             val = (if invert then NOT val else val);
             val = val AND msk
         in if val \<noteq> 0 then min (idx + ffsl val - 1) nbits
            else find_next_loop bits nbits (idx + BITS_PER_LONG) (- 1) invert)
      else nbits)"
  by pat_completeness auto
termination
  by (relation "measure (\<lambda>(bits, nbits, idx, msk, invert). nbits - idx)")
     (auto simp: BITS_PER_LONG_def)

declare find_next_loop.simps [simp del]

definition bitmap_find_next :: "bitmap \<Rightarrow> nat \<Rightarrow> nat \<Rightarrow> bool \<Rightarrow> nat" where
  "bitmap_find_next bits nbits pos invert =
     find_next_loop bits nbits (pos - pos mod BITS_PER_LONG)
       (NOT (push_bit (BITMAP_POS_SHIFT pos) 1 - 1)) invert"

definition bitmap_find_next_set :: "bitmap \<Rightarrow> nat \<Rightarrow> nat \<Rightarrow> nat" where
  "bitmap_find_next_set bits nbits pos = bitmap_find_next bits nbits pos False"

definition bitmap_find_next_cleared :: "bitmap \<Rightarrow> nat \<Rightarrow> nat \<Rightarrow> nat" where
  "bitmap_find_next_cleared bits nbits pos = bitmap_find_next bits nbits pos True"

section \<open>Laws of the single-bit operations\<close>

lemma word_and_bit_iff: "(w AND 2 ^ n) \<noteq> 0 \<longleftrightarrow> bit w n" for w :: "'a::len word"
  by (simp add: and_exp_eq_0_iff_not_bit)

lemma bitmap_test_bit: "bitmap_test bits pos = bit (bits (pos div 64)) (pos mod 64)"
  by (simp add: bitmap_test_def word_and_bit_iff BITMAP_POS_IDX_def BITMAP_POS_SHIFT_def BITS_PER_LONG_def)

lemma div_mod_64_eq: "p div 64 = q div 64 \<and> p mod 64 = q mod 64 \<longleftrightarrow> p = q" for p q :: nat
  by (metis div_mult_mod_eq)

lemma bitmap_test_set [simp]:
  "bitmap_test (bitmap_set bits p) q \<longleftrightarrow> q = p \<or> bitmap_test bits q"
  using div_mod_64_eq [of p q]
  by (auto simp: bitmap_test_bit bitmap_set_def BITMAP_POS_IDX_def BITMAP_POS_SHIFT_def
        BITS_PER_LONG_def bit_simps)

lemma bitmap_test_clear [simp]:
  "bitmap_test (bitmap_clear bits p) q \<longleftrightarrow> q \<noteq> p \<and> bitmap_test bits q"
  using div_mod_64_eq [of p q]
  by (auto simp: bitmap_test_bit bitmap_clear_def BITMAP_POS_IDX_def BITMAP_POS_SHIFT_def
        BITS_PER_LONG_def bit_simps)


lemma bitmap_atomic_test_and_set_eq:
  "bitmap_atomic_test_and_set bits pos = (bitmap_test bits pos, bitmap_set bits pos)"
  by (simp add: bitmap_atomic_test_and_set_def bitmap_test_def bitmap_set_def Let_def)

section \<open>Laws of the whole-bitmap operations\<close>

lemma bitmap_atomic_simps [simp]:
  "bitmap_atomic_set = bitmap_set" "bitmap_atomic_clear = bitmap_clear"
  "bitmap_atomic_test = bitmap_test" "bitmap_atomic_or d s n = bitmap_or d d s n"
  by (simp_all add: fun_eq_iff bitmap_atomic_set_def bitmap_set_def bitmap_atomic_clear_def
        bitmap_clear_def bitmap_atomic_test_def bitmap_test_def bitmap_atomic_or_def bitmap_or_def)

lemma pos_word_bound: "p < nbits \<Longrightarrow> p div 64 < BITMAP_LONG_SIZE nbits"
  by (auto simp: BITMAP_LONG_SIZE_def div_up_def BITS_PER_LONG_def)

lemma word_loop_eq:
  "word_loop f dst src1 src2 n i = (\<lambda>k. if i \<le> k \<and> k < i + n then f (src1 k) (src2 k) else dst k)"
  by (induction n arbitrary: dst i) (auto simp: fun_eq_iff)

lemma bitmap_test_and [simp]:
  "p < nbits \<Longrightarrow> bitmap_test (bitmap_and d a b nbits) p \<longleftrightarrow> bitmap_test a p \<and> bitmap_test b p"
  by (simp add: bitmap_and_def word_loop_eq bitmap_test_bit pos_word_bound bit_and_iff)

lemma bitmap_test_or [simp]:
  "p < nbits \<Longrightarrow> bitmap_test (bitmap_or d a b nbits) p \<longleftrightarrow> bitmap_test a p \<or> bitmap_test b p"
  by (simp add: bitmap_or_def word_loop_eq bitmap_test_bit pos_word_bound bit_or_iff)

lemma bitmap_test_xor [simp]:
  "p < nbits \<Longrightarrow> bitmap_test (bitmap_xor d a b nbits) p \<longleftrightarrow> bitmap_test a p \<noteq> bitmap_test b p"
  by (simp add: bitmap_xor_def word_loop_eq bitmap_test_bit pos_word_bound bit_xor_iff)

lemma bitmap_test_init [simp]:
  "p < nbits \<Longrightarrow> bitmap_test (bitmap_init bits nbits st) p \<longleftrightarrow> st"
  by (simp add: bitmap_init_def bitmap_test_bit pos_word_bound)

lemma less_BITS_PER_LONG [simp]: "n < BITS_PER_LONG \<longleftrightarrow> n < 64"
  by (simp add: BITS_PER_LONG_def)

lemma card_word_bits: "length (filter (bit w) [0..<BITS_PER_LONG]) = card {b. b < 64 \<and> bit w b}"
proof -
  have "card (set (filter (bit w) [0..<BITS_PER_LONG])) = length (filter (bit w) [0..<BITS_PER_LONG])"
    by (rule distinct_card) simp
  moreover have "set (filter (bit w) [0..<BITS_PER_LONG]) = {b. b < 64 \<and> bit w b}" by auto
  ultimately show ?thesis by simp
qed

lemma card_bitmap_word:
  "card {p. 64 * i \<le> p \<and> p < 64 * i + 64 \<and> bitmap_test bits p} = card {b. b < 64 \<and> bit (bits i) b}"
proof -
  have div: "p div 64 = i" "p mod 64 = p - 64 * i" if "64 * i \<le> p" "p < 64 * i + 64" for p
    using that by (auto simp: mod_nat_eqI)
  have "bij_betw (\<lambda>b. 64 * i + b) {b. b < 64 \<and> bit (bits i) b}
          {p. 64 * i \<le> p \<and> p < 64 * i + 64 \<and> bitmap_test bits p}"
    by (rule bij_betw_byWitness [where f' = "\<lambda>p. p - 64 * i"]) (auto simp: bitmap_test_bit div)
  then show ?thesis by (rule bij_betw_same_card [symmetric])
qed

lemma popcount_loop_eq:
  "popcount_loop bits n i = card {p. 64 * i \<le> p \<and> p < 64 * (i + n) \<and> bitmap_test bits p}"
proof (induction n arbitrary: i)
  case 0
  have "{p. 64 * i \<le> p \<and> p < 64 * i \<and> bitmap_test bits p} = {}" by auto
  then show ?case by simp
next
  case (Suc n)
  let ?W = "{p. 64 * i \<le> p \<and> p < 64 * i + 64 \<and> bitmap_test bits p}"
  let ?R = "{p. 64 * Suc i \<le> p \<and> p < 64 * (Suc i + n) \<and> bitmap_test bits p}"
  have "card (?W \<union> ?R) = card ?W + card ?R"
    by (rule card_Un_disjoint) auto
  moreover have "{p. 64 * i \<le> p \<and> p < 64 * (i + Suc n) \<and> bitmap_test bits p} = ?W \<union> ?R"
    by auto
  ultimately show ?case using Suc.IH [of "Suc i"]
    by (simp add: card_word_bits card_bitmap_word)
qed

section \<open>The word scan is the bit scan\<close>

definition find_next_ref :: "bitmap \<Rightarrow> nat \<Rightarrow> nat \<Rightarrow> bool \<Rightarrow> nat" where
  "find_next_ref bits nbits pos invert =
     (case find (\<lambda>q. bitmap_test bits q \<noteq> invert) [pos..<nbits] of None \<Rightarrow> nbits | Some q \<Rightarrow> q)"

lemma ffsl_least:
  assumes "w \<noteq> 0"
  obtains n where "ffsl w = Suc n" "n < 64" "bit w n" "\<forall>m<n. \<not> bit w m"
proof (cases "find (bit w) [0..<BITS_PER_LONG]")
  case None
  then have "\<not> bit w n" for n
    by (cases "n < 64") (auto simp: find_None_iff dest: bit_imp_le_length)
  then have "w = 0" by (simp add: bit_eq_iff)
  with assms show ?thesis by simp
next
  case (Some n)
  then have "n < BITS_PER_LONG" "bit w n" "\<forall>j<n. \<not> bit w j"
    by (auto simp: find_Some_iff)
  with Some show ?thesis by (intro that [of n]) (auto simp: ffsl_def)
qed

lemma div_mod_64_add: "(i::nat) mod 64 = 0 \<Longrightarrow> m < 64 \<Longrightarrow> (i + m) div 64 = i div 64 \<and> (i + m) mod 64 = m"
  by (auto elim!: dvdE simp: mod_eq_0_iff_dvd)

lemma find_next_loop_first:
  assumes "idx mod 64 = 0"
  shows "find_next_loop bits nbits idx msk invert =
     first_idx (\<lambda>q. bitmap_test bits q \<noteq> invert \<and> (q < idx + 64 \<longrightarrow> bit msk (q - idx))) idx nbits"
  using assms
proof (induction bits nbits idx msk invert rule: find_next_loop.induct)
  case (1 bits nbits idx msk invert)
  let ?val = "(if invert then NOT (bits (idx div 64)) else bits (idx div 64)) AND msk"
  let ?hit = "\<lambda>i (m::u64) q. bitmap_test bits q \<noteq> invert \<and> (q < i + 64 \<longrightarrow> bit m (q - i))"
  have hit_val: "?hit idx msk (idx + m) \<longleftrightarrow> bit ?val m" if "m < 64" for m
    using that div_mod_64_add [OF "1.prems" that] by (auto simp: bitmap_test_bit bit_simps)
  show ?case
  proof (cases "idx < nbits")
    case False
    then show ?thesis
      by (subst find_next_loop.simps) (auto intro!: first_idx_eqI [symmetric])
  next
    case lt: True
    show ?thesis
    proof (cases "?val = 0")
      case True
      with lt have "find_next_loop bits nbits idx msk invert =
          find_next_loop bits nbits (idx + 64) (- 1) invert"
        by (subst find_next_loop.simps) (simp add: Let_def BITMAP_POS_IDX_def BITS_PER_LONG_def)
      also have "\<dots> = first_idx (?hit (idx + 64) (- 1)) (idx + 64) nbits"
        using "1.IH" [OF lt refl refl refl] True "1.prems"
        unfolding BITMAP_POS_IDX_def BITS_PER_LONG_def by simp
      also have "\<dots> = first_idx (?hit idx msk) idx nbits"
      proof (rule first_idx_shift [symmetric])
        show "\<not> ?hit idx msk q" if "idx \<le> q" "q < idx + 64" for q
          using hit_val [of "q - idx"] True that by simp
        show "?hit idx msk q = ?hit (idx + 64) (- 1) q" if "idx + 64 \<le> q" for q
          using that by auto
      qed simp
      finally show ?thesis .
    next
      case False
      then obtain n where n: "ffsl ?val = Suc n" "n < 64" "bit ?val n" "\<forall>m<n. \<not> bit ?val m"
        by (rule ffsl_least)
      from lt False have "find_next_loop bits nbits idx msk invert = min (idx + n) nbits"
        by (subst find_next_loop.simps) (simp add: Let_def BITMAP_POS_IDX_def BITS_PER_LONG_def n(1))
      moreover have "first_idx (?hit idx msk) idx nbits = min (idx + n) nbits"
      proof (rule first_idx_eqI)
        show "min (idx + n) nbits < nbits \<Longrightarrow> ?hit idx msk (min (idx + n) nbits)"
          using hit_val [of n] n by (simp add: min_def split: if_splits)
        show "\<not> ?hit idx msk q" if "idx \<le> q" "q < min (idx + n) nbits" for q
        proof -
          from that have "q - idx < n" by auto
          with n(2) n(4) hit_val [of "q - idx"] that show ?thesis by simp
        qed
      qed simp_all
      ultimately show ?thesis by simp
    qed
  qed
qed


lemma bit_tail_mask: "m < 64 \<Longrightarrow> s < 64 \<Longrightarrow> bit (NOT (push_bit s 1 - 1) :: u64) m \<longleftrightarrow> s \<le> m"
  by (simp add: mask_eq_exp_minus_1 [symmetric] bit_not_iff bit_mask_iff not_less)

lemma bitmap_find_next_first:
  "bitmap_find_next bits nbits pos invert = first_idx (\<lambda>q. bitmap_test bits q \<noteq> invert) pos nbits"
proof -
  let ?idx = "pos - pos mod 64" and ?msk = "NOT (push_bit (pos mod 64) 1 - 1) :: u64"
  have idx: "?idx mod 64 = 0" by (simp add: minus_mod_eq_mult_div)
  have msk: "(q < ?idx + 64 \<longrightarrow> bit ?msk (q - ?idx)) \<longleftrightarrow> pos \<le> q" if "?idx \<le> q" for q
  proof (cases "q < ?idx + 64")
    case True
    with that bit_tail_mask [of "q - ?idx" "pos mod 64"] show ?thesis by auto
  next
    case False
    then show ?thesis by (auto simp: not_less)
  qed
  have "bitmap_find_next bits nbits pos invert =
      first_idx (\<lambda>q. bitmap_test bits q \<noteq> invert \<and> (q < ?idx + 64 \<longrightarrow> bit ?msk (q - ?idx))) ?idx nbits"
    using find_next_loop_first [OF idx, of bits nbits ?msk invert]
    by (simp add: bitmap_find_next_def BITMAP_POS_SHIFT_def BITS_PER_LONG_def)
  also have "\<dots> = first_idx (\<lambda>q. bitmap_test bits q \<noteq> invert) pos nbits"
    by (rule first_idx_shift) (use msk in auto)
  finally show ?thesis .
qed

lemma find_next_set_bounds:
  "bitmap_find_next_set bits nbits pos \<le> nbits"
  "bitmap_find_next_set bits nbits pos < nbits \<Longrightarrow> pos \<le> bitmap_find_next_set bits nbits pos"
  "bitmap_find_next_set bits nbits pos < nbits \<Longrightarrow> bitmap_test bits (bitmap_find_next_set bits nbits pos)"
  unfolding bitmap_find_next_set_def bitmap_find_next_first
  by (rule first_idx_cases [of "\<lambda>q. bitmap_test bits q \<noteq> False" pos nbits], simp_all)+

lemma find_next_cleared_bounds:
  "bitmap_find_next_cleared bits nbits pos \<le> nbits"
  "bitmap_find_next_cleared bits nbits pos < nbits \<Longrightarrow> pos \<le> bitmap_find_next_cleared bits nbits pos"
  "bitmap_find_next_cleared bits nbits pos < nbits \<Longrightarrow>
     \<not> bitmap_test bits (bitmap_find_next_cleared bits nbits pos)"
  unfolding bitmap_find_next_cleared_def bitmap_find_next_first
  by (rule first_idx_cases [of "\<lambda>q. bitmap_test bits q \<noteq> True" pos nbits], simp_all)+

lemma find_next_progress:
  "bitmap_find_next_set bits nbits pos < nbits \<Longrightarrow>
     nbits - Suc (bitmap_find_next_set bits nbits pos) < nbits - pos"
  "bitmap_find_next_cleared bits nbits pos < nbits \<Longrightarrow>
     nbits - Suc (bitmap_find_next_cleared bits nbits pos) < nbits - pos"
  using find_next_set_bounds(2) [of bits nbits pos] find_next_cleared_bounds(2) [of bits nbits pos]
  by linarith+

section \<open>Iteration\<close>

text \<open>
  The loops \<^verbatim>\<open>bitmap_for_each_set\<close> and \<^verbatim>\<open>bitmap_for_each_cleared\<close>: the positions they
  visit when the body leaves the bitmap alone, starting at \<open>pos\<close> (0 in the macro, which
  starts at -1 and adds one), and the loop over a state that holds the bitmap, re-read
  before each step.
\<close>

function positions_set :: "bitmap \<Rightarrow> nat \<Rightarrow> nat \<Rightarrow> nat list" where
  "positions_set bits nbits pos =
     (let p = bitmap_find_next_set bits nbits pos
      in if p < nbits then p # positions_set bits nbits (Suc p) else [])"
  by pat_completeness auto
termination
  by (relation "measure (\<lambda>(bits, nbits, pos). nbits - pos)") (auto intro: find_next_progress)

function positions_cleared :: "bitmap \<Rightarrow> nat \<Rightarrow> nat \<Rightarrow> nat list" where
  "positions_cleared bits nbits pos =
     (let p = bitmap_find_next_cleared bits nbits pos
      in if p < nbits then p # positions_cleared bits nbits (Suc p) else [])"
  by pat_completeness auto
termination
  by (relation "measure (\<lambda>(bits, nbits, pos). nbits - pos)") (auto intro: find_next_progress)

function for_each_set :: "('s \<Rightarrow> bitmap) \<Rightarrow> nat \<Rightarrow> (nat \<Rightarrow> 's \<Rightarrow> 's) \<Rightarrow> nat \<Rightarrow> 's \<Rightarrow> 's" where
  "for_each_set bits nbits body pos s =
     (let p = bitmap_find_next_set (bits s) nbits pos
      in if p < nbits then for_each_set bits nbits body (Suc p) (body p s) else s)"
  by pat_completeness auto
termination
  by (relation "measure (\<lambda>(bits, nbits, body, pos, s). nbits - pos)") (auto intro: find_next_progress)

declare positions_set.simps [simp del] positions_cleared.simps [simp del] for_each_set.simps [simp del]

lemma filter_upt_first:
  "filter P [a..<n] = (let p = first_idx P a n in if p < n then p # filter P [Suc p..<n] else [])"
proof (rule first_idx_cases [of P a n])
  fix r assume r: "first_idx P a n = r" "a \<le> r" "r < n" "P r" "\<And>q. a \<le> q \<Longrightarrow> q < r \<Longrightarrow> \<not> P q"
  then have "[a..<n] = [a..<r] @ r # [Suc r..<n]"
    by (metis le_add_diff_inverse less_imp_le upt_add_eq_append upt_conv_Cons)
  with r show ?thesis by (simp add: filter_empty_conv)
next
  assume "first_idx P a n = n" "\<And>q. a \<le> q \<Longrightarrow> q < n \<Longrightarrow> \<not> P q"
  then show ?thesis by (simp add: filter_empty_conv)
qed

lemma positions_set_eq: "positions_set bits nbits pos = filter (bitmap_test bits) [pos..<nbits]"
proof (induction bits nbits pos rule: positions_set.induct)
  case (1 bits nbits pos)
  show ?case
    using 1 by (subst positions_set.simps, subst filter_upt_first)
      (simp add: bitmap_find_next_set_def bitmap_find_next_first Let_def)
qed

lemma positions_cleared_eq:
  "positions_cleared bits nbits pos = filter (\<lambda>q. \<not> bitmap_test bits q) [pos..<nbits]"
proof (induction bits nbits pos rule: positions_cleared.induct)
  case (1 bits nbits pos)
  show ?case
    using 1 by (subst positions_cleared.simps, subst filter_upt_first)
      (simp add: bitmap_find_next_cleared_def bitmap_find_next_first Let_def)
qed

lemma for_each_set_invariant:
  assumes "I s"
    and step: "\<And>p s. p < nbits \<Longrightarrow> bitmap_test (bits s) p \<Longrightarrow> I s \<Longrightarrow> I (body p s)"
  shows "I (for_each_set bits nbits body pos s)"
  using assms
proof (induction bits nbits body pos s rule: for_each_set.induct)
  case (1 bits nbits body pos s)
  let ?p = "bitmap_find_next_set (bits s) nbits pos"
  show ?case
  proof (cases "?p < nbits")
    case True
    with 1 find_next_set_bounds(3) [of "bits s" nbits pos] show ?thesis
      by (subst for_each_set.simps) (simp add: Let_def)
  next
    case False
    with 1 show ?thesis by (subst for_each_set.simps) (simp add: Let_def)
  qed
qed

section \<open>Properties\<close>

text \<open>
  C39: the word-at-a-time scan of \<^verbatim>\<open>bitmap_find_next\<close> (a mask on the first word, then
  \<^verbatim>\<open>ffsl\<close> on each word) returns what a scan bit by bit returns: the first position at or
  after \<open>pos\<close> whose bit is set (cleared, when inverted), and \<open>nbits\<close> when there is none.
\<close>

theorem find_next_is_bit_scan:
  "bitmap_find_next bits nbits pos invert = find_next_ref bits nbits pos invert"
proof (rule first_idx_cases [of "\<lambda>q. bitmap_test bits q \<noteq> invert" pos nbits])
  let ?P = "\<lambda>q. bitmap_test bits q \<noteq> invert"
  fix r assume r: "first_idx ?P pos nbits = r" "pos \<le> r" "r < nbits" "?P r"
    "\<And>q. pos \<le> q \<Longrightarrow> q < r \<Longrightarrow> \<not> ?P q"
  then have "find ?P [pos..<nbits] = Some r"
    by (auto simp: find_Some_iff intro!: exI [of _ "r - pos"])
  with r(1) show ?thesis by (simp add: find_next_ref_def bitmap_find_next_first)
next
  let ?P = "\<lambda>q. bitmap_test bits q \<noteq> invert"
  assume r: "first_idx ?P pos nbits = nbits" "\<And>q. pos \<le> q \<Longrightarrow> q < nbits \<Longrightarrow> \<not> ?P q"
  then have "find ?P [pos..<nbits] = None" by (auto simp: find_None_iff)
  with r(1) show ?thesis by (simp add: find_next_ref_def bitmap_find_next_first)
qed

text \<open>
  \<^verbatim>\<open>bitmap_popcount\<close> counts the set bits of all the words that hold the \<open>nbits\<close>
  bits; the bits of the last word past \<open>nbits\<close> are counted too.
\<close>

theorem popcount_counts:
  "bitmap_popcount bits nbits = card {p. p < 64 * BITMAP_LONG_SIZE nbits \<and> bitmap_test bits p}"
  by (simp add: bitmap_popcount_def popcount_loop_eq)

text \<open>
  The iterators \<^verbatim>\<open>bitmap_for_each_set\<close> and \<^verbatim>\<open>bitmap_for_each_cleared\<close> visit
  exactly the set (cleared) positions below \<open>nbits\<close>, each once, in increasing order.
\<close>

theorem for_each_visits_all:
  "positions_set bits nbits 0 = filter (bitmap_test bits) [0..<nbits] \<and>
   positions_cleared bits nbits 0 = filter (\<lambda>p. \<not> bitmap_test bits p) [0..<nbits]"
  by (simp add: positions_set_eq positions_cleared_eq)

end
