(* ===== verification/Cpulist.thy ===== *)
theory Cpulist
  imports Bitmap
begin

text \<open>
  The CPU list parser of \<^verbatim>\<open>src/vessel/src/base/bitmap.c\<close> (\<^verbatim>\<open>string_to_bitmap\<close>), which
  the daemon and the iokernel run on their command line. A C string is the list of its
  characters before the terminating NUL; a \<^verbatim>\<open>char *\<close> into it is the suffix it points
  at, so that an earlier pointer is a longer suffix, and \<^verbatim>\<open>NULL\<close> is \<open>None\<close>.
\<close>

section \<open>The parser\<close>

definition nexttoken :: "string option \<Rightarrow> char \<Rightarrow> string option" where
  "nexttoken q sep =
     (case q of
        None \<Rightarrow> None
      | Some s \<Rightarrow> (case dropWhile (\<lambda>c. c \<noteq> sep) s of [] \<Rightarrow> None | _ # r \<Rightarrow> Some r))"

definition isdigit :: "char \<Rightarrow> bool" where
  "isdigit c \<longleftrightarrow> 48 \<le> (of_char c :: nat) \<and> (of_char c :: nat) \<le> 57"

text \<open>\<^verbatim>\<open>strtoul\<close> in base 10 on a string that starts with a digit.\<close>

fun digits_val :: "nat \<Rightarrow> string \<Rightarrow> nat" where
  "digits_val v [] = v"
| "digits_val v (c # cs) = digits_val (10 * v + (of_char c - 48)) cs"

text \<open>
  \<^verbatim>\<open>nextnumber\<close>: the number is cut to \<^verbatim>\<open>unsigned int\<close> after the 64-bit conversion, which
  reports an overflow of 64 bits through \<^verbatim>\<open>errno\<close>.
\<close>

definition nextnumber :: "string option \<Rightarrow> errno + (u32 \<times> string)" where
  "nextnumber str =
     (case str of
        None \<Rightarrow> Inl EINVAL
      | Some [] \<Rightarrow> Inl EINVAL
      | Some (c # cs) \<Rightarrow>
          if \<not> isdigit c then Inl EINVAL
          else let v = digits_val 0 (takeWhile isdigit (c # cs))
               in if 2 ^ 64 \<le> v then Inl ERANGE
                  else Inr (of_nat v, dropWhile isdigit (c # cs)))"

text \<open>
  The loop that sets the bits of one range: the result is \<open>False\<close> where the C code
  returns 1. The increment wraps around at 32 bits, so that the loop is a partial function.
\<close>

partial_function (option) fill_range :: "bitmap \<Rightarrow> nat \<Rightarrow> u32 \<Rightarrow> u32 \<Rightarrow> u32 \<Rightarrow> (bool \<times> bitmap) option" where
  "fill_range bits nbits a b s =
     (if a \<le> b then
        (if nbits \<le> unat a then Some (False, bits)
         else fill_range (bitmap_set bits (unat a)) nbits (a + s) b s)
      else Some (True, bits))"

text \<open>\<^verbatim>\<open>c1 != NULL && (c2 == NULL || c1 < c2)\<close>, for two pointers into one string.\<close>

definition before :: "string option \<Rightarrow> string option \<Rightarrow> bool" where
  "before c1 c2 =
     (case c1 of
        None \<Rightarrow> False
      | Some x \<Rightarrow> (case c2 of None \<Rightarrow> True | Some y \<Rightarrow> length y < length x))"

text \<open>The part of an iteration between the first number and the range check.\<close>

definition parse_bounds :: "u32 \<Rightarrow> string \<Rightarrow> (u32 \<times> u32 \<times> string) option" where
  "parse_bounds a p =
     (let c1 = nexttoken (Some p) (CHR ''-''); c2 = nexttoken (Some p) (CHR '','')
      in if before c1 c2 then
           (case nextnumber c1 of
              Inl _ \<Rightarrow> None
            | Inr (b, end1) \<Rightarrow>
                let c1 = (if end1 \<noteq> [] then nexttoken (Some end1) (CHR '':'') else None)
                in if before c1 c2 then
                     (case nextnumber c1 of
                        Inl _ \<Rightarrow> None
                      | Inr (s, end2) \<Rightarrow> if s = 0 then None else Some (b, s, end2))
                   else Some (b, 1, end1))
         else Some (a, 1, p))"

lemma nexttoken_shorter: "nexttoken (Some s) c = Some r \<Longrightarrow> length r < length s"
  using length_dropWhile_le [of "\<lambda>d. d \<noteq> c" s]
  by (auto simp: nexttoken_def split: list.splits)

function parse_loop :: "bitmap \<Rightarrow> nat \<Rightarrow> string option \<Rightarrow> string option \<Rightarrow> (bool \<times> bitmap) option" where
  "parse_loop bits nbits q fin =
     (case q of
        None \<Rightarrow> Some ((case fin of Some (_ # _) \<Rightarrow> False | _ \<Rightarrow> True), bits)
      | Some p \<Rightarrow>
          (case nextnumber (Some p) of
             Inl _ \<Rightarrow> Some (False, bits)
           | Inr (a, p') \<Rightarrow>
               (case parse_bounds a p' of
                  None \<Rightarrow> Some (False, bits)
                | Some (b, s, fin') \<Rightarrow>
                    if \<not> a \<le> b then Some (False, bits)
                    else (case fill_range bits nbits a b s of
                            None \<Rightarrow> None
                          | Some (ok, bits') \<Rightarrow>
                              if \<not> ok then Some (False, bits')
                              else parse_loop bits' nbits (nexttoken (Some p) (CHR '','')) (Some fin')))))"
  by pat_completeness auto
termination
  by (relation "measure (\<lambda>(bits, nbits, q, fin). case q of None \<Rightarrow> 0 | Some p \<Rightarrow> Suc (length p))")
     (auto split: option.splits dest: nexttoken_shorter)

declare parse_loop.simps [simp del]

definition string_to_bitmap :: "string \<Rightarrow> bitmap \<Rightarrow> nat \<Rightarrow> (bool \<times> bitmap) option" where
  "string_to_bitmap str bits nbits = parse_loop (bitmap_init bits nbits False) nbits (Some str) None"

section \<open>Ranges without wrap-around\<close>

text \<open>The members of \<open>lo-hi:stride\<close>.\<close>

definition in_range :: "nat \<Rightarrow> nat \<Rightarrow> nat \<Rightarrow> nat \<Rightarrow> bool" where
  "in_range lo hi s p \<longleftrightarrow> lo \<le> p \<and> p \<le> hi \<and> s dvd (p - lo)"

lemma in_range_step:
  assumes "lo \<le> hi" "0 < s"
  shows "in_range lo hi s p \<longleftrightarrow> p = lo \<or> in_range (lo + s) hi s p"
proof
  assume r: "in_range lo hi s p"
  show "p = lo \<or> in_range (lo + s) hi s p"
  proof (cases "p = lo")
    case False
    with r have d: "s dvd (p - lo)" "0 < p - lo" by (auto simp: in_range_def)
    then have "s \<le> p - lo" by (rule dvd_imp_le)
    moreover have "s dvd (p - lo - s)" by (rule dvd_diff_nat [OF d(1) dvd_refl])
    ultimately show ?thesis using r by (auto simp: in_range_def)
  qed simp
next
  assume "p = lo \<or> in_range (lo + s) hi s p"
  moreover have "in_range lo hi s p" if r: "in_range (lo + s) hi s p"
  proof -
    from r have "s dvd (p - (lo + s)) + s" by (intro dvd_add) (simp_all add: in_range_def)
    moreover from r have "(p - (lo + s)) + s = p - lo" by (simp add: in_range_def)
    ultimately have "s dvd p - lo" by (simp only:)
    with r show ?thesis by (simp add: in_range_def)
  qed
  ultimately show "in_range lo hi s p" using assms by (auto simp: in_range_def)
qed

lemma fill_range_ok:
  assumes "0 < s" "unat b + unat s < 2 ^ 32" "unat b < nbits"
  shows "\<exists>bits'. fill_range bits nbits a b s = Some (True, bits') \<and>
     (\<forall>p. bitmap_test bits' p \<longleftrightarrow> bitmap_test bits p \<or> in_range (unat a) (unat b) (unat s) p)"
proof (induction "Suc (unat b) - unat a" arbitrary: a bits rule: less_induct)
  case less
  show ?case
  proof (cases "a \<le> b")
    case False
    then have "\<not> in_range (unat a) (unat b) (unat s) p" for p
      by (auto simp: in_range_def word_le_nat_alt)
    with False show ?thesis by (subst fill_range.simps) simp
  next
    case True
    then have ab: "unat a \<le> unat b" by (simp add: word_le_nat_alt)
    have s0: "0 < unat s" using assms(1) by (simp add: word_less_nat_alt)
    have add: "unat (a + s) = unat a + unat s"
      using ab assms(2) by (simp add: unat_add_lem [THEN iffD1])
    have "Suc (unat b) - unat (a + s) < Suc (unat b) - unat a"
      using add s0 ab by simp
    from less [OF this, of "bitmap_set bits (unat a)"] obtain bits' where
      b': "fill_range (bitmap_set bits (unat a)) nbits (a + s) b s = Some (True, bits')"
      "\<forall>p. bitmap_test bits' p \<longleftrightarrow> bitmap_test (bitmap_set bits (unat a)) p \<or>
           in_range (unat (a + s)) (unat b) (unat s) p" by blast
    note step = in_range_step [OF ab s0]
    have "fill_range bits nbits a b s = Some (True, bits')"
      using True ab assms(3) b'(1) by (subst fill_range.simps) simp
    moreover have "bitmap_test bits' p \<longleftrightarrow>
        bitmap_test bits p \<or> in_range (unat a) (unat b) (unat s) p" for p
      using b'(2) by (auto simp: add step)
    ultimately show ?thesis by blast
  qed
qed


section \<open>Printing and parsing\<close>

text \<open>The notation the parser accepts: single CPUs, ranges, ranges with a stride.\<close>

datatype cpu_range = One nat | Span nat nat | Stride nat nat nat

fun dec :: "nat \<Rightarrow> string" where
  "dec n = (if n < 10 then [char_of (48 + n)] else dec (n div 10) @ [char_of (48 + n mod 10)])"

declare dec.simps [simp del]

fun show_range :: "cpu_range \<Rightarrow> string" where
  "show_range (One a) = dec a"
| "show_range (Span a b) = dec a @ ''-'' @ dec b"
| "show_range (Stride a b s) = dec a @ ''-'' @ dec b @ '':'' @ dec s"

fun show_ranges :: "cpu_range list \<Rightarrow> string" where
  "show_ranges [] = []"
| "show_ranges [r] = show_range r"
| "show_ranges (r # rs) = show_range r @ '','' @ show_ranges rs"

fun range_lo :: "cpu_range \<Rightarrow> nat" where
  "range_lo (One a) = a" | "range_lo (Span a b) = a" | "range_lo (Stride a b s) = a"

fun range_hi :: "cpu_range \<Rightarrow> nat" where
  "range_hi (One a) = a" | "range_hi (Span a b) = b" | "range_hi (Stride a b s) = b"

fun range_step :: "cpu_range \<Rightarrow> nat" where
  "range_step (One a) = 1" | "range_step (Span a b) = 1" | "range_step (Stride a b s) = s"

definition range_wf :: "nat \<Rightarrow> cpu_range \<Rightarrow> bool" where
  "range_wf nbits r \<longleftrightarrow> range_lo r \<le> range_hi r \<and> range_hi r < nbits \<and> 0 < range_step r \<and>
     range_hi r + range_step r < 2 ^ 32"

definition range_has :: "cpu_range \<Rightarrow> nat \<Rightarrow> bool" where
  "range_has r = in_range (range_lo r) (range_hi r) (range_step r)"

lemma of_char_digit: "n < 10 \<Longrightarrow> of_char (char_of (48 + n :: nat) :: char) = (48 + n :: nat)"
  by simp

lemma dec_isdigit: "c \<in> set (dec n) \<Longrightarrow> isdigit c"
proof (induction n rule: dec.induct)
  case (1 n)
  then show ?case
    by (subst (asm) dec.simps) (auto simp: isdigit_def of_char_digit split: if_splits)
qed

lemma dec_not_Nil [simp]: "dec n \<noteq> []"
  by (subst dec.simps) simp

lemma digits_val_append: "digits_val v (xs @ ys) = digits_val (digits_val v xs) ys"
  by (induction v xs rule: digits_val.induct) simp_all

lemma digits_val_dec: "digits_val 0 (dec n) = n"
proof (induction n rule: dec.induct)
  case (1 n)
  then show ?case
    by (subst dec.simps) (simp add: digits_val_append of_char_digit)
qed

definition no_digit_first :: "string \<Rightarrow> bool" where
  "no_digit_first t \<longleftrightarrow> (case t of [] \<Rightarrow> True | c # _ \<Rightarrow> \<not> isdigit c)"

lemma nextnumber_dec:
  assumes "n < 2 ^ 64" "no_digit_first t"
  shows "nextnumber (Some (dec n @ t)) = Inr (of_nat n, t)"
proof -
  obtain c cs where d: "dec n = c # cs" by (cases "dec n") auto
  have "takeWhile isdigit (dec n @ t) = dec n" "dropWhile isdigit (dec n @ t) = t"
    using assms(2) dec_isdigit [of _ n]
    by (auto simp: no_digit_first_def takeWhile_append dropWhile_append takeWhile_eq_Nil_iff
        split: list.splits)
  moreover have "isdigit c" using dec_isdigit [of c n] d by simp
  ultimately show ?thesis
    using assms(1) digits_val_dec [of n] by (simp add: nextnumber_def d)
qed

lemma nexttoken_skip:
  "c \<notin> set p \<Longrightarrow> nexttoken (Some (p @ t)) c = nexttoken (Some t) c"
  by (auto simp: nexttoken_def dropWhile_append)

lemma nexttoken_hit [simp]: "nexttoken (Some (c # t)) c = Some t"
  by (simp add: nexttoken_def)

lemma nexttoken_miss [simp]: "d \<noteq> c \<Longrightarrow> nexttoken (Some (d # t)) c = nexttoken (Some t) c"
  by (simp add: nexttoken_def)

lemma nexttoken_Nil [simp]: "nexttoken (Some []) c = None"
  by (simp add: nexttoken_def)

lemma punct_not_digit [simp]:
  "\<not> isdigit (CHR '','')" "\<not> isdigit (CHR ''-'')" "\<not> isdigit (CHR '':'')"
  by (simp_all add: isdigit_def)

lemma punct_not_in_dec [simp]:
  "CHR '','' \<notin> set (dec n)" "CHR ''-'' \<notin> set (dec n)" "CHR '':'' \<notin> set (dec n)"
  using dec_isdigit punct_not_digit by blast+

text \<open>What may follow an entry: the end of the string, or a comma and further entries.\<close>

definition entry_end :: "string \<Rightarrow> bool" where
  "entry_end t \<longleftrightarrow> t = [] \<or> (\<exists>u. t = CHR '','' # u)"

lemma entry_end_no_digit: "entry_end t \<Longrightarrow> no_digit_first t"
  by (auto simp: entry_end_def no_digit_first_def)

lemma before_entry_end:
  assumes "entry_end t" "d \<noteq> CHR '',''"
  shows "\<not> before (nexttoken (Some t) d) (nexttoken (Some t) (CHR '',''))"
  using assms nexttoken_shorter
  by (fastforce simp: entry_end_def before_def split: option.splits)

lemma before_sep:
  assumes "entry_end t" "CHR '','' \<notin> set p"
  shows "before (Some (p @ t)) (nexttoken (Some (p @ t)) (CHR '',''))"
  using assms nexttoken_shorter [of t "CHR '',''"]
  by (fastforce simp: nexttoken_skip before_def split: option.splits)

text \<open>The text of an entry after its first number.\<close>

fun range_tail :: "cpu_range \<Rightarrow> string" where
  "range_tail (One a) = []"
| "range_tail (Span a b) = CHR ''-'' # dec b"
| "range_tail (Stride a b s) = CHR ''-'' # dec b @ CHR '':'' # dec s"

lemma show_range_tail: "show_range r = dec (range_lo r) @ range_tail r"
  by (cases r) simp_all

lemma comma_not_in_range: "CHR '','' \<notin> set (show_range r)"
  by (cases r) auto

lemma range_wf_bounds:
  assumes "range_wf nbits r"
  shows "range_lo r < 2 ^ 32" "range_hi r < 2 ^ 32" "range_step r < 2 ^ 32"
    "unat (of_nat (range_lo r) :: u32) = range_lo r"
    "unat (of_nat (range_hi r) :: u32) = range_hi r"
    "unat (of_nat (range_step r) :: u32) = range_step r"
  using assms by (auto simp: range_wf_def unat_of_nat)

lemma parse_bounds_show:
  assumes wf: "range_wf nbits r" and e: "entry_end t"
  shows "parse_bounds (of_nat (range_lo r)) (range_tail r @ t) =
    Some (of_nat (range_hi r), of_nat (range_step r), t)"
proof (cases r)
  case (One a)
  then show ?thesis
    using before_entry_end [OF e, of "CHR ''-''"] by (simp add: parse_bounds_def)
next
  case (Span a b)
  have n: "nextnumber (Some (dec b @ t)) = Inr (of_nat b, t)"
    using range_wf_bounds(2) [OF wf] Span entry_end_no_digit [OF e]
    by (intro nextnumber_dec) simp_all
  have b: "before (Some (dec b @ t)) (nexttoken (Some t) (CHR '',''))"
    using before_sep [OF e, of "dec b"] by (simp add: nexttoken_skip)
  show ?thesis
    using Span n b before_entry_end [OF e, of "CHR '':''"]
    by (auto simp: parse_bounds_def nexttoken_skip before_def)
next
  case (Stride a b s)
  let ?u = "CHR '':'' # dec s @ t"
  have n: "nextnumber (Some (dec b @ ?u)) = Inr (of_nat b, ?u)"
    using range_wf_bounds(2) [OF wf] Stride
    by (intro nextnumber_dec) (simp_all add: no_digit_first_def)
  have n2: "nextnumber (Some (dec s @ t)) = Inr (of_nat s, t)"
    using range_wf_bounds(3) [OF wf] Stride entry_end_no_digit [OF e]
    by (intro nextnumber_dec) simp_all
  have b: "before (Some (dec b @ ?u)) (nexttoken (Some t) (CHR '',''))"
    using before_sep [OF e, of "dec b @ CHR '':'' # dec s"] by (simp add: nexttoken_skip)
  have b2: "before (Some (dec s @ t)) (nexttoken (Some t) (CHR '',''))"
    using before_sep [OF e, of "dec s"] by (simp add: nexttoken_skip)
  have "(of_nat s :: u32) \<noteq> 0"
    using wf Stride range_wf_bounds(6) [OF wf] by (auto simp: range_wf_def)
  then show ?thesis
    using Stride n n2 b b2 by (simp add: parse_bounds_def nexttoken_skip)
qed

lemma parse_loop_entry:
  assumes wf: "range_wf nbits r" and e: "entry_end t"
  shows "\<exists>bits'. parse_loop bits nbits (Some (show_range r @ t)) fin =
      parse_loop bits' nbits (nexttoken (Some t) (CHR '','')) (Some t) \<and>
    (\<forall>p. bitmap_test bits' p \<longleftrightarrow> bitmap_test bits p \<or> range_has r p)"
proof -
  note bounds = range_wf_bounds [OF wf]
  have "no_digit_first (range_tail r @ t)"
    using entry_end_no_digit [OF e] by (cases r) (simp_all add: no_digit_first_def)
  then have n: "nextnumber (Some (show_range r @ t)) = Inr (of_nat (range_lo r), range_tail r @ t)"
    using bounds(1) by (simp add: show_range_tail nextnumber_dec)
  have "(of_nat (range_lo r) :: u32) \<le> of_nat (range_hi r)"
    using wf by (simp only: word_le_nat_alt bounds) (simp add: range_wf_def)
  moreover obtain bits' where
    "fill_range bits nbits (of_nat (range_lo r)) (of_nat (range_hi r)) (of_nat (range_step r)) =
       Some (True, bits')"
    "\<forall>p. bitmap_test bits' p \<longleftrightarrow> bitmap_test bits p \<or> range_has r p"
    using wf fill_range_ok [of "of_nat (range_step r)" "of_nat (range_hi r)" nbits bits
        "of_nat (range_lo r)"]
    by (auto simp: bounds range_wf_def range_has_def word_less_nat_alt)
  ultimately show ?thesis
    using parse_bounds_show [OF wf e] n
    by (subst parse_loop.simps) (auto simp: nexttoken_skip [OF comma_not_in_range])
qed

lemma parse_loop_ranges:
  assumes "rs \<noteq> []" "\<forall>r \<in> set rs. range_wf nbits r"
  shows "\<exists>bits'. parse_loop bits nbits (Some (show_ranges rs)) fin = Some (True, bits') \<and>
    (\<forall>p. bitmap_test bits' p \<longleftrightarrow> bitmap_test bits p \<or> (\<exists>r \<in> set rs. range_has r p))"
  using assms
proof (induction rs arbitrary: bits fin rule: show_ranges.induct)
  case 1
  then show ?case by simp
next
  case (2 r)
  from 2 parse_loop_entry [of nbits r "[]" bits fin] show ?case
    by (auto simp: entry_end_def parse_loop.simps [where q = None])
next
  case (3 r r' rs)
  let ?t = "CHR '','' # show_ranges (r' # rs)"
  from 3(3) parse_loop_entry [of nbits r ?t bits fin] obtain bits1 where
    1: "parse_loop bits nbits (Some (show_range r @ ?t)) fin =
      parse_loop bits1 nbits (Some (show_ranges (r' # rs))) (Some ?t)"
    "\<forall>p. bitmap_test bits1 p \<longleftrightarrow> bitmap_test bits p \<or> range_has r p"
    by (auto simp: entry_end_def)
  from 3(1) [of bits1 "Some ?t"] 3(3) obtain bits' where
    "parse_loop bits1 nbits (Some (show_ranges (r' # rs))) (Some ?t) = Some (True, bits')"
    "\<forall>p. bitmap_test bits' p \<longleftrightarrow> bitmap_test bits1 p \<or> (\<exists>r \<in> set (r' # rs). range_has r p)"
    by auto
  with 1 show ?case by auto
qed

section \<open>Properties\<close>

text \<open>
  C40: a CPU list written in the parser's notation (single CPUs, ranges and ranges with a
  stride, separated by commas) is accepted, the parser returns, and the bitmap it fills has
  exactly the listed CPUs, as long as each range fits the bitmap and its last addition does
  not wrap around at 32 bits.
\<close>

theorem cpulist_roundtrip:
  assumes "rs \<noteq> []" "\<forall>r \<in> set rs. range_wf nbits r"
  shows "\<exists>bits'. string_to_bitmap (show_ranges rs) bits nbits = Some (True, bits') \<and>
    (\<forall>p < nbits. bitmap_test bits' p \<longleftrightarrow> (\<exists>r \<in> set rs. range_has r p))"
  using parse_loop_ranges [OF assms, of "bitmap_init bits nbits False" None]
  by (auto simp: string_to_bitmap_def)

theorem cpulist_roundtrip_witness:
  "\<exists>bits'. string_to_bitmap (show_ranges [One 3, Stride 8 14 2]) (\<lambda>_. 0) 64 = Some (True, bits') \<and>
    (\<forall>p < 64. bitmap_test bits' p \<longleftrightarrow> (\<exists>r \<in> set [One 3, Stride 8 14 2]. range_has r p))"
  by (rule cpulist_roundtrip) (simp_all add: range_wf_def)

text \<open>
  The stride is added in 32-bit arithmetic. With the stride \<^verbatim>\<open>2^32 - 1\<close> the range
  \<^verbatim>\<open>5-10\<close> is accepted and sets the CPUs 0 to 5 instead of CPU 5.
\<close>

theorem stride_wraps:
  "map (bitmap_test (snd (the (string_to_bitmap ''5-10:4294967295'' (\<lambda>_. 0) 16)))) [0..<8] =
     [True, True, True, True, True, True, False, False]"
proof -
  have neg: "\<not> (- 1 :: u32) \<le> 10" using order.antisym [OF _ word_n1_ge, of "10 :: u32"] by auto
  have f: "fill_range b 16 5 10 (- 1) =
      Some (True, bitmap_set (bitmap_set (bitmap_set (bitmap_set (bitmap_set (bitmap_set b 5) 4) 3) 2) 1) 0)" for b
    using neg by (simp add: fill_range.simps)
  have n: "nextnumber (Some ''5-10:4294967295'') = Inr (5, ''-10:4294967295'')"
    by (simp add: nextnumber_def isdigit_def)
  have p: "parse_bounds 5 ''-10:4294967295'' = Some (10, - 1, [])"
    by (simp add: parse_bounds_def nextnumber_def isdigit_def before_def)
  have "string_to_bitmap ''5-10:4294967295'' (\<lambda>_. 0) 16 = fill_range (bitmap_init (\<lambda>_. 0) 16 False) 16 5 10 (- 1)"
    by (simp add: string_to_bitmap_def parse_loop.simps n p f)
  then show ?thesis by (simp add: f upt_rec)
qed

end
