(* ===== verification/Interfaces.thy ===== *)
theory Interfaces
  imports Vprelude
begin

text \<open>
  The contracts that several components of the program provide or rely on, as locales, with
  the lemmas their clients need proved once. Each is interpreted in the theory of the
  component that provides it.
\<close>

section \<open>Bounded FIFO queues\<close>

text \<open>A sequence of operations of the two ends of a queue, in the order they take effect.\<close>

datatype 'a fifo_op = Put 'a | Get

text \<open>
  Running a sequence: the messages the queue accepted, the messages it delivered, and the
  queue afterwards.
\<close>

fun fifo_run :: "('a \<Rightarrow> 'q \<Rightarrow> bool \<times> 'q) \<Rightarrow> ('q \<Rightarrow> 'a option \<times> 'q) \<Rightarrow> 'a fifo_op list \<Rightarrow> 'q \<Rightarrow>
    'a list \<times> 'a list \<times> 'q" where
  "fifo_run put get [] q = ([], [], q)"
| "fifo_run put get (Put a # ops) q =
     (let (ok, q') = put a q; (acc, del, q'') = fifo_run put get ops q'
      in (if ok then a # acc else acc, del, q''))"
| "fifo_run put get (Get # ops) q =
     (let (r, q') = get q; (acc, del, q'') = fifo_run put get ops q'
      in (acc, (case r of None \<Rightarrow> del | Some a \<Rightarrow> a # del), q''))"

locale bounded_fifo =
  fixes items :: "'q \<Rightarrow> 'a list"
    and inv :: "'q \<Rightarrow> bool"
    and cap :: "'q \<Rightarrow> nat"
    and okmsg :: "'a \<Rightarrow> bool"
    and put :: "'a \<Rightarrow> 'q \<Rightarrow> bool \<times> 'q"
    and get :: "'q \<Rightarrow> 'a option \<times> 'q"
  assumes put_room: "inv q \<Longrightarrow> okmsg a \<Longrightarrow> length (items q) < cap q \<Longrightarrow>
      fst (put a q) \<and> items (snd (put a q)) = items q @ [a]"
    and put_full: "inv q \<Longrightarrow> okmsg a \<Longrightarrow> cap q \<le> length (items q) \<Longrightarrow>
      \<not> fst (put a q) \<and> items (snd (put a q)) = items q"
    and put_inv: "inv q \<Longrightarrow> okmsg a \<Longrightarrow> inv (snd (put a q)) \<and> cap (snd (put a q)) = cap q"
    and get_empty: "inv q \<Longrightarrow> items q = [] \<Longrightarrow> fst (get q) = None \<and> items (snd (get q)) = []"
    and get_item: "inv q \<Longrightarrow> items q = a # as \<Longrightarrow> fst (get q) = Some a \<and> items (snd (get q)) = as"
    and get_inv: "inv q \<Longrightarrow> inv (snd (get q)) \<and> cap (snd (get q)) = cap q"
    and bound: "inv q \<Longrightarrow> length (items q) \<le> cap q"
begin

lemma put_items:
  assumes "inv q" "okmsg a"
  shows "items (snd (put a q)) = items q @ (if fst (put a q) then [a] else [])"
  using put_room [OF assms] put_full [OF assms] by (cases "length (items q) < cap q") auto

lemma get_items:
  assumes "inv q"
  shows "items q = (case fst (get q) of None \<Rightarrow> [] | Some a \<Rightarrow> [a]) @ items (snd (get q))"
  using get_empty [OF assms] get_item [OF assms] by (cases "items q") auto

lemma run_fifo:
  assumes "inv q" "\<forall>a. Put a \<in> set ops \<longrightarrow> okmsg a" "fifo_run put get ops q = (acc, del, q')"
  shows "inv q' \<and> cap q' = cap q \<and> items q @ acc = del @ items q'"
  using assms
proof (induction ops arbitrary: q acc del)
  case Nil
  then show ?case by simp
next
  case (Cons op ops)
  show ?case
  proof (cases op)
    case (Put a)
    obtain acc1 where 1: "fifo_run put get ops (snd (put a q)) = (acc1, del, q')"
      "acc = (if fst (put a q) then a # acc1 else acc1)"
      using Cons.prems(3) Put by (auto simp: Let_def split_def prod_eq_iff split: prod.splits)
    have "okmsg a" using Cons.prems(2) Put by auto
    then show ?thesis
      using Cons.IH [OF _ _ 1(1)] Cons.prems(1,2) put_inv [of q a] put_items [of q a] 1(2) by auto
  next
    case Get
    obtain del1 where 1: "fifo_run put get ops (snd (get q)) = (acc, del1, q')"
      "del = (case fst (get q) of None \<Rightarrow> del1 | Some a \<Rightarrow> a # del1)"
      using Cons.prems(3) Get by (auto simp: Let_def split_def prod_eq_iff split: prod.splits)
    then show ?thesis
      using Cons.IH [OF _ _ 1(1)] Cons.prems(1,2) get_inv [of q] get_items [of q]
      by (auto split: option.splits)
  qed
qed

end

section \<open>Deadline queues\<close>

text \<open>Taking everything that is due, at most \<open>fuel\<close> items.\<close>

fun drain :: "('d \<Rightarrow> 's \<Rightarrow> ('e \<times> 's) option) \<Rightarrow> 'd \<Rightarrow> nat \<Rightarrow> 's \<Rightarrow> 'e list \<times> 's" where
  "drain pop now 0 s = ([], s)"
| "drain pop now (Suc n) s =
     (case pop now s of
        None \<Rightarrow> ([], s)
      | Some (e, s') \<Rightarrow> let (es, s'') = drain pop now n s' in (e # es, s''))"

text \<open>A queue of items with deadlines, from which the earliest one that is due is taken.\<close>

locale deadline_queue =
  fixes items :: "'s \<Rightarrow> ('e \<times> 'd::linorder) set"
    and inv :: "'s \<Rightarrow> bool"
    and pop :: "'d \<Rightarrow> 's \<Rightarrow> ('e \<times> 's) option"
  assumes finite_items: "inv s \<Longrightarrow> finite (items s)"
    and pop_None: "inv s \<Longrightarrow> pop now s = None \<longleftrightarrow> (\<forall>x \<in> items s. now < snd x)"
    and pop_Some: "inv s \<Longrightarrow> pop now s = Some (e, s') \<Longrightarrow> inv s' \<and>
      (\<exists>d. (e, d) \<in> items s \<and> d \<le> now \<and> items s' = items s - {(e, d)} \<and> (\<forall>x \<in> items s. d \<le> snd x))"
begin

lemma drain_due:
  assumes "inv s" "card (items s) \<le> n" "drain pop now n s = (es, s')"
  shows "inv s' \<and> items s' = {x \<in> items s. now < snd x} \<and>
    (\<exists>ds. length ds = length es \<and> sorted ds \<and> distinct (zip es ds) \<and>
       set (zip es ds) = {x \<in> items s. snd x \<le> now})"
  using assms
proof (induction n arbitrary: s es)
  case 0
  then have "items s = {}" using finite_items by auto
  with 0 show ?case by auto
next
  case (Suc n)
  show ?case
  proof (cases "pop now s")
    case None
    with pop_None [OF Suc.prems(1)] have "\<forall>x \<in> items s. now < snd x" by blast
    moreover from this have "{x \<in> items s. snd x \<le> now} = {}" by auto
    ultimately show ?thesis using None Suc.prems by auto
  next
    case (Some r)
    then obtain e s1 where p: "pop now s = Some (e, s1)" by (cases r) auto
    from pop_Some [OF Suc.prems(1) p] obtain d where
      d: "inv s1" "(e, d) \<in> items s" "d \<le> now" "items s1 = items s - {(e, d)}" "\<forall>x \<in> items s. d \<le> snd x"
      by blast
    obtain es1 where es: "drain pop now n s1 = (es1, s')" "es = e # es1"
      using Suc.prems(3) p by (auto split: prod.splits)
    have "card (items s1) \<le> n"
      using Suc.prems(2) d(2,4) finite_items [OF Suc.prems(1)] by (simp add: card_Diff_singleton)
    from Suc.IH [OF d(1) this es(1)] obtain ds where
      ds: "inv s'" "items s' = {x \<in> items s1. now < snd x}" "length ds = length es1" "sorted ds"
        "distinct (zip es1 ds)" "set (zip es1 ds) = {x \<in> items s1. snd x \<le> now}" by blast
    have "\<forall>y \<in> set ds. d \<le> y"
    proof
      fix y assume "y \<in> set ds"
      then obtain i where i: "i < length ds" "y = ds ! i" by (auto simp: in_set_conv_nth)
      then have "(es1 ! i, y) \<in> set (zip es1 ds)" using ds(3) by (auto simp: set_zip)
      then show "d \<le> y" using ds(6) d(4,5) by auto
    qed
    moreover have "(e, d) \<notin> set (zip es1 ds)" using ds(6) d(4) by auto
    moreover have "insert (e, d) (set (zip es1 ds)) = {x \<in> items s. snd x \<le> now}"
      unfolding ds(6) d(4) using d(2,3) by auto
    ultimately have "length (d # ds) = length es \<and> sorted (d # ds) \<and> distinct (zip es (d # ds)) \<and>
        set (zip es (d # ds)) = {x \<in> items s. snd x \<le> now}"
      using ds(3,4,5) es(2) by simp
    moreover have "items s' = {x \<in> items s. now < snd x}" unfolding ds(2) d(4) using d(3) by auto
    ultimately show ?thesis using ds(1) by blast
  qed
qed

end

section \<open>Allocators\<close>

text \<open>Allocations and releases by several threads, and the items the clients hold.\<close>

datatype ('t, 'x) alloc_op = Alloc 't | Free 't 'x

text \<open>
  A run fails (\<open>None\<close>) when a client releases an item it does not hold.
\<close>

fun alloc_run :: "('t \<Rightarrow> 's \<Rightarrow> 'x option \<times> 's) \<Rightarrow> ('t \<Rightarrow> 'x \<Rightarrow> 's \<Rightarrow> 's) \<Rightarrow> ('t, 'x) alloc_op list \<Rightarrow>
    'x set \<Rightarrow> 's \<Rightarrow> ('x set \<times> 's) option" where
  "alloc_run alloc free [] H s = Some (H, s)"
| "alloc_run alloc free (Alloc t # ops) H s =
     (let (r, s') = alloc t s
      in alloc_run alloc free ops (case r of None \<Rightarrow> H | Some x \<Rightarrow> insert x H) s')"
| "alloc_run alloc free (Free t x # ops) H s =
     (if x \<in> H then alloc_run alloc free ops (H - {x}) (free t x s) else None)"

text \<open>An allocator over a fixed set of items, of which the idle ones are not handed out.\<close>

locale allocator =
  fixes universe :: "'s \<Rightarrow> 'x set"
    and idle :: "'s \<Rightarrow> 'x set"
    and inv :: "'s \<Rightarrow> bool"
    and alloc :: "'t \<Rightarrow> 's \<Rightarrow> 'x option \<times> 's"
    and free :: "'t \<Rightarrow> 'x \<Rightarrow> 's \<Rightarrow> 's"
  assumes idle_sub: "inv s \<Longrightarrow> idle s \<subseteq> universe s"
    and alloc_Some: "inv s \<Longrightarrow> alloc t s = (Some x, s') \<Longrightarrow>
      inv s' \<and> x \<in> idle s \<and> idle s' = idle s - {x} \<and> universe s' = universe s"
    and alloc_None: "inv s \<Longrightarrow> alloc t s = (None, s') \<Longrightarrow>
      inv s' \<and> idle s' = idle s \<and> universe s' = universe s"
    and free_item: "inv s \<Longrightarrow> x \<in> universe s - idle s \<Longrightarrow>
      inv (free t x s) \<and> idle (free t x s) = insert x (idle s) \<and> universe (free t x s) = universe s"
begin

lemma run_exclusive:
  assumes "inv s" "H = universe s - idle s" "alloc_run alloc free ops H s = Some (H', s')"
  shows "inv s' \<and> universe s' = universe s \<and> H' = universe s' - idle s'"
  using assms
proof (induction ops arbitrary: H s)
  case Nil
  then show ?case by auto
next
  case (Cons op ops)
  show ?case
  proof (cases op)
    case (Alloc t)
    obtain r s1 where a: "alloc t s = (r, s1)" by (cases "alloc t s")
    show ?thesis
    proof (cases r)
      case None
      note n = alloc_None [OF Cons.prems(1) a [unfolded None]]
      from n Cons.prems(2,3) Cons.IH [of s1 H] Alloc a None show ?thesis by simp
    next
      case (Some x)
      note n = alloc_Some [OF Cons.prems(1) a [unfolded Some]]
      have "insert x H = universe s1 - idle s1"
        using n Cons.prems(2) idle_sub [OF Cons.prems(1)] by auto
      with n Cons.prems(3) Cons.IH [of s1 "insert x H"] Alloc a Some show ?thesis by simp
    qed
  next
    case (Free t x)
    then have x: "x \<in> H" "alloc_run alloc free ops (H - {x}) (free t x s) = Some (H', s')"
      using Cons.prems(3) by (auto split: if_splits)
    note n = free_item [OF Cons.prems(1), of x t]
    have "x \<in> universe s - idle s" using x(1) Cons.prems(2) by simp
    with n Cons.prems(2) Cons.IH [OF _ _ x(2)] show ?thesis by auto
  qed
qed

lemma alloc_fresh:
  assumes "inv s" "idle s = universe s" "alloc_run alloc free ops {} s = Some (H, s')"
    and "alloc t s' = (Some x, s'')"
  shows "x \<notin> H \<and> x \<in> universe s"
proof -
  have "{} = universe s - idle s" using assms(2) by simp
  from run_exclusive [OF assms(1) this assms(3)] alloc_Some [OF _ assms(4)] idle_sub [of s']
  show ?thesis by auto
qed

end

section \<open>Sources of items\<close>

text \<open>What a cache of items relies on: items come and go in lots.\<close>

locale item_source =
  fixes universe :: "'p \<Rightarrow> 'x set"
    and idle :: "'p \<Rightarrow> 'x set"
    and inv :: "'p \<Rightarrow> bool"
    and alloc_lot :: "nat \<Rightarrow> 'p \<Rightarrow> 'x list option \<times> 'p"
    and free_lot :: "'x list \<Rightarrow> 'p \<Rightarrow> 'p"
  assumes lot_sub: "inv p \<Longrightarrow> idle p \<subseteq> universe p"
    and lot_Some: "inv p \<Longrightarrow> alloc_lot n p = (Some xs, p') \<Longrightarrow> inv p' \<and> universe p' = universe p \<and>
      length xs = n \<and> distinct xs \<and> set xs \<subseteq> idle p \<and> idle p' = idle p - set xs"
    and lot_None: "inv p \<Longrightarrow> alloc_lot n p = (None, p') \<Longrightarrow> inv p' \<and> universe p' = universe p \<and> idle p' = idle p"
    and lot_free: "inv p \<Longrightarrow> distinct xs \<Longrightarrow> set xs \<subseteq> universe p - idle p \<Longrightarrow>
      inv (free_lot xs p) \<and> universe (free_lot xs p) = universe p \<and> idle (free_lot xs p) = idle p \<union> set xs"

end
