(* ===== verification/Lrpc.thy ===== *)
theory Lrpc
  imports Interfaces
begin

text \<open>
  The shared memory channels of \<^verbatim>\<open>src/vessel/src/inc/base/lrpc.h\<close> and
  \<^verbatim>\<open>src/vessel/src/base/lrpc.c\<close>, which connect the iokernel and the runtimes. A ring of a
  power of two messages carries a parity bit in each command word, by which the receiver
  knows that a slot was written in the current lap; the receiver publishes its head so that
  the sender can reclaim slots. Head and tail are 32-bit counters that wrap around.

  The channel refines a bounded FIFO queue (locale \<open>bounded_fifo\<close>), and the micro-step
  relation at the end shows that the sender and the receiver may interleave at every memory
  access.
\<close>

unbundle bit_operations_syntax

section \<open>The channel\<close>

record lrpc_msg =
  msg_cmd :: u64
  msg_payload :: u64

definition LRPC_DONE_PARITY :: u64 where "LRPC_DONE_PARITY = push_bit 63 1"

definition LRPC_CMD_MASK :: u64 where "LRPC_CMD_MASK = NOT LRPC_DONE_PARITY"

text \<open>The memory both ends share: the message table and the published receive head.\<close>

record lrpc_shm =
  tbl :: "nat \<Rightarrow> lrpc_msg"
  recv_head_wb :: u32

record lrpc_chan_out =
  send_head :: u32
  send_tail :: u32
  out_size :: u32

record lrpc_chan_in =
  recv_head :: u32
  in_size :: u32

definition parity_for :: "u32 \<Rightarrow> u32 \<Rightarrow> u64" where
  "parity_for head sz = (if head AND sz \<noteq> 0 then 0 else LRPC_DONE_PARITY)"

text \<open>\<^verbatim>\<open>__lrpc_send\<close>: the slow path reads the receiver's head before it gives up.\<close>

definition lrpc_send_slow :: "lrpc_shm \<Rightarrow> lrpc_chan_out \<Rightarrow> u64 \<Rightarrow> u64 \<Rightarrow> bool \<times> lrpc_shm \<times> lrpc_chan_out" where
  "lrpc_send_slow shm chan cmd payload =
     (let chan = chan\<lparr>send_tail := recv_head_wb shm\<rparr>
      in if send_head chan - send_tail chan = out_size chan then (False, shm, chan)
         else let i = unat (send_head chan AND (out_size chan - 1));
                  cmd' = cmd OR parity_for (send_head chan) (out_size chan)
              in (True, shm\<lparr>tbl := (tbl shm)(i := \<lparr>msg_cmd = cmd', msg_payload = payload\<rparr>)\<rparr>,
                  chan\<lparr>send_head := send_head chan + 1\<rparr>))"

definition lrpc_send :: "lrpc_shm \<Rightarrow> lrpc_chan_out \<Rightarrow> u64 \<Rightarrow> u64 \<Rightarrow> bool \<times> lrpc_shm \<times> lrpc_chan_out" where
  "lrpc_send shm chan cmd payload =
     (if out_size chan \<le> send_head chan - send_tail chan then lrpc_send_slow shm chan cmd payload
      else let i = unat (send_head chan AND (out_size chan - 1));
               cmd' = cmd OR parity_for (send_head chan) (out_size chan)
           in (True, shm\<lparr>tbl := (tbl shm)(i := \<lparr>msg_cmd = cmd', msg_payload = payload\<rparr>)\<rparr>,
               chan\<lparr>send_head := send_head chan + 1\<rparr>))"

definition lrpc_get_cached_send_window :: "lrpc_chan_out \<Rightarrow> u32" where
  "lrpc_get_cached_send_window chan = out_size chan - send_head chan + send_tail chan"

definition lrpc_get_cached_length :: "lrpc_chan_out \<Rightarrow> u32" where
  "lrpc_get_cached_length chan = send_head chan - send_tail chan"

definition lrpc_poll_send_tail :: "lrpc_shm \<Rightarrow> lrpc_chan_out \<Rightarrow> u32 \<times> lrpc_chan_out" where
  "lrpc_poll_send_tail shm chan = (recv_head_wb shm, chan\<lparr>send_tail := recv_head_wb shm\<rparr>)"

definition lrpc_recv :: "lrpc_shm \<Rightarrow> lrpc_chan_in \<Rightarrow> (u64 \<times> u64) option \<times> lrpc_shm \<times> lrpc_chan_in" where
  "lrpc_recv shm chan =
     (let m = tbl shm (unat (recv_head chan AND (in_size chan - 1)));
          parity = parity_for (recv_head chan) (in_size chan)
      in if msg_cmd m AND LRPC_DONE_PARITY \<noteq> parity then (None, shm, chan)
         else let chan = chan\<lparr>recv_head := recv_head chan + 1\<rparr>
              in (Some (msg_cmd m AND LRPC_CMD_MASK, msg_payload m),
                  shm\<lparr>recv_head_wb := recv_head chan\<rparr>, chan))"

definition lrpc_empty :: "lrpc_shm \<Rightarrow> lrpc_chan_in \<Rightarrow> bool" where
  "lrpc_empty shm chan \<longleftrightarrow>
     msg_cmd (tbl shm (unat (recv_head chan AND (in_size chan - 1)))) AND LRPC_DONE_PARITY \<noteq>
       parity_for (recv_head chan) (in_size chan)"

definition lrpc_init_out :: "u32 \<Rightarrow> errno + lrpc_chan_out" where
  "lrpc_init_out sz =
     (if \<not> is_power_of_two sz then Inl EINVAL
      else Inr \<lparr>send_head = 0, send_tail = 0, out_size = sz\<rparr>)"

definition lrpc_init_in :: "u32 \<Rightarrow> errno + lrpc_chan_in" where
  "lrpc_init_in sz =
     (if \<not> is_power_of_two sz then Inl EINVAL else Inr \<lparr>recv_head = 0, in_size = sz\<rparr>)"

section \<open>Slots and laps\<close>

lemma slot_index:
  "unat (h AND (2 ^ k - 1)) = unat h mod 2 ^ k" for h :: u32
proof -
  have "h AND (2 ^ k - 1) = take_bit k h"
    by (simp only: mask_eq_exp_minus_1 [symmetric] take_bit_eq_mask)
  moreover have "unat (take_bit k h) = take_bit k (unat h)"
    by (rule unsigned_take_bit_eq)
  ultimately show ?thesis by (simp only: take_bit_eq_mod [where 'a = nat])
qed

lemma bit_DONE [simp]: "bit LRPC_DONE_PARITY n \<longleftrightarrow> n = 63"
  by (simp only: LRPC_DONE_PARITY_def bit_push_bit_iff bit_1_iff) auto

lemma parity_for_bit:
  "parity_for h (2 ^ k) = (if bit h k then 0 else LRPC_DONE_PARITY)"
  by (simp add: parity_for_def and_exp_eq_0_iff_not_bit)

lemma bit_parity_for [simp]: "bit (parity_for h (2 ^ k)) 63 \<longleftrightarrow> \<not> bit h k"
  by (simp add: parity_for_bit)

lemma parity_match:
  "w AND LRPC_DONE_PARITY = parity_for h (2 ^ k) \<longleftrightarrow> bit w 63 \<noteq> bit h k"
  by (auto simp: parity_for_bit bit_eq_iff [where 'a = "64 word"] bit_and_iff
      dest: spec [where x = 63])

lemma unat_add_nat: "unat (r + of_nat j :: u32) mod 2 ^ k = (unat r + j) mod 2 ^ k" if "k \<le> 32"
proof -
  have "unat (r + of_nat j) = (unat r + j) mod 2 ^ 32"
    by (simp add: unat_word_ariths unat_of_nat mod_add_right_eq)
  moreover have "(2::nat) ^ k dvd 2 ^ 32" using that by (rule le_imp_power_dvd)
  ultimately show ?thesis by (simp only: mod_mod_cancel)
qed

lemma bit_add_nat: "bit (r + of_nat j :: u32) k \<longleftrightarrow> bit (unat r + j) k" if "k < 32"
proof -
  have "r + of_nat j = (of_nat (unat r + j) :: u32)" by simp
  then show ?thesis using that by (simp only: bit_of_nat_iff) (simp add: possible_bit_def)
qed

lemma bit_add_lap: "bit (x + 2 ^ k) k \<longleftrightarrow> \<not> bit x k" for x :: nat
proof -
  have "(x + 2 ^ k) div 2 ^ k = Suc (x div 2 ^ k)" by (simp add: div_add_self2)
  then show ?thesis by (simp add: bit_iff_odd)
qed

lemma slot_inj:
  assumes "j < 2 ^ k" "j' < 2 ^ k" "k \<le> 32"
  shows "unat (r + of_nat j :: u32) mod 2 ^ k = unat (r + of_nat j') mod 2 ^ k \<longleftrightarrow> j = j'"
proof -
  have *: "j = j'" if "(a + j) mod 2 ^ k = (a + j') mod 2 ^ k" "j \<le> j'" "j' < 2 ^ k" for a j j' :: nat
  proof -
    have "2 ^ k dvd (a + j') - (a + j)" using that by (subst mod_eq_dvd_iff_nat [symmetric]) auto
    then show ?thesis using that by (auto dest: dvd_imp_le)
  qed
  have "j = j'" if "(unat r + j) mod 2 ^ k = (unat r + j') mod 2 ^ k"
    using *[of "unat r" j j'] *[of "unat r" j' j] that assms by (cases "j \<le> j'") auto
  with assms show ?thesis by (auto simp: unat_add_nat)
qed

lemma word_lap: "k < 32 \<Longrightarrow> bit (r + 2 ^ k :: u32) k \<longleftrightarrow> \<not> bit r k"
  using bit_add_nat [of k r "2 ^ k"] by (simp add: bit_add_lap bit_unsigned_iff)

section \<open>The invariant of a channel\<close>

type_synonym lrpc = "lrpc_shm \<times> lrpc_chan_out \<times> lrpc_chan_in"

definition lrpc_pending :: "lrpc_chan_out \<Rightarrow> lrpc_chan_in \<Rightarrow> nat" where
  "lrpc_pending out inn = unat (send_head out - recv_head inn)"

text \<open>
  The next \<open>2 ^ k\<close> slots from the receive head: the pending messages carry the parity of
  their lap, the free slots the parity of the lap before.
\<close>

definition flags_ok :: "nat \<Rightarrow> (nat \<Rightarrow> lrpc_msg) \<Rightarrow> u32 \<Rightarrow> nat \<Rightarrow> bool" where
  "flags_ok k tb r n \<longleftrightarrow>
     (\<forall>j < 2 ^ k. bit (msg_cmd (tb (unat (r + of_nat j) mod 2 ^ k))) 63 \<longleftrightarrow>
        (bit (r + of_nat j) k \<noteq> (j < n)))"

definition chan_ok :: "nat \<Rightarrow> lrpc_shm \<Rightarrow> lrpc_chan_out \<Rightarrow> lrpc_chan_in \<Rightarrow> bool" where
  "chan_ok k shm out inn \<longleftrightarrow>
     k < 32 \<and> out_size out = 2 ^ k \<and> in_size inn = 2 ^ k \<and> recv_head_wb shm = recv_head inn \<and>
     lrpc_pending out inn \<le> unat (send_head out - send_tail out) \<and>
     unat (send_head out - send_tail out) \<le> 2 ^ k \<and>
     flags_ok k (tbl shm) (recv_head inn) (lrpc_pending out inn)"

definition msg_of :: "lrpc_msg \<Rightarrow> u64 \<times> u64" where
  "msg_of m = (msg_cmd m AND LRPC_CMD_MASK, msg_payload m)"

definition queued :: "nat \<Rightarrow> (nat \<Rightarrow> lrpc_msg) \<Rightarrow> u32 \<Rightarrow> nat \<Rightarrow> (u64 \<times> u64) list" where
  "queued k tb r n = map (\<lambda>j. msg_of (tb (unat (r + of_nat j) mod 2 ^ k))) [0..<n]"

lemma queued_Suc: "queued k tb r (Suc n) = msg_of (tb (unat r mod 2 ^ k)) # queued k tb (r + 1) n"
  by (simp add: queued_def upt_rec [of 0 "Suc n"] map_Suc_upt [symmetric] add.assoc
      del: upt_Suc map_Suc_upt)

lemma queued_write:
  assumes "n < 2 ^ k" "k \<le> 32"
  shows "queued k (tb(unat (r + of_nat n) mod 2 ^ k := m)) r (Suc n) = queued k tb r n @ [msg_of m]"
  using assms by (auto simp: queued_def slot_inj)

lemma flags_write:
  assumes "flags_ok k tb r n" "n < 2 ^ k" "k \<le> 32" "bit (msg_cmd m) 63 \<longleftrightarrow> \<not> bit (r + of_nat n) k"
  shows "flags_ok k (tb(unat (r + of_nat n) mod 2 ^ k := m)) r (Suc n)"
  using assms by (auto simp: flags_ok_def slot_inj less_Suc_eq)

lemma flags_read:
  assumes "flags_ok k tb r (Suc n)" "n < 2 ^ k" "k < 32"
  shows "flags_ok k tb (r + 1) n"
  unfolding flags_ok_def
proof (intro allI impI)
  fix j :: nat assume j: "j < 2 ^ k"
  have eq: "r + 1 + of_nat j = r + of_nat (Suc j)" by (simp add: add.assoc)
  show "bit (msg_cmd (tb (unat (r + 1 + of_nat j) mod 2 ^ k))) 63 \<longleftrightarrow>
      (bit (r + 1 + of_nat j) k \<noteq> (j < n))"
  proof (cases "Suc j < 2 ^ k")
    case True
    with assms(1) show ?thesis unfolding eq flags_ok_def by auto
  next
    case False
    then have sj: "Suc j = 2 ^ k" using j by simp
    have "unat (r + of_nat (Suc j)) mod 2 ^ k = unat r mod 2 ^ k"
      using assms(3) by (simp only: unat_add_nat sj) simp
    moreover have "bit (r + of_nat (Suc j)) k \<longleftrightarrow> \<not> bit r k"
      using word_lap [OF assms(3), of r] by (simp only: sj) simp
    moreover have "bit (msg_cmd (tb (unat r mod 2 ^ k))) 63 \<longleftrightarrow> \<not> bit r k"
      using assms(1) unfolding flags_ok_def by (auto dest: spec [where x = 0])
    ultimately show ?thesis using assms(2) sj unfolding eq by auto
  qed
qed

section \<open>Sending and receiving\<close>

text \<open>The write both paths of a send end with.\<close>

definition lrpc_write :: "nat \<Rightarrow> lrpc_shm \<Rightarrow> lrpc_chan_out \<Rightarrow> u64 \<Rightarrow> u64 \<Rightarrow> bool \<times> lrpc_shm \<times> lrpc_chan_out" where
  "lrpc_write k shm out cmd payload =
     (True, shm\<lparr>tbl := (tbl shm)(unat (send_head out) mod 2 ^ k :=
        \<lparr>msg_cmd = cmd OR parity_for (send_head out) (2 ^ k), msg_payload = payload\<rparr>)\<rparr>,
      out\<lparr>send_head := send_head out + 1\<rparr>)"

lemma unat_add_one: "unat w < 2 ^ 31 \<Longrightarrow> unat (w + 1 :: u32) = Suc (unat w)"
  by (simp add: unat_word_ariths)

lemma two_power_31: "k < 32 \<Longrightarrow> (2::nat) ^ k \<le> 2 ^ 31"
  by (rule power_increasing) simp_all

lemma unat_two_power: "k < 32 \<Longrightarrow> unat (2 ^ k :: u32) = 2 ^ k"
  using unat_of_nat [of "2 ^ k", where 'a = 32] two_power_31 [of k] by simp

lemma mask_bits: "(cmd OR parity_for h (2 ^ k)) AND LRPC_CMD_MASK = cmd" if "\<not> bit cmd 63"
  using that by (auto simp: bit_eq_iff [where 'a = "64 word"] bit_or_iff bit_and_iff bit_not_iff
      LRPC_CMD_MASK_def parity_for_bit)

lemma lrpc_write_ok:
  assumes ok: "chan_ok k shm out inn" and room: "unat (send_head out - send_tail out) < 2 ^ k"
    and cmd: "\<not> bit cmd 63" and w: "lrpc_write k shm out cmd payload = (b, shm', out')"
  shows "b \<and> chan_ok k shm' out' inn \<and>
    queued k (tbl shm') (recv_head inn) (lrpc_pending out' inn) =
      queued k (tbl shm) (recv_head inn) (lrpc_pending out inn) @ [(cmd, payload)]"
proof -
  let ?n = "lrpc_pending out inn"
  note c = ok [unfolded chan_ok_def]
  have lt: "?n < 2 ^ k" "(2::nat) ^ k \<le> 2 ^ 31" using c room two_power_31 [of k] by auto
  have sh: "send_head out = recv_head inn + of_nat ?n" by (simp add: lrpc_pending_def)
  let ?m = "\<lparr>msg_cmd = cmd OR parity_for (send_head out) (2 ^ k), msg_payload = payload\<rparr>"
  have w': "b" "shm' = shm\<lparr>tbl := (tbl shm)(unat (recv_head inn + of_nat ?n) mod 2 ^ k := ?m)\<rparr>"
    "out' = out\<lparr>send_head := send_head out + 1\<rparr>"
    using w by (auto simp: lrpc_write_def lrpc_pending_def)
  have n': "lrpc_pending out' inn = Suc ?n"
    using lt unat_add_one [of "send_head out - recv_head inn"]
    by (simp add: w'(3) lrpc_pending_def algebra_simps)
  have t': "unat (send_head out' - send_tail out') = Suc (unat (send_head out - send_tail out))"
    using lt room unat_add_one [of "send_head out - send_tail out"]
    by (simp add: w'(3) algebra_simps)
  have "bit (msg_cmd ?m) 63 \<longleftrightarrow> \<not> bit (recv_head inn + of_nat ?n) k"
    using cmd sh by (simp add: bit_or_iff)
  then have "flags_ok k (tbl shm') (recv_head inn) (Suc ?n)"
    using c lt by (simp add: w'(2) flags_write)
  then have "chan_ok k shm' out' inn"
    using c room n' t' by (simp add: chan_ok_def w'(2)) (simp add: w'(3))
  moreover have "queued k (tbl shm') (recv_head inn) (Suc ?n) =
      queued k (tbl shm) (recv_head inn) ?n @ [msg_of ?m]"
    using c lt by (simp add: w'(2) queued_write)
  ultimately show ?thesis using n' w'(1) mask_bits [OF cmd] by (simp add: msg_of_def)
qed

lemma lrpc_send_cases:
  assumes ok: "chan_ok k shm out inn"
  shows "lrpc_send shm out cmd payload =
    (if unat (send_head out - send_tail out) < 2 ^ k then lrpc_write k shm out cmd payload
     else if lrpc_pending out inn < 2 ^ k
     then lrpc_write k shm (out\<lparr>send_tail := recv_head inn\<rparr>) cmd payload
     else (False, shm, out\<lparr>send_tail := recv_head inn\<rparr>))"
proof -
  note c = ok [unfolded chan_ok_def]
  have k: "k < 32" using c by simp
  note sz = unat_two_power [OF k]
  have "out_size out \<le> send_head out - send_tail out \<longleftrightarrow> \<not> unat (send_head out - send_tail out) < 2 ^ k"
    using c sz by (auto simp: word_le_nat_alt)
  moreover have "send_head out - recv_head inn = out_size out \<longleftrightarrow> \<not> lrpc_pending out inn < 2 ^ k"
    using c sz by (auto simp: lrpc_pending_def word_unat_eq_iff)
  ultimately show ?thesis
    using c by (simp add: lrpc_send_def lrpc_send_slow_def lrpc_write_def slot_index Let_def)
qed

lemma chan_ok_refresh:
  assumes "chan_ok k shm out inn"
  shows "chan_ok k shm (out\<lparr>send_tail := recv_head inn\<rparr>) inn"
  using assms by (auto simp: chan_ok_def lrpc_pending_def)

lemma lrpc_recv_cases:
  assumes ok: "chan_ok k shm out inn"
  shows "lrpc_recv shm inn =
    (if lrpc_pending out inn = 0 then (None, shm, inn)
     else (Some (msg_of (tbl shm (unat (recv_head inn) mod 2 ^ k))),
           shm\<lparr>recv_head_wb := recv_head inn + 1\<rparr>, inn\<lparr>recv_head := recv_head inn + 1\<rparr>))"
proof -
  note c = ok [unfolded chan_ok_def]
  have "bit (msg_cmd (tbl shm (unat (recv_head inn) mod 2 ^ k))) 63 \<longleftrightarrow>
      (bit (recv_head inn) k \<noteq> (0 < lrpc_pending out inn))"
    using c unfolding flags_ok_def by (auto dest: spec [where x = 0])
  then show ?thesis
    using c by (simp add: lrpc_recv_def slot_index parity_match msg_of_def Let_def)
qed

lemma lrpc_recv_ok:
  assumes ok: "chan_ok k shm out inn" and n: "lrpc_pending out inn = Suc n"
  shows "chan_ok k (shm\<lparr>recv_head_wb := recv_head inn + 1\<rparr>) out (inn\<lparr>recv_head := recv_head inn + 1\<rparr>)"
    "lrpc_pending out (inn\<lparr>recv_head := recv_head inn + 1\<rparr>) = n"
proof -
  note c = ok [unfolded chan_ok_def]
  show n': "lrpc_pending out (inn\<lparr>recv_head := recv_head inn + 1\<rparr>) = n"
  proof -
    have "send_head out - recv_head inn \<noteq> 0" using n by (auto simp: lrpc_pending_def)
    from unat_minus_one [OF this] n show ?thesis
      by (simp add: lrpc_pending_def algebra_simps)
  qed
  have "n < 2 ^ k" using c n by simp
  then show "chan_ok k (shm\<lparr>recv_head_wb := recv_head inn + 1\<rparr>) out (inn\<lparr>recv_head := recv_head inn + 1\<rparr>)"
    using c n flags_read [of k "tbl shm" "recv_head inn" n]
    by (simp add: chan_ok_def n') 
qed

text \<open>The two ends of a channel as one queue.\<close>

definition lrpc_inv :: "lrpc \<Rightarrow> bool" where
  "lrpc_inv = (\<lambda>(shm, out, inn). \<exists>k < 32. chan_ok k shm out inn)"

definition lrpc_items :: "lrpc \<Rightarrow> (u64 \<times> u64) list" where
  "lrpc_items = (\<lambda>(shm, out, inn).
     map (\<lambda>j. msg_of (tbl shm (unat ((recv_head inn + of_nat j) AND (in_size inn - 1)))))
       [0..<lrpc_pending out inn])"

definition lrpc_cap :: "lrpc \<Rightarrow> nat" where
  "lrpc_cap = (\<lambda>(shm, out, inn). unat (out_size out))"

definition lrpc_put :: "u64 \<times> u64 \<Rightarrow> lrpc \<Rightarrow> bool \<times> lrpc" where
  "lrpc_put = (\<lambda>(cmd, payload) (shm, out, inn).
     let (ok, shm', out') = lrpc_send shm out cmd payload in (ok, (shm', out', inn)))"

definition lrpc_get :: "lrpc \<Rightarrow> (u64 \<times> u64) option \<times> lrpc" where
  "lrpc_get = (\<lambda>(shm, out, inn).
     let (m, shm', inn') = lrpc_recv shm inn in (m, (shm', out, inn')))"

definition lrpc_msg_ok :: "u64 \<times> u64 \<Rightarrow> bool" where
  "lrpc_msg_ok m \<longleftrightarrow> fst m AND LRPC_DONE_PARITY = 0"

lemma lrpc_msg_ok_bit: "lrpc_msg_ok m \<longleftrightarrow> \<not> bit (fst m) 63"
  by (auto simp: lrpc_msg_ok_def bit_eq_iff [where 'a = "64 word"] bit_and_iff
      dest: spec [where x = 63])

lemma chan_okD:
  assumes "chan_ok k shm out inn"
  shows "lrpc_items (shm, out, inn) = queued k (tbl shm) (recv_head inn) (lrpc_pending out inn)"
    "lrpc_cap (shm, out, inn) = 2 ^ k" "length (lrpc_items (shm, out, inn)) = lrpc_pending out inn"
    "lrpc_pending out inn \<le> 2 ^ k" "lrpc_inv (shm, out, inn)"
  using assms
  by (auto simp: chan_ok_def lrpc_items_def queued_def slot_index lrpc_cap_def lrpc_inv_def unat_two_power)

lemma lrpc_put_law:
  assumes ok: "chan_ok k shm out inn" and m: "lrpc_msg_ok m"
  shows "\<exists>shm' out'. lrpc_put m (shm, out, inn) = (lrpc_pending out inn < 2 ^ k, (shm', out', inn)) \<and>
    chan_ok k shm' out' inn \<and>
    lrpc_items (shm', out', inn) = lrpc_items (shm, out, inn) @ (if lrpc_pending out inn < 2 ^ k then [m] else [])"
proof -
  note c = ok [unfolded chan_ok_def]
  have b: "\<not> bit (fst m) 63" using m by (simp add: lrpc_msg_ok_bit)
  let ?r = "out\<lparr>send_tail := recv_head inn\<rparr>"
  note ok' = chan_ok_refresh [OF ok]
  have pr: "lrpc_pending ?r inn = lrpc_pending out inn" by (simp add: lrpc_pending_def)
  consider "unat (send_head out - send_tail out) < 2 ^ k"
    | "\<not> unat (send_head out - send_tail out) < 2 ^ k" "lrpc_pending out inn < 2 ^ k"
    | "\<not> unat (send_head out - send_tail out) < 2 ^ k" "\<not> lrpc_pending out inn < 2 ^ k" by blast
  then show ?thesis
  proof cases
    case 1
    obtain b1 s1 o1 where w: "lrpc_write k shm out (fst m) (snd m) = (b1, s1, o1)" by (cases "lrpc_write k shm out (fst m) (snd m)")
    from lrpc_write_ok [OF ok 1 b w] 1 w c show ?thesis
      by (auto simp: lrpc_put_def lrpc_send_cases [OF ok] chan_okD [OF ok] chan_okD(1) split: prod.splits)
  next
    case 2
    then have 3: "unat (send_head ?r - send_tail ?r) < 2 ^ k" by (simp add: lrpc_pending_def)
    obtain b1 s1 o1 where w: "lrpc_write k shm ?r (fst m) (snd m) = (b1, s1, o1)" by (cases "lrpc_write k shm ?r (fst m) (snd m)")
    from lrpc_write_ok [OF ok' 3 b w] 2 w show ?thesis
      by (auto simp: lrpc_put_def lrpc_send_cases [OF ok] chan_okD [OF ok] chan_okD(1) pr split: prod.splits)
  next
    case 3
    then show ?thesis using ok'
      by (auto simp: lrpc_put_def lrpc_send_cases [OF ok] chan_okD [OF ok] chan_okD(1) pr split: prod.splits)
  qed
qed

lemma lrpc_get_law:
  assumes ok: "chan_ok k shm out inn"
  shows "\<exists>shm' inn'. snd (lrpc_get (shm, out, inn)) = (shm', out, inn') \<and> chan_ok k shm' out inn' \<and>
    lrpc_items (shm, out, inn) =
      (case fst (lrpc_get (shm, out, inn)) of None \<Rightarrow> [] | Some m \<Rightarrow> [m]) @ lrpc_items (shm', out, inn') \<and>
    (fst (lrpc_get (shm, out, inn)) = None \<longleftrightarrow> lrpc_pending out inn = 0)"
proof (cases "lrpc_pending out inn")
  case 0
  with ok show ?thesis
    by (simp add: lrpc_get_def lrpc_recv_cases [OF ok] chan_okD(1) [OF ok] queued_def)
next
  case (Suc n)
  note r = lrpc_recv_ok [OF ok Suc]
  from Suc r show ?thesis
    by (simp add: lrpc_get_def lrpc_recv_cases [OF ok] chan_okD(1) [OF ok] chan_okD(1) [OF r(1)] queued_Suc)
qed

interpretation chan: bounded_fifo lrpc_items lrpc_inv lrpc_cap lrpc_msg_ok lrpc_put lrpc_get
proof
  fix q a as
  assume "lrpc_inv q"
  then obtain k shm out inn where q: "q = (shm, out, inn)" "chan_ok k shm out inn"
    by (cases q) (auto simp: lrpc_inv_def)
  note d = chan_okD [OF q(2)] and get = lrpc_get_law [OF q(2)]
  show "length (lrpc_items q) \<le> lrpc_cap q" using d q(1) by simp
  show "lrpc_inv (snd (lrpc_get q)) \<and> lrpc_cap (snd (lrpc_get q)) = lrpc_cap q"
    using get q(1) d by (auto simp: chan_okD)
  show "fst (lrpc_get q) = None \<and> lrpc_items (snd (lrpc_get q)) = []" if "lrpc_items q = []"
    using get q(1) d that by (auto split: option.splits)
  show "fst (lrpc_get q) = Some a \<and> lrpc_items (snd (lrpc_get q)) = as" if "lrpc_items q = a # as"
    using get q(1) d that by (auto split: option.splits)
  assume m: "lrpc_msg_ok a"
  note put = lrpc_put_law [OF q(2) m]
  show "lrpc_inv (snd (lrpc_put a q)) \<and> lrpc_cap (snd (lrpc_put a q)) = lrpc_cap q"
    using put q(1) d by (auto simp: chan_okD)
  show "fst (lrpc_put a q) \<and> lrpc_items (snd (lrpc_put a q)) = lrpc_items q @ [a]"
    if "length (lrpc_items q) < lrpc_cap q"
    using put q(1) d that by auto
  show "\<not> fst (lrpc_put a q) \<and> lrpc_items (snd (lrpc_put a q)) = lrpc_items q"
    if "lrpc_cap q \<le> length (lrpc_items q)"
    using put q(1) d that by auto
qed

section \<open>Initialisation\<close>

lemma pow2_nat: "0 < x \<Longrightarrow> x AND (x - 1) = 0 \<Longrightarrow> \<exists>k. x = 2 ^ k" for x :: nat
proof (induction x rule: less_induct)
  case (less x)
  show ?case
  proof (cases "even x")
    case False
    then have "x AND (x - 1) = 2 * ((x div 2) AND ((x - 1) div 2))"
      by (subst and_rec) (auto elim!: oddE)
    moreover have "(x - 1) div 2 = x div 2" using False by (auto elim!: oddE)
    ultimately have "x div 2 = 0" using less.prems(2) by simp
    with False less.prems(1) have "x = 2 ^ 0" by (auto elim!: oddE)
    then show ?thesis by blast
  next
    case True
    then obtain y where y: "x = 2 * y" by blast
    with less.prems(1) have "(x - 1) div 2 = y - 1" by (cases y) auto
    moreover have "x AND (x - 1) = 2 * ((x div 2) AND ((x - 1) div 2))"
      using True by (subst and_rec) auto
    ultimately have "y AND (y - 1) = 0" using less.prems(2) y by simp
    with less.IH [of y] less.prems(1) y obtain k where "y = 2 ^ k" by auto
    with y have "x = 2 ^ Suc k" by simp
    then show ?thesis by blast
  qed
qed

lemma is_power_of_two_iff: "is_power_of_two sz \<longleftrightarrow> (\<exists>k < 32. sz = 2 ^ k)" for sz :: u32
proof
  assume p: "is_power_of_two sz"
  moreover have "unat (sz AND (sz - 1)) = unat sz AND unat (sz - 1)"
    by (rule unsigned_and_eq)
  ultimately have "unat sz AND (unat sz - 1) = 0" "0 < unat sz"
    using unat_minus_one [of sz]
    by (auto simp: is_power_of_two_def unat_gt_0)
  from pow2_nat [OF this(2,1)] obtain k where k: "unat sz = 2 ^ k" by blast
  have "unat sz < 2 ^ LENGTH(32)" by (rule unsigned_less)
  then have "(2::nat) ^ k < 2 ^ 32" using k by simp
  then have "k < 32" by (rule power_less_imp_less_exp [rotated]) simp
  moreover have "sz = 2 ^ k" using k \<open>k < 32\<close> by (intro word_unat_eq_iff [THEN iffD2]) (simp add: unat_two_power)
  ultimately show "\<exists>k < 32. sz = 2 ^ k" by blast
next
  assume "\<exists>k < 32. sz = 2 ^ k"
  then obtain k where k: "k < 32" "sz = 2 ^ k" by blast
  have "sz AND (sz - 1) = 0" using slot_index [of sz k] k
    by (simp add: unat_two_power unat_eq_zero [symmetric])
  moreover have "0 < unat sz" using unat_two_power [OF k(1)] k(2) by simp
  then have "sz \<noteq> 0" by auto
  ultimately show "is_power_of_two sz" by (simp add: is_power_of_two_def)
qed

text \<open>A zeroed table and a zero receive head, as the shared region holds them at start.\<close>

definition zero_shm :: lrpc_shm where
  "zero_shm = \<lparr>tbl = (\<lambda>_. \<lparr>msg_cmd = 0, msg_payload = 0\<rparr>), recv_head_wb = 0\<rparr>"

lemma flags_init: "k < 32 \<Longrightarrow> flags_ok k (\<lambda>_. \<lparr>msg_cmd = 0, msg_payload = 0\<rparr>) 0 0"
proof (unfold flags_ok_def, intro allI impI)
  fix j :: nat assume "k < 32" "j < 2 ^ k"
  then show "bit (msg_cmd \<lparr>msg_cmd = 0, msg_payload = 0\<rparr>) 63 \<longleftrightarrow> (bit (0 + of_nat j :: u32) k \<noteq> (j < 0))"
    using bit_add_nat [of k 0 j] by (simp add: bit_iff_odd)
qed

lemma lrpc_init_ok:
  assumes "lrpc_init_out sz = Inr out" "lrpc_init_in sz = Inr inn"
  shows "\<exists>k < 32. sz = 2 ^ k \<and> chan_ok k zero_shm out inn \<and> lrpc_items (zero_shm, out, inn) = []"
proof -
  from assms obtain k where k: "k < 32" "sz = 2 ^ k"
    by (auto simp: lrpc_init_out_def is_power_of_two_iff split: if_splits)
  with assms flags_init [OF k(1)] show ?thesis
    by (auto simp: lrpc_init_out_def lrpc_init_in_def chan_ok_def zero_shm_def lrpc_pending_def
        lrpc_items_def split: if_splits)
qed

section \<open>Interleavings of the two ends\<close>

text \<open>
  The accesses of \<^verbatim>\<open>lrpc_send\<close> and \<^verbatim>\<open>lrpc_recv\<close> to the shared memory, one per step.
  The sender's head and cached tail and the receiver's head are private, so that their
  updates go with the step before the next shared access. The ghost lists \<open>accepted\<close> and
  \<open>delivered\<close> grow at the store of the command word and at the load of the payload.
\<close>

datatype sender_pc =
    SIdle
  | SSlow u64 u64
  | SPay nat u64 u64
  | SCmd nat u64 u64

datatype receiver_pc =
    RIdle
  | RPay nat u64
  | RWb

record lrpc_sys =
  sys_shm :: lrpc_shm
  sys_out :: lrpc_chan_out
  sys_in :: lrpc_chan_in
  spc :: sender_pc
  rpc :: receiver_pc
  accepted :: "(u64 \<times> u64) list"
  delivered :: "(u64 \<times> u64) list"

definition begin_write :: "lrpc_chan_out \<Rightarrow> u64 \<Rightarrow> u64 \<Rightarrow> sender_pc" where
  "begin_write out cmd payload =
     SPay (unat (send_head out AND (out_size out - 1))) (cmd OR parity_for (send_head out) (out_size out)) payload"

inductive lrpc_step :: "lrpc_sys \<Rightarrow> lrpc_sys \<Rightarrow> bool" where
  send_fast: "\<lbrakk>spc y = SIdle; out = sys_out y; cmd AND LRPC_DONE_PARITY = 0;
     \<not> out_size out \<le> send_head out - send_tail out\<rbrakk> \<Longrightarrow>
   lrpc_step y (y\<lparr>spc := begin_write out cmd payload, sys_out := out\<lparr>send_head := send_head out + 1\<rparr>\<rparr>)"
| send_slow: "\<lbrakk>spc y = SIdle; out = sys_out y; cmd AND LRPC_DONE_PARITY = 0;
     out_size out \<le> send_head out - send_tail out\<rbrakk> \<Longrightarrow>
   lrpc_step y (y\<lparr>spc := SSlow cmd payload\<rparr>)"
| slow_full: "\<lbrakk>spc y = SSlow cmd payload; out = (sys_out y)\<lparr>send_tail := recv_head_wb (sys_shm y)\<rparr>;
     send_head out - send_tail out = out_size out\<rbrakk> \<Longrightarrow>
   lrpc_step y (y\<lparr>spc := SIdle, sys_out := out\<rparr>)"
| slow_room: "\<lbrakk>spc y = SSlow cmd payload; out = (sys_out y)\<lparr>send_tail := recv_head_wb (sys_shm y)\<rparr>;
     send_head out - send_tail out \<noteq> out_size out\<rbrakk> \<Longrightarrow>
   lrpc_step y (y\<lparr>spc := begin_write out cmd payload, sys_out := out\<lparr>send_head := send_head out + 1\<rparr>\<rparr>)"
| store_pay: "\<lbrakk>spc y = SPay i c p; shm = sys_shm y\<rbrakk> \<Longrightarrow>
   lrpc_step y (y\<lparr>spc := SCmd i c p,
     sys_shm := shm\<lparr>tbl := (tbl shm)(i := (tbl shm i)\<lparr>msg_payload := p\<rparr>)\<rparr>\<rparr>)"
| store_cmd: "\<lbrakk>spc y = SCmd i c p; shm = sys_shm y\<rbrakk> \<Longrightarrow>
   lrpc_step y (y\<lparr>spc := SIdle,
     sys_shm := shm\<lparr>tbl := (tbl shm)(i := (tbl shm i)\<lparr>msg_cmd := c\<rparr>)\<rparr>,
     accepted := accepted y @ [(c AND LRPC_CMD_MASK, p)]\<rparr>)"
| recv_cmd: "\<lbrakk>rpc y = RIdle; inn = sys_in y; i = unat (recv_head inn AND (in_size inn - 1));
     c = msg_cmd (tbl (sys_shm y) i); c AND LRPC_DONE_PARITY = parity_for (recv_head inn) (in_size inn)\<rbrakk> \<Longrightarrow>
   lrpc_step y (y\<lparr>rpc := RPay i (c AND LRPC_CMD_MASK), sys_in := inn\<lparr>recv_head := recv_head inn + 1\<rparr>\<rparr>)"
| recv_pay: "rpc y = RPay i c \<Longrightarrow>
   lrpc_step y (y\<lparr>rpc := RWb, delivered := delivered y @ [(c, msg_payload (tbl (sys_shm y) i))]\<rparr>)"
| recv_wb: "rpc y = RWb \<Longrightarrow>
   lrpc_step y (y\<lparr>rpc := RIdle, sys_shm := (sys_shm y)\<lparr>recv_head_wb := recv_head (sys_in y)\<rparr>\<rparr>)"

text \<open>
  The invariant, with the sender's committed head \<open>h\<close>: \<open>n\<close> messages between the receive
  head and \<open>h\<close>, at most one message taken whose slot is not yet published as free, and
  \<open>a\<close> free slots the sender has not seen yet behind the published head.
\<close>

fun committed :: "sender_pc \<Rightarrow> u32 \<Rightarrow> u32" where
  "committed (SPay i c p) h = h - 1"
| "committed (SCmd i c p) h = h - 1"
| "committed _ h = h"

fun writing :: "sender_pc \<Rightarrow> nat" where
  "writing (SPay i c p) = 1"
| "writing (SCmd i c p) = 1"
| "writing _ = 0"

definition sender_ok :: "nat \<Rightarrow> lrpc_shm \<Rightarrow> u32 \<Rightarrow> sender_pc \<Rightarrow> bool" where
  "sender_ok k shm h pc =
     (case pc of
        SIdle \<Rightarrow> True
      | SSlow cmd p \<Rightarrow> \<not> bit cmd 63
      | SPay i c p \<Rightarrow> i = unat h mod 2 ^ k \<and> bit c 63 = (\<not> bit h k)
      | SCmd i c p \<Rightarrow> i = unat h mod 2 ^ k \<and> bit c 63 = (\<not> bit h k) \<and> msg_payload (tbl shm i) = p)"

definition receiver_ok :: "nat \<Rightarrow> lrpc_shm \<Rightarrow> receiver_pc \<Rightarrow> bool" where
  "receiver_ok k shm pc = (case pc of RPay i c \<Rightarrow> i = unat (recv_head_wb shm) mod 2 ^ k | _ \<Rightarrow> True)"

definition in_flight :: "lrpc_shm \<Rightarrow> receiver_pc \<Rightarrow> (u64 \<times> u64) list" where
  "in_flight shm pc = (case pc of RPay i c \<Rightarrow> [(c, msg_payload (tbl shm i))] | _ \<Rightarrow> [])"

definition unpublished :: "receiver_pc \<Rightarrow> nat" where
  "unpublished pc = (if pc = RIdle then 0 else 1)"

definition sys_nums :: "nat \<Rightarrow> nat \<Rightarrow> nat \<Rightarrow> lrpc_sys \<Rightarrow> bool" where
  "sys_nums k n a y \<longleftrightarrow>
     k < 32 \<and> out_size (sys_out y) = 2 ^ k \<and> in_size (sys_in y) = 2 ^ k \<and>
     recv_head_wb (sys_shm y) = send_tail (sys_out y) + of_nat a \<and>
     recv_head (sys_in y) = recv_head_wb (sys_shm y) + of_nat (unpublished (rpc y)) \<and>
     committed (spc y) (send_head (sys_out y)) = recv_head (sys_in y) + of_nat n \<and>
     a + unpublished (rpc y) + n + writing (spc y) \<le> 2 ^ k"

definition sys_data :: "nat \<Rightarrow> nat \<Rightarrow> lrpc_sys \<Rightarrow> bool" where
  "sys_data k n y \<longleftrightarrow>
     flags_ok k (tbl (sys_shm y)) (recv_head (sys_in y)) n \<and>
     sender_ok k (sys_shm y) (committed (spc y) (send_head (sys_out y))) (spc y) \<and>
     receiver_ok k (sys_shm y) (rpc y) \<and>
     accepted y = delivered y @ in_flight (sys_shm y) (rpc y) @
       queued k (tbl (sys_shm y)) (recv_head (sys_in y)) n"

definition sys_ok :: "nat \<Rightarrow> lrpc_sys \<Rightarrow> bool" where
  "sys_ok k y \<longleftrightarrow> (\<exists>n a. sys_nums k n a y \<and> sys_data k n y)"

lemma begin_write_simps [simp]:
  "committed (begin_write out cmd p) h = h - 1" "writing (begin_write out cmd p) = 1"
  by (simp_all add: begin_write_def)

lemma sender_ok_begin:
  assumes "out_size out = 2 ^ k" "\<not> bit cmd 63"
  shows "sender_ok k shm (send_head out) (begin_write out cmd p)"
  using assms by (simp add: sender_ok_def begin_write_def slot_index bit_or_iff)

lemma done_bit: "cmd AND LRPC_DONE_PARITY = 0 \<longleftrightarrow> \<not> bit cmd 63"
  using lrpc_msg_ok_bit [of "(cmd, 0)"] by (simp add: lrpc_msg_ok_def)

lemma unat_of_nat_small: "k < 32 \<Longrightarrow> e \<le> 2 ^ k \<Longrightarrow> unat (of_nat e :: u32) = e"
  using two_power_31 [of k] by (simp add: unat_of_nat)

lemma sys_ok_sender_private:
  assumes ok: "sys_nums k n a y" "sys_data k n y" and pc: "writing (spc y) = 0"
    and a': "a' + unpublished (rpc y) + n < 2 ^ k" "recv_head_wb (sys_shm y) = send_tail out + of_nat a'"
    and out: "out_size out = out_size (sys_out y)" "send_head out = send_head (sys_out y)"
    and cmd: "\<not> bit cmd 63"
  shows "sys_ok k (y\<lparr>spc := begin_write out cmd p, sys_out := out\<lparr>send_head := send_head out + 1\<rparr>\<rparr>)"
proof -
  have c: "committed (spc y) h = h" for h using pc by (cases "spc y") auto
  let ?y = "y\<lparr>spc := begin_write out cmd p, sys_out := out\<lparr>send_head := send_head out + 1\<rparr>\<rparr>"
  have "sys_nums k n a' ?y"
    using ok(1) a' out unfolding sys_nums_def by (auto simp: c)
  moreover have "sys_data k n ?y"
    using ok out cmd sender_ok_begin [of out k cmd "sys_shm y" p]
    by (simp add: sys_data_def c) (simp add: sys_nums_def)
  ultimately show ?thesis unfolding sys_ok_def by blast
qed

lemma sys_nums_slots:
  assumes "sys_nums k n a y" "writing (spc y) = 1"
  shows "n < 2 ^ k" "k < 32"
    "committed (spc y) (send_head (sys_out y)) = recv_head (sys_in y) + of_nat n"
    "rpc y \<noteq> RIdle \<Longrightarrow> unat (recv_head_wb (sys_shm y)) mod 2 ^ k \<noteq>
       unat (recv_head (sys_in y) + of_nat n) mod 2 ^ k"
proof -
  note c = assms [unfolded sys_nums_def]
  show "n < 2 ^ k" "k < 32" "committed (spc y) (send_head (sys_out y)) = recv_head (sys_in y) + of_nat n"
    using c by auto
  assume r: "rpc y \<noteq> RIdle"
  have eq: "recv_head (sys_in y) + of_nat n = recv_head_wb (sys_shm y) + of_nat (Suc n)"
    using c r by (simp add: unpublished_def add.assoc)
  have "Suc n < 2 ^ k" using c r by (simp add: unpublished_def)
  then show "unat (recv_head_wb (sys_shm y)) mod 2 ^ k \<noteq> unat (recv_head (sys_in y) + of_nat n) mod 2 ^ k"
    using slot_inj [of 0 k "Suc n" "recv_head_wb (sys_shm y)"] c unfolding eq by simp
qed

lemma flags_payload:
  "flags_ok k (tb(i := (tb i)\<lparr>msg_payload := p\<rparr>)) r n = flags_ok k tb r n"
proof -
  have "msg_cmd ((tb(i := (tb i)\<lparr>msg_payload := p\<rparr>)) x) = msg_cmd (tb x)" for x by simp
  then show ?thesis by (simp only: flags_ok_def)
qed

lemma store_pay_ok:
  assumes nums: "sys_nums k n a y" and data: "sys_data k n y" and pc: "spc y = SPay i c p"
  shows "sys_ok k (y\<lparr>spc := SCmd i c p,
    sys_shm := (sys_shm y)\<lparr>tbl := (tbl (sys_shm y))(i := (tbl (sys_shm y) i)\<lparr>msg_payload := p\<rparr>)\<rparr>\<rparr>)"
    (is "sys_ok k ?y")
proof -
  note s = sys_nums_slots [OF nums]
  have i: "i = unat (recv_head (sys_in y) + of_nat n) mod 2 ^ k"
    using s(3) data pc by (simp add: sys_data_def sender_ok_def)
  have "sys_nums k n a ?y" using nums pc by (simp add: sys_nums_def)
  moreover have "flags_ok k (tbl (sys_shm ?y)) (recv_head (sys_in y)) n"
    using data by (simp add: sys_data_def flags_payload)
  moreover have "queued k (tbl (sys_shm ?y)) (recv_head (sys_in y)) n =
      queued k (tbl (sys_shm y)) (recv_head (sys_in y)) n"
    using s(1,2) pc by (auto simp: queued_def i slot_inj)
  moreover have "in_flight (sys_shm ?y) (rpc y) = in_flight (sys_shm y) (rpc y)"
    using s(4) data pc by (auto simp: in_flight_def sys_data_def receiver_ok_def i split: receiver_pc.splits)
  ultimately show ?thesis
    using data pc unfolding sys_ok_def sys_data_def
    by (intro exI [of _ n] exI [of _ a]) (auto simp: sender_ok_def receiver_ok_def split: receiver_pc.splits)
qed

lemma store_cmd_ok:
  assumes nums: "sys_nums k n a y" and data: "sys_data k n y" and pc: "spc y = SCmd i c p"
  shows "sys_ok k (y\<lparr>spc := SIdle,
    sys_shm := (sys_shm y)\<lparr>tbl := (tbl (sys_shm y))(i := (tbl (sys_shm y) i)\<lparr>msg_cmd := c\<rparr>)\<rparr>,
    accepted := accepted y @ [(c AND LRPC_CMD_MASK, p)]\<rparr>)"
    (is "sys_ok k ?y")
proof -
  note s = sys_nums_slots [OF nums]
  have "sender_ok k (sys_shm y) (recv_head (sys_in y) + of_nat n) (SCmd i c p)"
    using s(3) data pc by (simp add: sys_data_def)
  then have i: "i = unat (recv_head (sys_in y) + of_nat n) mod 2 ^ k"
      "bit c 63 = (\<not> bit (recv_head (sys_in y) + of_nat n) k)" "msg_payload (tbl (sys_shm y) i) = p"
    unfolding sender_ok_def by auto
  let ?m = "(tbl (sys_shm y) i)\<lparr>msg_cmd := c\<rparr>"
  have "sys_nums k (Suc n) a ?y"
    using nums pc by (simp add: sys_nums_def algebra_simps)
  moreover have "flags_ok k (tbl (sys_shm ?y)) (recv_head (sys_in y)) (Suc n)"
    using data flags_write [of k "tbl (sys_shm y)" "recv_head (sys_in y)" n ?m] s(1,2) pc i
    by (simp add: sys_data_def)
  moreover have "queued k (tbl (sys_shm ?y)) (recv_head (sys_in y)) (Suc n) =
      queued k (tbl (sys_shm y)) (recv_head (sys_in y)) n @ [(c AND LRPC_CMD_MASK, p)]"
    using queued_write [of n k "tbl (sys_shm y)" "recv_head (sys_in y)" ?m] s(1,2) pc i
    by (simp add: msg_of_def)
  moreover have "in_flight (sys_shm ?y) (rpc y) = in_flight (sys_shm y) (rpc y)"
    by (auto simp: in_flight_def split: receiver_pc.splits)
  ultimately show ?thesis
    using data pc unfolding sys_ok_def sys_data_def
    by (intro exI [of _ "Suc n"] exI [of _ a])
       (auto simp: sender_ok_def receiver_ok_def split: receiver_pc.splits)
qed

lemma recv_cmd_ok:
  assumes nums: "sys_nums k n a y" and data: "sys_data k n y" and pc: "rpc y = RIdle"
    and i: "i = unat (recv_head (sys_in y) AND (in_size (sys_in y) - 1))"
    and c: "c = msg_cmd (tbl (sys_shm y) i)"
      "c AND LRPC_DONE_PARITY = parity_for (recv_head (sys_in y)) (in_size (sys_in y))"
  shows "sys_ok k (y\<lparr>rpc := RPay i (c AND LRPC_CMD_MASK),
    sys_in := (sys_in y)\<lparr>recv_head := recv_head (sys_in y) + 1\<rparr>\<rparr>)" (is "sys_ok k ?y")
proof -
  note u = nums [unfolded sys_nums_def]
  have i': "i = unat (recv_head (sys_in y)) mod 2 ^ k" using i u by (simp add: slot_index)
  have "bit c 63 \<noteq> bit (recv_head (sys_in y)) k" using c(2) u by (simp add: parity_match)
  moreover have "bit c 63 \<longleftrightarrow> (bit (recv_head (sys_in y)) k \<noteq> (0 < n))"
    using data c(1) i' unfolding sys_data_def flags_ok_def by (auto dest: spec [where x = 0])
  ultimately obtain m where m: "n = Suc m" by (cases n) auto
  have "sys_nums k m a ?y"
    using u pc m by (simp add: sys_nums_def unpublished_def algebra_simps)
  moreover have "sys_data k m ?y"
    using data u pc m i' c(1) flags_read [of k "tbl (sys_shm y)" "recv_head (sys_in y)" m]
    by (auto simp: sys_data_def in_flight_def receiver_ok_def queued_Suc msg_of_def unpublished_def)
  ultimately show ?thesis unfolding sys_ok_def by blast
qed

lemma lrpc_step_ok:
  assumes "lrpc_step y y'" "sys_ok k y"
  shows "sys_ok k y'"
proof -
  from assms(2) obtain n a where nums: "sys_nums k n a y" and data: "sys_data k n y"
    by (auto simp: sys_ok_def)
  note u = nums [unfolded sys_nums_def]
  have k: "k < 32" using u by simp
  have le: "a + unpublished (rpc y) + n \<le> 2 ^ k" using u by linarith
  note e = unat_of_nat_small [OF k le]
  note wr = sys_ok_sender_private [OF nums data]
  from assms(1) show ?thesis
  proof cases
    case (send_fast out cmd payload)
    then have "send_head out - send_tail out = of_nat (a + unpublished (rpc y) + n)"
      using u by (simp add: algebra_simps)
    then have "unat (send_head out - send_tail out) = a + unpublished (rpc y) + n"
      by (simp only: e)
    then have "a + unpublished (rpc y) + n < 2 ^ k"
      using send_fast u unat_two_power [OF k] by (auto simp: word_le_nat_alt)
    then show ?thesis using send_fast u
      by (subst send_fast(1)) (rule wr [of a], simp_all add: done_bit)
  next
    case (send_slow out cmd payload)
    with nums data show ?thesis
      unfolding sys_ok_def sys_nums_def sys_data_def by (auto simp: sender_ok_def done_bit)
  next
    case (slow_full cmd payload out)
    with u data have "sys_nums k n 0 y'" "sys_data k n y'"
      unfolding sys_nums_def sys_data_def by (auto simp: sender_ok_def)
    then show ?thesis unfolding sys_ok_def by blast
  next
    case (slow_room cmd payload out)
    with u have h: "send_head out - send_tail out = of_nat (unpublished (rpc y) + n)"
      by (simp add: algebra_simps)
    have "of_nat (unpublished (rpc y) + n) \<noteq> (2 ^ k :: u32)" using slow_room u h by auto
    then have "unpublished (rpc y) + n \<noteq> 2 ^ k" by (metis of_nat_numeral of_nat_power)
    then have "unpublished (rpc y) + n < 2 ^ k" using u by auto
    moreover have "\<not> bit cmd 63" using slow_room data by (simp add: sys_data_def sender_ok_def)
    ultimately show ?thesis using slow_room
      by (subst slow_room(1)) (rule wr [of 0], simp_all)
  next
    case (store_pay i c p shm)
    with store_pay_ok [OF nums data] show ?thesis by auto
  next
    case (store_cmd i c p shm)
    with store_cmd_ok [OF nums data] show ?thesis by auto
  next
    case (recv_cmd inn i c)
    with recv_cmd_ok [OF nums data] show ?thesis by auto
  next
    case (recv_pay i c)
    with nums data show ?thesis
      unfolding sys_ok_def sys_nums_def sys_data_def
      by (intro exI [of _ n] exI [of _ a]) (auto simp: receiver_ok_def in_flight_def unpublished_def)
  next
    case recv_wb
    with u data have "sys_nums k n (Suc a) y'" "sys_data k n y'"
      unfolding sys_nums_def sys_data_def
      by (auto simp: receiver_ok_def sender_ok_def in_flight_def unpublished_def add.assoc
          split: sender_pc.splits)
    then show ?thesis unfolding sys_ok_def by blast
  qed
qed

inductive_cases lrpc_stepE: "lrpc_step y y'"

lemma lrpc_steps_ok: "lrpc_step\<^sup>*\<^sup>* y y' \<Longrightarrow> sys_ok k y \<Longrightarrow> sys_ok k y'"
  by (induction rule: rtranclp_induct) (auto intro: lrpc_step_ok)

definition lrpc_boot :: "lrpc_chan_out \<Rightarrow> lrpc_chan_in \<Rightarrow> lrpc_sys" where
  "lrpc_boot out inn = \<lparr>sys_shm = zero_shm, sys_out = out, sys_in = inn, spc = SIdle, rpc = RIdle,
     accepted = [], delivered = []\<rparr>"

lemma lrpc_boot_ok:
  assumes "lrpc_init_out sz = Inr out" "lrpc_init_in sz = Inr inn"
  shows "\<exists>k < 32. sz = 2 ^ k \<and> sys_ok k (lrpc_boot out inn)"
proof -
  from assms obtain k where k: "k < 32" "sz = 2 ^ k"
    by (auto simp: lrpc_init_out_def is_power_of_two_iff split: if_splits)
  have "sys_nums k 0 0 (lrpc_boot out inn)" "sys_data k 0 (lrpc_boot out inn)"
    using assms k flags_init [OF k(1)]
    by (auto simp: lrpc_init_out_def lrpc_init_in_def sys_nums_def sys_data_def lrpc_boot_def zero_shm_def
        unpublished_def sender_ok_def receiver_ok_def in_flight_def queued_def split: if_splits)
  with k show ?thesis unfolding sys_ok_def by blast
qed

lemma sys_ok_history:
  assumes ok: "sys_ok k y"
  shows "\<exists>rest. accepted y = delivered y @ rest \<and> length rest \<le> 2 ^ k \<and>
    (rpc y = RIdle \<longrightarrow> lrpc_empty (sys_shm y) (sys_in y) \<longleftrightarrow> rest = [])"
proof -
  from ok obtain n a where u: "sys_nums k n a y" and d: "sys_data k n y" by (auto simp: sys_ok_def)
  let ?rest = "in_flight (sys_shm y) (rpc y) @ queued k (tbl (sys_shm y)) (recv_head (sys_in y)) n"
  have "length ?rest \<le> unpublished (rpc y) + n"
    by (auto simp: in_flight_def queued_def unpublished_def split: receiver_pc.splits)
  then have "length ?rest \<le> 2 ^ k" using u by (simp add: sys_nums_def)
  moreover have "lrpc_empty (sys_shm y) (sys_in y) \<longleftrightarrow> ?rest = []" if "rpc y = RIdle"
  proof -
    have "bit (msg_cmd (tbl (sys_shm y) (unat (recv_head (sys_in y)) mod 2 ^ k))) 63 \<longleftrightarrow>
        (bit (recv_head (sys_in y)) k \<noteq> (0 < n))"
      using d unfolding sys_data_def flags_ok_def by (auto dest: spec [where x = 0])
    then show ?thesis using u that
      by (auto simp: lrpc_empty_def sys_nums_def slot_index parity_match in_flight_def queued_def)
  qed
  ultimately show ?thesis using d by (intro exI [of _ ?rest]) (simp add: sys_data_def)
qed

section \<open>Properties\<close>

text \<open>
  C18: however the memory accesses of one sender and one receiver interleave on a freshly
  initialised channel of any power-of-two size, and however often the 32-bit counters have
  wrapped around, the messages delivered are a prefix of the messages accepted, in order and
  unchanged; at most a channel's worth is outstanding, and an idle receiver sees the channel
  empty exactly when every accepted message has been delivered.
\<close>

theorem lrpc_interleaved_fifo:
  assumes "lrpc_init_out sz = Inr out" "lrpc_init_in sz = Inr inn"
    and "lrpc_step\<^sup>*\<^sup>* (lrpc_boot out inn) y"
  shows "\<exists>rest. accepted y = delivered y @ rest \<and> length rest \<le> unat sz \<and>
    (rpc y = RIdle \<longrightarrow> lrpc_empty (sys_shm y) (sys_in y) \<longleftrightarrow> rest = [])"
proof -
  from lrpc_boot_ok [OF assms(1,2)] obtain k where k: "k < 32" "sz = 2 ^ k" "sys_ok k (lrpc_boot out inn)"
    by blast
  from sys_ok_history [OF lrpc_steps_ok [OF assms(3) k(3)]] show ?thesis
    by (simp add: k unat_two_power)
qed

theorem lrpc_interleaved_fifo_witness:
  "\<exists>out inn y. lrpc_init_out 2 = Inr out \<and> lrpc_init_in 2 = Inr inn \<and> lrpc_step\<^sup>*\<^sup>* (lrpc_boot out inn) y \<and>
     accepted y = [(7, 9)] \<and> (\<exists>rest. accepted y = delivered y @ rest \<and> length rest \<le> unat (2 :: u32))"
proof -
  define out inn where "out = \<lparr>send_head = 0, send_tail = 0, out_size = (2 :: u32)\<rparr>"
    and "inn = \<lparr>recv_head = 0, in_size = (2 :: u32)\<rparr>"
  define y0 where "y0 = lrpc_boot out inn"
  define y1 where "y1 = y0\<lparr>spc := begin_write out 7 9, sys_out := out\<lparr>send_head := 1\<rparr>\<rparr>"
  define c where "c = (7 OR LRPC_DONE_PARITY :: u64)"
  define y2 where "y2 = y1\<lparr>spc := SCmd 0 c 9, sys_shm := (sys_shm y1)\<lparr>tbl := (tbl (sys_shm y1))(0 := (tbl (sys_shm y1) 0)\<lparr>msg_payload := 9\<rparr>)\<rparr>\<rparr>"
  define y3 where "y3 = y2\<lparr>spc := SIdle, sys_shm := (sys_shm y2)\<lparr>tbl := (tbl (sys_shm y2))(0 := (tbl (sys_shm y2) 0)\<lparr>msg_cmd := c\<rparr>)\<rparr>, accepted := accepted y2 @ [(c AND LRPC_CMD_MASK, 9)]\<rparr>"
  have pc1: "spc y1 = SPay 0 c 9"
    by (simp add: y1_def begin_write_def out_def c_def parity_for_def)
  have "lrpc_step y0 y1"
    using lrpc_step.send_fast [of y0 out 7 9]
    by (simp add: y0_def y1_def lrpc_boot_def out_def LRPC_DONE_PARITY_def word_le_nat_alt)
  moreover have "lrpc_step y1 y2" unfolding y2_def by (rule lrpc_step.store_pay) (simp_all add: pc1)
  moreover have "lrpc_step y2 y3" unfolding y3_def by (rule lrpc_step.store_cmd) (simp_all add: y2_def)
  ultimately have s: "lrpc_step\<^sup>*\<^sup>* y0 y3" by auto
  have i: "lrpc_init_out 2 = Inr out" "lrpc_init_in 2 = Inr inn"
    by (simp_all add: lrpc_init_out_def lrpc_init_in_def out_def inn_def is_power_of_two_def)
  have "c AND LRPC_CMD_MASK = 7" by (simp add: c_def LRPC_CMD_MASK_def LRPC_DONE_PARITY_def)
  then have "accepted y3 = [(7, 9)]" "delivered y3 = []"
    by (simp_all add: y3_def y2_def y1_def y0_def lrpc_boot_def)
  with lrpc_interleaved_fifo [OF i s [unfolded y0_def]] i s [unfolded y0_def] show ?thesis by blast
qed

text \<open>
  Taken as whole operations, sends and receives on an initialised channel in any order
  behave as a bounded FIFO queue of \<^verbatim>\<open>size\<close> entries: what was accepted is what was
  delivered followed by what is still queued.
\<close>

theorem lrpc_fifo:
  assumes "lrpc_init_out sz = Inr out" "lrpc_init_in sz = Inr inn"
    and "\<forall>m. Put m \<in> set ops \<longrightarrow> lrpc_msg_ok m"
    and "fifo_run lrpc_put lrpc_get ops (zero_shm, out, inn) = (acc, del, q)"
  shows "acc = del @ lrpc_items q \<and> length (lrpc_items q) \<le> unat sz"
proof -
  from lrpc_init_ok [OF assms(1,2)] obtain k where k: "k < 32" "sz = 2 ^ k"
    "chan_ok k zero_shm out inn" "lrpc_items (zero_shm, out, inn) = []" by blast
  note d = chan_okD [OF k(3)]
  from chan.run_fifo [OF d(5) assms(3,4)] chan.bound [of q] d(2) k show ?thesis
    by (simp add: unat_two_power)
qed

theorem lrpc_fifo_witness:
  "\<exists>acc del q. fifo_run lrpc_put lrpc_get [Put (1, 10), Put (2, 20), Get]
     (zero_shm, \<lparr>send_head = 0, send_tail = 0, out_size = 1\<rparr>, \<lparr>recv_head = 0, in_size = 1\<rparr>) = (acc, del, q) \<and>
     acc = del @ lrpc_items q \<and> length (lrpc_items q) \<le> unat (1 :: u32)"
proof -
  have i: "lrpc_init_out 1 = Inr \<lparr>send_head = 0, send_tail = 0, out_size = 1\<rparr>"
    "lrpc_init_in 1 = Inr \<lparr>recv_head = 0, in_size = 1\<rparr>"
    by (simp_all add: lrpc_init_out_def lrpc_init_in_def is_power_of_two_def)
  have m: "\<forall>m. Put m \<in> set [Put (1, 10), Put (2, 20), Get] \<longrightarrow> lrpc_msg_ok m"
    by (simp add: lrpc_msg_ok_def LRPC_DONE_PARITY_def)
  obtain acc del q where r: "fifo_run lrpc_put lrpc_get [Put (1, 10), Put (2, 20), Get]
     (zero_shm, \<lparr>send_head = 0, send_tail = 0, out_size = 1\<rparr>, \<lparr>recv_head = 0, in_size = 1\<rparr>) = (acc, del, q)"
    by (rule prod_cases3)
  from lrpc_fifo [OF i m r] r show ?thesis by blast
qed

end
