(* ===== verification/Timer_Heap.thy ===== *)
theory Timer_Heap
  imports Interfaces
begin

text \<open>
  The timers of \<^verbatim>\<open>src/vessel/src/runtime/timer.c\<close>: each kthread owns an array that holds a
  4-ary min heap of deadlines, and each timer entry records its position in the array, so
  that a timer can be cancelled from anywhere. A pointer to a timer entry or to a kthread is
  a number; the entries live in one store, which the heaps of all kthreads share.
\<close>

section \<open>The heap\<close>

definition D :: nat where "D = 4"

definition RUNTIME_MAX_TIMERS :: nat where "RUNTIME_MAX_TIMERS = 4096"

record timer_idx =
  deadline_us :: u64
  te :: nat

record timer_entry =
  armed :: bool
  idx :: nat
  fn :: nat
  arg :: u64
  localk :: nat

type_synonym heap = "nat \<Rightarrow> timer_idx"
type_synonym entries = "nat \<Rightarrow> timer_entry"

definition set_idx :: "entries \<Rightarrow> nat \<Rightarrow> nat \<Rightarrow> entries" where
  "set_idx ents e i = ents(e := (ents e)\<lparr>idx := i\<rparr>)"

text \<open>
  The loop of \<^verbatim>\<open>is_valid_heap\<close> from \<open>i\<close> downwards; it stops before it has compared
  position 1 with the root.
\<close>

fun is_valid_heap_loop :: "heap \<Rightarrow> nat \<Rightarrow> bool" where
  "is_valid_heap_loop heap i =
     (if 1 < i then
        (if deadline_us (heap i) < deadline_us (heap ((i - 1) div D)) then False
         else is_valid_heap_loop heap (i - 1))
      else True)"

declare is_valid_heap_loop.simps [simp del]

definition is_valid_heap :: "heap \<Rightarrow> nat \<Rightarrow> bool" where
  "is_valid_heap heap n = is_valid_heap_loop heap (n - 1)"

function sift_up_loop :: "timer_idx \<Rightarrow> heap \<Rightarrow> entries \<Rightarrow> nat \<Rightarrow> heap \<times> entries" where
  "sift_up_loop tmp heap ents i =
     (if 0 < i then
        let p = (i - 1) div D
        in if deadline_us (heap p) \<le> deadline_us tmp then (heap, ents)
           else let heap = heap(i := heap p);
                    ents = set_idx ents (te (heap i)) i;
                    heap = heap(p := tmp);
                    ents = set_idx ents (te (heap p)) p
                in sift_up_loop tmp heap ents p
      else (heap, ents))"
  by pat_completeness auto
termination
  by (relation "measure (\<lambda>(tmp, heap, ents, i). i)") (auto simp: D_def)

declare sift_up_loop.simps [simp del]

definition sift_up :: "heap \<Rightarrow> entries \<Rightarrow> nat \<Rightarrow> heap \<times> entries" where
  "sift_up heap ents i = sift_up_loop (heap i) heap ents i"

text \<open>
  The inner loop of \<^verbatim>\<open>sift_down\<close>: \<open>m\<close> children are left to look at from \<open>j\<close>, \<open>w\<close> is the
  least deadline seen and \<open>c\<close> its position (\<open>None\<close> for \<^verbatim>\<open>INT_MAX\<close>).
\<close>

fun least_child :: "heap \<Rightarrow> nat \<Rightarrow> nat \<Rightarrow> nat \<Rightarrow> u64 \<Rightarrow> nat option \<Rightarrow> nat option" where
  "least_child heap n j 0 w c = c"
| "least_child heap n j (Suc m) w c =
     (if n \<le> j then c
      else if deadline_us (heap j) < w then least_child heap n (Suc j) m (deadline_us (heap j)) (Some j)
      else least_child heap n (Suc j) m w c)"

lemma least_child_range:
  "least_child heap n j m w c = Some x \<Longrightarrow> c = Some x \<or> (j \<le> x \<and> x < n \<and> x < j + m)"
  by (induction heap n j m w c rule: least_child.induct) (fastforce split: if_splits)+

function sift_down_loop :: "timer_idx \<Rightarrow> heap \<Rightarrow> entries \<Rightarrow> nat \<Rightarrow> nat \<Rightarrow> heap \<times> entries" where
  "sift_down_loop tmp heap ents i n =
     (case least_child heap n (i * D + 1) D (deadline_us tmp) None of
        None \<Rightarrow> (heap, ents)
      | Some c \<Rightarrow>
          let heap = heap(i := heap c);
              ents = set_idx ents (te (heap i)) i;
              heap = heap(c := tmp);
              ents = set_idx ents (te (heap c)) c
          in sift_down_loop tmp heap ents c n)"
  by pat_completeness auto
termination
  by (relation "measure (\<lambda>(tmp, heap, ents, i, n). n - i)")
     (auto simp: D_def dest!: least_child_range)

declare sift_down_loop.simps [simp del]

definition sift_down :: "heap \<Rightarrow> entries \<Rightarrow> nat \<Rightarrow> nat \<Rightarrow> heap \<times> entries" where
  "sift_down heap ents i n = sift_down_loop (heap i) heap ents i n"

section \<open>Timers of the kthreads\<close>

record kheap =
  timern :: nat
  timers :: heap
  next_timer_tsc :: u64

record tstate =
  kheaps :: "nat \<Rightarrow> kheap"
  entries :: entries

text \<open>The time base of the runtime: cycles per microsecond and the cycle count at start.\<close>

record tclock =
  cycles_per_us :: u64
  start_tsc :: u64

definition timer_init :: "tstate \<Rightarrow> nat \<Rightarrow> nat \<Rightarrow> u64 \<Rightarrow> tstate" where
  "timer_init st e f a =
     st\<lparr>entries := (entries st)(e := (entries st e)\<lparr>armed := False, fn := f, arg := a\<rparr>)\<rparr>"

definition update_q_ptrs :: "tclock \<Rightarrow> kheap \<Rightarrow> kheap" where
  "update_q_ptrs ck kh =
     kh\<lparr>next_timer_tsc :=
         (if timern kh \<noteq> 0 then deadline_us (timers kh 0) * cycles_per_us ck + start_tsc ck else 0)\<rparr>"

definition timer_earliest_deadline :: "tstate \<Rightarrow> nat \<Rightarrow> u64" where
  "timer_earliest_deadline st k =
     (if timern (kheaps st k) = 0 then 0 else deadline_us (timers (kheaps st k) 0))"

text \<open>\<open>None\<close> where the code stops the program with \<^verbatim>\<open>BUG\<close>.\<close>

definition timer_start_locked :: "tstate \<Rightarrow> nat \<Rightarrow> nat \<Rightarrow> u64 \<Rightarrow> tstate option" where
  "timer_start_locked st k e deadline =
     (if armed (entries st e) then None
      else let kh = kheaps st k; i = timern kh; kh = kh\<lparr>timern := i + 1\<rparr>
           in if RUNTIME_MAX_TIMERS \<le> timern kh then None
              else let heap = (timers kh)(i := \<lparr>deadline_us = deadline, te = e\<rparr>);
                       ents = (entries st)(e := (entries st e)\<lparr>idx := i, localk := k\<rparr>);
                       (heap, ents) = sift_up heap ents i;
                       ents = ents(e := (ents e)\<lparr>armed := True\<rparr>)
                   in Some (st\<lparr>kheaps := (kheaps st)(k := kh\<lparr>timers := heap\<rparr>), entries := ents\<rparr>))"

definition timer_start :: "tclock \<Rightarrow> tstate \<Rightarrow> nat \<Rightarrow> nat \<Rightarrow> u64 \<Rightarrow> tstate option" where
  "timer_start ck st k e deadline =
     (case timer_start_locked st k e deadline of
        None \<Rightarrow> None
      | Some st \<Rightarrow> Some (st\<lparr>kheaps := (kheaps st)(k := update_q_ptrs ck (kheaps st k))\<rparr>))"

text \<open>
  \<^verbatim>\<open>timer_cancel\<close>, with the lock of the kthread that holds the timer taken: the entry's
  \<^verbatim>\<open>localk\<close> is read again under the lock, and the code starts over when it has changed.
  \<open>None\<close> stands for the decrement of a timer count of 0, which would wrap around.
\<close>

definition timer_cancel :: "tclock \<Rightarrow> tstate \<Rightarrow> nat \<Rightarrow> (bool \<times> tstate) option" where
  "timer_cancel ck st e =
     (let k = localk (entries st e)
      in if \<not> armed (entries st e) then Some (False, st)
         else if timern (kheaps st k) = 0 then None
         else let ents = (entries st)(e := (entries st e)\<lparr>armed := False\<rparr>);
                  last = timern (kheaps st k) - 1;
                  kh = (kheaps st k)\<lparr>timern := last\<rparr>;
                  i = idx (ents e)
              in if i = last
                 then Some (True, st\<lparr>kheaps := (kheaps st)(k := update_q_ptrs ck kh), entries := ents\<rparr>)
                 else let heap = (timers kh)(i := timers kh last);
                          ents = set_idx ents (te (heap i)) i;
                          (heap, ents) = sift_up heap ents i;
                          (heap, ents) = sift_down heap ents i last;
                          kh = update_q_ptrs ck (kh\<lparr>timers := heap\<rparr>)
                      in Some (True, st\<lparr>kheaps := (kheaps st)(k := kh), entries := ents\<rparr>))"

text \<open>
  One turn of the loop of \<^verbatim>\<open>timer_softirq_one\<close> up to the release of the lock: the earliest
  timer leaves the heap when its deadline has passed.
\<close>

definition softirq_pop :: "tclock \<Rightarrow> tstate \<Rightarrow> nat \<Rightarrow> u64 \<Rightarrow> (nat \<times> tstate) option" where
  "softirq_pop ck st k now_us =
     (let kh = kheaps st k
      in if 0 < timern kh \<and> deadline_us (timers kh 0) \<le> now_us then
           let i = timern kh - 1;
               kh = kh\<lparr>timern := i\<rparr>;
               e = te (timers kh 0);
               (heap, ents) =
                 (if 0 < i then
                    let heap = (timers kh)(0 := timers kh i);
                        ents = set_idx (entries st) (te (heap 0)) 0
                    in sift_down heap ents 0 i
                  else (timers kh, entries st));
               kh = update_q_ptrs ck (kh\<lparr>timers := heap\<rparr>)
           in Some (e, st\<lparr>kheaps := (kheaps st)(k := kh), entries := ents\<rparr>)
         else None)"

text \<open>The rest of the turn, without the lock: the entry is disarmed, then its handler runs.\<close>

definition disarm :: "tstate \<Rightarrow> nat \<Rightarrow> tstate" where
  "disarm st e = st\<lparr>entries := (entries st)(e := (entries st e)\<lparr>armed := False\<rparr>)\<rparr>"

text \<open>
  The loop: \<open>obs\<close> holds what \<^verbatim>\<open>preempt_needed\<close> and \<^verbatim>\<open>microtime\<close> return at its tests, and
  \<open>handler\<close> is the effect of the handlers on the timers. The result has the entries fired.
\<close>

fun timer_softirq_one ::
    "tclock \<Rightarrow> (nat \<Rightarrow> tstate \<Rightarrow> tstate) \<Rightarrow> nat \<Rightarrow> (bool \<times> u64) list \<Rightarrow> tstate \<Rightarrow> nat list \<times> tstate" where
  "timer_softirq_one ck handler k [] st = ([], st)"
| "timer_softirq_one ck handler k ((preempt, now_us) # obs) st =
     (if preempt then ([], st)
      else case softirq_pop ck st k now_us of
             None \<Rightarrow> ([], st)
           | Some (e, st) \<Rightarrow>
               let (fired, st) = timer_softirq_one ck handler k obs (handler e (disarm st e))
               in (e # fired, st))"

section \<open>Sifting restores the heap\<close>

abbreviation dl :: "heap \<Rightarrow> nat \<Rightarrow> u64" where "dl heap j \<equiv> deadline_us (heap j)"

definition parent :: "nat \<Rightarrow> nat" where "parent j = (j - 1) div D"

lemma parent_eq [simp]: "(j - Suc 0) div D = parent j"
  by (simp add: parent_def)

lemma parent_less [simp]: "0 < j \<Longrightarrow> parent j < j"
  by (auto simp: parent_def D_def)

lemma parent_child: "0 < x \<Longrightarrow> parent x = i \<longleftrightarrow> i * D + 1 \<le> x \<and> x < i * D + 1 + D"
  by (auto simp: parent_def D_def)

definition heap_ok :: "heap \<Rightarrow> nat \<Rightarrow> bool" where
  "heap_ok heap n \<longleftrightarrow> (\<forall>j. 0 < j \<and> j < n \<longrightarrow> dl heap (parent j) \<le> dl heap j)"

text \<open>The heap order holds except at \<open>i\<close>, whose children are not before its parent.\<close>

definition ok_around :: "(nat \<Rightarrow> bool) \<Rightarrow> heap \<Rightarrow> nat \<Rightarrow> nat \<Rightarrow> bool" where
  "ok_around P heap n i \<longleftrightarrow>
     (\<forall>j. 0 < j \<and> j < n \<and> P j \<longrightarrow> dl heap (parent j) \<le> dl heap j) \<and>
     (\<forall>j. 0 < i \<and> 0 < j \<and> j < n \<and> parent j = i \<longrightarrow> dl heap (parent i) \<le> dl heap j)"

abbreviation up_ok where "up_ok heap n i \<equiv> ok_around (\<lambda>j. j \<noteq> i) heap n i"
abbreviation down_ok where "down_ok heap n i \<equiv> ok_around (\<lambda>j. parent j \<noteq> i) heap n i"
abbreviation hole_ok where "hole_ok heap n i \<equiv> ok_around (\<lambda>j. j \<noteq> i \<and> parent j \<noteq> i) heap n i"

definition swap :: "heap \<Rightarrow> nat \<Rightarrow> nat \<Rightarrow> heap" where
  "swap heap i p = heap(i := heap p, p := heap i)"

lemma swap_apply [simp]: "swap heap i p x = (if x = p then heap i else if x = i then heap p else heap x)"
  by (simp add: swap_def)

lemma up_step:
  assumes "hole_ok heap n i" "0 < i" "i < n" "dl heap i < dl heap (parent i)"
  shows "up_ok (swap heap i (parent i)) n (parent i)"
proof -
  let ?p = "parent i"
  have p: "?p < i" using assms(2) by simp
  have o: "dl heap (parent j) \<le> dl heap j" if "0 < j" "j < n" "j \<noteq> i" "parent j \<noteq> i" for j
    using assms(1) that by (simp add: ok_around_def)
  have g: "dl heap ?p \<le> dl heap j" if "0 < j" "j < n" "parent j = i" for j
    using assms(1,2) that by (auto simp: ok_around_def)
  have 1: "dl (swap heap i ?p) (parent j) \<le> dl (swap heap i ?p) j" if j: "0 < j" "j < n" "j \<noteq> ?p" for j
  proof -
    have "parent j \<noteq> j" using parent_less [OF j(1)] by simp
    then show ?thesis using j o [of j] g [of j] assms(4) p by auto
  qed
  have 2: "dl (swap heap i ?p) (parent ?p) \<le> dl (swap heap i ?p) j"
    if j: "0 < ?p" "0 < j" "j < n" "parent j = ?p" for j
  proof -
    have less: "parent ?p < ?p" using j(1) by simp
    moreover from less p have "parent ?p \<noteq> i" by linarith
    ultimately have pp: "dl heap (parent ?p) \<le> dl heap ?p" using o [of ?p] j(1) p assms(3) by auto
    moreover have "j \<noteq> i \<Longrightarrow> dl heap ?p \<le> dl heap j" using o [of j] j p by auto
    moreover have "j \<noteq> ?p" using parent_less [OF j(2)] j(4) by auto
    ultimately show ?thesis using pp less p by auto
  qed
  show ?thesis unfolding ok_around_def using 1 2 by blast
qed

lemma down_step:
  assumes "down_ok heap n i" "c < n" "0 < c" "parent c = i" "dl heap c < dl heap i"
    and least: "\<And>j. 0 < j \<Longrightarrow> j < n \<Longrightarrow> parent j = i \<Longrightarrow> dl heap c \<le> dl heap j"
  shows "down_ok (swap heap i c) n c"
proof -
  have ic: "i < c" using assms(3,4) parent_less [of c] by simp
  have o: "dl heap (parent j) \<le> dl heap j" if "0 < j" "j < n" "parent j \<noteq> i" for j
    using assms(1) that by (simp add: ok_around_def)
  have g: "dl heap (parent i) \<le> dl heap c" if "0 < i"
    using assms(1-4) that by (auto simp: ok_around_def)
  have 1: "dl (swap heap i c) (parent j) \<le> dl (swap heap i c) j" if j: "0 < j" "j < n" "parent j \<noteq> c" for j
  proof -
    have "parent j \<noteq> j" using parent_less [OF j(1)] by simp
    then show ?thesis using j o [of j] g least [of j] assms(4,5) ic by auto
  qed
  have 2: "dl (swap heap i c) (parent c) \<le> dl (swap heap i c) j"
    if j: "0 < j" "j < n" "parent j = c" for j
  proof -
    have "dl heap c \<le> dl heap j" using o [of j] j ic by auto
    moreover have "c < j" using parent_less [OF j(1)] j(3) by simp
    ultimately show ?thesis using assms(4) ic by auto
  qed
  show ?thesis unfolding ok_around_def using 1 2 by blast
qed

definition least_in :: "heap \<Rightarrow> nat \<Rightarrow> (nat \<Rightarrow> bool) \<Rightarrow> bool" where
  "least_in heap x R \<longleftrightarrow> R x \<and> (\<forall>y. R y \<longrightarrow> dl heap x \<le> dl heap y)"

lemma least_child_spec:
  assumes "least_child heap n j m w c = r"
  shows "(r = c \<and> (\<forall>y. j \<le> y \<and> y < j + m \<and> y < n \<longrightarrow> w \<le> dl heap y)) \<or>
    (\<exists>x. r = Some x \<and> dl heap x < w \<and> least_in heap x (\<lambda>y. j \<le> y \<and> y < j + m \<and> y < n))"
  using assms
proof (induction heap n j m w c rule: least_child.induct)
  case (1 heap n j w c)
  then show ?case by auto
next
  case (2 heap n j m w c)
  have range: "j \<le> y \<and> y < j + Suc m \<and> y < n \<longleftrightarrow> (y = j \<and> j < n) \<or> (Suc j \<le> y \<and> y < Suc j + m \<and> y < n)" for y
    by auto
  consider (stop) "n \<le> j" | (hit) "j < n" "dl heap j < w" | (miss) "j < n" "\<not> dl heap j < w" by linarith
  then show ?case
  proof cases
    case stop
    with 2(3) show ?thesis by auto
  next
    case hit
    with 2(3) have r: "least_child heap n (Suc j) m (dl heap j) (Some j) = r" by simp
    from 2(1) [OF _ hit(2) r] hit(1) consider
      "r = Some j" "\<forall>y. Suc j \<le> y \<and> y < Suc j + m \<and> y < n \<longrightarrow> dl heap j \<le> dl heap y"
      | x where "r = Some x" "dl heap x < dl heap j" "least_in heap x (\<lambda>y. Suc j \<le> y \<and> y < Suc j + m \<and> y < n)"
      by fastforce
    then show ?thesis
    proof cases
      case 1
      then have "least_in heap j (\<lambda>y. j \<le> y \<and> y < j + Suc m \<and> y < n)"
        using hit(1) unfolding least_in_def range by auto
      with 1(1) hit(2) show ?thesis by blast
    next
      case 2
      then have "least_in heap x (\<lambda>y. j \<le> y \<and> y < j + Suc m \<and> y < n)"
        unfolding least_in_def range by auto
      with 2(1,2) hit(2) show ?thesis by (blast intro: less_trans)
    qed
  next
    case miss
    with 2(3) have r: "least_child heap n (Suc j) m w c = r" by simp
    from 2(2) [OF _ miss(2) r] miss(1) consider
      "r = c" "\<forall>y. Suc j \<le> y \<and> y < Suc j + m \<and> y < n \<longrightarrow> w \<le> dl heap y"
      | x where "r = Some x" "dl heap x < w" "least_in heap x (\<lambda>y. Suc j \<le> y \<and> y < Suc j + m \<and> y < n)"
      by fastforce
    then show ?thesis
    proof cases
      case 1
      with miss(2) show ?thesis unfolding range by (auto simp: not_less)
    next
      case 2
      with miss(2) have "least_in heap x (\<lambda>y. j \<le> y \<and> y < j + Suc m \<and> y < n)"
        unfolding least_in_def range by (auto simp: not_less)
      with 2(1,2) show ?thesis by blast
    qed
  qed
qed

lemma least_child_cases:
  obtains (none) "least_child heap n (i * D + 1) D w None = None"
      "\<And>j. 0 < j \<Longrightarrow> j < n \<Longrightarrow> parent j = i \<Longrightarrow> w \<le> dl heap j"
  | (some) c where "least_child heap n (i * D + 1) D w None = Some c" "0 < c" "c < n" "parent c = i"
      "dl heap c < w" "\<And>j. 0 < j \<Longrightarrow> j < n \<Longrightarrow> parent j = i \<Longrightarrow> dl heap c \<le> dl heap j"
  using least_child_spec [OF refl, of heap n "i * D + 1" D w None] none some
  by (auto simp: parent_child least_in_def)

text \<open>
  What sifting keeps: the timers in the first \<open>n\<close> positions, the rest of the array, the
  recorded positions, and everything of the entries but the positions of those timers.
\<close>

definition idx_ok :: "heap \<Rightarrow> nat \<Rightarrow> entries \<Rightarrow> bool" where
  "idx_ok heap n ents \<longleftrightarrow> (\<forall>i < n. idx (ents (te (heap i))) = i)"

definition kept :: "nat \<Rightarrow> heap \<Rightarrow> entries \<Rightarrow> heap \<Rightarrow> entries \<Rightarrow> bool" where
  "kept n heap ents heap' ents' \<longleftrightarrow>
     idx_ok heap' n ents' \<and> heap' ` {..<n} = heap ` {..<n} \<and> (\<forall>j. n \<le> j \<longrightarrow> heap' j = heap j) \<and>
     (\<forall>e. ents' e = (ents e)\<lparr>idx := idx (ents' e)\<rparr>) \<and>
     (\<forall>e. e \<notin> te ` heap ` {..<n} \<longrightarrow> ents' e = ents e)"

lemma kept_refl: "idx_ok heap n ents \<Longrightarrow> kept n heap ents heap ents"
  by (simp add: kept_def)

lemma kept_trans: "kept n h0 e0 h1 e1 \<Longrightarrow> kept n h1 e1 h2 e2 \<Longrightarrow> kept n h0 e0 h2 e2"
  unfolding kept_def
  by (intro conjI) (simp_all, metis timer_entry.surjective timer_entry.update_convs(2))

lemma kept_idx: "kept n h0 e0 h1 e1 \<Longrightarrow> idx_ok h1 n e1"
  by (simp add: kept_def)

lemma swap_image: "i < n \<Longrightarrow> p < n \<Longrightarrow> swap heap i p ` {..<n} = heap ` {..<n}"
  by (auto simp: image_iff)

lemma kept_swap:
  assumes ok: "idx_ok heap n ents" and ip: "i < n" "p < n" "i \<noteq> p"
  shows "kept n heap ents (swap heap i p) (set_idx (set_idx ents (te (heap p)) i) (te (heap i)) p)"
proof -
  have ne: "te (heap a) = te (heap b) \<longleftrightarrow> a = b" if "a < n" "b < n" for a b
    using ok that by (metis idx_ok_def)
  have "idx_ok (swap heap i p) n (set_idx (set_idx ents (te (heap p)) i) (te (heap i)) p)"
    using ok ip by (auto simp: idx_ok_def set_idx_def ne)
  then show ?thesis using swap_image [OF ip(1,2), of heap] ip
    by (auto simp: kept_def set_idx_def)
qed

lemma heap_ok_down: "heap_ok heap n \<Longrightarrow> i < n \<Longrightarrow> down_ok heap n i"
proof -
  assume h: "heap_ok heap n" and i: "i < n"
  have "dl heap (parent i) \<le> dl heap j" if "0 < i" "0 < j" "j < n" "parent j = i" for j
    using h i that order_trans [of "dl heap (parent i)" "dl heap i" "dl heap j"]
    by (auto simp: heap_ok_def)
  with h show ?thesis by (auto simp: heap_ok_def ok_around_def)
qed

lemma heap_ok_from_up: "up_ok heap n i \<Longrightarrow> i = 0 \<or> dl heap (parent i) \<le> dl heap i \<Longrightarrow> heap_ok heap n"
  by (auto simp: heap_ok_def ok_around_def)

lemma up_ok_hole: "up_ok heap n i \<Longrightarrow> hole_ok heap n i"
  by (auto simp: ok_around_def)

lemma sift_up_loop_step:
  assumes "0 < i" "dl heap i < dl heap (parent i)"
  shows "sift_up_loop (heap i) heap ents i =
    sift_up_loop (swap heap i (parent i) (parent i)) (swap heap i (parent i))
      (set_idx (set_idx ents (te (heap (parent i))) i) (te (heap i)) (parent i)) (parent i)"
proof -
  have "\<not> dl heap (parent i) \<le> dl heap i" using assms(2) by simp
  with assms(1) show ?thesis by (subst sift_up_loop.simps) (simp add: Let_def swap_def)
qed

lemma sift_up_loop_stop:
  assumes "i = 0 \<or> dl heap (parent i) \<le> dl heap i"
  shows "sift_up_loop (heap i) heap ents i = (heap, ents)"
  using assms by (subst sift_up_loop.simps) (auto simp: Let_def)

lemma sift_up_root: "sift_up heap ents 0 = (heap, ents)"
  by (simp add: sift_up_def sift_up_loop_stop)

lemma sift_up_loop_ok:
  assumes "up_ok heap n i" "i < n" "idx_ok heap n ents" "sift_up_loop (heap i) heap ents i = (heap', ents')"
  shows "heap_ok heap' n \<and> kept n heap ents heap' ents'"
  using assms
proof (induction i arbitrary: heap ents rule: less_induct)
  case (less i)
  show ?case
  proof (cases "i = 0 \<or> dl heap (parent i) \<le> dl heap i")
    case True
    with less.prems sift_up_loop_stop [OF True] heap_ok_from_up [OF less.prems(1) True] show ?thesis
      by (auto intro: kept_refl)
  next
    case False
    let ?p = "parent i" and ?h = "swap heap i (parent i)"
      and ?e = "set_idx (set_idx ents (te (heap (parent i))) i) (te (heap i)) (parent i)"
    have i: "0 < i" "dl heap i < dl heap ?p" using False by auto
    have p: "?p < i" using i by simp
    have k: "kept n heap ents ?h ?e" using less.prems(2,3) p by (intro kept_swap) auto
    have u: "up_ok ?h n ?p" by (rule up_step [OF up_ok_hole [OF less.prems(1)] i(1) less.prems(2) i(2)])
    have "heap_ok heap' n \<and> kept n ?h ?e heap' ents'"
    proof (rule less.IH [OF p u _ kept_idx [OF k]])
      show "?p < n" using p less.prems(2) by simp
      show "sift_up_loop (?h ?p) ?h ?e ?p = (heap', ents')"
        using less.prems(4) unfolding sift_up_loop_step [OF i] .
    qed
    with k show ?thesis by (auto intro: kept_trans)
  qed
qed

lemma sift_up_ok:
  assumes "up_ok heap n i" "i < n" "idx_ok heap n ents" "sift_up heap ents i = (heap', ents')"
  shows "heap_ok heap' n" "kept n heap ents heap' ents'"
  using sift_up_loop_ok [OF assms(1-3)] assms(4) by (auto simp: sift_up_def)

lemma sift_up_hole:
  assumes "hole_ok heap n i" "i < n" "idx_ok heap n ents" "sift_up heap ents i = (heap', ents')"
  shows "down_ok heap' n i \<and> kept n heap ents heap' ents'"
proof (cases "i = 0 \<or> dl heap (parent i) \<le> dl heap i")
  case True
  have "down_ok heap n i" using assms(1) True by (auto simp: ok_around_def)
  with True assms sift_up_loop_stop [OF True] show ?thesis by (auto simp: sift_up_def intro: kept_refl)
next
  case False
  let ?p = "parent i" and ?h = "swap heap i (parent i)"
    and ?e = "set_idx (set_idx ents (te (heap (parent i))) i) (te (heap i)) (parent i)"
  have i: "0 < i" "dl heap i < dl heap ?p" using False by auto
  have p: "?p < i" using i by simp
  have k: "kept n heap ents ?h ?e" using assms(2,3) p by (intro kept_swap) auto
  have "heap_ok heap' n \<and> kept n ?h ?e heap' ents'"
  proof (rule sift_up_loop_ok [OF up_step [OF assms(1) i(1) assms(2) i(2)] _ kept_idx [OF k]])
    show "?p < n" using p assms(2) by simp
    show "sift_up_loop (?h ?p) ?h ?e ?p = (heap', ents')"
      using assms(4) unfolding sift_up_def sift_up_loop_step [OF i] .
  qed
  with k assms(2) show ?thesis by (auto intro: kept_trans heap_ok_down)
qed

lemma sift_down_loop_ok:
  assumes "down_ok heap n i" "i < n" "idx_ok heap n ents" "sift_down_loop (heap i) heap ents i n = (heap', ents')"
  shows "heap_ok heap' n \<and> kept n heap ents heap' ents'"
  using assms
proof (induction "n - i" arbitrary: i heap ents rule: less_induct)
  case less
  show ?case
  proof (cases rule: least_child_cases [of heap n i "dl heap i"])
    case none
    have "heap_ok heap n" using less.prems(1) none(2) by (auto simp: heap_ok_def ok_around_def)
    with less.prems none(1) show ?thesis by (subst (asm) sift_down_loop.simps) (auto intro: kept_refl)
  next
    case (some c)
    let ?h = "swap heap i c" and ?e = "set_idx (set_idx ents (te (heap c)) i) (te (heap i)) c"
    have ic: "i < c" using some(2,4) parent_less [of c] by simp
    have k: "kept n heap ents ?h ?e" using less.prems(2,3) ic some(3) by (intro kept_swap) auto
    have "sift_down_loop (?h c) ?h ?e c n = (heap', ents')"
      using less.prems(4) some(1) by (subst (asm) sift_down_loop.simps) (simp add: Let_def swap_def)
    moreover have "n - c < n - i" using ic some(3) by simp
    ultimately have "heap_ok heap' n \<and> kept n ?h ?e heap' ents'"
      using less.hyps [OF _ down_step [OF less.prems(1) some(3,2,4,5,6)] some(3) kept_idx [OF k]] by blast
    with k show ?thesis by (auto intro: kept_trans)
  qed
qed

lemma sift_down_ok:
  assumes "down_ok heap n i" "i < n" "idx_ok heap n ents" "sift_down heap ents i n = (heap', ents')"
  shows "heap_ok heap' n" "kept n heap ents heap' ents'"
  using sift_down_loop_ok [OF assms(1-3)] assms(4) by (auto simp: sift_down_def)

lemma heap_ok_root: "heap_ok heap n \<Longrightarrow> j < n \<Longrightarrow> dl heap 0 \<le> dl heap j"
proof (induction j rule: less_induct)
  case (less j)
  show ?case
  proof (cases "j = 0")
    case False
    then have p: "parent j < j" by simp
    then have "dl heap 0 \<le> dl heap (parent j)" using less.IH [of "parent j"] less.prems by simp
    also have "\<dots> \<le> dl heap j" using less.prems False by (simp add: heap_ok_def)
    finally show ?thesis .
  qed simp
qed

section \<open>The invariant of the timers\<close>

text \<open>
  A kthread's heap: below the limit, ordered, with consistent positions, and holding armed
  timers that name this kthread. \<open>F\<close> are the entries that a softirq has popped and not yet
  disarmed: they are armed, and in no heap.
\<close>

definition members :: "kheap \<Rightarrow> timer_idx set" where
  "members kh = timers kh ` {..<timern kh}"

definition kh_ok :: "nat set \<Rightarrow> nat \<Rightarrow> kheap \<Rightarrow> entries \<Rightarrow> bool" where
  "kh_ok F k kh ents \<longleftrightarrow>
     timern kh < RUNTIME_MAX_TIMERS \<and> heap_ok (timers kh) (timern kh) \<and>
     idx_ok (timers kh) (timern kh) ents \<and>
     (\<forall>x \<in> members kh. armed (ents (te x)) \<and> localk (ents (te x)) = k \<and> te x \<notin> F)"

definition covered :: "nat set \<Rightarrow> nat \<Rightarrow> kheap \<Rightarrow> entries \<Rightarrow> bool" where
  "covered F k kh ents \<longleftrightarrow>
     (\<forall>e. armed (ents e) \<and> localk (ents e) = k \<and> e \<notin> F \<longrightarrow> e \<in> te ` members kh)"

definition timers_inv :: "nat set \<Rightarrow> tstate \<Rightarrow> bool" where
  "timers_inv F st \<longleftrightarrow>
     (\<forall>k. kh_ok F k (kheaps st k) (entries st) \<and> covered F k (kheaps st k) (entries st)) \<and>
     (\<forall>e \<in> F. armed (entries st e))"

text \<open>The armed timers of a kthread with their deadlines.\<close>

definition pending :: "tstate \<Rightarrow> nat \<Rightarrow> (nat \<times> u64) set" where
  "pending st k = (\<lambda>x. (te x, deadline_us x)) ` members (kheaps st k)"

lemma update_q_ptrs_simps [simp]:
  "timern (update_q_ptrs ck kh) = timern kh" "timers (update_q_ptrs ck kh) = timers kh"
  "members (update_q_ptrs ck kh) = members kh" "kh_ok F k (update_q_ptrs ck kh) ents = kh_ok F k kh ents"
  "covered F k (update_q_ptrs ck kh) ents = covered F k kh ents"
  by (simp_all add: update_q_ptrs_def members_def kh_ok_def covered_def)

lemma timers_inv_update:
  assumes inv: "timers_inv F st" and ok: "kh_ok F' k kh ents" "covered F' k kh ents"
    and F: "\<forall>e \<in> F'. armed (ents e)" "F' \<subseteq> F \<union> {e. localk (entries st e) = k}" "F \<subseteq> F' \<union> {e. \<not> armed (ents e)}"
    and frame: "\<And>e. ents e \<noteq> entries st e \<Longrightarrow>
      (localk (entries st e) = k \<or> \<not> armed (entries st e)) \<and> (localk (ents e) = k \<or> \<not> armed (ents e))"
  shows "timers_inv F' (st\<lparr>kheaps := (kheaps st)(k := kh), entries := ents\<rparr>)"
proof -
  have "kh_ok F' k' (kheaps st k') ents \<and> covered F' k' (kheaps st k') ents" if k': "k' \<noteq> k" for k'
  proof -
    have old: "kh_ok F k' (kheaps st k') (entries st)" "covered F k' (kheaps st k') (entries st)"
      using inv by (auto simp: timers_inv_def)
    have same: "ents (te x) = entries st (te x)" if "x \<in> members (kheaps st k')" for x
      using old(1) that frame [of "te x"] k' by (auto simp: kh_ok_def)
    have "kh_ok F' k' (kheaps st k') ents"
      using old(1) same k' F(2) by (auto simp: kh_ok_def idx_ok_def members_def)
    moreover have "covered F' k' (kheaps st k') ents"
      using old(2) frame k' F(3) unfolding covered_def by (metis (mono_tags) Un_iff mem_Collect_eq subsetD)
    ultimately show ?thesis ..
  qed
  with ok F(1) show ?thesis by (simp add: timers_inv_def)
qed

lemma members_inj:
  assumes "idx_ok (timers kh) (timern kh) ents" "i < timern kh" "j < timern kh"
  shows "te (timers kh i) = te (timers kh j) \<longleftrightarrow> i = j"
  using assms unfolding idx_ok_def by metis

text \<open>Removing the timer at \<open>i\<close>: the last one takes its place.\<close>

lemma members_remove:
  assumes "idx_ok heap (Suc m) ents" "i \<le> m"
  shows "(heap(i := heap m)) ` {..<m} = heap ` {..<Suc m} - {heap i}"
proof -
  have inj: "heap a = heap b \<longleftrightarrow> a = b" if "a < Suc m" "b < Suc m" for a b
    using assms(1) that unfolding idx_ok_def by metis
  show ?thesis
  proof (intro set_eqI iffI)
    fix x assume "x \<in> (heap(i := heap m)) ` {..<m}"
    then obtain j where "j < m" "x = (if j = i then heap m else heap j)" by auto
    then show "x \<in> heap ` {..<Suc m} - {heap i}" using assms(2) by (auto simp: inj)
  next
    fix x assume "x \<in> heap ` {..<Suc m} - {heap i}"
    then obtain j where j: "j < Suc m" "x = heap j" "j \<noteq> i" by auto
    then show "x \<in> (heap(i := heap m)) ` {..<m}"
      using assms(2) by (cases "j = m") (auto simp: image_iff intro: bexI [of _ i] bexI [of _ j])
  qed
qed

lemma idx_ok_remove:
  assumes "idx_ok heap (Suc m) ents" "i < m" "\<And>e. idx (ents' e) = idx (ents e)"
  shows "idx_ok (heap(i := heap m)) m (set_idx ents' (te ((heap(i := heap m)) i)) i)"
proof -
  have inj: "te (heap a) = te (heap b) \<longleftrightarrow> a = b" if "a < Suc m" "b < Suc m" for a b
    using assms(1) that unfolding idx_ok_def by metis
  show ?thesis using assms by (auto simp: idx_ok_def set_idx_def inj)
qed

lemma hole_ok_remove:
  assumes "heap_ok heap (Suc m)" "i < m"
  shows "hole_ok (heap(i := heap m)) m i"
proof -
  have "dl heap (parent i) \<le> dl heap j" if "0 < i" "0 < j" "j < m" "parent j = i" for j
    using heap_ok_down [OF assms(1), of i] that assms(2) by (auto simp: ok_around_def)
  moreover have "parent j \<noteq> j" if "0 < j" for j using parent_less [OF that] by simp
  ultimately show ?thesis using assms by (auto simp: ok_around_def heap_ok_def) 
qed

section \<open>The operations keep the invariant\<close>

lemma kept_entry:
  assumes "kept n heap ents heap' ents'"
  shows "armed (ents' e) = armed (ents e)" "localk (ents' e) = localk (ents e)"
    "ents' e \<noteq> ents e \<Longrightarrow> e \<in> te ` heap ` {..<n}"
proof -
  have eq: "ents' e = (ents e)\<lparr>idx := idx (ents' e)\<rparr>" using assms by (simp add: kept_def)
  show "armed (ents' e) = armed (ents e)" by (subst eq) simp
  show "localk (ents' e) = localk (ents e)" by (subst eq) simp
  show "e \<in> te ` heap ` {..<n}" if "ents' e \<noteq> ents e"
    using assms that unfolding kept_def by blast
qed

lemma timer_start_locked_ok:
  assumes inv: "timers_inv F st" and e: "\<not> armed (entries st e)"
    and room: "Suc (timern (kheaps st k)) < RUNTIME_MAX_TIMERS"
  shows "\<exists>kh ents. timer_start_locked st k e d = Some (st\<lparr>kheaps := (kheaps st)(k := kh), entries := ents\<rparr>) \<and>
    timers_inv F (st\<lparr>kheaps := (kheaps st)(k := kh), entries := ents\<rparr>) \<and>
    members kh = insert \<lparr>deadline_us = d, te = e\<rparr> (members (kheaps st k)) \<and> armed (ents e)"
proof -
  let ?kh = "kheaps st k" and ?new = "\<lparr>deadline_us = d, te = e\<rparr>"
  let ?i = "timern ?kh"
  let ?h = "(timers ?kh)(?i := ?new)" and ?e = "(entries st)(e := (entries st e)\<lparr>idx := ?i, localk := k\<rparr>)"
  have ok: "kh_ok F k ?kh (entries st)" "covered F k ?kh (entries st)" "\<forall>x \<in> F. armed (entries st x)"
    using inv by (auto simp: timers_inv_def)
  have notin: "te x \<noteq> e" if "x \<in> members ?kh" for x using ok(1) e that by (auto simp: kh_ok_def)
  have idx: "idx_ok ?h (Suc ?i) ?e"
    using ok(1) notin by (auto simp: kh_ok_def idx_ok_def members_def less_Suc_eq)
  have "parent j \<noteq> ?i" "parent j < ?i" if "0 < j" "j < Suc ?i" for j
    using parent_less [OF that(1)] that(2) by auto
  then have up: "up_ok ?h (Suc ?i) ?i"
    using ok(1) by (auto simp: ok_around_def kh_ok_def heap_ok_def)
  obtain h' e' where s: "sift_up ?h ?e ?i = (h', e')" by (cases "sift_up ?h ?e ?i")
  note r = sift_up_ok [OF up lessI idx s]
  define kh where "kh = ?kh\<lparr>timern := Suc ?i, timers := h'\<rparr>"
  define ents where "ents = e'(e := (e' e)\<lparr>armed := True\<rparr>)"
  have m: "members kh = insert ?new (members ?kh)"
    using r(2) by (auto simp: kh_def members_def kept_def lessThan_Suc)
  have ents_eq: "armed (ents x) = (x = e \<or> armed (entries st x))" "localk (ents x) = (if x = e then k else localk (entries st x))"
    "idx (ents x) = idx (e' x)" for x
    using kept_entry [OF r(2), of x] by (auto simp: ents_def)
  have "idx_ok h' (Suc ?i) ents" using kept_idx [OF r(2)] by (simp add: idx_ok_def ents_eq)
  moreover have "\<forall>x \<in> members kh. armed (ents (te x)) \<and> localk (ents (te x)) = k \<and> te x \<notin> F"
    using ok(1,3) e by (auto simp: m ents_eq kh_ok_def)
  ultimately have "kh_ok F k kh ents" using r(1) room by (simp add: kh_ok_def) (simp add: kh_def)
  moreover have "covered F k kh ents"
    using ok(2) by (auto simp: covered_def m ents_eq split: if_splits)
  moreover have "(localk (entries st x) = k \<or> \<not> armed (entries st x)) \<and> (localk (ents x) = k \<or> \<not> armed (ents x))"
    if "ents x \<noteq> entries st x" for x
  proof (cases "x = e")
    case False
    then have "x \<in> te ` ?h ` {..<Suc ?i}" using that kept_entry(3) [OF r(2), of x] by (auto simp: ents_def)
    then have "x \<in> te ` members ?kh" using False by (auto simp: members_def lessThan_Suc)
    with ok(1) False show ?thesis by (auto simp: kh_ok_def ents_eq)
  qed (use e in \<open>auto simp: ents_eq\<close>)
  ultimately have "timers_inv F (st\<lparr>kheaps := (kheaps st)(k := kh), entries := ents\<rparr>)"
    using ok(3) e by (intro timers_inv_update [OF inv]) (auto simp: ents_eq)
  moreover have "timer_start_locked st k e d = Some (st\<lparr>kheaps := (kheaps st)(k := kh), entries := ents\<rparr>)"
    using e room s by (simp add: timer_start_locked_def Let_def kh_def ents_def)
  ultimately show ?thesis using m by (intro exI conjI) (auto simp: ents_eq)
qed

text \<open>
  What cancelling the timer at \<open>i\<close> and popping the root have in common, on the heap of one
  kthread: the last timer moves to \<open>i\<close> and is sifted.
\<close>

lemma remove_ok:
  assumes ok: "kh_ok F k kh ents" and n: "timern kh = Suc m" and i: "i \<le> m"
    and kept: "i < m \<Longrightarrow> kept m ((timers kh)(i := timers kh m))
      (set_idx ents' (te (timers kh m)) i) heap'' ents''" "i < m \<Longrightarrow> heap_ok heap'' m"
    and stop: "i = m \<Longrightarrow> heap'' = timers kh \<and> ents'' = ents'"
    and ents': "\<And>x. ents' x = (ents x)\<lparr>armed := armed (ents' x)\<rparr>"
      "\<And>x. x \<noteq> te (timers kh i) \<Longrightarrow> ents' x = ents x"
  shows "members (kh\<lparr>timern := m, timers := heap''\<rparr>) = members kh - {timers kh i}"
    "kh_ok (insert (te (timers kh i)) F) k (kh\<lparr>timern := m, timers := heap''\<rparr>) ents''"
    "\<And>x. armed (ents'' x) = armed (ents' x) \<and> localk (ents'' x) = localk (ents x)"
    "\<And>x. ents'' x \<noteq> ents x \<Longrightarrow> x \<in> te ` members kh"
proof -
  let ?hs = "(timers kh)(i := timers kh m)"
  have idx0: "idx_ok (timers kh) (Suc m) ents" and h0: "heap_ok (timers kh) (Suc m)"
    using ok n by (auto simp: kh_ok_def)
  have im: "?hs ` {..<m} = members kh - {timers kh i}"
    using members_remove [OF idx0 i] n by (simp add: members_def)
  show m: "members (kh\<lparr>timern := m, timers := heap''\<rparr>) = members kh - {timers kh i}"
  proof (cases "i < m")
    case True
    with kept(1) im show ?thesis by (simp add: members_def kept_def)
  next
    case False
    with i stop have "i = m" "heap'' = timers kh" by auto
    then have "?hs ` {..<m} = heap'' ` {..<m}" by (intro image_cong) auto
    with im show ?thesis by (simp add: members_def)
  qed
  show same: "armed (ents'' x) = armed (ents' x) \<and> localk (ents'' x) = localk (ents x)" for x
  proof -
    have "localk (ents' x) = localk (ents x)" by (subst ents'(1)) simp
    moreover have "armed (ents'' x) = armed (ents' x) \<and> localk (ents'' x) = localk (ents' x)"
    proof (cases "i < m")
      case True
      from kept_entry(1,2) [OF kept(1) [OF True], of x] show ?thesis by (simp add: set_idx_def)
    qed (use i stop in auto)
    ultimately show ?thesis by simp
  qed
  show "x \<in> te ` members kh" if "ents'' x \<noteq> ents x" for x
  proof (cases "x = te (timers kh i)")
    case True
    with i n show ?thesis by (auto simp: members_def)
  next
    case False
    then have "ents'' x \<noteq> ents' x" using that ents'(2) by simp
    with i stop have "i < m" by (cases "i = m") auto
    show ?thesis
    proof (cases "x = te (timers kh m)")
      case True
      with n show ?thesis by (auto simp: members_def)
    next
      case False
      then have "x \<in> te ` ?hs ` {..<m}"
        using kept_entry(3) [OF kept(1) [OF \<open>i < m\<close>], of x] \<open>ents'' x \<noteq> ents' x\<close> by (simp add: set_idx_def)
      then show ?thesis unfolding im by auto
    qed
  qed
  have idx: "idx_ok heap'' m ents''"
  proof (cases "i < m")
    case False
    have "idx (ents' x) = idx (ents x)" for x by (subst ents'(1)) simp
    with False i stop idx0 show ?thesis by (simp add: idx_ok_def)
  qed (use kept in \<open>auto simp: kept_def\<close>)
  have hp: "heap_ok heap'' m"
  proof (cases "i < m")
    case False
    with i stop h0 show ?thesis by (simp add: heap_ok_def)
  qed (use kept in auto)
  have ne: "te x \<noteq> te (timers kh i)" if "x \<in> members kh - {timers kh i}" for x
    using that members_inj [of kh ents] idx0 n i by (auto simp: members_def)
  show "kh_ok (insert (te (timers kh i)) F) k (kh\<lparr>timern := m, timers := heap''\<rparr>) ents''"
    using ok idx hp n same ents'(2) ne unfolding kh_ok_def m by auto
qed

lemma kh_ok_subset: "kh_ok F k kh ents \<Longrightarrow> F' \<subseteq> F \<Longrightarrow> kh_ok F' k kh ents"
  by (auto simp: kh_ok_def)

lemma timers_inv_member:
  assumes "timers_inv F st" "armed (entries st e)" "e \<notin> F"
  shows "\<exists>m. timern (kheaps st (localk (entries st e))) = Suc m \<and> idx (entries st e) \<le> m \<and>
    te (timers (kheaps st (localk (entries st e))) (idx (entries st e))) = e"
proof -
  let ?kh = "kheaps st (localk (entries st e))"
  from assms have "e \<in> te ` members ?kh" "idx_ok (timers ?kh) (timern ?kh) (entries st)"
    by (auto simp: timers_inv_def covered_def kh_ok_def)
  moreover from this(1) obtain i where "i < timern ?kh" "te (timers ?kh i) = e"
    by (auto simp: members_def)
  ultimately have "idx (entries st e) < timern ?kh" "te (timers ?kh (idx (entries st e))) = e"
    unfolding idx_ok_def by auto
  then show ?thesis by (cases "timern ?kh") auto
qed

lemma timer_cancel_armed:
  assumes inv: "timers_inv F st" and e: "armed (entries st e)" "e \<notin> F"
  defines "k \<equiv> localk (entries st e)"
  shows "\<exists>kh ents. timer_cancel ck st e = Some (True, st\<lparr>kheaps := (kheaps st)(k := kh), entries := ents\<rparr>) \<and>
    timers_inv F (st\<lparr>kheaps := (kheaps st)(k := kh), entries := ents\<rparr>) \<and>
    members kh = members (kheaps st k) - {timers (kheaps st k) (idx (entries st e))} \<and> \<not> armed (ents e)"
proof -
  let ?kh = "kheaps st k" and ?i = "idx (entries st e)"
  let ?e = "(entries st)(e := (entries st e)\<lparr>armed := False\<rparr>)"
  from timers_inv_member [OF inv e] obtain m where
    m: "timern ?kh = Suc m" "?i \<le> m" "te (timers ?kh ?i) = e" by (auto simp: k_def)
  have ok: "kh_ok F k ?kh (entries st)" "covered F k ?kh (entries st)" "\<forall>x \<in> F. armed (entries st x)"
    using inv by (auto simp: timers_inv_def)
  have hp: "heap_ok (timers ?kh) (Suc m)" "idx_ok (timers ?kh) (Suc m) (entries st)"
    using ok(1) m(1) by (auto simp: kh_ok_def)
  let ?hs = "(timers ?kh)(?i := timers ?kh m)" and ?es = "set_idx ?e (te (timers ?kh m)) ?i"
  obtain h1 e1 where s1: "sift_up ?hs ?es ?i = (h1, e1)" by (cases "sift_up ?hs ?es ?i")
  obtain h2 e2 where s2: "sift_down h1 e1 ?i m = (h2, e2)" by (cases "sift_down h1 e1 ?i m")
  define h where "h = (if ?i = m then timers ?kh else h2)"
  define ents where "ents = (if ?i = m then ?e else e2)"
  have lt: "kept m ?hs ?es h2 e2 \<and> heap_ok h2 m" if "?i < m"
  proof -
    have "idx_ok ?hs m ?es" using idx_ok_remove [OF hp(2) that, where ents' = ?e] by simp
    note u = sift_up_hole [OF hole_ok_remove [OF hp(1) that] that this s1]
    note d = sift_down_ok [OF u [THEN conjunct1] that kept_idx [OF u [THEN conjunct2]] s2]
    from d(1) kept_trans [OF u [THEN conjunct2] d(2)] show ?thesis by simp
  qed
  have k: "?i < m \<Longrightarrow> kept m ?hs ?es h ents" "?i < m \<Longrightarrow> heap_ok h m"
    "?i = m \<Longrightarrow> h = timers ?kh \<and> ents = ?e"
    using lt by (simp_all add: h_def ents_def)
  have e': "?e x = (entries st x)\<lparr>armed := armed (?e x)\<rparr>"
    "x \<noteq> te (timers ?kh ?i) \<Longrightarrow> ?e x = entries st x" for x
    by (simp_all add: m(3))
  note r = remove_ok [OF ok(1) m(1,2) k e']
  define kh where "kh = update_q_ptrs ck (?kh\<lparr>timern := m, timers := h\<rparr>)"
  have "timer_cancel ck st e = Some (True, st\<lparr>kheaps := (kheaps st)(k := kh), entries := ents\<rparr>)"
    using e(1) m(1) s1 s2
    by (simp add: timer_cancel_def Let_def k_def [symmetric] kh_def h_def ents_def)
  moreover have "timers_inv F (st\<lparr>kheaps := (kheaps st)(k := kh), entries := ents\<rparr>)"
  proof (rule timers_inv_update [OF inv])
    show "kh_ok F k kh ents" using kh_ok_subset [OF r(2), of F] by (auto simp: kh_def)
    show "covered F k kh ents"
      unfolding covered_def
    proof (intro allI impI)
      fix x assume x: "armed (ents x) \<and> localk (ents x) = k \<and> x \<notin> F"
      then have "x \<noteq> e" "x \<in> te ` members ?kh"
        using r(3) [of x] ok(2) by (auto simp: covered_def split: if_splits)
      then show "x \<in> te ` members kh" using r(1) m(3) by (auto simp: kh_def)
    qed
    show "\<forall>x \<in> F. armed (ents x)" using ok(3) e(2) r(3) by auto
    show "(localk (entries st x) = k \<or> \<not> armed (entries st x)) \<and> (localk (ents x) = k \<or> \<not> armed (ents x))"
      if "ents x \<noteq> entries st x" for x
      using r(3,4) [of x] that ok(1) by (auto simp: kh_ok_def)
  qed auto
  moreover have "members kh = members ?kh - {timers ?kh ?i}" using r(1) by (simp add: kh_def)
  moreover have "\<not> armed (ents e)" using r(3) [of e] by simp
  ultimately show ?thesis by blast
qed

lemma softirq_pop_ok:
  assumes inv: "timers_inv F st" and p: "softirq_pop ck st k now = Some (e, st')"
  shows "timers_inv (insert e F) st'" "kheaps st k' = kheaps st' k' \<or> k' = k"
    "members (kheaps st' k) = members (kheaps st k) - {timers (kheaps st k) 0}"
    "timers (kheaps st k) 0 \<in> members (kheaps st k)" "e = te (timers (kheaps st k) 0)"
    "deadline_us (timers (kheaps st k) 0) \<le> now" "\<And>x. x \<in> members (kheaps st k) \<Longrightarrow>
       deadline_us (timers (kheaps st k) 0) \<le> deadline_us x"
    "localk (entries st' e) = k \<and> idx (entries st' e) = 0"
proof -
  let ?kh = "kheaps st k"
  from p obtain m where m: "timern ?kh = Suc m" and now: "deadline_us (timers ?kh 0) \<le> now"
    by (cases "timern ?kh") (auto simp: softirq_pop_def Let_def split: if_splits)
  have ok: "kh_ok F k ?kh (entries st)" "covered F k ?kh (entries st)" "\<forall>x \<in> F. armed (entries st x)"
    using inv by (auto simp: timers_inv_def)
  have hp: "heap_ok (timers ?kh) (Suc m)" "idx_ok (timers ?kh) (Suc m) (entries st)"
    using ok(1) m(1) by (auto simp: kh_ok_def)
  let ?hs = "(timers ?kh)(0 := timers ?kh m)" and ?es = "set_idx (entries st) (te (timers ?kh m)) 0"
  obtain h1 e1 where s: "sift_down ?hs ?es 0 m = (h1, e1)" by (cases "sift_down ?hs ?es 0 m")
  define h where "h = (if m = 0 then timers ?kh else h1)"
  define ents where "ents = (if m = 0 then entries st else e1)"
  have lt: "kept m ?hs ?es h1 e1 \<and> heap_ok h1 m" if "0 < m"
  proof -
    have "idx_ok ?hs m ?es" using idx_ok_remove [OF hp(2) that, where ents' = "entries st"] by simp
    moreover have "down_ok ?hs m 0" using hole_ok_remove [OF hp(1) that] by (auto simp: ok_around_def)
    ultimately show ?thesis using sift_down_ok [OF _ that _ s] by auto
  qed
  have kp: "0 < m \<Longrightarrow> kept m ?hs ?es h ents" "0 < m \<Longrightarrow> heap_ok h m"
    "0 = m \<Longrightarrow> h = timers ?kh \<and> ents = entries st"
    using lt by (simp_all add: h_def ents_def)
  have e': "entries st x = (entries st x)\<lparr>armed := armed (entries st x)\<rparr>" for x by simp
  note r = remove_ok [OF ok(1) m(1) le0 kp e' refl]
  define kh where "kh = update_q_ptrs ck (?kh\<lparr>timern := m, timers := h\<rparr>)"
  have "softirq_pop ck st k now =
      Some (te (timers ?kh 0), st\<lparr>kheaps := (kheaps st)(k := kh), entries := ents\<rparr>)"
    using m now s by (cases "m = 0") (simp_all add: softirq_pop_def Let_def kh_def h_def ents_def)
  with p have st': "e = te (timers ?kh 0)" "st' = st\<lparr>kheaps := (kheaps st)(k := kh), entries := ents\<rparr>"
    by simp_all
  show e: "timers ?kh 0 \<in> members ?kh" using m by (auto simp: members_def)
  show "e = te (timers ?kh 0)" by (rule st')
  show "deadline_us (timers ?kh 0) \<le> now" by (rule now)
  show "deadline_us (timers ?kh 0) \<le> deadline_us x" if "x \<in> members ?kh" for x
    using that heap_ok_root [OF hp(1)] m by (auto simp: members_def)
  have "idx (ents e) = 0"
  proof (cases "m = 0")
    case True
    with hp(2) st'(1) show ?thesis by (simp add: ents_def idx_ok_def)
  next
    case False
    have ne: "te (timers ?kh j) \<noteq> e" if "0 < j" "j < Suc m" for j
      using hp(2) that st'(1) unfolding idx_ok_def by (metis gr_implies_not0 zero_less_Suc)
    have "e \<notin> te ` ?hs ` {..<m}"
    proof
      assume "e \<in> te ` ?hs ` {..<m}"
      then obtain j where "j < m" "e = te (timers ?kh (if j = 0 then m else j))" by (auto split: if_splits)
      with ne [of "if j = 0 then m else j"] False show False by (auto split: if_splits)
    qed
    then have "ents e = ?es e" using kept_entry(3) [OF kp(1)] False by blast
    also have "\<dots> = entries st e" using ne [of m] False by (simp add: set_idx_def)
    finally show ?thesis using hp(2) st'(1) by (simp add: idx_ok_def)
  qed
  then show "localk (entries st' e) = k \<and> idx (entries st' e) = 0"
    using r(3) [of e] ok(1) e st' by (simp add: kh_ok_def)
  show "kheaps st k' = kheaps st' k' \<or> k' = k" by (simp add: st')
  show "members (kheaps st' k) = members ?kh - {timers ?kh 0}" using r(1) by (simp add: st' kh_def)
  show "timers_inv (insert e F) st'"
    unfolding st'(2)
  proof (rule timers_inv_update [OF inv])
    show "kh_ok (insert e F) k kh ents" using r(2) by (simp add: kh_def st'(1))
    show "covered (insert e F) k kh ents"
      unfolding covered_def
    proof (intro allI impI)
      fix x assume x: "armed (ents x) \<and> localk (ents x) = k \<and> x \<notin> insert e F"
      then have "x \<noteq> e" "x \<in> te ` members ?kh" using r(3) [of x] ok(2) by (auto simp: covered_def)
      then show "x \<in> te ` members kh" using r(1) st'(1) by (auto simp: kh_def)
    qed
    show "\<forall>x \<in> insert e F. armed (ents x)" using ok r(3) e st'(1) by (auto simp: kh_ok_def)
    show "insert e F \<subseteq> F \<union> {x. localk (entries st x) = k}" using ok(1) e st'(1) by (auto simp: kh_ok_def)
    show "(localk (entries st x) = k \<or> \<not> armed (entries st x)) \<and> (localk (ents x) = k \<or> \<not> armed (ents x))"
      if "ents x \<noteq> entries st x" for x
      using r(3,4) [of x] that ok(1) by (auto simp: kh_ok_def)
  qed auto
qed

lemma softirq_pop_None:
  assumes inv: "timers_inv F st"
  shows "softirq_pop ck st k now = None \<longleftrightarrow> (\<forall>x \<in> members (kheaps st k). now < deadline_us x)"
proof -
  have hp: "heap_ok (timers (kheaps st k)) (timern (kheaps st k))"
    using inv by (auto simp: timers_inv_def kh_ok_def)
  have "softirq_pop ck st k now = None \<longleftrightarrow>
      \<not> (0 < timern (kheaps st k) \<and> deadline_us (timers (kheaps st k) 0) \<le> now)"
    by (simp add: softirq_pop_def Let_def split: prod.splits)
  also have "\<dots> \<longleftrightarrow> (\<forall>x \<in> members (kheaps st k). now < deadline_us x)"
  proof (cases "timern (kheaps st k)")
    case (Suc m)
    have "deadline_us (timers (kheaps st k) 0) \<le> now \<longleftrightarrow> \<not> (\<forall>i < Suc m. now < deadline_us (timers (kheaps st k) i))"
    proof
      assume "deadline_us (timers (kheaps st k) 0) \<le> now"
      then show "\<not> (\<forall>i < Suc m. now < deadline_us (timers (kheaps st k) i))"
        by (auto simp: not_less intro!: exI [of _ 0])
    next
      assume "\<not> (\<forall>i < Suc m. now < deadline_us (timers (kheaps st k) i))"
      then obtain i where i: "i < Suc m" "deadline_us (timers (kheaps st k) i) \<le> now" by (auto simp: not_less)
      with heap_ok_root [OF hp, of i] Suc show "deadline_us (timers (kheaps st k) 0) \<le> now" by simp
    qed
    with Suc show ?thesis by (auto simp: members_def)
  qed (simp add: members_def)
  finally show ?thesis .
qed

lemma disarm_ok:
  assumes "timers_inv (insert e F) st" "e \<notin> F"
  shows "timers_inv F (disarm st e)"
proof -
  have "kh_ok F k (kheaps st k) ((entries st)(e := (entries st e)\<lparr>armed := False\<rparr>)) \<and>
      covered F k (kheaps st k) ((entries st)(e := (entries st e)\<lparr>armed := False\<rparr>))" for k
  proof -
    have ok: "kh_ok (insert e F) k (kheaps st k) (entries st)" "covered (insert e F) k (kheaps st k) (entries st)"
      using assms(1) by (auto simp: timers_inv_def)
    have "kh_ok F k (kheaps st k) ((entries st)(e := (entries st e)\<lparr>armed := False\<rparr>))"
      using ok(1) by (auto simp: kh_ok_def idx_ok_def)
    moreover have "covered F k (kheaps st k) ((entries st)(e := (entries st e)\<lparr>armed := False\<rparr>))"
      using ok(2) by (auto simp: covered_def split: if_splits)
    ultimately show ?thesis ..
  qed
  with assms show ?thesis by (auto simp: timers_inv_def disarm_def)
qed

lemma disarm_pending [simp]: "pending (disarm st e) k = pending st k" "kheaps (disarm st e) = kheaps st"
  by (simp_all add: pending_def disarm_def)

lemma finite_pending: "finite (pending st k)"
  by (simp add: pending_def members_def)

lemma pending_remove:
  assumes ok: "kh_ok F k kh ents" and x: "x \<in> members kh"
  shows "(\<lambda>x. (te x, deadline_us x)) ` (members kh - {x}) = (\<lambda>x. (te x, deadline_us x)) ` members kh - {(te x, deadline_us x)}"
proof -
  have "y = x" if "y \<in> members kh" "te y = te x" for y
    using that x members_inj [of kh ents] ok by (auto simp: members_def kh_ok_def)
  then show ?thesis using x by auto
qed

text \<open>One whole turn of the softirq loop, when nothing runs between the two halves.\<close>

definition pop_fire :: "tclock \<Rightarrow> nat \<Rightarrow> u64 \<Rightarrow> tstate \<Rightarrow> (nat \<times> tstate) option" where
  "pop_fire ck k now st =
     (case softirq_pop ck st k now of None \<Rightarrow> None | Some (e, st') \<Rightarrow> Some (e, disarm st' e))"

interpretation tq: deadline_queue "\<lambda>st. pending st k" "timers_inv {}" "pop_fire ck k"
proof
  fix st now e st'
  assume inv: "timers_inv {} st"
  then have ok: "kh_ok {} k (kheaps st k) (entries st)" by (auto simp: timers_inv_def)
  show "finite (pending st k)" by (rule finite_pending)
  show "pop_fire ck k now st = None \<longleftrightarrow> (\<forall>x \<in> pending st k. now < snd x)"
    using softirq_pop_None [OF inv, of ck k now] by (auto simp: pop_fire_def pending_def split: option.splits)
  assume "pop_fire ck k now st = Some (e, st')"
  then obtain st1 where p: "softirq_pop ck st k now = Some (e, st1)" and st': "st' = disarm st1 e"
    by (auto simp: pop_fire_def split: option.splits)
  note r = softirq_pop_ok [OF inv p]
  let ?d = "deadline_us (timers (kheaps st k) 0)"
  have "timers_inv {} st'" using disarm_ok [of e "{}" st1] r(1) by (simp add: st')
  moreover have "(e, ?d) \<in> pending st k" using r(4,5) by (auto simp: pending_def)
  moreover have "pending st' k = pending st k - {(e, ?d)}"
    using pending_remove [OF ok r(4)] r(3,5) by (simp add: st' pending_def [of st1] pending_def [of st])
  moreover have "\<forall>x \<in> pending st k. ?d \<le> snd x" using r(7) by (auto simp: pending_def)
  ultimately show "timers_inv {} st' \<and> (\<exists>d. (e, d) \<in> pending st k \<and> d \<le> now \<and>
      pending st' k = pending st k - {(e, d)} \<and> (\<forall>x \<in> pending st k. d \<le> snd x))"
    using r(6) by blast
qed

lemma softirq_one_drain:
  "timer_softirq_one ck (\<lambda>_ st. st) k (replicate n (False, now)) st = drain (pop_fire ck k) now n st"
  by (induction n arbitrary: st) (auto simp: pop_fire_def split: option.splits)

section \<open>Runs\<close>

text \<open>
  The operations on the timers in any order, with the softirq's turn split where it releases
  the lock. Cancelling a timer the softirq has popped and not yet disarmed is left out here:
  see \<open>cancel_of_popped_timer\<close> below.
\<close>

inductive tstep :: "tclock \<Rightarrow> nat set \<times> tstate \<Rightarrow> nat set \<times> tstate \<Rightarrow> bool" for ck where
  init: "\<not> armed (entries st e) \<Longrightarrow> tstep ck (F, st) (F, timer_init st e f a)"
| start: "timer_start ck st k e d = Some st' \<Longrightarrow> tstep ck (F, st) (F, st')"
| cancel: "e \<notin> F \<Longrightarrow> timer_cancel ck st e = Some (b, st') \<Longrightarrow> tstep ck (F, st) (F, st')"
| pop: "softirq_pop ck st k now = Some (e, st') \<Longrightarrow> tstep ck (F, st) (insert e F, st')"
| fire: "e \<in> F \<Longrightarrow> tstep ck (F, st) (F - {e}, disarm st e)"

inductive_cases tstepE: "tstep ck (F, st) (F', st')"

lemma timers_inv_kheap:
  assumes "timers_inv F st" "members kh = members (kheaps st k)" "timern kh = timern (kheaps st k)"
    "timers kh = timers (kheaps st k)"
  shows "timers_inv F (st\<lparr>kheaps := (kheaps st)(k := kh)\<rparr>)"
  using assms by (auto simp: timers_inv_def kh_ok_def covered_def)

lemma timer_start_ok:
  assumes inv: "timers_inv F st" and s: "timer_start ck st k e d = Some st'"
  shows "timers_inv F st'" "\<not> armed (entries st e)" "armed (entries st' e)"
    "pending st' k' = (if k' = k then insert (e, d) (pending st k) else pending st k')"
    "next_timer_tsc (kheaps st' k) = timer_earliest_deadline st' k * cycles_per_us ck + start_tsc ck"
proof -
  have pre: "\<not> armed (entries st e)" "Suc (timern (kheaps st k)) < RUNTIME_MAX_TIMERS"
    using s by (auto simp: timer_start_def timer_start_locked_def Let_def split: if_splits)
  from timer_start_locked_ok [OF inv pre, of d] obtain kh ents where
    r: "timer_start_locked st k e d = Some (st\<lparr>kheaps := (kheaps st)(k := kh), entries := ents\<rparr>)"
    "timers_inv F (st\<lparr>kheaps := (kheaps st)(k := kh), entries := ents\<rparr>)"
    "members kh = insert \<lparr>deadline_us = d, te = e\<rparr> (members (kheaps st k))" "armed (ents e)" by blast
  have st': "st' = st\<lparr>kheaps := (kheaps st)(k := update_q_ptrs ck kh), entries := ents\<rparr>"
    using s r(1) by (auto simp: timer_start_def)
  show "timers_inv F st'"
    using timers_inv_kheap [OF r(2), of "update_q_ptrs ck kh" k] s r(1) by (auto simp: timer_start_def)
  show "\<not> armed (entries st e)" by (rule pre)
  show "armed (entries st' e)" using r(4) by (simp add: st')
  show "pending st' k' = (if k' = k then insert (e, d) (pending st k) else pending st k')"
    using r(3) by (simp add: st' pending_def)
  have "timern kh \<noteq> 0" using r(3) by (auto simp: members_def)
  then show "next_timer_tsc (kheaps st' k) = timer_earliest_deadline st' k * cycles_per_us ck + start_tsc ck"
    by (simp add: st' update_q_ptrs_def timer_earliest_deadline_def)
qed

lemma pending_filter:
  assumes "\<And>y. y \<in> M \<Longrightarrow> te y = e \<longleftrightarrow> y = z"
  shows "(\<lambda>x. (te x, deadline_us x)) ` (M - {z}) = {p \<in> (\<lambda>x. (te x, deadline_us x)) ` M. fst p \<noteq> e}"
proof (intro set_eqI iffI)
  fix p assume "p \<in> (\<lambda>x. (te x, deadline_us x)) ` (M - {z})"
  then obtain x where "x \<in> M" "x \<noteq> z" "p = (te x, deadline_us x)" by auto
  with assms [of x] show "p \<in> {p \<in> (\<lambda>x. (te x, deadline_us x)) ` M. fst p \<noteq> e}" by auto
next
  fix p assume "p \<in> {p \<in> (\<lambda>x. (te x, deadline_us x)) ` M. fst p \<noteq> e}"
  then obtain x where "x \<in> M" "te x \<noteq> e" "p = (te x, deadline_us x)" by auto
  with assms [of x] show "p \<in> (\<lambda>x. (te x, deadline_us x)) ` (M - {z})" by auto
qed

lemma timer_cancel_ok:
  assumes inv: "timers_inv F st" and e: "e \<notin> F"
  shows "\<exists>st'. timer_cancel ck st e = Some (armed (entries st e), st') \<and> timers_inv F st' \<and>
    \<not> armed (entries st' e) \<and> (\<forall>k. pending st' k = {x \<in> pending st k. fst x \<noteq> e})"
proof (cases "armed (entries st e)")
  case False
  then have "fst x \<noteq> e" if "x \<in> pending st k" for x k
    using inv that by (auto simp: pending_def timers_inv_def kh_ok_def)
  with False inv show ?thesis by (auto simp: timer_cancel_def)
next
  case True
  let ?k = "localk (entries st e)"
  from timer_cancel_armed [OF inv True e, of ck] obtain kh ents where
    r: "timer_cancel ck st e = Some (True, st\<lparr>kheaps := (kheaps st)(?k := kh), entries := ents\<rparr>)"
    "timers_inv F (st\<lparr>kheaps := (kheaps st)(?k := kh), entries := ents\<rparr>)"
    "members kh = members (kheaps st ?k) - {timers (kheaps st ?k) (idx (entries st e))}" "\<not> armed (ents e)"
    by blast
  from timers_inv_member [OF inv True e] have x: "te (timers (kheaps st ?k) (idx (entries st e))) = e"
      "timers (kheaps st ?k) (idx (entries st e)) \<in> members (kheaps st ?k)"
    by (auto simp: members_def)
  have ok: "kh_ok F k (kheaps st k) (entries st)" for k using inv by (auto simp: timers_inv_def)
  have "pending (st\<lparr>kheaps := (kheaps st)(?k := kh), entries := ents\<rparr>) k = {y \<in> pending st k. fst y \<noteq> e}" for k
  proof (cases "k = ?k")
    case True
    have "y = timers (kheaps st ?k) (idx (entries st e))" if "y \<in> members (kheaps st ?k)" "te y = e" for y
    proof -
      from that(1) obtain i where "i < timern (kheaps st ?k)" "y = timers (kheaps st ?k) i"
        by (auto simp: members_def)
      with that(2) ok [of ?k] show ?thesis unfolding kh_ok_def idx_ok_def by metis
    qed
    with x(1) have "te y = e \<longleftrightarrow> y = timers (kheaps st ?k) (idx (entries st e))"
      if "y \<in> members (kheaps st ?k)" for y using that by metis
    from pending_filter [OF this] show ?thesis using True r(3) by (simp add: pending_def)
  next
    case False
    then show ?thesis using ok [of k] by (auto simp: pending_def kh_ok_def)
  qed
  with True r show ?thesis by auto
qed

lemma timer_init_ok:
  assumes "timers_inv F st" "\<not> armed (entries st e)"
  shows "timers_inv F (timer_init st e f a)"
  using assms
  by (auto simp: timers_inv_def timer_init_def kh_ok_def covered_def idx_ok_def members_def split: if_splits)

lemma tstep_ok:
  assumes "tstep ck y y'" "timers_inv (fst y) (snd y)"
  shows "timers_inv (fst y') (snd y')"
  using assms
proof (induction rule: tstep.induct)
  case (init st e F f a)
  then show ?case by (simp add: timer_init_ok)
next
  case (start st k e d st' F)
  then show ?case by (simp add: timer_start_ok(1))
next
  case (cancel e F st b st')
  with timer_cancel_ok [of F st e ck] show ?case by auto
next
  case (pop st k now e st' F)
  then show ?case by (auto intro: softirq_pop_ok(1))
next
  case (fire e F st)
  then show ?case by (auto intro!: disarm_ok simp: insert_absorb)
qed

definition timers_empty :: "tstate \<Rightarrow> bool" where
  "timers_empty st \<longleftrightarrow> (\<forall>k. timern (kheaps st k) = 0) \<and> (\<forall>e. \<not> armed (entries st e))"

lemma timers_empty_ok: "timers_empty st \<Longrightarrow> timers_inv {} st"
  by (simp add: timers_empty_def timers_inv_def kh_ok_def covered_def heap_ok_def idx_ok_def members_def
      RUNTIME_MAX_TIMERS_def)

lemma tsteps_ok: "(tstep ck)\<^sup>*\<^sup>* y y' \<Longrightarrow> timers_inv (fst y) (snd y) \<Longrightarrow> timers_inv (fst y') (snd y')"
  by (induction rule: rtranclp_induct) (auto intro: tstep_ok)

section \<open>Properties\<close>

definition clock0 :: tclock where "clock0 = \<lparr>cycles_per_us = 2, start_tsc = 100\<rparr>"

definition no_timers :: tstate where
  "no_timers = \<lparr>kheaps = (\<lambda>_. \<lparr>timern = 0, timers = (\<lambda>_. \<lparr>deadline_us = 0, te = 0\<rparr>), next_timer_tsc = 0\<rparr>),
     entries = (\<lambda>_. \<lparr>armed = False, idx = 0, fn = 0, arg = 0, localk = 0\<rparr>)\<rparr>"

lemma no_timers_empty: "timers_empty no_timers"
  by (simp add: timers_empty_def no_timers_def)

lemma pending_no_timers: "pending no_timers k = {}"
  by (simp add: pending_def members_def no_timers_def)

lemma timer_start_total:
  "\<not> armed (entries st e) \<Longrightarrow> Suc (timern (kheaps st k)) < RUNTIME_MAX_TIMERS \<Longrightarrow>
   \<exists>st'. timer_start ck st k e d = Some st'"
  by (auto simp: timer_start_def timer_start_locked_def Let_def split: prod.splits)

lemma no_timers_start: "\<exists>st'. timer_start clock0 no_timers 0 e d = Some st'"
  by (rule timer_start_total) (simp_all add: no_timers_def RUNTIME_MAX_TIMERS_def)



text \<open>
  Arming a timer that is not armed adds exactly this timer with its deadline to the
  kthread's pending timers, and publishes the earliest deadline (in cycles) to the iokernel.
\<close>

theorem timer_start_adds:
  assumes "timers_inv F st" "timer_start ck st k e d = Some st'"
  shows "timers_inv F st' \<and> armed (entries st' e) \<and>
    (\<forall>k'. pending st' k' = (if k' = k then insert (e, d) (pending st k) else pending st k')) \<and>
    next_timer_tsc (kheaps st' k) = timer_earliest_deadline st' k * cycles_per_us ck + start_tsc ck \<and>
    (\<forall>x \<in> pending st' k. timer_earliest_deadline st' k \<le> snd x)"
proof -
  note r = timer_start_ok [OF assms]
  have hp: "heap_ok (timers (kheaps st' k)) (timern (kheaps st' k))"
    using r(1) by (auto simp: timers_inv_def kh_ok_def)
  have "timer_earliest_deadline st' k \<le> snd x" if "x \<in> pending st' k" for x
    using that heap_ok_root [OF hp] by (auto simp: timer_earliest_deadline_def pending_def members_def)
  with r show ?thesis by blast
qed

theorem timer_start_adds_witness:
  "\<exists>st'. timer_start clock0 no_timers 0 5 40 = Some st' \<and> pending st' 0 = {(5, 40)}"
proof -
  obtain st' where s: "timer_start clock0 no_timers 0 5 40 = Some st'"
    using no_timers_start by blast
  from timer_start_adds [OF timers_empty_ok [OF no_timers_empty] s] s show ?thesis
    by (auto simp: pending_no_timers)
qed





text \<open>
  C32: the softirq disarms a popped timer only after it has released the lock. A
  cancellation that runs in between finds the timer armed, at the position it no longer has:
  when one other timer is left in the heap, the call reports success and drops that other
  timer, which stays marked armed but is in no heap and never fires.
\<close>

theorem cancel_of_popped_timer:
  assumes "timers_inv F st" "softirq_pop ck st k now = Some (e, st1)" "pending st1 k = {(e2, d2)}"
  shows "\<exists>st2. timer_cancel ck st1 e = Some (True, st2) \<and> pending st2 k = {} \<and> armed (entries st2 e2) \<and> e2 \<noteq> e"
proof -
  note r = softirq_pop_ok [OF assms(1,2)]
  have ok: "kh_ok (insert e F) k (kheaps st1 k) (entries st1)" "armed (entries st1 e)"
    using r(1) by (auto simp: timers_inv_def)
  have "(e2, d2) \<in> pending st1 k" using assms(3) by simp
  then obtain x where "x \<in> members (kheaps st1 k)" "te x = e2" by (auto simp: pending_def)
  then have e2: "e2 \<noteq> e" "armed (entries st1 e2)" using ok(1) by (auto simp: kh_ok_def)
  have "card (pending st1 k) = timern (kheaps st1 k)"
  proof -
    have "inj_on (\<lambda>i. (te (timers (kheaps st1 k) i), dl (timers (kheaps st1 k)) i)) {..<timern (kheaps st1 k)}"
      using ok(1) members_inj [of "kheaps st1 k" "entries st1"] by (auto simp: inj_on_def kh_ok_def)
    then show ?thesis by (simp add: pending_def members_def image_image card_image)
  qed
  then have n: "timern (kheaps st1 k) = 1" using assms(3) by simp
  show ?thesis
    using r(8) ok(2) n e2
    by (auto simp: timer_cancel_def Let_def pending_def members_def)
qed

theorem cancel_of_popped_timer_witness:
  "\<exists>st st1 st2. timers_inv {} st \<and> softirq_pop clock0 st 0 15 = Some (1, st1) \<and>
     timer_cancel clock0 st1 1 = Some (True, st2) \<and> pending st2 0 = {} \<and> armed (entries st2 2)"
proof -
  obtain sa where a: "timer_start clock0 no_timers 0 1 10 = Some sa" using no_timers_start by blast
  note ia = timer_start_ok [OF timers_empty_ok [OF no_timers_empty] a]
  have na: "timern (kheaps sa 0) = 1" "\<not> armed (entries sa 2)"
    using a by (auto simp: timer_start_def timer_start_locked_def no_timers_def Let_def sift_up_root
        RUNTIME_MAX_TIMERS_def update_q_ptrs_def)
  obtain sb where b: "timer_start clock0 sa 0 2 20 = Some sb"
    using timer_start_total [of sa 2 0 clock0 20] na by (auto simp: RUNTIME_MAX_TIMERS_def)
  note ib = timer_start_ok [OF ia(1) b]
  have pb: "pending sb 0 = {(1, 10), (2, 20)}"
    using ia(4) [of 0] ib(4) [of 0] by (auto simp: pending_no_timers)
  have "\<not> (\<forall>x \<in> pending sb 0. 15 < snd x)" by (simp add: pb)
  then have "pop_fire clock0 0 15 sb \<noteq> None" using tq.pop_None [OF ib(1)] by blast
  then obtain e st1 where p: "softirq_pop clock0 sb 0 15 = Some (e, st1)"
    by (cases "softirq_pop clock0 sb 0 15") (auto simp: pop_fire_def)
  then have "pop_fire clock0 0 15 sb = Some (e, disarm st1 e)" by (simp add: pop_fire_def)
  from tq.pop_Some [OF ib(1) this] obtain d where
    d: "(e, d) \<in> pending sb 0" "d \<le> 15" "pending st1 0 = pending sb 0 - {(e, d)}"
    by auto
  from d(1,2) have "e = 1 \<and> d = 10" unfolding pb by auto
  with d(3) have e: "e = 1" "pending st1 0 = {(2, 20)}" unfolding pb by auto
  from cancel_of_popped_timer [OF ib(1) p e(2)] e(1) p ib(1) show ?thesis by blast
qed

lemma valid_heap_loop: "heap_ok heap n \<Longrightarrow> i < n \<Longrightarrow> is_valid_heap_loop heap i"
proof (induction heap i rule: is_valid_heap_loop.induct)
  case (1 heap i)
  show ?case
  proof (cases "1 < i")
    case True
    then have "deadline_us (heap (parent i)) \<le> deadline_us (heap i)" using 1 by (simp add: heap_ok_def)
    then show ?thesis using 1 True by (subst is_valid_heap_loop.simps) simp
  next
    case False
    then show ?thesis by (subst is_valid_heap_loop.simps) simp
  qed
qed

lemma is_valid_heap_complete: "heap_ok heap n \<Longrightarrow> 0 < n \<Longrightarrow> is_valid_heap heap n"
  unfolding is_valid_heap_def by (rule valid_heap_loop) auto

text \<open>
  The debug check \<^verbatim>\<open>is_valid_heap\<close> also accepts an array that is not a heap: its loop
  stops before it compares position 1 with the root.
\<close>

theorem heap_check_misses_root:
  "is_valid_heap (\<lambda>i. \<lparr>deadline_us = (if i = 0 then 7 else 3), te = i\<rparr>) 2 \<and>
   \<not> heap_ok (\<lambda>i. \<lparr>deadline_us = (if i = 0 then 7 else 3), te = i\<rparr>) 2"
  by (auto simp: is_valid_heap_def is_valid_heap_loop.simps heap_ok_def parent_def D_def intro!: exI [of _ 1])

end
