(* ===== verification/Chunk_Mem.thy ===== *)
theory Chunk_Mem
  imports Bitmap
begin

text \<open>
  The chunk allocator of \<^verbatim>\<open>src/vessel/src/core/mem.c\<close> (\<^verbatim>\<open>inc/core/mem.h\<close>): the data
  region of the machine is handed to uProcesses in runs of 1 GB chunks. A bitmap records the
  chunks in use, and a memory descriptor per allocation records the owner and the run. There
  are two such regions, for normal and for huge pages; the code of each is the same text over
  the fields of that region, so that one set of definitions over a \<open>region\<close> serves both.

  Addresses are 64-bit words. The protection system call \<^verbatim>\<open>pkey_mprotect\<close> is a parameter:
  \<open>prot_ok addr len key\<close> tells whether it succeeds.
\<close>

section \<open>State\<close>

definition NMEMD :: nat where "NMEMD = 256"

definition GB :: u64 where "GB = 1024 * 1024 * 1024"

definition VESSEL_MEM_DATA_SIZE_GB :: nat where "VESSEL_MEM_DATA_SIZE_GB = 64"
definition VESSEL_MEM_DATA_HUGE_SIZE_GB :: nat where "VESSEL_MEM_DATA_HUGE_SIZE_GB = 16"
definition VESSEL_CHUNK_NUM :: nat where "VESSEL_CHUNK_NUM = VESSEL_MEM_DATA_SIZE_GB"
definition VESSEL_HUGE_CHUNK_NUM :: nat where "VESSEL_HUGE_CHUNK_NUM = VESSEL_MEM_DATA_SIZE_GB"
definition VESSEL_MEM_BASIC_CHUNK_SIZE :: u64 where "VESSEL_MEM_BASIC_CHUNK_SIZE = GB"
definition VESSEL_MEM_DATA_START :: u64 where "VESSEL_MEM_DATA_START = (2 + 1) * GB"
definition VESSEL_MEM_DATA_HUGE_START :: u64 where
  "VESSEL_MEM_DATA_HUGE_START = (2 + 1 + of_nat VESSEL_MEM_DATA_SIZE_GB) * GB"

record vessel_md_meta =
  md_tid :: int
  md_num :: nat
  md_start :: nat

text \<open>The bitmap, the descriptors and the anchor of one region.\<close>

record region =
  chunk_alloc :: bitmap
  md_list :: "nat \<Rightarrow> vessel_md_meta"
  md_anchor :: nat

record vessel_mem_meta =
  small :: region
  huge :: region

definition md2index :: "nat \<Rightarrow> nat" where "md2index md = md - 1"
definition index2md :: "nat \<Rightarrow> nat" where "index2md i = i + 1"

definition chunkid2ptr :: "nat \<Rightarrow> u64" where
  "chunkid2ptr c = VESSEL_MEM_DATA_START + of_nat c * VESSEL_MEM_BASIC_CHUNK_SIZE"

definition hugechunkid2ptr :: "nat \<Rightarrow> u64" where
  "hugechunkid2ptr c = VESSEL_MEM_DATA_HUGE_START + of_nat c * VESSEL_MEM_BASIC_CHUNK_SIZE"

definition taskid2mpk :: "int \<Rightarrow> int" where "taskid2mpk tid = tid + 2"

section \<open>Descriptors\<close>

fun set_range :: "bitmap \<Rightarrow> nat \<Rightarrow> nat \<Rightarrow> bitmap" where
  "set_range bits pos 0 = bits"
| "set_range bits pos (Suc n) = set_range (bitmap_set bits pos) (Suc pos) n"

fun clear_range :: "bitmap \<Rightarrow> nat \<Rightarrow> nat \<Rightarrow> bitmap" where
  "clear_range bits pos 0 = bits"
| "clear_range bits pos (Suc n) = clear_range (bitmap_clear bits pos) (Suc pos) n"

text \<open>
  \<^verbatim>\<open>alloc_md\<close> and \<^verbatim>\<open>alloc_huge_md\<close>: the first free descriptor from the anchor, going round.
  The caller's list of descriptors grows at its head. The result is 0 when all are in use.
\<close>

definition region_alloc_md :: "region \<Rightarrow> int \<Rightarrow> nat list \<Rightarrow> nat \<Rightarrow> nat \<Rightarrow> nat \<times> region \<times> nat list" where
  "region_alloc_md r tid head num start =
     (case find (\<lambda>cnt. md_tid (md_list r ((md_anchor r + cnt) mod NMEMD)) = 0) [0..<NMEMD] of
        None \<Rightarrow> (0, r, head)
      | Some cnt \<Rightarrow>
          let md = (md_anchor r + cnt) mod NMEMD
          in (index2md md,
              r\<lparr>md_list := (md_list r)(md := \<lparr>md_tid = tid, md_num = num, md_start = start\<rparr>),
                md_anchor := (md + 1) mod NMEMD,
                chunk_alloc := set_range (chunk_alloc r) start num\<rparr>,
              md # head))"

definition alloc_md :: "vessel_mem_meta \<Rightarrow> int \<Rightarrow> nat list \<Rightarrow> nat \<Rightarrow> nat \<Rightarrow> nat \<times> vessel_mem_meta \<times> nat list" where
  "alloc_md t tid head num start =
     (let (md, r, head') = region_alloc_md (small t) tid head num start in (md, t\<lparr>small := r\<rparr>, head'))"

definition alloc_huge_md :: "vessel_mem_meta \<Rightarrow> int \<Rightarrow> nat list \<Rightarrow> nat \<Rightarrow> nat \<Rightarrow> nat \<times> vessel_mem_meta \<times> nat list" where
  "alloc_huge_md t tid head num start =
     (let (md, r, head') = region_alloc_md (huge t) tid head num start in (md, t\<lparr>huge := r\<rparr>, head'))"

text \<open>\<^verbatim>\<open>dealloc_md\<close>; \<open>None\<close> for a descriptor number outside the table, which the code does not check.\<close>

definition dealloc_md :: "vessel_mem_meta \<Rightarrow> int \<Rightarrow> nat \<Rightarrow> nat list \<Rightarrow> (ret \<times> vessel_mem_meta \<times> nat list) option" where
  "dealloc_md t tid md head =
     (if md = 0 \<or> NMEMD < md then None
      else let i = md2index md; r = small t; m = md_list r i
           in if tid \<noteq> md_tid m then Some (Err EACCES, t, head)
              else Some (Ok,
                t\<lparr>small := r\<lparr>md_list := (md_list r)(i := m\<lparr>md_tid := 0\<rparr>),
                            chunk_alloc := clear_range (chunk_alloc r) (md_start m) (md_num m)\<rparr>\<rparr>,
                remove1 i head))"

definition init_mem_meta :: "vessel_mem_meta \<Rightarrow> vessel_mem_meta" where
  "init_mem_meta t =
     \<lparr>small = \<lparr>chunk_alloc = bitmap_init (chunk_alloc (small t)) VESSEL_CHUNK_NUM False,
               md_list = (\<lambda>_. \<lparr>md_tid = 0, md_num = 0, md_start = 0\<rparr>), md_anchor = 0\<rparr>,
      huge = \<lparr>chunk_alloc = bitmap_init (chunk_alloc (huge t)) VESSEL_HUGE_CHUNK_NUM False,
              md_list = (\<lambda>_. \<lparr>md_tid = 0, md_num = 0, md_start = 0\<rparr>), md_anchor = 0\<rparr>\<rparr>"

section \<open>Chunks\<close>

text \<open>
  The loop over the free chunks: \<open>ava\<close> counts the free chunks in a row that end at the
  previous free chunk \<open>preindex\<close>. The result is the last chunk of the first run found.
\<close>

fun chunk_scan :: "nat \<Rightarrow> int \<Rightarrow> nat \<Rightarrow> nat list \<Rightarrow> nat option" where
  "chunk_scan num preindex ava [] = None"
| "chunk_scan num preindex ava (i # is) =
     (let ava = (if preindex \<noteq> int i - 1 \<or> preindex = -1 then 0 else ava);
          ava = ava + 1
      in if ava = num then Some i else chunk_scan num (int i) ava is)"

text \<open>A successful protection: address, length and key.\<close>

type_synonym protection = "(u64 \<times> u64 \<times> int) option"

text \<open>
  \<^verbatim>\<open>alloc_chunk\<close>: the returned pointer (\<open>None\<close> for \<^verbatim>\<open>NULL\<close>), the protection applied,
  the state and the caller's list.
\<close>

definition alloc_chunk ::
    "(u64 \<Rightarrow> u64 \<Rightarrow> int \<Rightarrow> bool) \<Rightarrow> vessel_mem_meta \<Rightarrow> int \<Rightarrow> nat \<Rightarrow> nat list \<Rightarrow>
     u64 option \<times> protection \<times> vessel_mem_meta \<times> nat list" where
  "alloc_chunk prot_ok t tid num head =
     (if VESSEL_CHUNK_NUM - bitmap_popcount (chunk_alloc (small t)) VESSEL_CHUNK_NUM < num
      then (None, None, t, head)
      else case chunk_scan num (-1) 0 (positions_cleared (chunk_alloc (small t)) VESSEL_CHUNK_NUM 0) of
             None \<Rightarrow> (None, None, t, head)
           | Some i \<Rightarrow>
               let (md, t', head') = alloc_md t tid head num (i + 1 - num)
               in if md = 0 then (None, None, t', head')
                  else let res = chunkid2ptr (i + 1 - num);
                           len = VESSEL_MEM_BASIC_CHUNK_SIZE * of_nat num;
                           key = taskid2mpk tid
                       in if \<not> prot_ok res len key then (Some res, None, t', head')
                          else (Some res, Some (res, len, key), t', head'))"

text \<open>
  \<^verbatim>\<open>alloc_huge_chunk\<close>: the outer \<open>None\<close> stands for the endless loop at its failure label,
  which the code enters with the lock held.
\<close>

definition alloc_huge_chunk ::
    "(u64 \<Rightarrow> u64 \<Rightarrow> int \<Rightarrow> bool) \<Rightarrow> vessel_mem_meta \<Rightarrow> int \<Rightarrow> nat \<Rightarrow> nat list \<Rightarrow>
     (u64 option \<times> protection \<times> vessel_mem_meta \<times> nat list) option" where
  "alloc_huge_chunk prot_ok t tid num head =
     (if num = 0 then None
      else if VESSEL_HUGE_CHUNK_NUM - bitmap_popcount (chunk_alloc (huge t)) VESSEL_HUGE_CHUNK_NUM < num then None
      else case chunk_scan num (-1) 0 (positions_cleared (chunk_alloc (huge t)) VESSEL_HUGE_CHUNK_NUM 0) of
             None \<Rightarrow> Some (None, None, t, head)
           | Some i \<Rightarrow>
               let (md, t', head') = alloc_huge_md t tid head num (i + 1 - num)
               in if md = 0 then None
                  else let res = hugechunkid2ptr (i + 1 - num);
                           len = VESSEL_MEM_BASIC_CHUNK_SIZE * of_nat num;
                           key = taskid2mpk tid
                       in if \<not> prot_ok res len key then None
                          else Some (Some res, Some (res, len, key), t', head'))"

definition free_chunk :: "vessel_mem_meta \<Rightarrow> int \<Rightarrow> nat \<Rightarrow> nat list \<Rightarrow> (ret \<times> vessel_mem_meta \<times> nat list) option" where
  "free_chunk t tid md head = dealloc_md t tid md head"

text \<open>\<^verbatim>\<open>exit_mem\<close>: the descriptors of the exiting uProcess are released one after the other.\<close>

fun exit_mem_loop :: "vessel_mem_meta \<Rightarrow> int \<Rightarrow> nat list \<Rightarrow> nat list \<Rightarrow> vessel_mem_meta \<times> nat list" where
  "exit_mem_loop t tid head [] = (t, head)"
| "exit_mem_loop t tid head (i # is) =
     (if md_tid (md_list (small t) i) = tid then
        (case dealloc_md t tid (index2md i) head of
           Some (Ok, t', head') \<Rightarrow> exit_mem_loop t' tid head' is
         | _ \<Rightarrow> (t, head))
      else exit_mem_loop t tid head is)"

definition exit_mem :: "vessel_mem_meta \<Rightarrow> int \<Rightarrow> nat list \<Rightarrow> ret \<times> vessel_mem_meta \<times> nat list" where
  "exit_mem t tid head = (let (t', head') = exit_mem_loop t tid head [0..<NMEMD] in (Ok, t', head'))"

section \<open>The scan finds the first run\<close>

text \<open>The number of free chunks in a row just below \<open>p\<close>.\<close>

primrec runlen :: "(nat \<Rightarrow> bool) \<Rightarrow> nat \<Rightarrow> nat" where
  "runlen busy 0 = 0"
| "runlen busy (Suc p) = (if busy p then 0 else Suc (runlen busy p))"

lemma runlen_ge: "num \<le> runlen busy q \<longleftrightarrow> num \<le> q \<and> (\<forall>p. q - num \<le> p \<and> p < q \<longrightarrow> \<not> busy p)"
proof (induction q arbitrary: num)
  case 0
  then show ?case by auto
next
  case (Suc q)
  show ?case
  proof (cases num)
    case (Suc n)
    have "(\<forall>p. Suc q - Suc n \<le> p \<and> p < Suc q \<longrightarrow> \<not> busy p) \<longleftrightarrow>
        (\<not> busy q \<or> \<not> (Suc q - Suc n \<le> q)) \<and> (\<forall>p. q - n \<le> p \<and> p < q \<longrightarrow> \<not> busy p)"
      by (auto simp: less_Suc_eq)
    then show ?thesis using Suc Suc.IH [of n] by auto
  qed auto
qed

lemma runlen_back: "d \<le> runlen busy q \<Longrightarrow> runlen busy (q - d) = runlen busy q - d"
proof (induction d)
  case (Suc d)
  then have "runlen busy (q - d) = runlen busy q - d" "0 < runlen busy q - d" by auto
  moreover from this obtain p where "q - d = Suc p" by (cases "q - d") auto
  moreover from this have "q - Suc d = p" by simp
  ultimately show ?case using Suc.prems by (auto split: if_splits)
qed simp

definition run_ends :: "(nat \<Rightarrow> bool) \<Rightarrow> nat \<Rightarrow> nat \<Rightarrow> bool" where
  "run_ends busy num i \<longleftrightarrow> runlen busy (Suc i) = num"

lemma chunk_scan_first:
  assumes "0 < num" "pre = int a - 1 \<and> pre \<noteq> -1 \<longrightarrow> ava = runlen busy a"
    "pre \<noteq> int a - 1 \<or> pre = -1 \<longrightarrow> runlen busy a = 0" "pre < int a"
  shows "chunk_scan num pre ava (filter (\<lambda>p. \<not> busy p) [a..<n]) =
    (if first_idx (run_ends busy num) a n < n then Some (first_idx (run_ends busy num) a n) else None)"
  using assms
proof (induction "n - a" arbitrary: a pre ava)
  case 0
  then have "first_idx (run_ends busy num) a n = n" by (simp add: first_idx_def)
  with 0 show ?case by simp
next
  case (Suc m)
  have a: "a < n" "[a..<n] = a # [Suc a..<n]" using Suc.hyps(2) by (auto simp: upt_conv_Cons)
  have m: "m = n - Suc a" using Suc.hyps(2) by simp
  have step: "first_idx P a n = (if P a then a else first_idx P (Suc a) n)" for P
    using a by (simp add: first_idx_def)
  show ?case
  proof (cases "busy a")
    case True
    then have "\<not> run_ends busy num a" using Suc.prems(1) by (simp add: run_ends_def)
    moreover have "chunk_scan num pre ava (filter (\<lambda>p. \<not> busy p) [Suc a..<n]) =
      (if first_idx (run_ends busy num) (Suc a) n < n then Some (first_idx (run_ends busy num) (Suc a) n) else None)"
      using Suc.prems True by (intro Suc.hyps(1) [OF m]) auto
    ultimately show ?thesis using True a(2) step by simp
  next
    case False
    define ava' where "ava' = (if pre \<noteq> int a - 1 \<or> pre = -1 then 0 else ava) + 1"
    have r: "ava' = runlen busy (Suc a)" using False Suc.prems by (auto simp: ava'_def)
    then have "ava' = num \<longleftrightarrow> run_ends busy num a" by (simp add: run_ends_def)
    moreover have "chunk_scan num (int a) ava' (filter (\<lambda>p. \<not> busy p) [Suc a..<n]) =
      (if first_idx (run_ends busy num) (Suc a) n < n then Some (first_idx (run_ends busy num) (Suc a) n) else None)"
      using Suc.prems(1) r by (intro Suc.hyps(1) [OF m]) auto
    moreover have "chunk_scan num pre ava (filter (\<lambda>p. \<not> busy p) [a..<n]) =
        (if ava' = num then Some a else chunk_scan num (int a) ava' (filter (\<lambda>p. \<not> busy p) [Suc a..<n]))"
      using a(2) False by (simp add: Let_def ava'_def)
    ultimately show ?thesis using a(1) step by simp
  qed
qed

text \<open>A run of \<open>num\<close> free chunks that starts at \<open>start\<close>.\<close>

definition free_run :: "bitmap \<Rightarrow> nat \<Rightarrow> nat \<Rightarrow> nat \<Rightarrow> bool" where
  "free_run bits n start num \<longleftrightarrow> start + num \<le> n \<and> (\<forall>p. start \<le> p \<and> p < start + num \<longrightarrow> \<not> bitmap_test bits p)"

lemma free_run_runlen: "free_run bits n start num \<longleftrightarrow> start + num \<le> n \<and> num \<le> runlen (bitmap_test bits) (start + num)"
  by (auto simp: free_run_def runlen_ge)

lemma chunk_scan_Some:
  assumes "chunk_scan num (-1) 0 (positions_cleared bits n 0) = Some i"
  shows "0 < num" "i < n" "free_run bits n (i + 1 - num) num" "num \<le> i + 1"
    "\<And>s. free_run bits n s num \<Longrightarrow> i + 1 - num \<le> s"
proof -
  let ?P = "run_ends (bitmap_test bits) num"
  show pos: "0 < num"
  proof (rule ccontr)
    assume "\<not> 0 < num"
    moreover have "chunk_scan 0 pre ava xs = None" for pre ava xs
      by (induction xs arbitrary: pre ava) (auto simp: Let_def)
    ultimately show False using assms by simp
  qed
  from chunk_scan_first [OF pos, of "-1" 0 0 "bitmap_test bits" n] assms have f: "first_idx ?P 0 n = i" "i < n"
    by (auto simp: positions_cleared_eq split: if_splits)
  then have i: "?P i" "\<And>q. q < i \<Longrightarrow> \<not> ?P q"
    using first_idx_hit [of ?P 0 n] by auto
  show "i < n" by (rule f)
  have "num \<le> runlen (bitmap_test bits) (Suc i)" using i(1) by (simp add: run_ends_def)
  then show "num \<le> i + 1" "free_run bits n (i + 1 - num) num"
    using f(2) unfolding runlen_ge free_run_def by auto
  fix s assume s: "free_run bits n s num"
  let ?r = "runlen (bitmap_test bits) (s + num)"
  have r: "num \<le> ?r" using s by (simp add: free_run_runlen)
  then have "runlen (bitmap_test bits) (s + num - (?r - num)) = num" by (subst runlen_back) auto
  moreover from this obtain q where "s + num - (?r - num) = Suc q"
    using pos by (cases "s + num - (?r - num)") auto
  ultimately have "?P q" "q < s + num" by (auto simp: run_ends_def)
  with i(2) [of q] show "i + 1 - num \<le> s" by (cases "q < i") auto
qed

lemma chunk_scan_None:
  assumes "chunk_scan num (-1) 0 (positions_cleared bits n 0) = None" "0 < num"
  shows "\<not> free_run bits n s num"
proof
  let ?P = "run_ends (bitmap_test bits) num"
  assume s: "free_run bits n s num"
  from chunk_scan_first [OF assms(2), of "-1" 0 0 "bitmap_test bits" n] assms have "\<not> first_idx ?P 0 n < n"
    by (auto simp: positions_cleared_eq split: if_splits)
  then have none: "\<And>q. q < n \<Longrightarrow> \<not> ?P q" using first_idx_miss [of ?P 0 n] by auto
  let ?r = "runlen (bitmap_test bits) (s + num)"
  have r: "num \<le> ?r" "s + num \<le> n" using s by (auto simp: free_run_runlen)
  then have "runlen (bitmap_test bits) (s + num - (?r - num)) = num" by (subst runlen_back) auto
  moreover from this obtain q where "s + num - (?r - num) = Suc q"
    using assms(2) by (cases "s + num - (?r - num)") auto
  ultimately have "?P q" "q < n" using r(2) by (auto simp: run_ends_def)
  with none show False by blast
qed

section \<open>The invariant of a region\<close>

lemma set_range_test [simp]:
  "bitmap_test (set_range bits s n) p \<longleftrightarrow> bitmap_test bits p \<or> (s \<le> p \<and> p < s + n)"
  by (induction bits s n rule: set_range.induct) auto

lemma clear_range_test [simp]:
  "bitmap_test (clear_range bits s n) p \<longleftrightarrow> bitmap_test bits p \<and> \<not> (s \<le> p \<and> p < s + n)"
  by (induction bits s n rule: clear_range.induct) auto

text \<open>Descriptor \<open>i\<close> is in use and holds chunk \<open>p\<close>.\<close>

definition covers :: "region \<Rightarrow> nat \<Rightarrow> nat \<Rightarrow> bool" where
  "covers r i p \<longleftrightarrow> i < NMEMD \<and> md_tid (md_list r i) \<noteq> 0 \<and>
     md_start (md_list r i) \<le> p \<and> p < md_start (md_list r i) + md_num (md_list r i)"

lemma covers_less: "covers r i p \<Longrightarrow> i < NMEMD"
  by (simp add: covers_def)

text \<open>
  A chunk is marked in the bitmap exactly when a descriptor holds it, no two descriptors hold
  the same chunk, and no descriptor reaches past the \<open>n\<close> chunks of the region.
\<close>

definition region_ok :: "nat \<Rightarrow> region \<Rightarrow> bool" where
  "region_ok n r \<longleftrightarrow>
     md_anchor r < NMEMD \<and>
     (\<forall>p < n. bitmap_test (chunk_alloc r) p \<longleftrightarrow> (\<exists>i. covers r i p)) \<and>
     (\<forall>i j p. covers r i p \<and> covers r j p \<longrightarrow> i = j) \<and>
     (\<forall>i p. covers r i p \<longrightarrow> p < n)"

text \<open>The caller's list names exactly its descriptors.\<close>

definition head_ok :: "region \<Rightarrow> int \<Rightarrow> nat list \<Rightarrow> bool" where
  "head_ok r tid head \<longleftrightarrow> distinct head \<and> set head = {i. i < NMEMD \<and> md_tid (md_list r i) = tid}"

lemma NMEMD_pos: "0 < NMEMD"
  by (simp add: NMEMD_def)

lemma region_alloc_md_cases:
  obtains (full) "region_alloc_md r tid head num start = (0, r, head)" "\<forall>i < NMEMD. md_tid (md_list r i) \<noteq> 0"
  | (hit) i where "i < NMEMD" "md_tid (md_list r i) = 0"
      "region_alloc_md r tid head num start =
        (index2md i,
         r\<lparr>md_list := (md_list r)(i := \<lparr>md_tid = tid, md_num = num, md_start = start\<rparr>),
           md_anchor := (i + 1) mod NMEMD, chunk_alloc := set_range (chunk_alloc r) start num\<rparr>, i # head)"
proof (cases "find (\<lambda>cnt. md_tid (md_list r ((md_anchor r + cnt) mod NMEMD)) = 0) [0..<NMEMD]")
  case None
  have "md_tid (md_list r i) \<noteq> 0" if "i < NMEMD" for i
  proof -
    have "(md_anchor r + (i + NMEMD - md_anchor r mod NMEMD) mod NMEMD) mod NMEMD = i"
    proof -
      have "(md_anchor r + (i + NMEMD - md_anchor r mod NMEMD)) mod NMEMD =
          (md_anchor r mod NMEMD + (i + NMEMD - md_anchor r mod NMEMD)) mod NMEMD"
        by (simp add: mod_add_left_eq)
      also have "md_anchor r mod NMEMD + (i + NMEMD - md_anchor r mod NMEMD) = i + NMEMD"
        using mod_less_divisor [OF NMEMD_pos, of "md_anchor r"] by simp
      finally show ?thesis using that by (simp add: mod_add_right_eq)
    qed
    moreover have "(i + NMEMD - md_anchor r mod NMEMD) mod NMEMD < NMEMD" using NMEMD_pos by simp
    ultimately show ?thesis using None by (force simp: find_None_iff)
  qed
  then show ?thesis using None by (intro full) (auto simp: region_alloc_md_def)
next
  case (Some cnt)
  then have "md_tid (md_list r ((md_anchor r + cnt) mod NMEMD)) = 0" by (auto simp: find_Some_iff)
  then show ?thesis using NMEMD_pos Some
    by (intro hit [of "(md_anchor r + cnt) mod NMEMD"]) (simp_all add: region_alloc_md_def Let_def)
qed

lemma region_alloc_md_ok:
  assumes ok: "region_ok n r" and tid: "tid \<noteq> 0" and free: "free_run (chunk_alloc r) n start num"
    and i: "i < NMEMD" "md_tid (md_list r i) = 0"
  defines "r' \<equiv> r\<lparr>md_list := (md_list r)(i := \<lparr>md_tid = tid, md_num = num, md_start = start\<rparr>),
           md_anchor := (i + 1) mod NMEMD, chunk_alloc := set_range (chunk_alloc r) start num\<rparr>"
  shows "region_ok n r'" "covers r' j p \<longleftrightarrow> (j = i \<and> start \<le> p \<and> p < start + num) \<or> covers r j p"
proof -
  show c: "covers r' j p \<longleftrightarrow> (j = i \<and> start \<le> p \<and> p < start + num) \<or> covers r j p" for j p
    using i tid by (auto simp: covers_def r'_def)
  have nc: "\<not> covers r j p" if "start \<le> p" "p < start + num" for j p
    using ok free that unfolding region_ok_def free_run_def by (metis less_le_trans)
  have "md_anchor r' < NMEMD" using NMEMD_pos by (simp add: r'_def)
  moreover have "bitmap_test (chunk_alloc r') p \<longleftrightarrow> (\<exists>j. covers r' j p)" if "p < n" for p
    using ok that unfolding c by (auto simp: region_ok_def r'_def)
  moreover have "j = j'" if "covers r' j p" "covers r' j' p" for j j' p
    using ok that nc [of p] unfolding c region_ok_def by blast
  moreover have "p < n" if "covers r' j p" for j p
    using ok free that unfolding c region_ok_def free_run_def by (metis less_le_trans)
  ultimately show "region_ok n r'" unfolding region_ok_def by blast
qed

lemma dealloc_md_ok:
  assumes ok: "region_ok n (small t)" and tid: "tid \<noteq> 0" and i: "i < NMEMD" "md_tid (md_list (small t) i) = tid"
    and d: "dealloc_md t tid (index2md i) head = Some (res, t', head')"
  shows "res = Ok" "huge t' = huge t" "head' = remove1 i head" "region_ok n (small t')"
    "covers (small t') j p \<longleftrightarrow> covers (small t) j p \<and> j \<noteq> i"
    "md_tid (md_list (small t') j) = (if j = i then 0 else md_tid (md_list (small t) j))"
proof -
  let ?r = "small t" and ?m = "md_list (small t) i"
  have eq: "res = Ok" "head' = remove1 i head" "t' = t\<lparr>small := ?r\<lparr>md_list := (md_list ?r)(i := ?m\<lparr>md_tid := 0\<rparr>),
      chunk_alloc := clear_range (chunk_alloc ?r) (md_start ?m) (md_num ?m)\<rparr>\<rparr>"
    using d i by (auto simp: dealloc_md_def index2md_def md2index_def Let_def split: if_splits)
  show "res = Ok" "huge t' = huge t" "head' = remove1 i head" by (simp_all add: eq)
  show c: "covers (small t') j p \<longleftrightarrow> covers ?r j p \<and> j \<noteq> i" for j p
    by (auto simp: eq covers_def)
  show "md_tid (md_list (small t') j) = (if j = i then 0 else md_tid (md_list ?r j))" by (simp add: eq)
  have run: "covers ?r i p \<longleftrightarrow> md_start ?m \<le> p \<and> p < md_start ?m + md_num ?m" for p
    using i tid by (simp add: covers_def)
  have "bitmap_test (chunk_alloc (small t')) p \<longleftrightarrow> (\<exists>j. covers (small t') j p)" if "p < n" for p
  proof -
    have "bitmap_test (chunk_alloc (small t')) p \<longleftrightarrow> (\<exists>j. covers ?r j p) \<and> \<not> covers ?r i p"
      using ok that by (auto simp: eq run region_ok_def)
    then show ?thesis using ok unfolding c region_ok_def by blast
  qed
  moreover have "md_anchor (small t') < NMEMD" using ok by (simp add: eq region_ok_def)
  moreover have "j = j'" if "covers (small t') j p" "covers (small t') j' p" for j j' p
    using ok that unfolding c region_ok_def by blast
  moreover have "p < n" if "covers (small t') j p" for j p
    using ok that unfolding c region_ok_def by blast
  ultimately show "region_ok n (small t')" unfolding region_ok_def by blast
qed

text \<open>The descriptors of \<open>tid\<close> among \<open>S\<close> are released, everything else is kept.\<close>

definition released :: "vessel_mem_meta \<Rightarrow> int \<Rightarrow> nat set \<Rightarrow> vessel_mem_meta \<Rightarrow> bool" where
  "released t tid S t' \<longleftrightarrow>
     huge t' = huge t \<and>
     (\<forall>j. md_tid (md_list (small t') j) =
        (if j \<in> S \<and> md_tid (md_list (small t) j) = tid then 0 else md_tid (md_list (small t) j))) \<and>
     (\<forall>j p. covers (small t') j p \<longleftrightarrow>
        covers (small t) j p \<and> \<not> (j \<in> S \<and> md_tid (md_list (small t) j) = tid))"

lemma exit_mem_loop_ok:
  assumes "region_ok n (small t)" "tid \<noteq> 0" "set is \<subseteq> {..<NMEMD}" "head_ok (small t) tid head"
    "exit_mem_loop t tid head is = (t', head')"
  shows "released t tid (set is) t' \<and> region_ok n (small t') \<and> head_ok (small t') tid head'"
  using assms
proof (induction "is" arbitrary: t head)
  case Nil
  then show ?case by (auto simp: released_def)
next
  case (Cons i "is")
  show ?case
  proof (cases "md_tid (md_list (small t) i) = tid")
    case False
    with Cons have "released t tid (set is) t' \<and> region_ok n (small t') \<and> head_ok (small t') tid head'"
      by auto
    with False show ?thesis by (auto simp: released_def)
  next
    case True
    have i: "i < NMEMD" using Cons.prems(3) by simp
    obtain res t1 h1 where d: "dealloc_md t tid (index2md i) head = Some (res, t1, h1)"
      using True i by (simp add: dealloc_md_def index2md_def md2index_def Let_def)
    note r = dealloc_md_ok [OF Cons.prems(1,2) i True d]
    have h: "head_ok (small t1) tid h1"
      using Cons.prems(2,4) r(3) by (auto simp: head_ok_def r(6) set_remove1_eq)
    have "exit_mem_loop t1 tid h1 is = (t', head')"
      using Cons.prems(5) True d r(1) by simp
    from Cons.IH [OF r(4) Cons.prems(2) _ h this] Cons.prems(3)
    have "released t1 tid (set is) t'" "region_ok n (small t') \<and> head_ok (small t') tid head'" by auto
    moreover from this(1) have "released t tid (set (i # is)) t'"
      using r(2,5,6) True Cons.prems(2) by (auto simp: released_def)
    ultimately show ?thesis by blast
  qed
qed

lemma popcount_free_run:
  assumes "free_run bits 64 start num"
  shows "num \<le> 64 - bitmap_popcount bits 64"
proof -
  let ?S = "{p. p < 64 \<and> bitmap_test bits p}" and ?R = "{start..<start + num}"
  have pc: "bitmap_popcount bits 64 = card ?S"
    by (simp add: bitmap_popcount_def popcount_loop_eq BITMAP_LONG_SIZE_def BITS_PER_LONG_def div_up_def)
  have "card (?S \<union> ?R) = card ?S + card ?R"
    using assms by (intro card_Un_disjoint) (auto simp: free_run_def)
  moreover have "?S \<union> ?R \<subseteq> {..<64}" using assms by (auto simp: free_run_def)
  then have "card (?S \<union> ?R) \<le> card {..<64::nat}" by (intro card_mono) auto
  ultimately show ?thesis using pc by simp
qed

lemma chunk_nums [simp]: "VESSEL_CHUNK_NUM = 64" "VESSEL_HUGE_CHUNK_NUM = 64"
  by (simp_all add: VESSEL_CHUNK_NUM_def VESSEL_HUGE_CHUNK_NUM_def VESSEL_MEM_DATA_SIZE_GB_def)

lemma index2md_not_0 [simp]: "index2md i \<noteq> 0"
  by (simp add: index2md_def)

lemma alloc_chunk_cases:
  obtains (none) "alloc_chunk prot_ok t tid num head = (None, None, t, head)"
      "num = 0 \<or> (\<forall>s. \<not> free_run (chunk_alloc (small t)) 64 s num) \<or> (\<forall>i < NMEMD. md_tid (md_list (small t) i) \<noteq> 0)"
  | (some) start i where "free_run (chunk_alloc (small t)) 64 start num"
      "\<And>s. free_run (chunk_alloc (small t)) 64 s num \<Longrightarrow> start \<le> s"
      "i < NMEMD" "md_tid (md_list (small t) i) = 0"
      "alloc_chunk prot_ok t tid num head =
        (Some (chunkid2ptr start),
         (if prot_ok (chunkid2ptr start) (VESSEL_MEM_BASIC_CHUNK_SIZE * of_nat num) (taskid2mpk tid)
          then Some (chunkid2ptr start, VESSEL_MEM_BASIC_CHUNK_SIZE * of_nat num, taskid2mpk tid) else None),
         t\<lparr>small := (small t)\<lparr>md_list := (md_list (small t))(i := \<lparr>md_tid = tid, md_num = num, md_start = start\<rparr>),
           md_anchor := (i + 1) mod NMEMD, chunk_alloc := set_range (chunk_alloc (small t)) start num\<rparr>\<rparr>, i # head)"
proof (cases "64 - bitmap_popcount (chunk_alloc (small t)) 64 < num")
  case True
  then show ?thesis
    using popcount_free_run [of "chunk_alloc (small t)" _ num]
    by (intro none) (auto simp: alloc_chunk_def not_le [symmetric])
next
  case pc: False
  show ?thesis
  proof (cases "chunk_scan num (-1) 0 (positions_cleared (chunk_alloc (small t)) 64 0)")
    case None
    with pc chunk_scan_None [OF None] show ?thesis by (intro none) (auto simp: alloc_chunk_def)
  next
    case (Some x)
    note c = chunk_scan_Some [OF Some]
    show ?thesis
    proof (cases rule: region_alloc_md_cases [of "small t" tid head num "x + 1 - num"])
      case full
      with pc Some show ?thesis by (intro none) (auto simp: alloc_chunk_def alloc_md_def)
    next
      case (hit i)
      with pc Some c(3,5) show ?thesis
        by (intro some [of "x + 1 - num" i]) (simp_all add: alloc_chunk_def alloc_md_def Let_def)
    qed
  qed
qed

lemma init_region_ok: "region_ok 64 (small (init_mem_meta t)) \<and> region_ok 64 (huge (init_mem_meta t))"
  using NMEMD_pos by (simp add: region_ok_def covers_def init_mem_meta_def)

lemma init_head_ok: "tid \<noteq> 0 \<Longrightarrow> head_ok (small (init_mem_meta t)) tid []"
  by (simp add: head_ok_def init_mem_meta_def)

text \<open>Zeroed shared memory.\<close>

definition zero_meta :: vessel_mem_meta where
  "zero_meta =
     (let r = \<lparr>chunk_alloc = \<lambda>_. 0, md_list = \<lambda>_. \<lparr>md_tid = 0, md_num = 0, md_start = 0\<rparr>, md_anchor = 0\<rparr>
      in \<lparr>small = r, huge = r\<rparr>)"

section \<open>Properties\<close>

text \<open>
  C5: a pointer that \<^verbatim>\<open>alloc_chunk\<close> returns is the start of the lowest run of \<open>num\<close> free
  chunks; a descriptor that was free now records the run for the caller, heads the caller's
  list, and no other uProcess's chunks are touched: bitmap and descriptors stay consistent
  and no chunk ever has two owners.
\<close>

theorem alloc_chunk_exclusive:
  assumes "region_ok 64 (small t)" "head_ok (small t) tid head" "tid \<noteq> 0" "0 < num"
    and "alloc_chunk prot_ok t tid num head = (Some ptr, pr, t', head')"
  shows "\<exists>start i. ptr = chunkid2ptr start \<and> free_run (chunk_alloc (small t)) 64 start num \<and>
    (\<forall>s. free_run (chunk_alloc (small t)) 64 s num \<longrightarrow> start \<le> s) \<and>
    region_ok 64 (small t') \<and> head_ok (small t') tid head' \<and> huge t' = huge t \<and>
    (\<forall>j p. covers (small t') j p \<longleftrightarrow> (j = i \<and> start \<le> p \<and> p < start + num) \<or> covers (small t) j p) \<and>
    (\<forall>j. md_tid (md_list (small t') j) = (if j = i then tid else md_tid (md_list (small t) j)))"
proof (cases rule: alloc_chunk_cases [of prot_ok t tid num head])
  case none
  with assms(5) show ?thesis by simp
next
  case (some start i)
  note r = region_alloc_md_ok [OF assms(1,3) some(1,3,4)]
  have t': "small t' = (small t)\<lparr>md_list := (md_list (small t))(i := \<lparr>md_tid = tid, md_num = num, md_start = start\<rparr>),
      md_anchor := (i + 1) mod NMEMD, chunk_alloc := set_range (chunk_alloc (small t)) start num\<rparr>"
    "huge t' = huge t" "ptr = chunkid2ptr start" "head' = i # head"
    using assms(5) some(5) by auto
  have "head_ok (small t') tid head'"
    using assms(2,3) some(3,4) by (auto simp: head_ok_def t')
  then show ?thesis
    using some(1,2) r unfolding t' by (intro exI [of _ start] exI [of _ i]) auto
qed

theorem alloc_chunk_exclusive_witness:
  "\<exists>t' head'. alloc_chunk (\<lambda>_ _ _. True) (init_mem_meta zero_meta) 1 3 [] =
      (Some (chunkid2ptr 0), Some (chunkid2ptr 0, VESSEL_MEM_BASIC_CHUNK_SIZE * 3, 3), t', head') \<and>
    region_ok 64 (small t') \<and> head_ok (small t') 1 head'"
proof -
  let ?t = "init_mem_meta zero_meta"
  have free: "free_run (chunk_alloc (small ?t)) 64 0 3" by (simp add: free_run_def init_mem_meta_def)
  have md: "md_tid (md_list (small ?t) i) = 0" for i by (simp add: init_mem_meta_def)
  show ?thesis
  proof (cases rule: alloc_chunk_cases [of "\<lambda>_ _ _. True" ?t 1 3 "[]"])
    case none
    with free md NMEMD_pos show ?thesis by auto
  next
    case (some start i)
    from some(2) [OF free] have s: "start = 0" by simp
    from alloc_chunk_exclusive [OF _ _ _ _ some(5)] init_region_ok [of zero_meta] init_head_ok [of 1 zero_meta] some(5) s
    show ?thesis by (auto simp: taskid2mpk_def)
  qed
qed

text \<open>
  C33: \<^verbatim>\<open>alloc_chunk\<close> is complete: as long as a free descriptor and a run of \<open>num\<close> free
  chunks exist, it returns a pointer (the count of free chunks it tests first never refuses
  a request that fits).
\<close>

theorem alloc_chunk_complete:
  assumes "0 < num" "free_run (chunk_alloc (small t)) 64 s num" "i < NMEMD" "md_tid (md_list (small t) i) = 0"
  shows "\<exists>ptr pr t' head'. alloc_chunk prot_ok t tid num head = (Some ptr, pr, t', head')"
  using assms by (cases rule: alloc_chunk_cases [of prot_ok t tid num head]) auto

theorem alloc_chunk_complete_witness:
  "\<exists>ptr pr t' head'. alloc_chunk (\<lambda>_ _ _. True) (init_mem_meta zero_meta) 1 64 [] = (Some ptr, pr, t', head')"
  by (rule alloc_chunk_complete [of 64 "init_mem_meta zero_meta" 0 0])
     (simp_all add: free_run_def init_mem_meta_def NMEMD_pos)

text \<open>
  \<^verbatim>\<open>exit_mem\<close> releases every normal chunk of the exiting uProcess and nothing else; the
  caller's list ends up empty. The huge chunks of the uProcess stay allocated.
\<close>

theorem exit_mem_releases:
  assumes "region_ok 64 (small t)" "head_ok (small t) tid head" "tid \<noteq> 0"
    and "exit_mem t tid head = (res, t', head')"
  shows "res = Ok \<and> head' = [] \<and> region_ok 64 (small t') \<and> huge t' = huge t \<and>
    (\<forall>j p. covers (small t') j p \<longleftrightarrow> covers (small t) j p \<and> md_tid (md_list (small t) j) \<noteq> tid) \<and>
    (\<forall>j < NMEMD. md_tid (md_list (small t') j) \<noteq> tid)"
proof -
  have l: "exit_mem_loop t tid head [0..<NMEMD] = (t', head')" "res = Ok"
    using assms(4) by (auto simp: exit_mem_def split: prod.splits)
  have set: "set [0..<NMEMD] = {..<NMEMD}" by auto
  then have "set [0..<NMEMD] \<subseteq> {..<NMEMD}" by simp
  from exit_mem_loop_ok [OF assms(1,3) this assms(2) l(1)]
  have r: "released t tid {..<NMEMD} t'" "region_ok 64 (small t')" "head_ok (small t') tid head'"
    unfolding set by auto
  have none: "md_tid (md_list (small t') j) \<noteq> tid" if "j < NMEMD" for j
    using r(1) that assms(3) by (auto simp: released_def)
  then have "set head' = {}" using r(3) by (auto simp: head_ok_def)
  then have "head' = []" by simp
  moreover have "covers (small t') j p \<longleftrightarrow> covers (small t) j p \<and> md_tid (md_list (small t) j) \<noteq> tid" for j p
    using r(1) covers_less [of "small t" j p] by (auto simp: released_def)
  moreover have "huge t' = huge t" using r(1) by (simp add: released_def)
  ultimately show ?thesis using l(2) r(2) none by blast
qed

theorem exit_mem_releases_witness:
  "\<exists>res t' head'. exit_mem (init_mem_meta zero_meta) 1 [] = (res, t', head') \<and> res = Ok \<and> head' = []"
proof -
  obtain res t' head' where e: "exit_mem (init_mem_meta zero_meta) 1 [] = (res, t', head')"
    by (cases "exit_mem (init_mem_meta zero_meta) 1 []")
  from exit_mem_releases [OF _ _ _ e] init_region_ok [of zero_meta] init_head_ok [of 1 zero_meta] e show ?thesis by auto
qed

text \<open>
  \<^verbatim>\<open>free_chunk\<close> on a descriptor of the table refuses (with \<^verbatim>\<open>EACCES\<close>, state unchanged)
  a descriptor the caller does not own, and otherwise releases exactly that descriptor's run.
\<close>

theorem free_chunk_owner_only:
  assumes "region_ok 64 (small t)" "tid \<noteq> 0" "i < NMEMD"
  shows "\<exists>res t' head'. free_chunk t tid (index2md i) head = Some (res, t', head') \<and>
    (if md_tid (md_list (small t) i) = tid
     then res = Ok \<and> head' = remove1 i head \<and> region_ok 64 (small t') \<and>
       (\<forall>j p. covers (small t') j p \<longleftrightarrow> covers (small t) j p \<and> j \<noteq> i)
     else res = Err EACCES \<and> t' = t \<and> head' = head)"
proof (cases "md_tid (md_list (small t) i) = tid")
  case True
  obtain res t' head' where d: "dealloc_md t tid (index2md i) head = Some (res, t', head')"
    using True assms(3) by (simp add: dealloc_md_def index2md_def md2index_def Let_def)
  from dealloc_md_ok [OF assms(1,2,3) True d] d True show ?thesis by (auto simp: free_chunk_def)
next
  case False
  then show ?thesis
    using assms(3) by (auto simp: free_chunk_def dealloc_md_def index2md_def md2index_def Let_def)
qed

theorem free_chunk_owner_only_witness:
  "free_chunk (init_mem_meta zero_meta) 1 (index2md 0) [] = Some (Err EACCES, init_mem_meta zero_meta, [])"
proof -
  have "md_tid (md_list (small (init_mem_meta zero_meta)) 0) \<noteq> 1" by (simp add: init_mem_meta_def)
  with free_chunk_owner_only [of "init_mem_meta zero_meta" 1 0 "[]"] init_region_ok [of zero_meta] NMEMD_pos show ?thesis
    by auto
qed

text \<open>
  The number of huge chunks is taken from the size of the normal region. On a fresh
  state a request for 17 huge chunks, more than the 16 GB of the huge region, is granted.
\<close>

theorem huge_chunks_exceed_region:
  "\<exists>t' head'. alloc_huge_chunk (\<lambda>_ _ _. True) (init_mem_meta t) 1 17 [] =
     Some (Some VESSEL_MEM_DATA_HUGE_START,
       Some (VESSEL_MEM_DATA_HUGE_START, VESSEL_MEM_BASIC_CHUNK_SIZE * 17, 3), t', head') \<and>
   of_nat VESSEL_MEM_DATA_HUGE_SIZE_GB * GB < VESSEL_MEM_BASIC_CHUNK_SIZE * 17"
proof -
  let ?b = "chunk_alloc (huge (init_mem_meta t))"
  have free: "free_run ?b 64 s 17 \<longleftrightarrow> s + 17 \<le> 64" for s by (auto simp: free_run_def init_mem_meta_def)
  have "\<not> 64 - bitmap_popcount ?b 64 < 17"
    using popcount_free_run [of ?b 0 17] free [of 0] by simp
  moreover obtain x where x: "chunk_scan 17 (-1) 0 (positions_cleared ?b 64 0) = Some x"
    using chunk_scan_None [of 17 ?b 64 0] free [of 0] by (cases "chunk_scan 17 (-1) 0 (positions_cleared ?b 64 0)") auto
  moreover have "x + 1 - 17 = 0" using chunk_scan_Some(5) [OF x, of 0] free [of 0] by simp
  moreover obtain i r where "region_alloc_md (huge (init_mem_meta t)) 1 [] 17 0 = (index2md i, r, [i])"
    by (cases rule: region_alloc_md_cases [of "huge (init_mem_meta t)" 1 "[]" 17 0])
       (use NMEMD_pos in \<open>auto simp: init_mem_meta_def\<close>)
  ultimately show ?thesis
    by (auto simp: alloc_huge_chunk_def alloc_huge_md_def Let_def hugechunkid2ptr_def taskid2mpk_def
        VESSEL_MEM_DATA_HUGE_SIZE_GB_def VESSEL_MEM_BASIC_CHUNK_SIZE_def GB_def)
qed

text \<open>
  When the protection call fails, \<^verbatim>\<open>alloc_chunk\<close> takes its failure path but still
  returns the pointer of the chunks, which carry no protection key and stay allocated.
\<close>

theorem alloc_chunk_unprotected:
  "\<exists>t' head'. alloc_chunk (\<lambda>_ _ _. False) (init_mem_meta t) 1 1 [] = (Some (chunkid2ptr 0), None, t', head') \<and>
     head' \<noteq> []"
proof -
  let ?b = "chunk_alloc (small (init_mem_meta t))"
  have free: "free_run ?b 64 0 1" by (simp add: free_run_def init_mem_meta_def)
  have md: "md_tid (md_list (small (init_mem_meta t)) i) = 0" for i by (simp add: init_mem_meta_def)
  show ?thesis
  proof (cases rule: alloc_chunk_cases [of "\<lambda>_ _ _. False" "init_mem_meta t" 1 1 "[]"])
    case none
    with free md NMEMD_pos show ?thesis by auto
  next
    case (some start i)
    from some(2) [OF free] some(5) show ?thesis by simp
  qed
qed

end
