(* ===== verification/Start_Alloc.thy ===== *)
theory Start_Alloc
  imports Chunk_Mem
begin

text \<open>
  The bump allocator of \<^verbatim>\<open>src/vessel/src/core/startalloc.c\<close> that serves a uProcess before
  its own allocator runs. It hands out the first chunk from a counter; offsets and sizes are
  64-bit words. Memory contents are left out except that \<^verbatim>\<open>start_calloc\<close> and
  \<^verbatim>\<open>start_realloc\<close> report the block they fill. \<open>None\<close> stands for \<^verbatim>\<open>abort\<close>.
\<close>

unbundle bit_operations_syntax

definition START_MEM_END :: u64 where "START_MEM_END = 1 * GB"

definition CACHE_LINE_SIZE :: u64 where "CACHE_LINE_SIZE = 64"

record miniop =
  miniop_cnt :: u64
  miniop_last :: u64
  miniop_base :: u64

definition start_malloc :: "miniop \<Rightarrow> u64 \<Rightarrow> (u64 \<times> miniop) option" where
  "start_malloc c n =
     (let alup = align_up (miniop_cnt c) 8;
          c = c\<lparr>miniop_last := alup\<rparr>
      in if START_MEM_END < alup \<or> START_MEM_END < alup + n then None
         else Some (miniop_base c + alup, c\<lparr>miniop_cnt := alup + n\<rparr>))"

definition start_aligned_alloc :: "miniop \<Rightarrow> u64 \<Rightarrow> u64 \<Rightarrow> (u64 \<times> miniop) option" where
  "start_aligned_alloc c align len =
     (let alup = align_up (miniop_cnt c) align;
          len = align_up len align
      in if START_MEM_END < alup \<or> START_MEM_END < alup + len then None
         else Some (miniop_base c + alup, c\<lparr>miniop_cnt := alup + len\<rparr>))"

text \<open>The block and the number of bytes \<^verbatim>\<open>memset\<close> clears in it.\<close>

definition start_calloc :: "miniop \<Rightarrow> u64 \<Rightarrow> u64 \<Rightarrow> (u64 \<times> u64 \<times> miniop) option" where
  "start_calloc c num sz =
     (let n = num * sz;
          alup = align_up (miniop_cnt c) CACHE_LINE_SIZE
      in if START_MEM_END < alup then None
         else Some (miniop_base c + alup, n, c\<lparr>miniop_cnt := alup + n\<rparr>))"

text \<open>
  The result, the number of bytes \<^verbatim>\<open>memcpy\<close> copies into it (\<open>None\<close> when the block stays in
  place), and the state. The assertion on \<open>ptr\<close> is compiled out in release builds.
\<close>

definition start_realloc :: "miniop \<Rightarrow> u64 option \<Rightarrow> u64 \<Rightarrow> (u64 \<times> u64 option \<times> miniop) option" where
  "start_realloc c ptr sz =
     (case ptr of
        None \<Rightarrow> (case start_malloc c sz of None \<Rightarrow> None | Some (p, c) \<Rightarrow> Some (p, None, c))
      | Some q \<Rightarrow>
          let old_size = miniop_cnt c - miniop_last c;
              c = c\<lparr>miniop_cnt := miniop_last c\<rparr>
          in (case start_malloc c sz of
                None \<Rightarrow> None
              | Some (p, c) \<Rightarrow> Some (p, (if p \<noteq> q then Some old_size else None), c)))"

definition start_free :: "miniop \<Rightarrow> u64 \<Rightarrow> miniop" where
  "start_free c p = c"

section \<open>Alignment\<close>

lemma nat_or_mask: "(y::nat) OR mask k = (y div 2 ^ k) * 2 ^ k + (2 ^ k - 1)"
proof -
  have "drop_bit k (y OR mask k) = drop_bit k y" by (simp add: drop_bit_or drop_bit_mask_eq)
  moreover have "take_bit k (y OR mask k) = mask k"
    by (rule bit_eqI) (auto simp: bit_take_bit_iff bit_or_iff bit_mask_iff)
  ultimately have "y OR mask k = push_bit k (drop_bit k y) + mask k"
    using bits_ident [of k "y OR mask k"] by simp
  then show ?thesis by (simp add: push_bit_eq_mult drop_bit_eq_div mask_eq_exp_minus_1)
qed

text \<open>Rounding up to a power of two, away from the end of the 64-bit range.\<close>

lemma align_up_nat:
  assumes x: "unat x \<le> 2 ^ 63" and k: "k \<le> 32"
  shows "unat (align_up x (2 ^ k)) = (unat x + (2 ^ k - 1)) div 2 ^ k * 2 ^ k"
proof (cases "x = 0")
  case True
  then show ?thesis by (simp add: align_up_def)
next
  case False
  define y where "y = unat (x - 1)"
  have y: "unat x = Suc y" using False unat_minus_one [OF False] by (simp add: y_def unat_gt_0 Suc_pred)
  have m: "(2::u64) ^ k - 1 = mask k" by (simp add: mask_eq_exp_minus_1)
  have um: "unat (mask k :: u64) = mask k" using k
    by (intro bit_eqI) (auto simp: bit_unsigned_iff bit_mask_iff possible_bit_def)
  have "unat ((x - 1) OR (2 ^ k - 1)) = y OR mask k"
    unfolding m by (simp add: unsigned_or_eq y_def um)
  then have z: "unat ((x - 1) OR (2 ^ k - 1)) = (y div 2 ^ k) * 2 ^ k + (2 ^ k - 1)"
    by (simp only: nat_or_mask)
  have p: "(2::nat) ^ k \<le> 2 ^ 32" using k by (rule power_increasing) simp
  have le: "(y div 2 ^ k) * 2 ^ k \<le> y" by simp
  have "y < 9223372036854775808" "(2::nat) ^ k \<le> 4294967296" using x y p by simp_all
  with le have "(y div 2 ^ k) * 2 ^ k + 2 ^ k < 18446744073709551616" by linarith
  then have "unat (align_up x (2 ^ k)) = (y div 2 ^ k) * 2 ^ k + 2 ^ k"
    using z by (simp add: align_up_def unat_word_ariths)
  also have "\<dots> = (Suc y + (2 ^ k - 1)) div 2 ^ k * 2 ^ k" by (simp add: div_add_self2)
  finally show ?thesis by (simp add: y)
qed

lemma round_up_bounds:
  assumes "(0::nat) < m"
  shows "x \<le> (x + (m - 1)) div m * m" "(x + (m - 1)) div m * m < x + m" "m dvd (x + (m - 1)) div m * m"
proof -
  have "(x + (m - 1)) div m * m + (x + (m - 1)) mod m = x + (m - 1)" by simp
  moreover have "(x + (m - 1)) mod m < m" using assms by simp
  ultimately show "x \<le> (x + (m - 1)) div m * m" "(x + (m - 1)) div m * m < x + m" using assms by linarith+
qed simp

section \<open>Blocks\<close>

lemma unat_of_nat_u64: "m < 2 ^ 64 \<Longrightarrow> unat (of_nat m :: u64) = m"
  by (simp add: unat_of_nat)

lemma START_MEM_END_nat: "unat START_MEM_END = 2 ^ 30"
  by (simp add: START_MEM_END_def GB_def)

lemma start_malloc_cases:
  assumes cnt: "unat (miniop_cnt c) \<le> 2 ^ 30" and n: "unat n \<le> 2 ^ 62"
  defines "al \<equiv> (unat (miniop_cnt c) + 7) div 8 * 8"
  shows "start_malloc c n =
    (if 2 ^ 30 < al + unat n then None
     else Some (miniop_base c + of_nat al, c\<lparr>miniop_last := of_nat al, miniop_cnt := of_nat (al + unat n)\<rparr>))"
proof -
  have a: "unat (align_up (miniop_cnt c) 8) = al"
    using align_up_nat [of "miniop_cnt c" 3] cnt by (simp add: al_def)
  have al: "al < unat (miniop_cnt c) + 8" using round_up_bounds(2) [of 8 "unat (miniop_cnt c)"] by (simp add: al_def)
  have s: "unat (align_up (miniop_cnt c) 8 + n) = al + unat n"
    using a al cnt n by (simp add: unat_word_ariths)
  have w: "align_up (miniop_cnt c) 8 = of_nat al" "align_up (miniop_cnt c) 8 + n = of_nat (al + unat n)"
    using arg_cong [OF a, of "of_nat :: nat \<Rightarrow> u64"] arg_cong [OF s, of "of_nat :: nat \<Rightarrow> u64"] by simp_all
  have "START_MEM_END < align_up (miniop_cnt c) 8 \<or> START_MEM_END < align_up (miniop_cnt c) 8 + n \<longleftrightarrow>
      2 ^ 30 < al + unat n"
    by (auto simp: word_less_nat_alt a s START_MEM_END_nat)
  then show ?thesis by (simp add: start_malloc_def Let_def w)
qed

text \<open>A sequence of allocations, stopped at the first abort: offset and size of each block.\<close>

fun malloc_run :: "miniop \<Rightarrow> u64 list \<Rightarrow> (nat \<times> nat) list" where
  "malloc_run c [] = []"
| "malloc_run c (n # ns) =
     (case start_malloc c n of
        None \<Rightarrow> []
      | Some (p, c') \<Rightarrow> (unat (p - miniop_base c), unat n) # malloc_run c' ns)"

lemma malloc_run_ordered:
  assumes "unat (miniop_cnt c) \<le> 2 ^ 30" "\<forall>n \<in> set ns. unat n \<le> 2 ^ 62"
  shows "(\<forall>(p, l) \<in> set (malloc_run c ns). unat (miniop_cnt c) \<le> p \<and> p + l \<le> 2 ^ 30 \<and> 8 dvd p) \<and>
    sorted_wrt (\<lambda>(p, l) (p', l'). p + l \<le> p') (malloc_run c ns)"
  using assms
proof (induction c ns rule: malloc_run.induct)
  case (1 c)
  then show ?case by simp
next
  case (2 c n ns)
  define al where "al = (unat (miniop_cnt c) + 7) div 8 * 8"
  have n: "unat n \<le> 2 ^ 62" using 2(3) by simp
  note s = start_malloc_cases [OF 2(2) n, folded al_def]
  have al: "unat (miniop_cnt c) \<le> al" "8 dvd al"
    using round_up_bounds(1,3) [of 8 "unat (miniop_cnt c)"] by (simp_all add: al_def)
  show ?case
  proof (cases "2 ^ 30 < al + unat n")
    case True
    with s show ?thesis by simp
  next
    case False
    let ?c = "c\<lparr>miniop_last := of_nat al, miniop_cnt := of_nat (al + unat n)\<rparr>"
    have m: "start_malloc c n = Some (miniop_base c + of_nat al, ?c)" using s False by simp
    have u: "unat (of_nat al :: u64) = al" "unat (of_nat (al + unat n) :: u64) = al + unat n"
      by (rule unat_of_nat_u64, use False in simp)+
    have cnt: "unat (miniop_cnt ?c) = al + unat n" using u(2) by simp
    have "(\<forall>(p, l) \<in> set (malloc_run ?c ns). unat (miniop_cnt ?c) \<le> p \<and> p + l \<le> 2 ^ 30 \<and> 8 dvd p) \<and>
        sorted_wrt (\<lambda>(p, l) (p', l'). p + l \<le> p') (malloc_run ?c ns)"
    proof (rule 2(1) [OF m refl])
      show "unat (miniop_cnt ?c) \<le> 2 ^ 30" using cnt False by linarith
    qed (use 2(3) in simp)
    moreover have "malloc_run c (n # ns) = (al, unat n) # malloc_run ?c ns"
      using m u(1) by simp
    ultimately show ?thesis using al False unfolding cnt by fastforce
  qed
qed

section \<open>Properties\<close>

text \<open>
  As long as no single request is larger than \<open>2 ^ 62\<close> bytes, the blocks that a
  sequence of \<^verbatim>\<open>start_malloc\<close> calls hands out are 8-byte aligned, lie inside the first
  chunk, and follow one another without overlap.
\<close>

theorem start_malloc_disjoint:
  assumes "unat (miniop_cnt c) \<le> 2 ^ 30" "\<forall>n \<in> set ns. unat n \<le> 2 ^ 62"
  shows "(\<forall>(p, l) \<in> set (malloc_run c ns). p + l \<le> 2 ^ 30 \<and> 8 dvd p) \<and>
    sorted_wrt (\<lambda>(p, l) (p', l'). p + l \<le> p') (malloc_run c ns)"
  using malloc_run_ordered [OF assms] by fast

theorem start_malloc_disjoint_witness:
  "sorted_wrt (\<lambda>(p, l) (p', l'). p + l \<le> p')
     (malloc_run \<lparr>miniop_cnt = 3, miniop_last = 0, miniop_base = 4096\<rparr> [10, 20])"
  using start_malloc_disjoint [of "\<lparr>miniop_cnt = 3, miniop_last = 0, miniop_base = 4096\<rparr>" "[10, 20]"] by simp

text \<open>
  The bound check of \<^verbatim>\<open>start_malloc\<close> wraps around: a request of \<open>2 ^ 64 - 8\<close> bytes
  passes it and moves the counter back, so that the next block overlaps an earlier one.
\<close>

theorem start_malloc_wraps:
  "start_malloc \<lparr>miniop_cnt = 16, miniop_last = 0, miniop_base = 0\<rparr> (- 8) =
     Some (16, \<lparr>miniop_cnt = 8, miniop_last = 16, miniop_base = 0\<rparr>)"
  by (simp add: start_malloc_def align_up_def Let_def START_MEM_END_def GB_def)

text \<open>
  \<^verbatim>\<open>start_calloc\<close> does not check the end of the block: it hands out (and clears) a block
  of 2 GB from the 1 GB region.
\<close>

theorem start_calloc_overruns:
  "start_calloc \<lparr>miniop_cnt = 0, miniop_last = 0, miniop_base = 0\<rparr> 2 GB =
     Some (0, 2 * GB, \<lparr>miniop_cnt = 2 * GB, miniop_last = 0, miniop_base = 0\<rparr>) \<and> START_MEM_END < 2 * GB"
  by (simp add: start_calloc_def align_up_def Let_def START_MEM_END_def CACHE_LINE_SIZE_def GB_def)

end
