(* ===== verification/Mempool.thy ===== *)
theory Mempool
  imports Interfaces
begin

text \<open>
  The preallocated memory pool of \<^verbatim>\<open>src/vessel/src/runtime/mmem/mempool.c\<close>
  (\<^verbatim>\<open>runtime/mmem/mempool.h\<close>): a buffer cut into items that do not straddle pages, and a
  stack of the free ones. Sizes and addresses are natural numbers; the buffer is a region of
  memory, so that the address arithmetic does not wrap around.
\<close>

unbundle bit_operations_syntax

section \<open>The pool\<close>

record mempool =
  free_items :: "nat \<Rightarrow> nat"
  allocated :: nat
  capacity :: nat
  buf :: nat
  len :: nat
  pgsize :: nat
  item_len :: nat

definition mempool_alloc :: "mempool \<Rightarrow> nat option \<times> mempool" where
  "mempool_alloc m =
     (if capacity m \<le> allocated m then (None, m)
      else (Some (free_items m (allocated m)), m\<lparr>allocated := allocated m + 1\<rparr>))"

text \<open>
  \<^verbatim>\<open>mempool_free\<close>. The code relies on the caller to return an item it got from this pool,
  so that \<^verbatim>\<open>allocated\<close> is not 0; at 0 its decrement would wrap around and the store would
  leave the array.
\<close>

definition mempool_free :: "mempool \<Rightarrow> nat \<Rightarrow> mempool" where
  "mempool_free m item =
     (let a = allocated m - 1
      in m\<lparr>allocated := a, free_items := (free_items m)(a := item)\<rparr>)"

text \<open>The two nested loops of \<^verbatim>\<open>mempool_populate\<close>, by pages and items left.\<close>

fun populate_items :: "mempool \<Rightarrow> nat \<Rightarrow> nat \<Rightarrow> nat \<Rightarrow> mempool" where
  "populate_items m i j 0 = m"
| "populate_items m i j (Suc n) =
     populate_items
       (m\<lparr>free_items := (free_items m)(capacity m := buf m + pgsize m * i + item_len m * j),
          capacity := capacity m + 1\<rparr>) i (Suc j) n"

fun populate_pages :: "mempool \<Rightarrow> nat \<Rightarrow> nat \<Rightarrow> mempool" where
  "populate_pages m i 0 = m"
| "populate_pages m i (Suc n) =
     populate_pages (populate_items m i 0 (pgsize m div item_len m)) (Suc i) n"

text \<open>\<open>mem_ok\<close> tells whether \<^verbatim>\<open>mini_malloc\<close> found room for the array of free items.\<close>

definition mempool_populate :: "bool \<Rightarrow> mempool \<Rightarrow> ret \<times> mempool" where
  "mempool_populate mem_ok m =
     (if \<not> mem_ok then (Err ENOMEM, m) else (Ok, populate_pages m 0 (len m div pgsize m)))"

definition mempool_create :: "bool \<Rightarrow> mempool \<Rightarrow> nat \<Rightarrow> nat \<Rightarrow> nat \<Rightarrow> nat \<Rightarrow> ret \<times> mempool" where
  "mempool_create mem_ok m b l pg il =
     (if il = 0 \<or> \<not> is_power_of_two (of_nat pg :: u64) \<or> l mod pg \<noteq> 0 then (Err EINVAL, m)
      else mempool_populate mem_ok (m\<lparr>allocated := 0, buf := b, len := l, pgsize := pg, item_len := il\<rparr>))"

section \<open>The pool as the source of a thread cache\<close>

fun mempool_tcache_free :: "nat list \<Rightarrow> mempool \<Rightarrow> mempool" where
  "mempool_tcache_free [] m = m"
| "mempool_tcache_free (x # xs) m = mempool_tcache_free xs (mempool_free m x)"

text \<open>The loop with the items got so far; when the pool runs dry these are given back.\<close>

fun tcache_alloc_loop :: "nat \<Rightarrow> nat list \<Rightarrow> mempool \<Rightarrow> nat list option \<times> mempool" where
  "tcache_alloc_loop 0 items m = (Some items, m)"
| "tcache_alloc_loop (Suc n) items m =
     (case mempool_alloc m of
        (None, m') \<Rightarrow> (None, mempool_tcache_free items m')
      | (Some x, m') \<Rightarrow> tcache_alloc_loop n (items @ [x]) m')"

definition mempool_tcache_alloc :: "nat \<Rightarrow> mempool \<Rightarrow> nat list option \<times> mempool" where
  "mempool_tcache_alloc nr m = tcache_alloc_loop nr [] m"

section \<open>The invariant\<close>

definition pool_universe :: "mempool \<Rightarrow> nat set" where
  "pool_universe m =
     (\<lambda>(i, j). buf m + pgsize m * i + item_len m * j) ` ({..<len m div pgsize m} \<times> {..<pgsize m div item_len m})"

definition pool_idle :: "mempool \<Rightarrow> nat set" where
  "pool_idle m = free_items m ` {allocated m..<capacity m}"

definition pool_inv :: "mempool \<Rightarrow> bool" where
  "pool_inv m \<longleftrightarrow> allocated m \<le> capacity m \<and> inj_on (free_items m) {allocated m..<capacity m} \<and>
     pool_idle m \<subseteq> pool_universe m \<and> card (pool_universe m) = capacity m"

lemma pool_idle_card: "pool_inv m \<Longrightarrow> card (pool_idle m) = capacity m - allocated m"
  by (simp add: pool_inv_def pool_idle_def card_image)

lemma finite_universe: "finite (pool_universe m)"
  by (simp add: pool_universe_def)

lemma mempool_alloc_law:
  assumes "pool_inv m" "mempool_alloc m = (r, m')"
  shows "pool_inv m' \<and> pool_universe m' = pool_universe m \<and>
    (case r of None \<Rightarrow> pool_idle m = {} \<and> m' = m | Some x \<Rightarrow> x \<in> pool_idle m \<and> pool_idle m' = pool_idle m - {x})"
proof (cases "capacity m \<le> allocated m")
  case True
  with assms show ?thesis by (auto simp: mempool_alloc_def pool_idle_def)
next
  case False
  let ?a = "allocated m" and ?x = "free_items m (allocated m)"
  have m': "r = Some ?x" "m' = m\<lparr>allocated := ?a + 1\<rparr>" using assms(2) False by (auto simp: mempool_alloc_def)
  have split: "{?a..<capacity m} = insert ?a {?a + 1..<capacity m}" using False by auto
  have inj: "inj_on (free_items m) (insert ?a {?a + 1..<capacity m})"
    using assms(1) unfolding pool_inv_def split by simp
  then have "pool_idle m' = pool_idle m - {?x}"
    unfolding pool_idle_def split by (auto simp: m' inj_on_def)
  moreover have "?x \<in> pool_idle m" by (auto simp: pool_idle_def split)
  moreover have "pool_universe m' = pool_universe m" by (simp add: m' pool_universe_def)
  moreover have "pool_inv m'"
    using assms(1) False inj calculation by (auto simp: pool_inv_def m'(2))
  ultimately show ?thesis by (simp add: m'(1))
qed

lemma mempool_free_law:
  assumes inv: "pool_inv m" and x: "x \<in> pool_universe m - pool_idle m"
  shows "pool_inv (mempool_free m x) \<and> pool_universe (mempool_free m x) = pool_universe m \<and>
    pool_idle (mempool_free m x) = insert x (pool_idle m)"
proof -
  have "pool_idle m \<subset> pool_universe m" using x inv by (auto simp: pool_inv_def)
  then have "card (pool_idle m) < card (pool_universe m)" by (rule psubset_card_mono [OF finite_universe])
  then have "0 < allocated m" using pool_idle_card [OF inv] inv by (simp add: pool_inv_def)
  then obtain a where a: "allocated m = Suc a" by (cases "allocated m") auto
  let ?m = "mempool_free m x"
  have m': "allocated ?m = a" "free_items ?m = (free_items m)(a := x)" "capacity ?m = capacity m"
      "pool_universe ?m = pool_universe m"
    by (simp_all add: mempool_free_def a Let_def pool_universe_def)
  have le: "a < capacity m" using inv a by (simp add: pool_inv_def)
  then have split: "{a..<capacity m} = insert a {Suc a..<capacity m}" by auto
  have idle: "pool_idle ?m = insert x (pool_idle m)"
    unfolding pool_idle_def m' split a by (auto simp: image_def)
  have "inj_on ((free_items m)(a := x)) (insert a {Suc a..<capacity m})"
    using inv x by (auto simp: pool_inv_def inj_on_def pool_idle_def a)
  then have "pool_inv ?m" using inv x le idle
    by (auto simp: pool_inv_def m' split)
  with idle m'(4) show ?thesis by blast
qed

interpretation pool: allocator pool_universe pool_idle pool_inv "\<lambda>_ :: unit. mempool_alloc" "\<lambda>_ x m. mempool_free m x"
proof
  fix m x m' and t :: unit
  assume inv: "pool_inv m"
  show "pool_idle m \<subseteq> pool_universe m" using inv by (simp add: pool_inv_def)
  show "pool_inv m' \<and> x \<in> pool_idle m \<and> pool_idle m' = pool_idle m - {x} \<and> pool_universe m' = pool_universe m"
    if "mempool_alloc m = (Some x, m')" using mempool_alloc_law [OF inv that] by simp
  show "pool_inv m' \<and> pool_idle m' = pool_idle m \<and> pool_universe m' = pool_universe m"
    if "mempool_alloc m = (None, m')" using mempool_alloc_law [OF inv that] by auto
  show "pool_inv (mempool_free m x) \<and> pool_idle (mempool_free m x) = insert x (pool_idle m) \<and>
      pool_universe (mempool_free m x) = pool_universe m"
    if "x \<in> pool_universe m - pool_idle m" using mempool_free_law [OF inv that] by simp
qed

lemma tcache_free_law:
  assumes "pool_inv m" "distinct xs" "set xs \<subseteq> pool_universe m - pool_idle m"
  shows "pool_inv (mempool_tcache_free xs m) \<and> pool_universe (mempool_tcache_free xs m) = pool_universe m \<and>
    pool_idle (mempool_tcache_free xs m) = pool_idle m \<union> set xs"
  using assms
proof (induction xs m rule: mempool_tcache_free.induct)
  case (2 x xs m)
  then show ?case using mempool_free_law [of m x] by auto
qed simp

lemma tcache_alloc_loop_law:
  assumes "pool_inv m" "distinct items" "set items \<subseteq> pool_universe m - pool_idle m"
    and "tcache_alloc_loop n items m = (r, m')"
  shows "pool_inv m' \<and> pool_universe m' = pool_universe m \<and>
    (case r of
       None \<Rightarrow> pool_idle m' = pool_idle m \<union> set items
     | Some xs \<Rightarrow> \<exists>ys. xs = items @ ys \<and> length ys = n \<and> distinct ys \<and> set ys \<subseteq> pool_idle m \<and>
         pool_idle m' = pool_idle m - set ys)"
  using assms
proof (induction n items m arbitrary: r m' rule: tcache_alloc_loop.induct)
  case (1 items m)
  then show ?case by auto
next
  case (2 n items m)
  obtain q m1 where q: "mempool_alloc m = (q, m1)" by (cases "mempool_alloc m")
  note law = mempool_alloc_law [OF 2(2) q]
  show ?case
  proof (cases q)
    case None
    with 2(5) q law have "r = None" "m' = mempool_tcache_free items m" by auto
    with tcache_free_law [OF 2(2-4)] show ?thesis by simp
  next
    case (Some x)
    have l: "tcache_alloc_loop n (items @ [x]) m1 = (r, m')" using 2(5) q Some by simp
    have x: "x \<in> pool_idle m" "pool_idle m1 = pool_idle m - {x}" "pool_inv m1" "pool_universe m1 = pool_universe m"
      using law Some by auto
    have "x \<in> pool_universe m" using x(1) 2(2) by (auto simp: pool_inv_def)
    moreover have "x \<notin> set items" using x(1) 2(4) by auto
    ultimately have "distinct (items @ [x])" "set (items @ [x]) \<subseteq> pool_universe m1 - pool_idle m1"
      using 2(3,4) x by auto
    from 2(1) [OF q [unfolded Some, symmetric] refl x(3) this l]
    have IH: "pool_inv m' \<and> pool_universe m' = pool_universe m1 \<and>
      (case r of None \<Rightarrow> pool_idle m' = pool_idle m1 \<union> set (items @ [x])
       | Some xs \<Rightarrow> \<exists>ys. xs = (items @ [x]) @ ys \<and> length ys = n \<and> distinct ys \<and> set ys \<subseteq> pool_idle m1 \<and>
           pool_idle m' = pool_idle m1 - set ys)" .
    show ?thesis
    proof (cases r)
      case None
      with IH x show ?thesis by auto
    next
      case (Some xs)
      with IH obtain ys where ys: "xs = items @ (x # ys)" "length ys = n" "distinct ys"
        "set ys \<subseteq> pool_idle m1" "pool_idle m' = pool_idle m1 - set ys" by auto
      then have "length (x # ys) = Suc n \<and> distinct (x # ys) \<and> set (x # ys) \<subseteq> pool_idle m \<and>
          pool_idle m' = pool_idle m - set (x # ys)" using x by auto
      with IH Some ys(1) x(4) show ?thesis by auto
    qed
  qed
qed

interpretation pool_lots: item_source pool_universe pool_idle pool_inv mempool_tcache_alloc mempool_tcache_free
proof
  fix p n xs p'
  assume inv: "pool_inv p"
  show "pool_idle p \<subseteq> pool_universe p" using inv by (simp add: pool_inv_def)
  note law = tcache_alloc_loop_law [OF inv, of "[]" n]
  show "pool_inv p' \<and> pool_universe p' = pool_universe p \<and> length xs = n \<and> distinct xs \<and> set xs \<subseteq> pool_idle p \<and>
      pool_idle p' = pool_idle p - set xs" if "mempool_tcache_alloc n p = (Some xs, p')"
    using law [of "Some xs" p'] that by (auto simp: mempool_tcache_alloc_def)
  show "pool_inv p' \<and> pool_universe p' = pool_universe p \<and> pool_idle p' = pool_idle p"
    if "mempool_tcache_alloc n p = (None, p')"
    using law [of None p'] that by (auto simp: mempool_tcache_alloc_def)
  show "pool_inv (mempool_tcache_free ys p) \<and> pool_universe (mempool_tcache_free ys p) = pool_universe p \<and>
      pool_idle (mempool_tcache_free ys p) = pool_idle p \<union> set ys"
    if "distinct ys" "set ys \<subseteq> pool_universe p - pool_idle p" for ys
    by (rule tcache_free_law [OF inv that])
qed

section \<open>Filling the pool\<close>

definition item_addr :: "mempool \<Rightarrow> nat \<Rightarrow> nat \<Rightarrow> nat" where
  "item_addr m i j = buf m + pgsize m * i + item_len m * j"

definition same_geometry :: "mempool \<Rightarrow> mempool \<Rightarrow> bool" where
  "same_geometry m m' \<longleftrightarrow> buf m' = buf m \<and> len m' = len m \<and> pgsize m' = pgsize m \<and> item_len m' = item_len m \<and>
     allocated m' = allocated m"

lemma item_addr_same: "same_geometry m m' \<Longrightarrow> item_addr m' i j = item_addr m i j"
  by (simp add: same_geometry_def item_addr_def)

lemma populate_items_spec:
  "same_geometry m (populate_items m i j n) \<and> capacity (populate_items m i j n) = capacity m + n \<and>
   (\<forall>q < capacity m. free_items (populate_items m i j n) q = free_items m q) \<and>
   (\<forall>b < n. free_items (populate_items m i j n) (capacity m + b) = item_addr m i (j + b))"
proof (induction m i j n rule: populate_items.induct)
  case (1 m i j)
  then show ?case by (simp add: same_geometry_def)
next
  case (2 m i j n)
  let ?m = "m\<lparr>free_items := (free_items m)(capacity m := buf m + pgsize m * i + item_len m * j), capacity := capacity m + 1\<rparr>"
  have "free_items (populate_items ?m i (Suc j) n) (capacity m + b) = item_addr m i (j + b)" if "b < Suc n" for b
  proof (cases b)
    case 0
    with 2 show ?thesis by (simp add: item_addr_def)
  next
    case (Suc c)
    with 2 that have "free_items (populate_items ?m i (Suc j) n) (capacity ?m + c) = item_addr ?m i (Suc j + c)" by blast
    with Suc show ?thesis by (simp add: item_addr_def)
  qed
  moreover have "\<forall>q < capacity m. free_items (populate_items ?m i (Suc j) n) q = free_items m q" using 2 by auto
  moreover have "same_geometry m (populate_items ?m i (Suc j) n) \<and>
      capacity (populate_items ?m i (Suc j) n) = capacity m + Suc n" using 2 by (auto simp: same_geometry_def)
  ultimately show ?case by simp
qed

lemma populate_pages_spec:
  assumes "same_geometry m\<^sub>0 m"
  defines "ipp \<equiv> pgsize m\<^sub>0 div item_len m\<^sub>0"
  shows "same_geometry m\<^sub>0 (populate_pages m i n) \<and> capacity (populate_pages m i n) = capacity m + n * ipp \<and>
   (\<forall>q < capacity m. free_items (populate_pages m i n) q = free_items m q) \<and>
   (\<forall>a < n. \<forall>b < ipp. free_items (populate_pages m i n) (capacity m + a * ipp + b) = item_addr m\<^sub>0 (i + a) b)"
  using assms(1)
proof (induction m i n rule: populate_pages.induct)
  case (1 m i)
  then show ?case by simp
next
  case (2 m i n)
  have ipp: "pgsize m div item_len m = ipp" using 2(2) by (simp add: same_geometry_def ipp_def)
  let ?m = "populate_items m i 0 ipp"
  note s = populate_items_spec [of m i 0 ipp]
  have g: "same_geometry m\<^sub>0 ?m" using s 2(2) by (simp add: same_geometry_def)
  note IH = 2(1) [unfolded ipp, OF g]
  have "free_items (populate_pages ?m (Suc i) n) (capacity m + a * ipp + b) = item_addr m\<^sub>0 (i + a) b"
    if "a < Suc n" "b < ipp" for a b
  proof (cases a)
    case 0
    then show ?thesis using IH s that item_addr_same [OF 2(2)] by simp
  next
    case (Suc c)
    then have "free_items (populate_pages ?m (Suc i) n) (capacity ?m + c * ipp + b) = item_addr m\<^sub>0 (Suc i + c) b"
      using IH that by simp
    then show ?thesis using s Suc by (simp add: algebra_simps)
  qed
  then show ?case using IH s by (simp add: ipp algebra_simps)
qed

lemma item_addr_inj:
  assumes "b < pgsize m div item_len m" "b' < pgsize m div item_len m" "item_addr m a b = item_addr m a' b'"
    "0 < item_len m"
  shows "a = a' \<and> b = b'"
proof -
  have le: "item_len m * b < pgsize m" if "b < pgsize m div item_len m" for b
  proof -
    have "item_len m * Suc b \<le> item_len m * (pgsize m div item_len m)" by (rule mult_le_mono2 [OF Suc_leI [OF that]])
    also have "\<dots> \<le> pgsize m" by simp
    finally show ?thesis using assms(4) by simp
  qed
  have e: "pgsize m * a + item_len m * b = pgsize m * a' + item_len m * b'" using assms(3) by (simp add: item_addr_def)
  have "a = (pgsize m * a + item_len m * b) div pgsize m" using le [OF assms(1)] by simp
  moreover have "a' = (pgsize m * a' + item_len m * b') div pgsize m" using le [OF assms(2)] by simp
  ultimately have "a = a'" using e by simp
  with e assms(4) show ?thesis by simp
qed

lemma populated_pool:
  assumes "capacity m = 0" "allocated m = 0" "0 < item_len m"
  defines "m' \<equiv> populate_pages m 0 (len m div pgsize m)"
  shows "pool_inv m'" "pool_idle m' = pool_universe m'" "pool_universe m' = pool_universe m" "same_geometry m m'"
proof -
  let ?ipp = "pgsize m div item_len m" and ?np = "len m div pgsize m"
  have "same_geometry m m" by (simp add: same_geometry_def)
  note s = populate_pages_spec [OF this, of 0 ?np, folded m'_def]
  show g: "same_geometry m m'" using s by simp
  have u: "pool_universe m = (\<lambda>(i, j). item_addr m i j) ` ({..<?np} \<times> {..<?ipp})"
    by (simp add: pool_universe_def item_addr_def)
  show u': "pool_universe m' = pool_universe m" using g by (simp add: pool_universe_def same_geometry_def)
  have inj: "inj_on (\<lambda>(i, j). item_addr m i j) ({..<?np} \<times> {..<?ipp})"
  proof (rule inj_onI, clarify)
    fix a b a' b'
    assume "b < ?ipp" "b' < ?ipp" "item_addr m a b = item_addr m a' b'"
    from item_addr_inj [OF this assms(3)] show "a = a' \<and> b = b'" .
  qed
  have cap: "capacity m' = ?np * ?ipp" "allocated m' = 0" using s assms(1,2) by (auto simp: same_geometry_def)
  have idle: "pool_idle m' = pool_universe m"
  proof
    show "pool_universe m \<subseteq> pool_idle m'"
    proof
      fix x assume "x \<in> pool_universe m"
      then obtain a b where ab: "a < ?np" "b < ?ipp" "x = item_addr m a b" unfolding u by auto
      then have "free_items m' (a * ?ipp + b) = x" using s assms(1) by simp
      moreover have "a * ?ipp + b < Suc a * ?ipp" using ab by simp
      then have "a * ?ipp + b < ?np * ?ipp"
        using mult_le_mono1 [OF Suc_leI [OF ab(1)], of ?ipp] by (rule less_le_trans)
      ultimately show "x \<in> pool_idle m'"
        unfolding pool_idle_def cap by (metis atLeastLessThan_iff image_eqI le0)
    qed
    show "pool_idle m' \<subseteq> pool_universe m"
    proof
      fix x assume "x \<in> pool_idle m'"
      then obtain q where q: "q < ?np * ?ipp" "x = free_items m' q" by (auto simp: pool_idle_def cap)
      have "?ipp \<noteq> 0" using q(1) by (intro notI) simp
      then have "q div ?ipp < ?np" "q mod ?ipp < ?ipp" using less_mult_imp_div_less [OF q(1)] by simp_all
      moreover have "free_items m' (q div ?ipp * ?ipp + q mod ?ipp) = item_addr m (q div ?ipp) (q mod ?ipp)"
        using s assms(1) calculation by simp
      then have "x = (\<lambda>(i, j). item_addr m i j) (q div ?ipp, q mod ?ipp)"
        by (simp only: div_mult_mod_eq q(2) prod.case)
      ultimately show "x \<in> pool_universe m"
        unfolding u by (intro image_eqI) auto
    qed
  qed
  then show "pool_idle m' = pool_universe m'" by (simp add: u')
  have card: "card (pool_universe m) = capacity m'"
    unfolding u by (simp add: card_image [OF inj] cap)
  have "card (free_items m' ` {0..<capacity m'}) = card {0..<capacity m'}"
    using idle card by (simp add: pool_idle_def cap(2))
  then have "inj_on (free_items m') {0..<capacity m'}" by (intro eq_card_imp_inj_on) simp_all
  then show "pool_inv m'" using card idle u' cap(2) by (simp add: pool_inv_def)
qed

lemma mempool_create_cases:
  assumes "capacity m = 0" "mempool_create True m b l pg il = (Ok, m')"
  shows "pool_inv m'" "pool_idle m' = pool_universe m'" "0 < il" "l mod pg = 0"
    "buf m' = b \<and> len m' = l \<and> pgsize m' = pg \<and> item_len m' = il"
proof -
  let ?m = "m\<lparr>allocated := 0, buf := b, len := l, pgsize := pg, item_len := il\<rparr>"
  have c: "0 < il" "l mod pg = 0" "m' = populate_pages ?m 0 (len ?m div pgsize ?m)"
    using assms(2) by (auto simp: mempool_create_def mempool_populate_def split: if_splits)
  have pre: "capacity ?m = 0" "allocated ?m = 0" "0 < item_len ?m" using assms(1) c(1) by simp_all
  note p = populated_pool [OF pre, folded c(3)]
  show "pool_inv m'" "pool_idle m' = pool_universe m'" "0 < il" "l mod pg = 0" using p c by simp_all
  show "buf m' = b \<and> len m' = l \<and> pgsize m' = pg \<and> item_len m' = il" using p(4) by (simp add: same_geometry_def)
qed

definition zero_pool :: mempool where
  "zero_pool = \<lparr>free_items = (\<lambda>_. 0), allocated = 0, capacity = 0, buf = 0, len = 0, pgsize = 0, item_len = 0\<rparr>"

section \<open>Properties\<close>

text \<open>
  A pool created from a zeroed descriptor holds items that lie inside the buffer and do
  not straddle a page, and whatever sequence of allocations and releases its clients run, an
  item that is handed out is not held by any client.
\<close>

theorem mempool_exclusive:
  assumes "capacity m = 0" "mempool_create True m b l pg il = (Ok, m\<^sub>1)"
    and "alloc_run (\<lambda>_ :: unit. mempool_alloc) (\<lambda>_ x m. mempool_free m x) ops {} m\<^sub>1 = Some (H, m\<^sub>2)"
    and "mempool_alloc m\<^sub>2 = (Some x, m\<^sub>3)"
  shows "x \<notin> H \<and> b \<le> x \<and> x + il \<le> b + l \<and> (x - b) div pg = (x - b + (il - 1)) div pg"
proof -
  note c = mempool_create_cases [OF assms(1,2)]
  from pool.alloc_fresh [OF c(1,2) assms(3,4)]
  have x: "x \<notin> H" "x \<in> pool_universe m\<^sub>1" by auto
  from x(2) c(5) obtain i j where ij: "i < l div pg" "j < pg div il" "x = b + pg * i + il * j"
    by (auto simp: pool_universe_def)
  have "il * Suc j \<le> il * (pg div il)" by (rule mult_le_mono2 [OF Suc_leI [OF ij(2)]])
  also have "\<dots> \<le> pg" by simp
  finally have j: "il * j + il \<le> pg" by simp
  have "pg * Suc i \<le> pg * (l div pg)" by (rule mult_le_mono2 [OF Suc_leI [OF ij(1)]])
  also have "\<dots> \<le> l" by simp
  finally have i: "pg * i + pg \<le> l" by simp
  have "(x - b) div pg = i" using ij(3) j c(3) by simp
  moreover have "(x - b + (il - 1)) div pg = (pg * i + (il * j + (il - 1))) div pg" using ij(3) by (simp add: add.assoc)
  moreover have "(pg * i + (il * j + (il - 1))) div pg = i"
  proof -
    define r where "r = il * j + (il - 1)"
    have "r < pg" using j c(3) by (simp add: r_def)
    then show ?thesis unfolding r_def [symmetric] by simp
  qed
  ultimately show ?thesis using x(1) ij(3) i j by simp
qed

theorem mempool_exclusive_witness:
  "\<exists>m\<^sub>1 H m\<^sub>2 x m\<^sub>3. mempool_create True zero_pool 8192 4096 4096 4096 = (Ok, m\<^sub>1) \<and>
     alloc_run (\<lambda>_ :: unit. mempool_alloc) (\<lambda>_ x m. mempool_free m x) [Alloc (), Free () 8192] {} m\<^sub>1 = Some (H, m\<^sub>2) \<and>
     mempool_alloc m\<^sub>2 = (Some x, m\<^sub>3) \<and> x \<notin> H \<and> 8192 \<le> x"
proof -
  have p: "is_power_of_two (of_nat 4096 :: u64)" by (simp add: is_power_of_two_def)
  obtain m\<^sub>1 where c: "mempool_create True zero_pool 8192 4096 4096 4096 = (Ok, m\<^sub>1)"
    using p by (simp add: mempool_create_def mempool_populate_def)
  have z: "capacity zero_pool = 0" by (simp add: zero_pool_def)
  have g: "capacity m\<^sub>1 = 1" "allocated m\<^sub>1 = 0" "free_items m\<^sub>1 0 = 8192"
    using c p by (auto simp: mempool_create_def mempool_populate_def zero_pool_def)
  obtain m\<^sub>2 where r: "alloc_run (\<lambda>_ :: unit. mempool_alloc) (\<lambda>_ x m. mempool_free m x) [Alloc (), Free () 8192] {} m\<^sub>1 =
      Some ({}, m\<^sub>2)" "mempool_alloc m\<^sub>2 = (Some 8192, m\<^sub>2\<lparr>allocated := 1\<rparr>)"
    using g by (simp add: mempool_alloc_def mempool_free_def Let_def)
  from mempool_exclusive [OF z c r] c r show ?thesis by blast
qed

text \<open>
  \<^verbatim>\<open>mempool_create\<close> does not reset the count of items: on a descriptor that was used
  before, the new items are stored behind the old ones, and an allocation returns an old item
  although it is not in the new buffer.
\<close>

theorem mempool_recreate_stale:
  "\<exists>m\<^sub>1 m\<^sub>2 m\<^sub>3. mempool_create True zero_pool 8192 4096 4096 4096 = (Ok, m\<^sub>1) \<and>
     mempool_create True m\<^sub>1 65536 4096 4096 4096 = (Ok, m\<^sub>2) \<and> mempool_alloc m\<^sub>2 = (Some 8192, m\<^sub>3)"
proof -
  have p: "is_power_of_two (of_nat 4096 :: u64)" by (simp add: is_power_of_two_def)
  then show ?thesis
    by (simp add: mempool_create_def mempool_populate_def zero_pool_def mempool_alloc_def)
qed

end
