(* ===== verification/Tcache.thy ===== *)
theory Tcache
  imports Mempool
begin

text \<open>
  The thread caches of \<^verbatim>\<open>src/vessel/src/runtime/tls/tcache.c\<close> (\<^verbatim>\<open>runtime/tls/tcache.h\<close>):
  each thread keeps a loaded and a previous magazine of items, and full magazines move
  through a shared pool. Items are addresses; the links between the items of a magazine and
  between magazines are stored in the items themselves, so that the model keeps the two
  header fields \<^verbatim>\<open>next_item\<close> and \<^verbatim>\<open>next_mag\<close> as maps from addresses. \<^verbatim>\<open>NULL\<close> is \<open>None\<close>.

  The operations behind a cache (\<^verbatim>\<open>struct tcache_ops\<close>) are parameters \<open>alloc_lot\<close> and
  \<open>free_lot\<close> over the state \<open>'p\<close> of the source of the items; their contract is the locale
  \<open>tcache_source\<close>, which the memory pool provides.
\<close>

section \<open>State\<close>

record tcache =
  tc_name :: string
  item_size :: nat
  mags_allocated :: int
  mag_size :: nat
  shared_mags :: "nat option"

record tcache_perthread =
  rounds :: nat
  tc_capacity :: nat
  loaded :: "nat option"
  previous :: "nat option"

text \<open>The counters a thread keeps of its accesses to the shared pool and to the source.\<close>

record tcache_stats =
  mag_alloc :: nat
  mag_free :: nat
  pool_alloc :: nat
  pool_free :: nat

record 'p tcsys =
  next_item :: "nat \<Rightarrow> nat option"
  next_mag :: "nat \<Rightarrow> nat option"
  tc :: tcache
  ltcs :: "nat \<Rightarrow> tcache_perthread"
  stats :: "nat \<Rightarrow> tcache_stats"
  source :: 'p

abbreviation upd_ltc :: "nat \<Rightarrow> tcache_perthread \<Rightarrow> 'p tcsys \<Rightarrow> 'p tcsys" where
  "upd_ltc t l s \<equiv> s\<lparr>ltcs := (ltcs s)(t := l)\<rparr>"

section \<open>Operations\<close>

fun link_items :: "nat list \<Rightarrow> (nat \<Rightarrow> nat option) \<Rightarrow> (nat \<Rightarrow> nat option)" where
  "link_items [] ni = ni"
| "link_items [x] ni = ni(x := None)"
| "link_items (x # y # xs) ni = link_items (y # xs) (ni(x := Some y))"

definition tcache_alloc_mag :: "(nat \<Rightarrow> 'p \<Rightarrow> nat list option \<times> 'p) \<Rightarrow> nat \<Rightarrow> 'p tcsys \<Rightarrow> nat option \<times> 'p tcsys" where
  "tcache_alloc_mag alloc_lot t s =
     (let s = s\<lparr>stats := (stats s)(t := (stats s t)\<lparr>mag_alloc := mag_alloc (stats s t) + 1\<rparr>)\<rparr>
      in case alloc_lot (mag_size (tc s)) (source s) of
           (None, p) \<Rightarrow> (None, s\<lparr>source := p\<rparr>)
         | (Some items, p) \<Rightarrow>
             (case items of [] \<Rightarrow> None | x # _ \<Rightarrow> Some x,
              s\<lparr>source := p, next_item := link_items items (next_item s),
                tc := (tc s)\<lparr>mags_allocated := mags_allocated (tc s) + 1\<rparr>\<rparr>))"

text \<open>The walk along a magazine that collects its items.\<close>

partial_function (option) collect :: "(nat \<Rightarrow> nat option) \<Rightarrow> nat \<Rightarrow> nat list option" where
  "collect ni x =
     (case ni x of
        None \<Rightarrow> Some [x]
      | Some y \<Rightarrow> Option.bind (collect ni y) (\<lambda>xs. Some (x # xs)))"

definition tcache_free_mag :: "(nat list \<Rightarrow> 'p \<Rightarrow> 'p) \<Rightarrow> nat \<Rightarrow> 'p tcsys \<Rightarrow> nat \<Rightarrow> 'p tcsys option" where
  "tcache_free_mag free_lot t s hdr =
     (let s = s\<lparr>stats := (stats s)(t := (stats s t)\<lparr>mag_free := mag_free (stats s t) + 1\<rparr>)\<rparr>
      in case collect (next_item s) hdr of
           None \<Rightarrow> None
         | Some items \<Rightarrow>
             Some (s\<lparr>source := free_lot items (source s),
                     tc := (tc s)\<lparr>mags_allocated := mags_allocated (tc s) - 1\<rparr>\<rparr>))"

text \<open>The end of the slow path: \<open>h\<close> is the magazine now loaded.\<close>

definition tcache_reload :: "nat \<Rightarrow> tcache_perthread \<Rightarrow> nat \<Rightarrow> 'p tcsys \<Rightarrow> nat option \<times> 'p tcsys" where
  "tcache_reload t l h s =
     (Some h, upd_ltc t (l\<lparr>rounds := tc_capacity l - 1, loaded := next_item s h\<rparr>) s)"

text \<open>\<^verbatim>\<open>__tcache_alloc\<close>.\<close>

definition tcache_alloc_slow :: "(nat \<Rightarrow> 'p \<Rightarrow> nat list option \<times> 'p) \<Rightarrow> nat \<Rightarrow> 'p tcsys \<Rightarrow> nat option \<times> 'p tcsys" where
  "tcache_alloc_slow alloc_lot t s =
     (let l = ltcs s t
      in case previous l of
           Some h \<Rightarrow> tcache_reload t (l\<lparr>previous := None\<rparr>) h s
         | None \<Rightarrow>
             let s = s\<lparr>stats := (stats s)(t := (stats s t)\<lparr>pool_alloc := pool_alloc (stats s t) + 1\<rparr>)\<rparr>
             in (case shared_mags (tc s) of
                   Some h \<Rightarrow> tcache_reload t l h (s\<lparr>tc := (tc s)\<lparr>shared_mags := next_mag s h\<rparr>\<rparr>)
                 | None \<Rightarrow>
                     let (r, s) = tcache_alloc_mag alloc_lot t s
                     in (case r of
                           None \<Rightarrow> (None, upd_ltc t (l\<lparr>loaded := None\<rparr>) s)
                         | Some h \<Rightarrow> tcache_reload t l h s)))"

definition tcache_alloc :: "(nat \<Rightarrow> 'p \<Rightarrow> nat list option \<times> 'p) \<Rightarrow> nat \<Rightarrow> 'p tcsys \<Rightarrow> nat option \<times> 'p tcsys" where
  "tcache_alloc alloc_lot t s =
     (let l = ltcs s t
      in if rounds l = 0 then tcache_alloc_slow alloc_lot t s
         else (loaded l,
               upd_ltc t (l\<lparr>rounds := rounds l - 1,
                            loaded := (case loaded l of None \<Rightarrow> None | Some x \<Rightarrow> next_item s x)\<rparr>) s))"

text \<open>\<^verbatim>\<open>__tcache_free\<close>.\<close>

definition tcache_free_slow :: "nat \<Rightarrow> nat \<Rightarrow> 'p tcsys \<Rightarrow> 'p tcsys" where
  "tcache_free_slow t item s =
     (let l = ltcs s t;
          (l, s) =
            (case previous l of
               None \<Rightarrow> (l\<lparr>previous := loaded l\<rparr>, s)
             | Some h \<Rightarrow>
                 (l\<lparr>previous := loaded l\<rparr>,
                  s\<lparr>stats := (stats s)(t := (stats s t)\<lparr>pool_free := pool_free (stats s t) + 1\<rparr>),
                    next_mag := (next_mag s)(h := shared_mags (tc s)),
                    tc := (tc s)\<lparr>shared_mags := Some h\<rparr>\<rparr>))
      in upd_ltc t (l\<lparr>rounds := 1, loaded := Some item\<rparr>) (s\<lparr>next_item := (next_item s)(item := None)\<rparr>))"

definition tcache_free :: "nat \<Rightarrow> nat \<Rightarrow> 'p tcsys \<Rightarrow> 'p tcsys" where
  "tcache_free t item s =
     (let l = ltcs s t
      in if tc_capacity l \<le> rounds l then tcache_free_slow t item s
         else upd_ltc t (l\<lparr>rounds := rounds l + 1, loaded := Some item\<rparr>)
                (s\<lparr>next_item := (next_item s)(item := loaded l)\<rparr>))"

text \<open>\<open>mem\<close> says whether \<^verbatim>\<open>mini_malloc_C\<close> returned memory; \<open>tcaches\<close> is the list of all caches.\<close>

definition tcache_create :: "bool \<Rightarrow> string \<Rightarrow> nat \<Rightarrow> nat \<Rightarrow> string list \<Rightarrow> tcache option \<times> string list" where
  "tcache_create mem name mag_sz item_sz tcaches =
     (if \<not> mem then (None, tcaches)
      else (Some \<lparr>tc_name = name, item_size = item_sz, mags_allocated = 0, mag_size = mag_sz, shared_mags = None\<rparr>,
            tcaches @ [name]))"

text \<open>
  \<^verbatim>\<open>mempool_create_tcache\<close>: \<open>mem\<^sub>1\<close> and \<open>mem\<^sub>2\<close> say whether the allocation of the handle and that of the
  cache succeed.
\<close>

definition mempool_create_tcache :: "bool \<Rightarrow> bool \<Rightarrow> mempool \<Rightarrow> string \<Rightarrow> nat \<Rightarrow> string list \<Rightarrow> tcache option \<times> string list" where
  "mempool_create_tcache mem\<^sub>1 mem\<^sub>2 m name mag_sz tcaches =
     (if \<not> mem\<^sub>1 then (None, tcaches) else tcache_create mem\<^sub>2 name mag_sz (item_len m) tcaches)"

definition tcache_init_perthread :: "tcache \<Rightarrow> tcache_perthread" where
  "tcache_init_perthread c = \<lparr>rounds = 0, tc_capacity = mag_size c, loaded = None, previous = None\<rparr>"

partial_function (option) reclaim_loop :: "(nat list \<Rightarrow> 'p \<Rightarrow> 'p) \<Rightarrow> nat \<Rightarrow> 'p tcsys \<Rightarrow> nat option \<Rightarrow> 'p tcsys option" where
  "reclaim_loop free_lot t s hdr =
     (case hdr of
        None \<Rightarrow> Some s
      | Some h \<Rightarrow>
          let nxt = next_mag s h
          in Option.bind (tcache_free_mag free_lot t s h) (\<lambda>s. reclaim_loop free_lot t s nxt))"

definition tcache_reclaim :: "(nat list \<Rightarrow> 'p \<Rightarrow> 'p) \<Rightarrow> nat \<Rightarrow> 'p tcsys \<Rightarrow> 'p tcsys option" where
  "tcache_reclaim free_lot t s =
     reclaim_loop free_lot t (s\<lparr>tc := (tc s)\<lparr>shared_mags := None\<rparr>\<rparr>) (shared_mags (tc s))"

text \<open>A cache just created whose handles are initialised, over the source \<open>p\<close>.\<close>

definition tcache_start :: "tcache \<Rightarrow> 'p \<Rightarrow> 'p tcsys" where
  "tcache_start c p =
     \<lparr>next_item = \<lambda>_. None, next_mag = \<lambda>_. None, tc = c, ltcs = \<lambda>_. tcache_init_perthread c,
      stats = \<lambda>_. \<lparr>mag_alloc = 0, mag_free = 0, pool_alloc = 0, pool_free = 0\<rparr>, source = p\<rparr>"

section \<open>Chains\<close>

fun chain :: "(nat \<Rightarrow> nat option) \<Rightarrow> nat option \<Rightarrow> nat list \<Rightarrow> bool" where
  "chain nx p [] \<longleftrightarrow> p = None"
| "chain nx p (x # xs) \<longleftrightarrow> p = Some x \<and> chain nx (nx x) xs"

definition reach :: "(nat \<Rightarrow> nat option) \<Rightarrow> nat option \<Rightarrow> nat set" where
  "reach nx p = {x. \<exists>xs. chain nx p xs \<and> x \<in> set xs}"

lemma chain_unique: "chain nx p xs \<Longrightarrow> chain nx p ys \<Longrightarrow> xs = ys"
proof (induction nx p xs arbitrary: ys rule: chain.induct)
  case (1 nx p)
  then show ?case by (cases ys) auto
next
  case (2 nx p x xs)
  then show ?case by (cases ys) auto
qed

lemma reach_chain:
  assumes "chain nx p xs"
  shows "reach nx p = set xs"
proof -
  have "chain nx p ys \<longleftrightarrow> ys = xs" for ys
    using assms chain_unique [of nx p ys xs] by blast
  then show ?thesis by (simp add: reach_def)
qed

lemma reach_None [simp]: "reach nx None = {}"
proof -
  have "chain nx None []" by simp
  from reach_chain [OF this] show ?thesis by simp
qed

lemma chain_upd [simp]: "x \<notin> set xs \<Longrightarrow> chain (nx(x := v)) p xs = chain nx p xs"
  by (induction nx p xs rule: chain.induct) auto

lemma link_frame: "z \<notin> set xs \<Longrightarrow> link_items xs ni z = ni z"
  by (induction xs ni rule: link_items.induct) auto

lemma chain_link: "distinct xs \<Longrightarrow> xs \<noteq> [] \<Longrightarrow> chain (link_items xs ni) (Some (hd xs)) xs"
proof (induction xs ni rule: link_items.induct)
  case (3 x y xs ni)
  then have "chain (link_items (y # xs) (ni(x := Some y))) (Some y) (y # xs)"
    by (simp add: fun_upd_def)
  moreover have "link_items (y # xs) (ni(x := Some y)) x = Some y"
    using 3 link_frame [of x "y # xs" "ni(x := Some y)"] by simp
  ultimately show ?case by simp
qed simp_all

lemma chain_frame: "(\<And>x. x \<in> set xs \<Longrightarrow> nx' x = nx x) \<Longrightarrow> chain nx' p xs = chain nx p xs"
  by (induction nx p xs rule: chain.induct) auto

lemma chain_link_frame: "set xs \<inter> set ys = {} \<Longrightarrow> chain (link_items ys ni) p xs = chain ni p xs"
  by (rule chain_frame) (auto intro: link_frame)

lemma collect_chain: "chain ni (Some x) xs \<Longrightarrow> collect ni x = Some xs"
proof (induction xs arbitrary: x)
  case (Cons y ys)
  show ?case
  proof (cases ys)
    case Nil
    with Cons.prems show ?thesis by (subst collect.simps) simp
  next
    case (Cons z zs)
    with Cons.prems have "ni x = Some z" "chain ni (Some z) ys" "y = x" by auto
    with Cons.IH [of z] show ?thesis by (subst collect.simps) simp
  qed
qed simp

section \<open>The invariant\<close>

text \<open>
  \<open>L t\<close> and \<open>P t\<close> are the items of the loaded and of the previous magazine of thread \<open>t\<close>,
  \<open>M\<close> the magazines of the shared pool.
\<close>

definition mags_ok :: "(nat \<Rightarrow> nat list) \<Rightarrow> (nat \<Rightarrow> nat list) \<Rightarrow> nat list list \<Rightarrow> 'p tcsys \<Rightarrow> bool" where
  "mags_ok L P M s \<longleftrightarrow>
     0 < mag_size (tc s) \<and>
     (\<forall>t. tc_capacity (ltcs s t) = mag_size (tc s) \<and> length (L t) = rounds (ltcs s t) \<and>
          rounds (ltcs s t) \<le> mag_size (tc s) \<and>
          chain (next_item s) (loaded (ltcs s t)) (L t) \<and> chain (next_item s) (previous (ltcs s t)) (P t) \<and>
          (P t = [] \<or> length (P t) = mag_size (tc s))) \<and>
     chain (next_mag s) (shared_mags (tc s)) (map hd M) \<and>
     (\<forall>m \<in> set M. length m = mag_size (tc s) \<and> chain (next_item s) (Some (hd m)) m)"

text \<open>The items of all magazines, where \<open>C t\<close> are those of thread \<open>t\<close>.\<close>

definition held :: "(nat \<Rightarrow> nat list) \<Rightarrow> nat list list \<Rightarrow> nat set" where
  "held C M = (\<Union>t. set (C t)) \<union> set (concat M)"

definition mags_sep :: "(nat \<Rightarrow> nat list) \<Rightarrow> nat list list \<Rightarrow> bool" where
  "mags_sep C M \<longleftrightarrow>
     (\<forall>t. distinct (C t) \<and> set (C t) \<inter> set (concat M) = {}) \<and>
     (\<forall>t u. t \<noteq> u \<longrightarrow> set (C t) \<inter> set (C u) = {}) \<and> distinct (concat M)"

definition cached :: "(nat \<Rightarrow> nat list) \<Rightarrow> (nat \<Rightarrow> nat list) \<Rightarrow> nat \<Rightarrow> nat list" where
  "cached L P t = L t @ P t"

definition tc_ok :: "('p \<Rightarrow> nat set) \<Rightarrow> ('p \<Rightarrow> nat set) \<Rightarrow> ('p \<Rightarrow> bool) \<Rightarrow>
    (nat \<Rightarrow> nat list) \<Rightarrow> (nat \<Rightarrow> nat list) \<Rightarrow> nat list list \<Rightarrow> 'p tcsys \<Rightarrow> bool" where
  "tc_ok unv idl iv L P M s \<longleftrightarrow>
     iv (source s) \<and> mags_ok L P M s \<and> mags_sep (cached L P) M \<and>
     held (cached L P) M \<subseteq> unv (source s) - idl (source s)"

definition tc_inv :: "('p \<Rightarrow> nat set) \<Rightarrow> ('p \<Rightarrow> nat set) \<Rightarrow> ('p \<Rightarrow> bool) \<Rightarrow> 'p tcsys \<Rightarrow> bool" where
  "tc_inv unv idl iv s \<longleftrightarrow> (\<exists>L P M. tc_ok unv idl iv L P M s)"

text \<open>The items nobody holds: in a magazine, or in the source.\<close>

definition tc_idle :: "('p \<Rightarrow> nat set) \<Rightarrow> 'p tcsys \<Rightarrow> nat set" where
  "tc_idle idl s =
     (\<Union>t. reach (next_item s) (loaded (ltcs s t)) \<union> reach (next_item s) (previous (ltcs s t))) \<union>
     (\<Union>h \<in> reach (next_mag s) (shared_mags (tc s)). reach (next_item s) (Some h)) \<union> idl (source s)"

lemma tc_idle_held:
  assumes "mags_ok L P M s"
  shows "tc_idle idl s = held (cached L P) M \<union> idl (source s)"
proof -
  have 1: "reach (next_item s) (loaded (ltcs s t)) \<union> reach (next_item s) (previous (ltcs s t)) = set (L t @ P t)" for t
    using assms reach_chain [of "next_item s" "loaded (ltcs s t)" "L t"]
      reach_chain [of "next_item s" "previous (ltcs s t)" "P t"] by (simp add: mags_ok_def)
  have "reach (next_mag s) (shared_mags (tc s)) = hd ` set M"
    using assms reach_chain [of "next_mag s" "shared_mags (tc s)" "map hd M"] by (simp add: mags_ok_def)
  moreover have "reach (next_item s) (Some (hd m)) = set m" if "m \<in> set M" for m
    using assms that reach_chain [of "next_item s" "Some (hd m)" m] by (simp add: mags_ok_def)
  ultimately have 2: "(\<Union>h \<in> reach (next_mag s) (shared_mags (tc s)). reach (next_item s) (Some h)) = set (concat M)"
    by simp
  show ?thesis unfolding tc_idle_def held_def cached_def 1 2 ..
qed

lemma mags_ok_L: "mags_ok L P M s \<Longrightarrow> length (L t) = rounds (ltcs s t) \<and> tc_capacity (ltcs s t) = mag_size (tc s)"
  and mags_ok_loaded: "mags_ok L P M s \<Longrightarrow> chain (next_item s) (loaded (ltcs s t)) (L t)"
  and mags_ok_previous: "mags_ok L P M s \<Longrightarrow> chain (next_item s) (previous (ltcs s t)) (P t)"
  and mags_ok_shared: "mags_ok L P M s \<Longrightarrow> chain (next_mag s) (shared_mags (tc s)) (map hd M)"
  by (auto simp: mags_ok_def)

lemma tc_ok_stats [simp]: "tc_ok unv idl iv L P M (s\<lparr>stats := st\<rparr>) = tc_ok unv idl iv L P M s"
  by (simp add: tc_ok_def mags_ok_def)

subsection \<open>The moves the operations are made of\<close>

text \<open>The separation seen from one thread: what the others and the shared pool hold is \<open>rest\<close>.\<close>

definition rest :: "(nat \<Rightarrow> nat list) \<Rightarrow> nat \<Rightarrow> nat set" where
  "rest C t = (\<Union>u \<in> - {t}. set (C u))"

definition rest_sep :: "(nat \<Rightarrow> nat list) \<Rightarrow> nat \<Rightarrow> bool" where
  "rest_sep C t \<longleftrightarrow> (\<forall>u. u \<noteq> t \<longrightarrow> distinct (C u)) \<and>
     (\<forall>u v. u \<noteq> t \<longrightarrow> v \<noteq> t \<longrightarrow> u \<noteq> v \<longrightarrow> set (C u) \<inter> set (C v) = {})"

lemma cached_upd [simp]:
  "cached (L(t := xs)) (P(t := ys)) = (cached L P)(t := xs @ ys)"
  "cached (L(t := xs)) P = (cached L P)(t := xs @ P t)"
  by (auto simp: cached_def)

lemma held_focus: "held C M = set (C t) \<union> rest C t \<union> set (concat M)"
  by (auto simp: held_def rest_def)

lemma sep_focus:
  "mags_sep C M \<longleftrightarrow> distinct (C t) \<and> set (C t) \<inter> rest C t = {} \<and> set (C t) \<inter> set (concat M) = {} \<and>
     rest C t \<inter> set (concat M) = {} \<and> rest_sep C t \<and> distinct (concat M)"
  (is "?l = ?r")
proof
  assume ?l
  then have l: "\<And>u. distinct (C u) \<and> set (C u) \<inter> set (concat M) = {}"
    "\<And>u v. u \<noteq> v \<Longrightarrow> set (C u) \<inter> set (C v) = {}" "distinct (concat M)"
    unfolding mags_sep_def by blast+
  have "set (C t) \<inter> rest C t = {}" "rest C t \<inter> set (concat M) = {}"
    using l unfolding rest_def by blast+
  with l show ?r unfolding rest_sep_def by blast
next
  assume r: ?r
  then have o: "set (C t) \<inter> set (C u) = {}" "set (C u) \<inter> set (concat M) = {}" if "u \<noteq> t" for u
    using that by (auto simp: rest_def)
  have "distinct (C u) \<and> set (C u) \<inter> set (concat M) = {}" for u
    using r o by (cases "u = t") (simp_all add: rest_sep_def)
  moreover have "set (C u) \<inter> set (C v) = {}" if "u \<noteq> v" for u v
  proof -
    consider "u = t" | "v = t" | "u \<noteq> t" "v \<noteq> t" by blast
    then show ?thesis
      using r o [of u] o [of v] that unfolding rest_sep_def by cases blast+
  qed
  ultimately show ?l using r unfolding mags_sep_def by blast
qed

lemma rest_upd [simp]: "rest (C(t := xs)) t = rest C t" "rest_sep (C(t := xs)) t = rest_sep C t"
  by (auto simp: rest_def rest_sep_def)

text \<open>A magazine list per thread seen from one thread.\<close>

definition ltc_ok :: "nat \<Rightarrow> (nat \<Rightarrow> nat option) \<Rightarrow> tcache_perthread \<Rightarrow> nat list \<Rightarrow> nat list \<Rightarrow> bool" where
  "ltc_ok k ni l xs ys \<longleftrightarrow>
     tc_capacity l = k \<and> length xs = rounds l \<and> rounds l \<le> k \<and>
     chain ni (loaded l) xs \<and> chain ni (previous l) ys \<and> (ys = [] \<or> length ys = k)"

lemma mags_ok_alt:
  "mags_ok L P M s \<longleftrightarrow>
     0 < mag_size (tc s) \<and> (\<forall>t. ltc_ok (mag_size (tc s)) (next_item s) (ltcs s t) (L t) (P t)) \<and>
     chain (next_mag s) (shared_mags (tc s)) (map hd M) \<and>
     (\<forall>m \<in> set M. length m = mag_size (tc s) \<and> chain (next_item s) (Some (hd m)) m)"
  by (simp add: mags_ok_def ltc_ok_def)

lemma ltc_ok_upd [simp]: "x \<notin> set xs \<Longrightarrow> x \<notin> set ys \<Longrightarrow> ltc_ok k (ni(x := v)) l xs ys = ltc_ok k ni l xs ys"
  by (simp add: ltc_ok_def)

lemma ltc_ok_link:
  "set zs \<inter> (set xs \<union> set ys) = {} \<Longrightarrow> ltc_ok k (link_items zs ni) l xs ys = ltc_ok k ni l xs ys"
  by (simp add: ltc_ok_def chain_link_frame inf_sup_distrib1 inf_commute)

lemma mags_ok_focus:
  assumes "mags_ok L P M s" "ltc_ok (mag_size (tc s)) (next_item s) l xs ys"
  shows "mags_ok (L(t := xs)) (P(t := ys)) M (upd_ltc t l s)"
  using assms by (simp add: mags_ok_alt)

lemma tc_ok_ltc: "tc_ok unv idl iv L P M s \<Longrightarrow> ltc_ok (mag_size (tc s)) (next_item s) (ltcs s t) (L t) (P t)"
  by (simp add: tc_ok_def mags_ok_alt)

text \<open>Taking an item from the loaded magazine.\<close>

lemma move_pop:
  assumes ok: "tc_ok unv idl iv L P M s" and L: "L t = x # xs" and l: "l = ltcs s t"
  shows "tc_ok unv idl iv (L(t := xs)) P M (upd_ltc t (l\<lparr>rounds := rounds l - 1, loaded := next_item s x\<rparr>) s)"
    and "loaded l = Some x" and "x \<in> held (cached L P) M"
    and "held (cached (L(t := xs)) P) M = held (cached L P) M - {x}"
proof -
  let ?l = "l\<lparr>rounds := rounds l - 1, loaded := next_item s x\<rparr>"
  note lt = tc_ok_ltc [OF ok, of t, unfolded L, folded l]
  show "loaded l = Some x" using lt by (simp add: ltc_ok_def)
  have "ltc_ok (mag_size (tc s)) (next_item s) ?l xs (P t)" using lt by (auto simp: ltc_ok_def)
  from mags_ok_focus [OF _ this, of L P M t] ok have m: "mags_ok (L(t := xs)) P M (upd_ltc t ?l s)"
    by (simp add: tc_ok_def)
  have sep: "mags_sep (cached L P) M" "held (cached L P) M \<subseteq> unv (source s) - idl (source s)" "iv (source s)"
    using ok by (simp_all add: tc_ok_def)
  note f = sep(1) [unfolded sep_focus [of "cached L P" M t] cached_def L, folded cached_def]
  show "x \<in> held (cached L P) M" by (simp add: held_focus [of "cached L P" M t] cached_def [of L P t] L)
  show h: "held (cached (L(t := xs)) P) M = held (cached L P) M - {x}"
    using f unfolding held_focus [of _ M t] by (auto simp: cached_def [of L P t] L)
  have "mags_sep (cached (L(t := xs)) P) M"
    using f unfolding sep_focus [of _ M t] by auto
  with m sep h show "tc_ok unv idl iv (L(t := xs)) P M (upd_ltc t ?l s)" by (auto simp: tc_ok_def)
qed

text \<open>Loading the previous magazine.\<close>

lemma move_previous:
  assumes ok: "tc_ok unv idl iv L P M s" and L: "L t = []" and P: "P t \<noteq> []" and l: "l = ltcs s t"
  shows "tc_ok unv idl iv (L(t := P t)) (P(t := [])) M
      (upd_ltc t (l\<lparr>previous := None, rounds := tc_capacity l, loaded := previous l\<rparr>) s)"
    and "held (cached (L(t := P t)) (P(t := []))) M = held (cached L P) M"
proof -
  let ?l = "l\<lparr>previous := None, rounds := tc_capacity l, loaded := previous l\<rparr>"
  note lt = tc_ok_ltc [OF ok, of t, unfolded L, folded l]
  have "ltc_ok (mag_size (tc s)) (next_item s) ?l (P t) []" using lt P by (auto simp: ltc_ok_def)
  moreover have "cached (L(t := P t)) (P(t := [])) = cached L P" using L by (auto simp: cached_def)
  ultimately show "tc_ok unv idl iv (L(t := P t)) (P(t := [])) M (upd_ltc t ?l s)"
    and "held (cached (L(t := P t)) (P(t := []))) M = held (cached L P) M"
    using mags_ok_focus [of L P M s ?l "P t" "[]" t] ok by (simp_all add: tc_ok_def)
qed

text \<open>Loading a magazine of the shared pool.\<close>

lemma move_shared:
  assumes ok: "tc_ok unv idl iv L P (m # M) s" and L: "L t = []" and l: "l = ltcs s t"
  shows "tc_ok unv idl iv (L(t := m)) P M
      (upd_ltc t (l\<lparr>rounds := tc_capacity l, loaded := Some (hd m)\<rparr>) (s\<lparr>tc := (tc s)\<lparr>shared_mags := next_mag s (hd m)\<rparr>\<rparr>))"
    and "held (cached (L(t := m)) P) M = held (cached L P) (m # M)"
    and "shared_mags (tc s) = Some (hd m)"
proof -
  let ?l = "l\<lparr>rounds := tc_capacity l, loaded := Some (hd m)\<rparr>"
  let ?s = "s\<lparr>tc := (tc s)\<lparr>shared_mags := next_mag s (hd m)\<rparr>\<rparr>"
  note lt = tc_ok_ltc [OF ok, of t, unfolded L, folded l]
  have ok': "mags_ok L P (m # M) s" "mags_sep (cached L P) (m # M)"
    "held (cached L P) (m # M) \<subseteq> unv (source s) - idl (source s)" "iv (source s)"
    using ok by (simp_all add: tc_ok_def)
  show "shared_mags (tc s) = Some (hd m)" using ok'(1) by (simp add: mags_ok_alt)
  have "mags_ok L P M ?s" using ok'(1) by (simp add: mags_ok_alt)
  moreover have "ltc_ok (mag_size (tc ?s)) (next_item ?s) ?l m (P t)"
    using lt ok'(1) by (simp add: ltc_ok_def mags_ok_alt)
  ultimately have m: "mags_ok (L(t := m)) P M (upd_ltc t ?l ?s)"
    using mags_ok_focus [of L P M ?s ?l m "P t" t] by simp
  note f = ok'(2) [unfolded sep_focus [of "cached L P" "m # M" t] cached_def [of L P t] L]
  show h: "held (cached (L(t := m)) P) M = held (cached L P) (m # M)"
    unfolding held_focus [of _ M t] held_focus [of _ "m # M" t] by (auto simp: cached_def [of L P t] L)
  have "mags_sep (cached (L(t := m)) P) M"
    using f unfolding sep_focus [of _ M t] by auto
  with m ok' h show "tc_ok unv idl iv (L(t := m)) P M (upd_ltc t ?l ?s)" by (simp add: tc_ok_def)
qed

text \<open>Loading a magazine of items fresh from the source.\<close>

lemma mags_ok_link:
  assumes "mags_ok L P M s" "held (cached L P) M \<inter> set xs = {}"
  shows "mags_ok L P M (s\<lparr>next_item := link_items xs (next_item s)\<rparr>)"
proof -
  have "set xs \<inter> (set (L u) \<union> set (P u)) = {}" for u
    using assms(2) by (auto simp: held_def cached_def)
  moreover have "set m \<inter> set xs = {}" if "m \<in> set M" for m
    using assms(2) that by (auto simp: held_def)
  ultimately show ?thesis using assms(1) by (simp add: mags_ok_alt ltc_ok_link chain_link_frame)
qed

lemma move_fresh:
  assumes ok: "tc_ok unv idl iv L P M s" and L: "L t = []" and l: "l = ltcs s t"
    and lot: "iv p" "unv p = unv (source s)" "length xs = mag_size (tc s)" "distinct xs" "set xs \<subseteq> idl (source s)"
      "idl p = idl (source s) - set xs" "set xs \<subseteq> unv (source s)"
  shows "tc_ok unv idl iv (L(t := xs)) P M
      (upd_ltc t (l\<lparr>rounds := tc_capacity l, loaded := Some (hd xs)\<rparr>)
        (s\<lparr>source := p, next_item := link_items xs (next_item s), tc := (tc s)\<lparr>mags_allocated := n\<rparr>\<rparr>))"
    and "held (cached (L(t := xs)) P) M = held (cached L P) M \<union> set xs"
proof -
  let ?l = "l\<lparr>rounds := tc_capacity l, loaded := Some (hd xs)\<rparr>"
  let ?s = "s\<lparr>source := p, next_item := link_items xs (next_item s), tc := (tc s)\<lparr>mags_allocated := n\<rparr>\<rparr>"
  have ok': "mags_ok L P M s" "mags_sep (cached L P) M"
    "held (cached L P) M \<subseteq> unv (source s) - idl (source s)"
    using ok by (simp_all add: tc_ok_def)
  have new: "held (cached L P) M \<inter> set xs = {}" using ok'(3) lot(5) by auto
  have "mags_ok L P M ?s" using mags_ok_link [OF ok'(1) new] by (simp add: mags_ok_def)
  moreover have "ltc_ok (mag_size (tc ?s)) (next_item ?s) ?l xs (P t)"
  proof -
    have "set xs \<inter> set (P t) = {}" using new by (auto simp: held_def cached_def)
    moreover have "xs \<noteq> []" using lot(3) ok'(1) by (auto simp: mags_ok_alt)
    ultimately show ?thesis
      using tc_ok_ltc [OF ok, of t] lot(3,4) l by (simp add: ltc_ok_def chain_link chain_link_frame inf_commute)
  qed
  ultimately have m: "mags_ok (L(t := xs)) P M (upd_ltc t ?l ?s)"
    using mags_ok_focus [of L P M ?s ?l xs "P t" t] by simp
  note f = ok'(2) [unfolded sep_focus [of "cached L P" M t] cached_def [of L P t] L]
  show h: "held (cached (L(t := xs)) P) M = held (cached L P) M \<union> set xs"
    unfolding held_focus [of _ M t] by (auto simp: cached_def [of L P t] L)
  have "mags_sep (cached (L(t := xs)) P) M"
    using f new lot(4) unfolding sep_focus [of _ M t] held_focus [of _ M t] by (auto simp: cached_def [of L P t])
  with m ok' h lot show "tc_ok unv idl iv (L(t := xs)) P M (upd_ltc t ?l ?s)" by (auto simp: tc_ok_def)
qed

text \<open>Putting an item into the loaded magazine.\<close>

lemma move_push:
  assumes ok: "tc_ok unv idl iv L P M s" and l: "l = ltcs s t" and room: "rounds l < tc_capacity l"
    and x: "x \<in> unv (source s) - idl (source s)" "x \<notin> held (cached L P) M"
  shows "tc_ok unv idl iv (L(t := x # L t)) P M
      (upd_ltc t (l\<lparr>rounds := rounds l + 1, loaded := Some x\<rparr>) (s\<lparr>next_item := (next_item s)(x := loaded l)\<rparr>))"
    and "held (cached (L(t := x # L t)) P) M = insert x (held (cached L P) M)"
proof -
  let ?l = "l\<lparr>rounds := rounds l + 1, loaded := Some x\<rparr>"
  let ?s = "s\<lparr>next_item := (next_item s)(x := loaded l)\<rparr>"
  have ok': "mags_ok L P M s" "mags_sep (cached L P) M"
    "held (cached L P) M \<subseteq> unv (source s) - idl (source s)" "iv (source s)"
    using ok by (simp_all add: tc_ok_def)
  have x': "x \<notin> set (L u)" "x \<notin> set (P u)" "m \<in> set M \<Longrightarrow> x \<notin> set m" for u m
    using x(2) by (auto simp: held_def cached_def)
  have "mags_ok L P M ?s" using ok'(1) x' by (simp add: mags_ok_alt)
  moreover have "ltc_ok (mag_size (tc ?s)) (next_item ?s) ?l (x # L t) (P t)"
    using tc_ok_ltc [OF ok, of t] x' l room by (simp add: ltc_ok_def)
  ultimately have m: "mags_ok (L(t := x # L t)) P M (upd_ltc t ?l ?s)"
    using mags_ok_focus [of L P M ?s ?l "x # L t" "P t" t] by simp
  note f = ok'(2) [unfolded sep_focus [of "cached L P" M t] cached_def [of L P t]]
  show h: "held (cached (L(t := x # L t)) P) M = insert x (held (cached L P) M)"
    unfolding held_focus [of _ M t] by (auto simp: cached_def [of L P t])
  have "mags_sep (cached (L(t := x # L t)) P) M"
    using f x(2) unfolding sep_focus [of _ M t] held_focus [of _ M t] by (auto simp: cached_def [of L P t])
  with m ok' h x show "tc_ok unv idl iv (L(t := x # L t)) P M (upd_ltc t ?l ?s)" by (auto simp: tc_ok_def)
qed

text \<open>The full loaded magazine becomes the previous one.\<close>

lemma move_stash:
  assumes ok: "tc_ok unv idl iv L P M s" and P: "P t = []" and l: "l = ltcs s t" and full: "tc_capacity l \<le> rounds l"
  shows "tc_ok unv idl iv (L(t := [])) (P(t := L t)) M
      (upd_ltc t (l\<lparr>rounds := 0, loaded := None, previous := loaded l\<rparr>) s)"
    and "held (cached (L(t := [])) (P(t := L t))) M = held (cached L P) M"
proof -
  let ?l = "l\<lparr>rounds := 0, loaded := None, previous := loaded l\<rparr>"
  have "ltc_ok (mag_size (tc s)) (next_item s) ?l [] (L t)"
    using tc_ok_ltc [OF ok, of t] l full by (simp add: ltc_ok_def)
  moreover have "cached (L(t := [])) (P(t := L t)) = cached L P" using P by (auto simp: cached_def)
  ultimately show "tc_ok unv idl iv (L(t := [])) (P(t := L t)) M (upd_ltc t ?l s)"
    and "held (cached (L(t := [])) (P(t := L t))) M = held (cached L P) M"
    using mags_ok_focus [of L P M s ?l "[]" "L t" t] ok by (simp_all add: tc_ok_def)
qed

text \<open>The previous magazine goes to the shared pool.\<close>

lemma move_return:
  assumes ok: "tc_ok unv idl iv L P M s" and h: "previous l = Some h" and l: "l = ltcs s t"
  shows "tc_ok unv idl iv L (P(t := [])) (P t # M)
      (upd_ltc t (l\<lparr>previous := None\<rparr>)
        (s\<lparr>next_mag := (next_mag s)(h := shared_mags (tc s)), tc := (tc s)\<lparr>shared_mags := Some h\<rparr>\<rparr>))"
    and "held (cached L (P(t := []))) (P t # M) = held (cached L P) M"
proof -
  let ?l = "l\<lparr>previous := None\<rparr>"
  let ?s = "s\<lparr>next_mag := (next_mag s)(h := shared_mags (tc s)), tc := (tc s)\<lparr>shared_mags := Some h\<rparr>\<rparr>"
  have ok': "mags_ok L P M s" "mags_sep (cached L P) M"
    "held (cached L P) M \<subseteq> unv (source s) - idl (source s)" "iv (source s)"
    using ok by (simp_all add: tc_ok_def)
  note lt = tc_ok_ltc [OF ok, of t, folded l]
  obtain ys where ys: "P t = h # ys" using lt h by (cases "P t") (auto simp: ltc_ok_def)
  note f = ok'(2) [unfolded sep_focus [of "cached L P" M t] cached_def [of L P t]]
  have "h \<noteq> hd m" if "m \<in> set M" for m
  proof -
    have "m \<noteq> []" using ok'(1) that by (auto simp: mags_ok_alt)
    then have "hd m \<in> set (concat M)" using that by (auto intro!: bexI [of _ m])
    moreover have "h \<in> set (L t @ P t)" by (simp add: ys)
    ultimately show ?thesis using f by blast
  qed
  then have nh: "h \<notin> set (map hd M)" by auto
  have pt: "length (P t) = mag_size (tc s) \<and> chain (next_item s) (Some h) (P t)"
    using lt h ys by (simp add: ltc_ok_def)
  have "ltc_ok (mag_size (tc ?s)) (next_item ?s) ?l (L t) []" using lt by (simp add: ltc_ok_def)
  moreover have "mags_ok L P (P t # M) ?s"
    using ok'(1) nh pt ys by (simp add: mags_ok_alt)
  ultimately have m: "mags_ok L (P(t := [])) (P t # M) (upd_ltc t ?l ?s)"
    using mags_ok_focus [of L P "P t # M" ?s ?l "L t" "[]" t] by simp
  have c: "cached L (P(t := [])) = (cached L P)(t := L t)"
    using cached_upd(1) [of L t "L t" P "[]"] by simp
  show hl: "held (cached L (P(t := []))) (P t # M) = held (cached L P) M"
    unfolding c held_focus [of _ M t] held_focus [of _ "P t # M" t] by (auto simp: cached_def [of L P t])
  have "mags_sep (cached L (P(t := []))) (P t # M)"
    using f unfolding c sep_focus [of _ "P t # M" t] by auto
  with m ok' hl show "tc_ok unv idl iv L (P(t := [])) (P t # M) (upd_ltc t ?l ?s)" by (simp add: tc_ok_def)
qed

subsection \<open>The operations\<close>

lemma tc_ok_view: "tc_ok unv idl iv L P M s \<Longrightarrow> tc_inv unv idl iv s \<and> tc_idle idl s = held (cached L P) M \<union> idl (source s)"
  using tc_idle_held [of L P M s] by (auto simp: tc_inv_def tc_ok_def)

lemma reload_law:
  assumes ok: "tc_ok unv idl iv L P M (upd_ltc t (l\<lparr>rounds := tc_capacity l, loaded := Some h\<rparr>) s)" and L: "L t \<noteq> []"
    and r: "tcache_reload t l h s = (r, s')"
  shows "r = Some h \<and> tc_inv unv idl iv s' \<and> source s' = source s \<and> h \<in> held (cached L P) M \<and>
    tc_idle idl s' = held (cached L P) M - {h} \<union> idl (source s)"
proof -
  obtain x xs where x: "L t = x # xs" using L by (cases "L t") auto
  define u where "u = upd_ltc t (l\<lparr>rounds := tc_capacity l, loaded := Some h\<rparr>) s"
  note m = move_pop [OF ok [folded u_def] x refl]
  have xh: "x = h" using m(2) by (simp add: u_def)
  have s': "r = Some h" "s' = upd_ltc t ((ltcs u t)\<lparr>rounds := rounds (ltcs u t) - 1, loaded := next_item u x\<rparr>) u"
    using r by (simp_all add: tcache_reload_def u_def xh)
  have src: "source s' = source s" by (simp add: s' u_def)
  show ?thesis
    using tc_ok_view [OF m(1) [folded s'(2)]] m(3,4) s'(1) src xh by simp
qed

lemma free_slow_law:
  assumes ok: "tc_ok unv idl iv L P M s" and full: "tc_capacity (ltcs s t) \<le> rounds (ltcs s t)"
    and x: "x \<in> unv (source s) - idl (source s)" "x \<notin> held (cached L P) M"
  shows "tc_inv unv idl iv (tcache_free_slow t x s) \<and>
    tc_idle idl (tcache_free_slow t x s) = insert x (held (cached L P) M \<union> idl (source s)) \<and>
    source (tcache_free_slow t x s) = source s"
proof -
  text \<open>After the full previous magazine, if there is one, went to the shared pool:\<close>
  obtain P' M' s1 where s1: "tc_ok unv idl iv L P' M' s1" "P' t = []" "held (cached L P') M' = held (cached L P) M"
    "ltcs s1 t = (ltcs s t)\<lparr>previous := None\<rparr>" "source s1 = source s"
    "tcache_free_slow t x s = upd_ltc t ((ltcs s t)\<lparr>rounds := 1, loaded := Some x, previous := loaded (ltcs s t)\<rparr>)
       (s1\<lparr>next_item := (next_item s1)(x := None)\<rparr>)"
  proof (cases "previous (ltcs s t)")
    case None
    then have "P t = []" using tc_ok_ltc [OF ok, of t] by (cases "P t") (auto simp: ltc_ok_def)
    moreover have "ltcs s t = (ltcs s t)\<lparr>previous := None\<rparr>" using None by (cases "ltcs s t") simp
    ultimately show ?thesis
      using that [of P M s] ok None by (cases "ltcs s t") (simp add: tcache_free_slow_def Let_def)
  next
    case (Some h)
    note m = move_return [OF ok Some refl]
    define st where "st = (stats s)(t := (stats s t)\<lparr>pool_free := pool_free (stats s t) + 1\<rparr>)"
    define s1 where "s1 = (upd_ltc t ((ltcs s t)\<lparr>previous := None\<rparr>)
      (s\<lparr>next_mag := (next_mag s)(h := shared_mags (tc s)), tc := (tc s)\<lparr>shared_mags := Some h\<rparr>\<rparr>))\<lparr>stats := st\<rparr>"
    have "tcache_free_slow t x s = upd_ltc t ((ltcs s t)\<lparr>rounds := 1, loaded := Some x, previous := loaded (ltcs s t)\<rparr>)
       (s1\<lparr>next_item := (next_item s1)(x := None)\<rparr>)"
      using Some by (cases s; cases "ltcs s t") (simp add: tcache_free_slow_def Let_def s1_def st_def)
    moreover have "tc_ok unv idl iv L (P(t := [])) (P t # M) s1" using m(1) by (simp add: s1_def)
    ultimately show ?thesis
      using that [of "P(t := [])" "P t # M" s1] m(2) by (simp add: s1_def)
  qed
  define l where "l = ltcs s1 t"
  have full1: "tc_capacity l \<le> rounds l" using full s1(4) by (simp add: l_def)
  note m = move_stash [OF s1(1,2) l_def full1]
  define s2 where "s2 = upd_ltc t (l\<lparr>rounds := 0, loaded := None, previous := loaded l\<rparr>) s1"
  have "0 < mag_size (tc s1)" using s1(1) by (simp add: tc_ok_def mags_ok_def)
  then have room: "rounds (ltcs s2 t) < tc_capacity (ltcs s2 t)"
    using tc_ok_ltc [OF s1(1), of t] by (simp add: s2_def l_def ltc_ok_def)
  have x': "x \<in> unv (source s2) - idl (source s2)" "x \<notin> held (cached (L(t := [])) (P'(t := L t))) M'"
    using x m(2) s1(3,5) by (simp_all add: s2_def)
  note p = move_push [OF m(1) [folded s2_def] refl room x']
  have "tcache_free_slow t x s = upd_ltc t ((ltcs s2 t)\<lparr>rounds := rounds (ltcs s2 t) + 1, loaded := Some x\<rparr>)
      (s2\<lparr>next_item := (next_item s2)(x := loaded (ltcs s2 t))\<rparr>)"
    unfolding s1(6) using s1(4) by (cases "ltcs s t") (simp add: s2_def l_def)
  with tc_ok_view [OF p(1)] p(2) m(2) s1(3,5) show ?thesis by (simp add: s2_def)
qed

locale tcache_source = item_source universe idle inv alloc_lot free_lot
  for universe :: "'p \<Rightarrow> nat set" and idle :: "'p \<Rightarrow> nat set" and inv :: "'p \<Rightarrow> bool"
    and alloc_lot :: "nat \<Rightarrow> 'p \<Rightarrow> nat list option \<times> 'p" and free_lot :: "nat list \<Rightarrow> 'p \<Rightarrow> 'p"
begin

lemma fresh_law:
  assumes ok: "tc_ok universe idle inv L P M s" and l: "l = ltcs s t" "rounds l = 0"
    and a: "tcache_alloc_mag alloc_lot t s = (Some h, s1)" "tcache_reload t l h s1 = (r, s')"
  shows "r = Some h \<and> tc_inv universe idle inv s' \<and> universe (source s') = universe (source s) \<and>
    h \<in> tc_idle idle s \<and> tc_idle idle s' = tc_idle idle s - {h}"
proof -
  have L: "L t = []" using tc_ok_ltc [OF ok, of t] l by (simp add: ltc_ok_def)
  obtain xs p where al: "alloc_lot (mag_size (tc s)) (source s) = (Some xs, p)" "xs \<noteq> []" "h = hd xs"
    using a(1) by (auto simp: tcache_alloc_mag_def Let_def split: prod.splits option.splits list.splits)
  have iv: "inv (source s)" using ok by (simp add: tc_ok_def)
  note lot = lot_Some [OF iv al(1)]
  define u where "u = s\<lparr>source := p, next_item := link_items xs (next_item s),
    tc := (tc s)\<lparr>mags_allocated := mags_allocated (tc s) + 1\<rparr>\<rparr>"
  have m: "tc_ok universe idle inv (L(t := xs)) P M (upd_ltc t (l\<lparr>rounds := tc_capacity l, loaded := Some (hd xs)\<rparr>) u)"
    "held (cached (L(t := xs)) P) M = held (cached L P) M \<union> set xs"
    unfolding u_def using move_fresh [OF ok L l(1), of p xs] lot lot_sub [OF iv] by blast+
  define st where "st = (stats s)(t := (stats s t)\<lparr>mag_alloc := mag_alloc (stats s t) + 1\<rparr>)"
  have s1: "s1 = u\<lparr>stats := st\<rparr>"
    using a(1) al by (cases s) (auto simp: tcache_alloc_mag_def Let_def u_def st_def split: list.splits)
  have "upd_ltc t (l\<lparr>rounds := tc_capacity l, loaded := Some h\<rparr>) s1 =
      (upd_ltc t (l\<lparr>rounds := tc_capacity l, loaded := Some (hd xs)\<rparr>) u)\<lparr>stats := st\<rparr>"
    by (simp add: s1 al)
  with m(1) have ok1: "tc_ok universe idle inv (L(t := xs)) P M (upd_ltc t (l\<lparr>rounds := tc_capacity l, loaded := Some h\<rparr>) s1)"
    by simp
  have src: "source s1 = p" by (simp add: s1 u_def)
  have "(L(t := xs)) t \<noteq> []" using al by simp
  note rl = reload_law [OF ok1 this a(2), unfolded m(2) src]
  have idl: "tc_idle idle s = held (cached L P) M \<union> idle (source s)" using tc_ok_view [OF ok] by simp
  have h: "h \<in> set xs" using al by simp
  have "held (cached L P) M \<inter> idle (source s) = {}" using ok unfolding tc_ok_def by blast
  with h lot have "held (cached L P) M \<union> set xs - {h} \<union> idle p = tc_idle idle s - {h}" "h \<in> tc_idle idle s"
    unfolding idl by blast+
  with rl lot show ?thesis by simp
qed

lemma none_law:
  assumes ok: "tc_ok universe idle inv L P M s" and l: "rounds (ltcs s t) = 0"
    and a: "tcache_alloc_mag alloc_lot t s = (None, s1)"
  shows "let s' = upd_ltc t ((ltcs s t)\<lparr>loaded := None\<rparr>) s1
    in tc_inv universe idle inv s' \<and> universe (source s') = universe (source s) \<and>
       tc_idle idle s' = held (cached L P) M \<union> idle (source s)"
proof -
  have iv: "inv (source s)" using ok by (simp add: tc_ok_def)
  have ld: "loaded (ltcs s t) = None" using tc_ok_ltc [OF ok, of t] l by (auto simp: ltc_ok_def)
  obtain q p where al: "alloc_lot (mag_size (tc s)) (source s) = (q, p)" by fastforce
  have "0 < mag_size (tc s)" using ok by (simp add: tc_ok_def mags_ok_def)
  then have q: "q = None"
    using a al lot_Some [OF iv, of "mag_size (tc s)" _ p]
    by (auto simp: tcache_alloc_mag_def Let_def split: option.splits list.splits)
  note lot = lot_None [OF iv al [unfolded q]]
  have l': "(ltcs s t)\<lparr>loaded := None\<rparr> = ltcs s t" using ld by (cases "ltcs s t") simp
  obtain st where "s1 = (s\<lparr>stats := st\<rparr>)\<lparr>source := p\<rparr>"
    using a al q by (auto simp: tcache_alloc_mag_def Let_def)
  then have s': "upd_ltc t ((ltcs s t)\<lparr>loaded := None\<rparr>) s1 = (s\<lparr>stats := st\<rparr>)\<lparr>source := p\<rparr>" using l' by simp
  have "tc_ok universe idle inv L P M ((s\<lparr>stats := st\<rparr>)\<lparr>source := p\<rparr>)"
    using ok lot by (simp add: tc_ok_def mags_ok_def)
  from tc_ok_view [OF this] lot show ?thesis unfolding s' by simp
qed

lemma slow_law:
  assumes ok: "tc_ok universe idle inv L P M s" and l: "rounds (ltcs s t) = 0"
    and a: "tcache_alloc_slow alloc_lot t s = (r, s')"
  shows "tc_inv universe idle inv s' \<and> universe (source s') = universe (source s) \<and>
    (case r of None \<Rightarrow> tc_idle idle s' = tc_idle idle s
     | Some x \<Rightarrow> x \<in> tc_idle idle s \<and> tc_idle idle s' = tc_idle idle s - {x})"
proof -
  define l where "l = ltcs s t"
  note lt = tc_ok_ltc [OF ok, of t, folded l_def]
  have L: "L t = []" using lt l by (simp add: ltc_ok_def l_def)
  have idl: "tc_idle idle s = held (cached L P) M \<union> idle (source s)" using tc_ok_view [OF ok] by simp
  have sep: "held (cached L P) M \<inter> idle (source s) = {}" using ok unfolding tc_ok_def by blast
  define s0 where "s0 = s\<lparr>stats := (stats s)(t := (stats s t)\<lparr>pool_alloc := pool_alloc (stats s t) + 1\<rparr>)\<rparr>"
  have ok0: "tc_ok universe idle inv L P M s0" using ok by (simp add: s0_def)
  have [simp]: "ltcs s0 = ltcs s" "tc s0 = tc s" "source s0 = source s" "next_mag s0 = next_mag s"
    by (simp_all add: s0_def)
  consider (prev) h where "previous l = Some h" | (shared) h where "previous l = None" "shared_mags (tc s) = Some h"
    | (fresh) "previous l = None" "shared_mags (tc s) = None" by fastforce
  then show ?thesis
  proof cases
    case prev
    have P: "P t \<noteq> []" using lt prev by (auto simp: ltc_ok_def)
    note m = move_previous [OF ok L P l_def]
    have a': "tcache_reload t (l\<lparr>previous := None\<rparr>) h s = (r, s')"
      using a prev by (simp add: tcache_alloc_slow_def Let_def l_def)
    have ok1: "tc_ok universe idle inv (L(t := P t)) (P(t := [])) M
        (upd_ltc t ((l\<lparr>previous := None\<rparr>)\<lparr>rounds := tc_capacity (l\<lparr>previous := None\<rparr>), loaded := Some h\<rparr>) s)"
      using m(1) prev by simp
    have "(L(t := P t)) t \<noteq> []" using P by simp
    from reload_law [OF ok1 this a', unfolded m(2)] sep show ?thesis unfolding idl by auto
  next
    case shared
    obtain m M' where M: "M = m # M'" using mags_ok_shared [of L P M s] ok shared by (cases M) (auto simp: tc_ok_def)
    have "l = ltcs s0 t" by (simp add: l_def)
    note m = move_shared [OF ok0 [unfolded M] L this]
    have h: "h = hd m" "m \<noteq> []" using m(3) shared ok by (auto simp: M tc_ok_def mags_ok_def)
    have a': "tcache_reload t l h (s0\<lparr>tc := (tc s)\<lparr>shared_mags := next_mag s h\<rparr>\<rparr>) = (r, s')"
      using a shared by (simp add: tcache_alloc_slow_def Let_def l_def s0_def)
    have ok1: "tc_ok universe idle inv (L(t := m)) P M'
        (upd_ltc t (l\<lparr>rounds := tc_capacity l, loaded := Some h\<rparr>) (s0\<lparr>tc := (tc s)\<lparr>shared_mags := next_mag s h\<rparr>\<rparr>))"
      using m(1) h by simp
    have "(L(t := m)) t \<noteq> []" using h by simp
    from reload_law [OF ok1 this a', unfolded m(2)] sep show ?thesis unfolding idl M by auto
  next
    case fresh
    obtain r1 s1 where a1: "tcache_alloc_mag alloc_lot t s0 = (r1, s1)" by (cases "tcache_alloc_mag alloc_lot t s0")
    show ?thesis
    proof (cases r1)
      case (Some h)
      have a': "tcache_reload t l h s1 = (r, s')"
        using a fresh a1 Some by (simp add: tcache_alloc_slow_def Let_def l_def s0_def)
      have "tc_idle idle s0 = tc_idle idle s" using tc_ok_view [OF ok0] idl by simp
      with fresh_law [OF ok0 _ _ a1 [unfolded Some] a'] l show ?thesis by (simp add: l_def)
    next
      case None
      then have a': "r = None" "s' = upd_ltc t ((ltcs s0 t)\<lparr>loaded := None\<rparr>) s1"
        using a fresh a1 by (auto simp: tcache_alloc_slow_def Let_def l_def s0_def)
      from none_law [OF ok0 _ a1 [unfolded None]] l a' idl show ?thesis by (simp add: Let_def)
    qed
  qed
qed

lemma idle_universe:
  assumes "tc_inv universe idle inv s"
  shows "tc_idle idle s \<subseteq> universe (source s)"
proof -
  obtain L P M where ok: "tc_ok universe idle inv L P M s" using assms by (auto simp: tc_inv_def)
  then have "held (cached L P) M \<subseteq> universe (source s)" "inv (source s)" unfolding tc_ok_def by blast+
  with tc_ok_view [OF ok] lot_sub [of "source s"] show ?thesis by simp
qed

lemma alloc_law:
  assumes i: "tc_inv universe idle inv s" and a: "tcache_alloc alloc_lot t s = (r, s')"
  shows "tc_inv universe idle inv s' \<and> universe (source s') = universe (source s) \<and>
    (case r of None \<Rightarrow> tc_idle idle s' = tc_idle idle s
     | Some x \<Rightarrow> x \<in> tc_idle idle s \<and> tc_idle idle s' = tc_idle idle s - {x})"
proof -
  obtain L P M where ok: "tc_ok universe idle inv L P M s" using i by (auto simp: tc_inv_def)
  show ?thesis
  proof (cases "rounds (ltcs s t) = 0")
    case True
    with slow_law [OF ok True] a show ?thesis by (simp add: tcache_alloc_def)
  next
    case False
    then obtain x xs where x: "L t = x # xs"
      using tc_ok_ltc [OF ok, of t] by (cases "L t") (auto simp: ltc_ok_def)
    note m = move_pop [OF ok x refl]
    have s': "r = Some x" "s' = upd_ltc t ((ltcs s t)\<lparr>rounds := rounds (ltcs s t) - 1, loaded := next_item s x\<rparr>) s"
      using a False m(2) by (simp_all add: tcache_alloc_def Let_def)
    have "held (cached L P) M \<inter> idle (source s) = {}" using ok unfolding tc_ok_def by blast
    with tc_ok_view [OF m(1) [folded s'(2)]] tc_ok_view [OF ok] m(3) show ?thesis
      unfolding m(4) by (auto simp: s')
  qed
qed

lemma free_law:
  assumes i: "tc_inv universe idle inv s" and x: "x \<in> universe (source s) - tc_idle idle s"
  shows "tc_inv universe idle inv (tcache_free t x s) \<and> tc_idle idle (tcache_free t x s) = insert x (tc_idle idle s) \<and>
    source (tcache_free t x s) = source s"
proof -
  obtain L P M where ok: "tc_ok universe idle inv L P M s" using i by (auto simp: tc_inv_def)
  have idl: "tc_idle idle s = held (cached L P) M \<union> idle (source s)" using tc_ok_view [OF ok] by simp
  show ?thesis
  proof (cases "tc_capacity (ltcs s t) \<le> rounds (ltcs s t)")
    case False
    then have room: "rounds (ltcs s t) < tc_capacity (ltcs s t)" by simp
    note m = move_push [OF ok refl room, of x]
    have "tcache_free t x s = upd_ltc t ((ltcs s t)\<lparr>rounds := rounds (ltcs s t) + 1, loaded := Some x\<rparr>)
        (s\<lparr>next_item := (next_item s)(x := loaded (ltcs s t))\<rparr>)"
      using False by (simp add: tcache_free_def Let_def)
    with tc_ok_view [OF m(1)] m(2) x show ?thesis unfolding idl by simp
  next
    case True
    then show ?thesis using free_slow_law [OF ok True] x unfolding idl by (simp add: tcache_free_def)
  qed
qed

end

sublocale tcache_source \<subseteq> cache: allocator "\<lambda>s. universe (source s)" "tc_idle idle" "tc_inv universe idle inv"
  "tcache_alloc alloc_lot" "tcache_free"
proof
  fix s t x s'
  assume i: "tc_inv universe idle inv s"
  show "tc_idle idle s \<subseteq> universe (source s)" by (rule idle_universe [OF i])
  show "tc_inv universe idle inv s' \<and> x \<in> tc_idle idle s \<and> tc_idle idle s' = tc_idle idle s - {x} \<and>
      universe (source s') = universe (source s)" if "tcache_alloc alloc_lot t s = (Some x, s')"
    using alloc_law [OF i that] by simp
  show "tc_inv universe idle inv s' \<and> tc_idle idle s' = tc_idle idle s \<and> universe (source s') = universe (source s)"
    if "tcache_alloc alloc_lot t s = (None, s')"
    using alloc_law [OF i that] by simp
  show "tc_inv universe idle inv (tcache_free t x s) \<and> tc_idle idle (tcache_free t x s) = insert x (tc_idle idle s) \<and>
      universe (source (tcache_free t x s)) = universe (source s)" if "x \<in> universe (source s) - tc_idle idle s"
    using free_law [OF i that] by simp
qed

interpretation pool_cache: tcache_source pool_universe pool_idle pool_inv mempool_tcache_alloc mempool_tcache_free
  by unfold_locales

subsection \<open>Reclaiming\<close>

lemma free_mag_law:
  assumes "chain (next_item s) (Some h) m"
  shows "\<exists>s'. tcache_free_mag free_lot t s h = Some s' \<and> source s' = free_lot m (source s) \<and>
    next_item s' = next_item s \<and> next_mag s' = next_mag s \<and> ltcs s' = ltcs s \<and>
    tc s' = (tc s)\<lparr>mags_allocated := mags_allocated (tc s) - 1\<rparr>"
  using collect_chain [OF assms] by (simp add: tcache_free_mag_def Let_def)

context tcache_source
begin

lemma reclaim_loop_law:
  assumes "chain (next_mag s) hdr (map hd M)" "\<forall>m \<in> set M. chain (next_item s) (Some (hd m)) m"
    and "inv (source s)" "distinct (concat M)" "set (concat M) \<subseteq> universe (source s) - idle (source s)"
  shows "\<exists>s'. reclaim_loop free_lot t s hdr = Some s' \<and> inv (source s') \<and> universe (source s') = universe (source s) \<and>
    idle (source s') = idle (source s) \<union> set (concat M) \<and> next_item s' = next_item s \<and> next_mag s' = next_mag s \<and>
    ltcs s' = ltcs s \<and> tc s' = (tc s)\<lparr>mags_allocated := mags_allocated (tc s) - int (length M)\<rparr>"
  using assms
proof (induction M arbitrary: s hdr)
  case Nil
  then show ?case by (subst reclaim_loop.simps) simp
next
  case (Cons m M)
  have hdr: "hdr = Some (hd m)" "chain (next_mag s) (next_mag s (hd m)) (map hd M)" using Cons.prems(1) by simp_all
  have "chain (next_item s) (Some (hd m)) m" using Cons.prems(2) by simp
  from free_mag_law [OF this, of free_lot t] obtain s1 where
    s1: "tcache_free_mag free_lot t s (hd m) = Some s1" "source s1 = free_lot m (source s)" "next_item s1 = next_item s"
      "next_mag s1 = next_mag s" "ltcs s1 = ltcs s" "tc s1 = (tc s)\<lparr>mags_allocated := mags_allocated (tc s) - 1\<rparr>"
    by blast
  have lot: "inv (source s1) \<and> universe (source s1) = universe (source s) \<and> idle (source s1) = idle (source s) \<union> set m"
    unfolding s1(2) by (rule lot_free [OF Cons.prems(3)]) (use Cons.prems(4,5) in auto)
  have "\<exists>s'. reclaim_loop free_lot t s1 (next_mag s (hd m)) = Some s' \<and> inv (source s') \<and>
    universe (source s') = universe (source s1) \<and>
    idle (source s') = idle (source s1) \<union> set (concat M) \<and> next_item s' = next_item s1 \<and> next_mag s' = next_mag s1 \<and>
    ltcs s' = ltcs s1 \<and> tc s' = (tc s1)\<lparr>mags_allocated := mags_allocated (tc s1) - int (length M)\<rparr>"
    by (rule Cons.IH) (use hdr Cons.prems lot s1 in auto)
  with s1 lot show ?case by (subst reclaim_loop.simps) (auto simp: hdr)
qed

lemma reclaim_law:
  assumes "tc_inv universe idle inv s"
  shows "\<exists>s'. tcache_reclaim free_lot t s = Some s' \<and> tc_inv universe idle inv s' \<and> shared_mags (tc s') = None \<and>
    tc_idle idle s' = tc_idle idle s \<and> ltcs s' = ltcs s"
proof -
  obtain L P M where ok: "tc_ok universe idle inv L P M s" using assms by (auto simp: tc_inv_def)
  have m: "mags_ok L P M s" "mags_sep (cached L P) M" "inv (source s)"
    "held (cached L P) M \<subseteq> universe (source s) - idle (source s)" using ok by (simp_all add: tc_ok_def)
  define s0 where "s0 = s\<lparr>tc := (tc s)\<lparr>shared_mags := None\<rparr>\<rparr>"
  have sub: "set (concat M) \<subseteq> held (cached L P) M" by (auto simp: held_def)
  have "\<exists>s'. reclaim_loop free_lot t s0 (shared_mags (tc s)) = Some s' \<and> inv (source s') \<and>
    universe (source s') = universe (source s0) \<and>
    idle (source s') = idle (source s0) \<union> set (concat M) \<and> next_item s' = next_item s0 \<and> next_mag s' = next_mag s0 \<and>
    ltcs s' = ltcs s0 \<and> tc s' = (tc s0)\<lparr>mags_allocated := mags_allocated (tc s0) - int (length M)\<rparr>"
    by (rule reclaim_loop_law) (use m sub in \<open>auto simp: s0_def mags_ok_def mags_sep_def\<close>)
  then obtain s' where s': "tcache_reclaim free_lot t s = Some s'" "inv (source s')"
    "universe (source s') = universe (source s)" "idle (source s') = idle (source s) \<union> set (concat M)"
    "next_item s' = next_item s" "next_mag s' = next_mag s" "ltcs s' = ltcs s"
    "tc s' = (tc s)\<lparr>shared_mags := None, mags_allocated := mags_allocated (tc s) - int (length M)\<rparr>"
    by (auto simp: tcache_reclaim_def s0_def)
  have h: "held (cached L P) [] \<subseteq> held (cached L P) M - set (concat M)" "held (cached L P) M = held (cached L P) [] \<union> set (concat M)"
    using m(2) unfolding held_def mags_sep_def by auto
  have "mags_ok L P [] s'" using m(1) s' by (simp add: mags_ok_def)
  moreover have "mags_sep (cached L P) []" using m(2) by (simp add: mags_sep_def)
  moreover have "held (cached L P) [] \<subseteq> universe (source s') - idle (source s')"
    using h(1) m(4) unfolding s'(3,4) by blast
  ultimately have ok': "tc_ok universe idle inv L P [] s'" using s'(2) by (simp add: tc_ok_def)
  have "tc_idle idle s' = tc_idle idle s"
    using tc_ok_view [OF ok'] tc_ok_view [OF ok] h(2) s'(4) by (simp add: Un_ac)
  with s' tc_ok_view [OF ok'] show ?thesis by simp
qed

end

lemma start_law:
  assumes "tcache_create True nm k sz l = (Some c, l')" "0 < k" "iv p"
  shows "tc_inv unv idl iv (tcache_start c p) \<and> tc_idle idl (tcache_start c p) = idl p"
proof -
  have "tc_ok unv idl iv (\<lambda>_. []) (\<lambda>_. []) [] (tcache_start c p)"
    using assms by (auto simp: tc_ok_def mags_ok_def mags_sep_def held_def cached_def tcache_create_def
        tcache_start_def tcache_init_perthread_def)
  from tc_ok_view [OF this] show ?thesis by (simp add: held_def cached_def tcache_start_def)
qed

section \<open>Properties\<close>



text \<open>
  Reclaiming a cache terminates, gives every magazine of the shared pool back to the
  source, leaves the magazines of the threads alone and loses no item.
\<close>

theorem tcache_reclaim_returns:
  assumes "tc_inv pool_universe pool_idle pool_inv s"
  shows "\<exists>s'. tcache_reclaim mempool_tcache_free t s = Some s' \<and> tc_inv pool_universe pool_idle pool_inv s' \<and>
    shared_mags (tc s') = None \<and> tc_idle pool_idle s' = tc_idle pool_idle s \<and> ltcs s' = ltcs s"
  using assms by (rule pool_cache.reclaim_law)

theorem tcache_reclaim_returns_witness:
  "tc_inv pool_universe pool_idle pool_inv (tcache_start \<lparr>tc_name = ''c'', item_size = 16, mags_allocated = 0, mag_size = 1,
      shared_mags = None\<rparr> zero_pool) \<and>
   (\<exists>s'. tcache_reclaim mempool_tcache_free 0 (tcache_start \<lparr>tc_name = ''c'', item_size = 16, mags_allocated = 0,
      mag_size = 1, shared_mags = None\<rparr> zero_pool) = Some s')"
proof -
  have "pool_inv zero_pool" by (simp add: pool_inv_def zero_pool_def pool_idle_def pool_universe_def)
  with start_law [of "''c''" 1 16 "[]" _ _ pool_inv zero_pool pool_universe pool_idle]
  have "tc_inv pool_universe pool_idle pool_inv (tcache_start \<lparr>tc_name = ''c'', item_size = 16, mags_allocated = 0,
      mag_size = 1, shared_mags = None\<rparr> zero_pool)"
    by (simp add: tcache_create_def)
  from this tcache_reclaim_returns [OF this, of 0] show ?thesis by blast
qed

end
