(* ===== verification/Cpu_Info.thy ===== *)
theory Cpu_Info
  imports Cpulist
begin

text \<open>
  CPU masks of uProcesses: \<^verbatim>\<open>src/vessel/src/base/cpu.c\<close> with the part of \<^verbatim>\<open>base/sysfs.c\<close> it
  uses. What the kernel publishes under \<^verbatim>\<open>/proc\<close> and \<^verbatim>\<open>/sys\<close> is the record \<open>sysfs\<close>, an
  argument of the operations; \<^verbatim>\<open>NCPU\<close> and \<^verbatim>\<open>NNUMA\<close> come from the build and are arguments too.
  A store outside an array is the result \<open>None\<close>.
\<close>

section \<open>State\<close>

record siblings_info =
  thread_siblings_mask :: bitmap
  core_siblings_mask :: bitmap

record cpu_info =
  cpu_count :: nat
  numa_count :: nat
  cpu_mask :: bitmap
  numa_mask :: bitmap
  sib_map :: "nat \<Rightarrow> siblings_info"

text \<open>
  \<open>allowed_list\<close> holds the values of the \<^verbatim>\<open>Cpus_allowed_list\<close> lines of \<^verbatim>\<open>/proc/self/status\<close>, or
  \<open>None\<close> if the file cannot be opened. \<open>package_id\<close> is what \<^verbatim>\<open>sysfs_parse_val\<close> reads, the
  other two are the first lines of the topology files.
\<close>

record sysfs =
  allowed_list :: "string list option"
  package_id :: "nat \<Rightarrow> nat option"
  core_siblings_list :: "nat \<Rightarrow> string option"
  thread_siblings_list :: "nat \<Rightarrow> string option"

section \<open>Operations\<close>

definition sysfs_parse_bitlist :: "string option \<Rightarrow> bitmap \<Rightarrow> nat \<Rightarrow> (ret \<times> bitmap) option" where
  "sysfs_parse_bitlist line bits nbits =
     (case line of
        None \<Rightarrow> Some (Err EIO, bits)
      | Some str \<Rightarrow>
          map_option (\<lambda>(ok, b). (if ok then Ok else Err ENAVAIL, b)) (string_to_bitmap str bits nbits))"

text \<open>The loop over \<^verbatim>\<open>/proc/self/status\<close>; \<open>tmp\<close> is the scratch bitmap on the stack.\<close>

fun read_allowed :: "nat \<Rightarrow> string list \<Rightarrow> bitmap \<Rightarrow> bitmap \<Rightarrow> (ret \<times> bitmap) option" where
  "read_allowed ncpu [] tmp cmask = Some (Ok, cmask)"
| "read_allowed ncpu (l # ls) tmp cmask =
     (case string_to_bitmap l tmp ncpu of
        None \<Rightarrow> None
      | Some (False, _) \<Rightarrow> Some (Err EINVAL, cmask)
      | Some (True, tmp') \<Rightarrow> read_allowed ncpu ls tmp' (bitmap_or cmask cmask tmp' ncpu))"

fun scan_packages :: "sysfs \<Rightarrow> nat \<Rightarrow> nat list \<Rightarrow> bitmap \<Rightarrow> (ret \<times> bitmap) option" where
  "scan_packages fs nnuma [] nm = Some (Ok, nm)"
| "scan_packages fs nnuma (i # is) nm =
     (case package_id fs i of
        None \<Rightarrow> Some (Err EIO, nm)
      | Some v \<Rightarrow>
          if 2 ^ 32 - 1 < v then Some (Err ERANGE, nm)
          else if BITMAP_LONG_SIZE nnuma \<le> BITMAP_POS_IDX v then None
          else scan_packages fs nnuma is (bitmap_set nm v))"

text \<open>The checks and counts once the mask is known. \<open>tbl\<close> is the mask of \<^verbatim>\<open>cpu_info_tbl\<close>.\<close>

definition check_cpuset :: "nat \<Rightarrow> nat \<Rightarrow> sysfs \<Rightarrow> bitmap \<Rightarrow> cpu_info \<Rightarrow> (ret \<times> cpu_info) option" where
  "check_cpuset ncpu nnuma fs tbl ci =
     (let tmp = bitmap_xor (bitmap_init (\<lambda>_. 0) ncpu False) tbl (cpu_mask ci) ncpu;
          tmp = bitmap_and tmp (cpu_mask ci) tmp ncpu
      in if 0 < bitmap_popcount tmp ncpu then Some (Err EINVAL, ci)
         else let n = bitmap_popcount (cpu_mask ci) ncpu
           in if n = 0 then Some (Err EINVAL, ci)
              else let ci = ci\<lparr>cpu_count := n\<rparr>
                in case scan_packages fs nnuma (positions_set (cpu_mask ci) ncpu 0) (numa_mask ci) of
                     None \<Rightarrow> None
                   | Some (Err e, nm) \<Rightarrow> Some (Err e, ci\<lparr>numa_mask := nm\<rparr>)
                   | Some (Ok, nm) \<Rightarrow>
                       let k = bitmap_popcount nm nnuma; ci = ci\<lparr>numa_mask := nm\<rparr>
                       in Some (if k = 0 then (Err EINVAL, ci) else (Ok, ci\<lparr>numa_count := k\<rparr>)))"

text \<open>
  \<open>tbl = None\<close> when \<^verbatim>\<open>cpu_info\<close> is the table \<^verbatim>\<open>cpu_info_tbl\<close> itself. \<open>tmp\<close> is what the
  uninitialised scratch bitmap on the stack holds.
\<close>

definition init_process_cpuset ::
  "nat \<Rightarrow> nat \<Rightarrow> sysfs \<Rightarrow> bitmap \<Rightarrow> bitmap option \<Rightarrow> cpu_info \<Rightarrow> bitmap option \<Rightarrow> (ret \<times> cpu_info) option" where
  "init_process_cpuset ncpu nnuma fs tmp tbl ci affinitive_cpus =
     (let ci = ci\<lparr>cpu_mask := bitmap_init (cpu_mask ci) ncpu False, numa_mask := bitmap_init (numa_mask ci) nnuma False\<rparr>;
          masked =
            (case affinitive_cpus of
               None \<Rightarrow>
                 (case allowed_list fs of
                    None \<Rightarrow> Some (Err ENOENT, cpu_mask ci)
                  | Some ls \<Rightarrow> read_allowed ncpu ls tmp (cpu_mask ci))
             | Some aff \<Rightarrow> Some (Ok, foldl bitmap_set (cpu_mask ci) (positions_set aff ncpu 0)))
      in case masked of
           None \<Rightarrow> None
         | Some (Err e, m) \<Rightarrow> Some (Err e, ci\<lparr>cpu_mask := m\<rparr>)
         | Some (Ok, m) \<Rightarrow>
             check_cpuset ncpu nnuma fs (case tbl of None \<Rightarrow> m | Some t \<Rightarrow> t) (ci\<lparr>cpu_mask := m\<rparr>))"

fun scan_siblings :: "nat \<Rightarrow> sysfs \<Rightarrow> nat list \<Rightarrow> bitmap \<Rightarrow> cpu_info \<Rightarrow> (ret \<times> cpu_info) option" where
  "scan_siblings ncpu fs [] tmp ci = Some (Ok, ci)"
| "scan_siblings ncpu fs (i # is) tmp ci =
     (case package_id fs i of
        None \<Rightarrow> Some (Err EIO, ci)
      | Some v \<Rightarrow>
          if 2 ^ 32 - 1 < v then Some (Err ERANGE, ci)
          else case sysfs_parse_bitlist (core_siblings_list fs i) tmp ncpu of
            None \<Rightarrow> None
          | Some (Err _, _) \<Rightarrow> Some (Err EIO, ci)
          | Some (Ok, tmp) \<Rightarrow>
              let old = sib_map ci i;
                  c = bitmap_and (bitmap_init (core_siblings_mask old) ncpu False) tmp (cpu_mask ci) ncpu;
                  ci = ci\<lparr>sib_map := (sib_map ci)(i := old\<lparr>core_siblings_mask := c\<rparr>)\<rparr>
              in case sysfs_parse_bitlist (thread_siblings_list fs i) tmp ncpu of
                   None \<Rightarrow> None
                 | Some (Err _, _) \<Rightarrow> Some (Err EIO, ci)
                 | Some (Ok, tmp) \<Rightarrow>
                     let old = sib_map ci i;
                         t = bitmap_and (bitmap_init (thread_siblings_mask old) ncpu False) tmp (cpu_mask ci) ncpu
                     in scan_siblings ncpu fs is tmp
                          (ci\<lparr>sib_map := (sib_map ci)(i := old\<lparr>thread_siblings_mask := t\<rparr>)\<rparr>))"

definition cpu_scan_topology :: "nat \<Rightarrow> sysfs \<Rightarrow> bitmap \<Rightarrow> cpu_info \<Rightarrow> (ret \<times> cpu_info) option" where
  "cpu_scan_topology ncpu fs tmp ci = scan_siblings ncpu fs (positions_set (cpu_mask ci) ncpu 0) tmp ci"

text \<open>\<open>state\<close> is the bitmap of \<^verbatim>\<open>global_cpu_state_map\<close>. The bound of both loops is \<^verbatim>\<open>cpu_count\<close>.\<close>

definition take_cpu :: "cpu_info \<Rightarrow> bitmap \<Rightarrow> ret \<times> bitmap" where
  "take_cpu ci state =
     (let cpus = positions_set (cpu_mask ci) (cpu_count ci) 0
      in if \<exists>i \<in> set cpus. bitmap_test state i then (Err EAGAIN, state)
         else (Ok, foldl bitmap_set state cpus))"

text \<open>
  \<open>cur\<close> is the CPU the caller runs on, \<open>pin\<close> the result of \<^verbatim>\<open>pthread_setaffinity_np\<close>.
\<close>

definition cpu_alloc ::
  "nat \<Rightarrow> nat \<Rightarrow> sysfs \<Rightarrow> bitmap \<Rightarrow> cpu_info \<Rightarrow> nat \<Rightarrow> (nat \<Rightarrow> ret) \<Rightarrow> bitmap \<Rightarrow> cpu_info \<Rightarrow> bitmap option \<Rightarrow> bool \<Rightarrow>
   (ret \<times> cpu_info \<times> bitmap) option" where
  "cpu_alloc ncpu nnuma fs tmp tbl cur pin state ci affinitive_cpus exclusive =
     (case init_process_cpuset ncpu nnuma fs tmp (Some (cpu_mask tbl)) ci affinitive_cpus of
        None \<Rightarrow> None
      | Some (Err e, ci) \<Rightarrow> Some (Err e, ci, state)
      | Some (Ok, ci) \<Rightarrow>
          (case cpu_scan_topology ncpu fs tmp ci of
             None \<Rightarrow> None
           | Some (Err e, ci) \<Rightarrow> Some (Err e, ci, state)
           | Some (Ok, ci) \<Rightarrow>
               let (r, state) = (if exclusive then take_cpu ci state else (Ok, state))
               in (case r of
                     Err e \<Rightarrow> Some (Err e, ci, state)
                   | Ok \<Rightarrow>
                       if bitmap_test (cpu_mask ci) cur then Some (Ok, ci, state)
                       else Some (pin (bitmap_find_next_set (cpu_mask ci) ncpu 0), ci, state))))"

text \<open>\<^verbatim>\<open>cpu_init\<close> fills the table; the missing \<^verbatim>\<open>fsgsbase\<close> support is only logged.\<close>

definition cpu_init :: "nat \<Rightarrow> nat \<Rightarrow> sysfs \<Rightarrow> bitmap \<Rightarrow> cpu_info \<Rightarrow> (ret \<times> cpu_info) option" where
  "cpu_init ncpu nnuma fs tmp tbl =
     (case init_process_cpuset ncpu nnuma fs tmp None tbl None of
        Some (Ok, tbl) \<Rightarrow> cpu_scan_topology ncpu fs tmp tbl
      | other \<Rightarrow> other)"

section \<open>Laws\<close>

lemma test_foldl_set: "bitmap_test (foldl bitmap_set b ps) q \<longleftrightarrow> q \<in> set ps \<or> bitmap_test b q"
  by (induction ps arbitrary: b) auto

lemma test_zero [simp]: "\<not> bitmap_test (\<lambda>_. 0) q"
  by (simp add: bitmap_test_bit)

lemma set_positions: "set (positions_set b n 0) = {p. p < n \<and> bitmap_test b p}"
  by (auto simp: positions_set_eq)

lemma test_init_False: "bitmap_test (bitmap_init b n False) q \<Longrightarrow> 64 * BITMAP_LONG_SIZE n \<le> q"
proof (rule ccontr)
  assume t: "bitmap_test (bitmap_init b n False) q" and "\<not> 64 * BITMAP_LONG_SIZE n \<le> q"
  then have "q div 64 < BITMAP_LONG_SIZE n" by linarith
  with t show False by (simp add: bitmap_test_bit bitmap_init_def)
qed

lemma long_size_le: "n \<le> 64 * BITMAP_LONG_SIZE n"
  by (simp add: BITMAP_LONG_SIZE_def div_up_def BITS_PER_LONG_def)

lemma popcount_card:
  assumes "\<And>q. bitmap_test b q \<Longrightarrow> q < 64 * BITMAP_LONG_SIZE n \<Longrightarrow> q < n"
  shows "bitmap_popcount b n = card {p. p < n \<and> bitmap_test b p}"
proof -
  have "{p. p < 64 * BITMAP_LONG_SIZE n \<and> bitmap_test b p} = {p. p < n \<and> bitmap_test b p}"
    using assms long_size_le [of n] by fastforce
  then show ?thesis by (simp add: bitmap_popcount_def popcount_loop_eq)
qed

lemma affinity_mask:
  fixes b aff :: bitmap and n :: nat
  defines "m \<equiv> foldl bitmap_set (bitmap_init b n False) (positions_set aff n 0)"
  shows "p < n \<Longrightarrow> bitmap_test m p \<longleftrightarrow> bitmap_test aff p"
    and "bitmap_test m q \<Longrightarrow> q < 64 * BITMAP_LONG_SIZE n \<Longrightarrow> q < n"
  using test_init_False [of b n] by (fastforce simp: m_def test_foldl_set set_positions)+

lemma check_cpuset_law:
  assumes "check_cpuset n k fs tbl ci = Some (Ok, ci')"
    and tight: "\<And>q. bitmap_test (cpu_mask ci) q \<Longrightarrow> q < 64 * BITMAP_LONG_SIZE n \<Longrightarrow> q < n"
  shows "cpu_mask ci' = cpu_mask ci \<and> cpu_count ci' = card {p. p < n \<and> bitmap_test (cpu_mask ci) p} \<and>
    0 < cpu_count ci' \<and> (\<forall>p < n. bitmap_test (cpu_mask ci) p \<longrightarrow> bitmap_test tbl p)"
proof -
  define x where "x = bitmap_xor (bitmap_init (\<lambda>_. 0) n False) tbl (cpu_mask ci) n"
  define y where "y = bitmap_and x (cpu_mask ci) x n"
  have y: "bitmap_popcount y n = 0" "bitmap_popcount (cpu_mask ci) n \<noteq> 0" "cpu_mask ci' = cpu_mask ci"
    "cpu_count ci' = bitmap_popcount (cpu_mask ci) n"
    using assms(1) unfolding check_cpuset_def x_def [symmetric] y_def [symmetric] Let_def
    by (auto split: if_splits option.splits prod.splits ret.splits)
  have "\<not> bitmap_test y p" if "p < n" for p
    using y(1) that long_size_le [of n] by (auto simp: bitmap_popcount_def popcount_loop_eq)
  then have "\<forall>p < n. bitmap_test (cpu_mask ci) p \<longrightarrow> bitmap_test tbl p" by (simp add: y_def x_def)
  moreover have "bitmap_popcount (cpu_mask ci) n = card {p. p < n \<and> bitmap_test (cpu_mask ci) p}"
    using tight by (rule popcount_card)
  ultimately show ?thesis using y by (simp add: card_gt_0_iff)
qed

lemma cpuset_law:
  assumes "init_process_cpuset n k fs tmp (Some tbl) ci (Some aff) = Some (Ok, ci')"
  shows "(\<forall>p < n. bitmap_test (cpu_mask ci') p \<longleftrightarrow> bitmap_test aff p) \<and>
    cpu_count ci' = card {p. p < n \<and> bitmap_test aff p} \<and> 0 < cpu_count ci' \<and>
    (\<forall>p < n. bitmap_test aff p \<longrightarrow> bitmap_test tbl p)"
proof -
  define m where "m = foldl bitmap_set (bitmap_init (cpu_mask ci) n False) (positions_set aff n 0)"
  have m: "bitmap_test m p \<longleftrightarrow> bitmap_test aff p" if "p < n" for p
    using affinity_mask(1) [OF that] by (simp add: m_def)
  have c: "check_cpuset n k fs tbl (ci\<lparr>numa_mask := bitmap_init (numa_mask ci) k False, cpu_mask := m\<rparr>) = Some (Ok, ci')"
    using assms by (simp add: init_process_cpuset_def m_def)
  have tight: "q < n" if "bitmap_test m q" "q < 64 * BITMAP_LONG_SIZE n" for q
    using affinity_mask(2) [of "cpu_mask ci" n aff q] that by (simp add: m_def)
  have "{p. p < n \<and> bitmap_test m p} = {p. p < n \<and> bitmap_test aff p}" using m by auto
  with check_cpuset_law [OF c] tight m show ?thesis by simp
qed

lemma scan_siblings_mask:
  "scan_siblings n fs is tmp ci = Some (r, ci') \<Longrightarrow> cpu_mask ci' = cpu_mask ci \<and> cpu_count ci' = cpu_count ci"
proof (induction n fs "is" tmp ci arbitrary: ci' rule: scan_siblings.induct)
  case (2 n fs i "is" tmp ci)
  from "2.prems" show ?case
    by (auto simp: Let_def split: option.splits if_splits prod.splits ret.splits dest!: "2.IH")
qed auto

lemma take_cpu_law:
  assumes "take_cpu ci st = (Ok, st')"
  shows "(\<forall>p < cpu_count ci. bitmap_test (cpu_mask ci) p \<longrightarrow> \<not> bitmap_test st p) \<and>
    (\<forall>p. bitmap_test st' p \<longleftrightarrow> bitmap_test st p \<or> p < cpu_count ci \<and> bitmap_test (cpu_mask ci) p)"
  using assms by (auto simp: take_cpu_def Let_def set_positions test_foldl_set split: if_splits)

definition demo_cpu :: cpu_info where
  "demo_cpu = \<lparr>cpu_count = 0, numa_count = 0, cpu_mask = bitmap_set (\<lambda>_. 0) 0, numa_mask = \<lambda>_. 0,
     sib_map = \<lambda>_. \<lparr>thread_siblings_mask = \<lambda>_. 0, core_siblings_mask = \<lambda>_. 0\<rparr>\<rparr>"

definition demo_sysfs :: sysfs where
  "demo_sysfs = \<lparr>allowed_list = None, package_id = \<lambda>_. Some 0, core_siblings_list = \<lambda>_. Some (show_ranges [One 0]),
     thread_siblings_list = \<lambda>_. Some (show_ranges [One 0])\<rparr>"

section \<open>Properties\<close>

text \<open>
  C23: a successful \<^verbatim>\<open>cpu_alloc\<close> for a given set of CPUs yields exactly that set, counts it, and
  the set is not empty and contained in the table of CPUs of the machine. An exclusive
  allocation succeeds only if none of the CPUs below \<^verbatim>\<open>cpu_count\<close> was taken, and takes these.
\<close>

theorem cpu_alloc_grants:
  assumes "cpu_alloc n k fs tmp tbl cur pin st ci (Some aff) excl = Some (Ok, ci', st')"
  shows "(\<forall>p < n. bitmap_test (cpu_mask ci') p \<longleftrightarrow> bitmap_test aff p) \<and>
    cpu_count ci' = card {p. p < n \<and> bitmap_test aff p} \<and> 0 < cpu_count ci' \<and>
    (\<forall>p < n. bitmap_test aff p \<longrightarrow> bitmap_test (cpu_mask tbl) p) \<and>
    (if excl then (\<forall>p < cpu_count ci'. bitmap_test (cpu_mask ci') p \<longrightarrow> \<not> bitmap_test st p) \<and>
       (\<forall>p. bitmap_test st' p \<longleftrightarrow> bitmap_test st p \<or> p < cpu_count ci' \<and> bitmap_test (cpu_mask ci') p)
     else st' = st)"
proof -
  obtain c1 where c1: "init_process_cpuset n k fs tmp (Some (cpu_mask tbl)) ci (Some aff) = Some (Ok, c1)"
    "cpu_scan_topology n fs tmp c1 = Some (Ok, ci')" "(if excl then take_cpu ci' st else (Ok, st)) = (Ok, st')"
    using assms unfolding cpu_alloc_def Let_def
    by (auto split: option.splits prod.splits ret.splits if_splits)
  have m: "cpu_mask ci' = cpu_mask c1" "cpu_count ci' = cpu_count c1"
    using scan_siblings_mask [OF c1(2) [unfolded cpu_scan_topology_def]] by simp_all
  from cpuset_law [OF c1(1)] m c1(3) take_cpu_law [of ci' st st'] show ?thesis by (auto split: if_splits)
qed

theorem cpu_alloc_grants_witness:
  "\<exists>ci st. cpu_alloc 64 1 demo_sysfs (\<lambda>_. 0) demo_cpu 0 (\<lambda>_. Ok) (\<lambda>_. 0) demo_cpu (Some (bitmap_set (\<lambda>_. 0) 0)) True =
       Some (Ok, ci, st) \<and> bitmap_test (cpu_mask ci) 0 \<and> 0 < cpu_count ci"
proof -
  have "\<exists>b. sysfs_parse_bitlist (Some (show_ranges [One 0])) tmp 64 = Some (Ok, b)" for tmp
    using parse_loop_ranges [of "[One 0]" 64 "bitmap_init tmp 64 False" None]
    by (auto simp: sysfs_parse_bitlist_def string_to_bitmap_def range_wf_def)
  then obtain f where f: "sysfs_parse_bitlist (Some (show_ranges [One 0])) tmp 64 = Some (Ok, f tmp)" for tmp by metis
  have l: "BITMAP_LONG_SIZE 64 = 1" "BITMAP_LONG_SIZE 1 = 1" by (simp_all add: BITMAP_LONG_SIZE_def div_up_def BITS_PER_LONG_def)
  define m where "m = bitmap_set (bitmap_init (bitmap_set (\<lambda>_. 0) 0) 64 False) 0"
  have m: "bitmap_test m q \<longleftrightarrow> q = 0" if "q < 64" for q using that by (simp add: m_def)
  have pos: "positions_set b 64 0 = [0]" if "\<And>q. q < 64 \<Longrightarrow> bitmap_test b q \<longleftrightarrow> q = 0" for b
  proof -
    have "[0..<64] = 0 # [Suc 0..<64]" by (simp add: upt_conv_Cons)
    then show ?thesis unfolding positions_set_eq using that by (simp add: filter_False)
  qed
  have pc: "bitmap_popcount b k = card {p. p < 64 \<and> bitmap_test b p}" if "BITMAP_LONG_SIZE k = 1" for b k
    using that by (simp add: bitmap_popcount_def popcount_loop_eq)
  have "\<exists>ci. init_process_cpuset 64 1 demo_sysfs (\<lambda>_. 0) (Some (cpu_mask demo_cpu)) demo_cpu (Some (bitmap_set (\<lambda>_. 0) 0)) =
      Some (Ok, ci) \<and> cpu_mask ci = m"
    using pos [of "bitmap_set (\<lambda>_. 0) 0"] pos [of m] m l
    by (simp add: init_process_cpuset_def check_cpuset_def Let_def pc demo_cpu_def demo_sysfs_def BITMAP_POS_IDX_def
        BITS_PER_LONG_def exI [of _ 0] flip: m_def cong: conj_cong)
  then obtain c1 where c1: "init_process_cpuset 64 1 demo_sysfs (\<lambda>_. 0) (Some (cpu_mask demo_cpu)) demo_cpu
      (Some (bitmap_set (\<lambda>_. 0) 0)) = Some (Ok, c1)" "cpu_mask c1 = m" by blast
  obtain c2 where c2: "cpu_scan_topology 64 demo_sysfs (\<lambda>_. 0) c1 = Some (Ok, c2)"
    using f pos [of m] m c1(2) by (simp add: cpu_scan_topology_def demo_sysfs_def Let_def)
  have "cpu_mask c2 = m" using scan_siblings_mask [OF c2 [unfolded cpu_scan_topology_def]] c1(2) by simp
  then obtain st where a: "cpu_alloc 64 1 demo_sysfs (\<lambda>_. 0) demo_cpu 0 (\<lambda>_. Ok) (\<lambda>_. 0) demo_cpu
      (Some (bitmap_set (\<lambda>_. 0) 0)) True = Some (Ok, c2, st)"
    using c1 c2 m by (simp add: cpu_alloc_def take_cpu_def Let_def)
  from cpu_alloc_grants [OF a] a show ?thesis by auto
qed



end
