(* ===== verification/Uproc.thy ===== *)
theory Uproc
  imports Cpu_Info Start_Alloc "HOL-Library.Monad_Syntax"
begin

text \<open>
  uProcesses: tasks, their clusters (kernel-level contexts that run user code) and the
  kthreads that run clusters, from \<^verbatim>\<open>core/cluster.c\<close>, \<^verbatim>\<open>core/task.c\<close>, \<^verbatim>\<open>core/kthread.c\<close>,
  \<^verbatim>\<open>core/csched.c\<close> (spawning), \<^verbatim>\<open>core/init.c\<close> (\<^verbatim>\<open>task_init\<close>) and the calls of \<^verbatim>\<open>apis/apis.c\<close> that
  do not switch contexts.

  A cluster is identified with its id: ids are never reused, so that the id determines the
  object. \<open>clusters\<close> holds the live objects; the three tables indexed by cluster id are kept
  as the code has them. Lists linked through the objects are HOL lists of ids. A critical
  section is one step; whether a \<^verbatim>\<open>spin_try_lock\<close> finds the lock free is an argument. The
  result \<open>None\<close> of an operation is a store or load outside an array, an access through
  \<^verbatim>\<open>NULL\<close> or to a freed object, or a wait that cannot end. \<^verbatim>\<open>malloc\<close> of the C library is taken
  to succeed.
\<close>

section \<open>State\<close>

definition NCLUSTER :: nat where "NCLUSTER = 128"
definition NTASK :: nat where "NTASK = 13"
definition EAGAIN_CODE :: int where "EAGAIN_CODE = 11"

text \<open>The saved registers of a cluster.\<close>

record vcontext =
  xmstate :: u32
  fpstate :: "u32 list"
  FS :: u64
  GS :: u64
  R10 :: u64
  R11 :: u64
  RAX :: u64
  R9 :: u64
  R8 :: u64
  RCX :: u64
  RDX :: u64
  RSI :: u64
  RDI :: u64
  R15 :: u64
  R14 :: u64
  R13 :: u64
  R12 :: u64
  RBP :: u64
  RBX :: u64
  UINTR_RSP :: u64
  vector :: u64
  RIP :: u64
  RF :: u64
  RSP :: u64

text \<open>The tables of allocation functions a cluster can have.\<close>

datatype alloc_ops = Ops_null | Ops_start | Ops_startup

record cluster_ctx =
  c_id :: nat
  mytask :: "nat option"
  fctx :: vcontext
  cpu_affinity :: bitmap
  uipi_ops :: u64
  parked :: bool
  to_exit :: bool
  to_start :: bool
  with_fs :: bool
  miniop_task :: "nat option"
  minimal_ops :: alloc_ops
  minimal_ops_je :: alloc_ops
  cede_cnt :: int

record task =
  active :: bool
  task_id :: int
  pid :: int
  mpk :: int
  t_cpu_info :: cpu_info
  mds :: "nat list"
  t_clusters :: "nat list"
  tls_ops :: u64
  t_miniop :: miniop

record kthread_meta =
  cpuid :: nat
  kthread_fs :: u64
  cluster_list :: "nat list"

record usys =
  id_cnt :: nat
  clusters :: "nat \<Rightarrow> cluster_ctx option"
  cluster_id2cluster_ptr :: "nat \<Rightarrow> nat option"
  cluster_id2task_ptr :: "nat \<Rightarrow> nat option"
  cluster_id2kthread_ptr :: "nat \<Rightarrow> nat option"
  task_anchor :: nat
  task_num :: nat
  task_map :: "nat \<Rightarrow> task"
  kthread_map :: bitmap
  kthread_metas :: "nat \<Rightarrow> kthread_meta"
  cpu_state :: bitmap
  mem :: vessel_mem_meta
  fs_reg :: "nat \<Rightarrow> u64"
  kthread_fs_map :: "nat \<Rightarrow> u64"
  cur_cluster :: "nat \<Rightarrow> nat option"

abbreviation upd_cluster :: "nat \<Rightarrow> cluster_ctx \<Rightarrow> usys \<Rightarrow> usys" where
  "upd_cluster c x s \<equiv> s\<lparr>clusters := (clusters s)(c := Some x)\<rparr>"

abbreviation upd_task :: "nat \<Rightarrow> task \<Rightarrow> usys \<Rightarrow> usys" where
  "upd_task t x s \<equiv> s\<lparr>task_map := (task_map s)(t := x)\<rparr>"

abbreviation upd_kthread :: "nat \<Rightarrow> kthread_meta \<Rightarrow> usys \<Rightarrow> usys" where
  "upd_kthread k x s \<equiv> s\<lparr>kthread_metas := (kthread_metas s)(k := x)\<rparr>"

section \<open>Clusters\<close>

text \<open>\<^verbatim>\<open>memset\<close> of a new cluster.\<close>

definition zero_vcontext :: vcontext where
  "zero_vcontext =
     \<lparr>xmstate = 0, fpstate = replicate 7 0, FS = 0, GS = 0, R10 = 0, R11 = 0, RAX = 0, R9 = 0, R8 = 0, RCX = 0, RDX = 0,
      RSI = 0, RDI = 0, R15 = 0, R14 = 0, R13 = 0, R12 = 0, RBP = 0, RBX = 0, UINTR_RSP = 0, vector = 0, RIP = 0, RF = 0, RSP = 0\<rparr>"

definition zero_cluster :: cluster_ctx where
  "zero_cluster =
     \<lparr>c_id = 0, mytask = None, fctx = zero_vcontext, cpu_affinity = \<lambda>_. 0,
      uipi_ops = 0, parked = False, to_exit = False, to_start = False, with_fs = False, miniop_task = None,
      minimal_ops = Ops_null, minimal_ops_je = Ops_null, cede_cnt = 0\<rparr>"

definition alloc_cluster :: "usys \<Rightarrow> (nat option \<times> usys) option" where
  "alloc_cluster s =
     (if NCLUSTER < id_cnt s then Some (None, s)
      else if NCLUSTER \<le> id_cnt s then None
      else Some (Some (id_cnt s),
        s\<lparr>clusters := (clusters s)(id_cnt s := Some (zero_cluster\<lparr>c_id := id_cnt s\<rparr>)),
          cluster_id2cluster_ptr := (cluster_id2cluster_ptr s)(id_cnt s := Some (id_cnt s)),
          id_cnt := id_cnt s + 1\<rparr>))"

definition dealloc_cluster :: "nat \<Rightarrow> usys \<Rightarrow> usys" where
  "dealloc_cluster c s = s\<lparr>clusters := (clusters s)(c := None)\<rparr>"

definition cluster_init :: "usys \<Rightarrow> usys" where
  "cluster_init s = s\<lparr>cluster_id2cluster_ptr := \<lambda>_. None\<rparr>"

definition set_software_entry :: "cluster_ctx \<Rightarrow> u64 \<Rightarrow> u64 \<Rightarrow> u64 \<Rightarrow> u64 \<Rightarrow> cluster_ctx" where
  "set_software_entry ctx entry arg stack tls =
     ctx\<lparr>fctx := (fctx ctx)\<lparr>RSP := stack, RDI := arg, RBP := 0, RIP := entry, FS := tls\<rparr>\<rparr>"

section \<open>Tasks\<close>

definition taskid2index :: "int \<Rightarrow> int" where "taskid2index tid = tid - 1"
definition index2taskid :: "nat \<Rightarrow> int" where "index2taskid i = int i + 1"

partial_function (option) find_slot :: "(nat \<Rightarrow> task) \<Rightarrow> nat \<Rightarrow> nat option" where
  "find_slot m tid =
     (if NTASK \<le> tid then None
      else if active (m tid) then find_slot m ((tid + 1) mod NTASK)
      else Some tid)"

definition task_alloc :: "int \<Rightarrow> usys \<Rightarrow> (nat option \<times> usys) option" where
  "task_alloc p s =
     (if task_num s = NTASK then Some (None, s)
      else do {
        t \<leftarrow> find_slot (task_map s) (task_anchor s);
        let old = task_map s t;
        let new = old\<lparr>active := True, task_id := index2taskid t, pid := p, mpk := taskid2mpk (index2taskid t),
                      mds := [], t_clusters := [], t_miniop := (t_miniop old)\<lparr>miniop_cnt := 0, miniop_base := 0\<rparr>\<rparr>;
        Some (Some t, upd_task t new (s\<lparr>task_anchor := t + 1, task_num := task_num s + 1\<rparr>))
      })"

text \<open>\<open>entry\<close> is the address of \<^verbatim>\<open>_start_task\<close>, \<open>argv\<close> that of its arguments.\<close>

definition build_task_start_cluster :: "nat \<Rightarrow> nat \<Rightarrow> u64 \<Rightarrow> u64 \<Rightarrow> usys \<Rightarrow> (nat \<times> usys) option" where
  "build_task_start_cluster ncpu t entry argv s =
     do {
       (r, s) \<leftarrow> alloc_cluster s;
       c \<leftarrow> r;
       x \<leftarrow> clusters s c;
       let x = (set_software_entry x entry argv 0 0)
           \<lparr>mytask := Some t, parked := False, to_start := True, with_fs := True, to_exit := False, miniop_task := Some t\<rparr>;
       let a = bitmap_init (cpu_affinity x) ncpu False;
       let a = bitmap_or a a (cpu_mask (t_cpu_info (task_map s t))) ncpu;
       Some (c, upd_cluster c (x\<lparr>cpu_affinity := a\<rparr>) s)
     }"

definition task_attach_cluster :: "bool \<Rightarrow> nat \<Rightarrow> nat \<Rightarrow> usys \<Rightarrow> (ret \<times> usys) option" where
  "task_attach_cluster lock t c s =
     (if \<not> lock then Some (Err EAGAIN, s)
      else do {
        x \<leftarrow> clusters s c;
        if NCLUSTER \<le> c_id x then None
        else Some (Ok, (upd_task t ((task_map s t)\<lparr>t_clusters := t_clusters (task_map s t) @ [c]\<rparr>) s)
               \<lparr>cluster_id2task_ptr := (cluster_id2task_ptr s)(c_id x := Some t)\<rparr>)
      })"

definition task_deattach_cluster :: "bool \<Rightarrow> nat \<Rightarrow> usys \<Rightarrow> (ret \<times> usys) option" where
  "task_deattach_cluster lock c s =
     do {
       x \<leftarrow> clusters s c;
       t \<leftarrow> cluster_id2task_ptr s (c_id x);
       if \<not> lock then Some (Err EAGAIN, s)
       else if mytask x = Some t
         then Some (Ok, upd_task t ((task_map s t)\<lparr>t_clusters := remove1 c (t_clusters (task_map s t))\<rparr>) s)
         else Some (Err EINVAL, s)
     }"

definition task_meta_init :: "usys \<Rightarrow> usys" where
  "task_meta_init s = s\<lparr>cluster_id2task_ptr := \<lambda>_. None\<rparr>"

section \<open>Kthreads\<close>

text \<open>
  The loop that starts the missing kthreads. \<open>created i\<close> is the id of the thread
  \<^verbatim>\<open>pthread_create\<close> made for CPU \<open>i\<close>, or \<open>None\<close> if it failed. In that case the caller still
  waits at the barrier, which counts all of the threads, and never returns.
\<close>

fun start_kthreads :: "(nat \<Rightarrow> u64 option) \<Rightarrow> nat list \<Rightarrow> usys \<Rightarrow> usys option" where
  "start_kthreads created [] s = Some s"
| "start_kthreads created (i # is) s =
     (let s = upd_kthread i ((kthread_metas s i)\<lparr>cluster_list := [], cpuid := i\<rparr>) s
      in case created i of
           None \<Rightarrow> None
         | Some th \<Rightarrow>
             start_kthreads created is
               ((upd_kthread i ((kthread_metas s i)\<lparr>kthread_fs := th\<rparr>) s)
                  \<lparr>kthread_map := bitmap_set (kthread_map s) i, kthread_fs_map := (kthread_fs_map s)(i := th)\<rparr>))"

definition kthread_alloc_bitmap :: "nat \<Rightarrow> (nat \<Rightarrow> u64 option) \<Rightarrow> bitmap \<Rightarrow> usys \<Rightarrow> (ret \<times> usys) option" where
  "kthread_alloc_bitmap ncpu created cmask s =
     (let tmp = bitmap_xor (bitmap_init (\<lambda>_. 0) ncpu False) cmask (kthread_map s) ncpu;
          tmp = bitmap_and tmp cmask tmp ncpu
      in map_option (\<lambda>s. (Ok, s)) (start_kthreads created (positions_set tmp ncpu 0) s))"

definition kthread_alloc :: "nat \<Rightarrow> (nat \<Rightarrow> u64 option) \<Rightarrow> nat \<Rightarrow> usys \<Rightarrow> (ret \<times> usys) option" where
  "kthread_alloc ncpu created t s = kthread_alloc_bitmap ncpu created (cpu_mask (t_cpu_info (task_map s t))) s"

definition kthread_attch_cluster :: "bool \<Rightarrow> nat \<Rightarrow> nat \<Rightarrow> usys \<Rightarrow> (int \<times> usys) option" where
  "kthread_attch_cluster lock k c s =
     (if \<not> lock then Some (- EAGAIN_CODE, s)
      else do {
        x \<leftarrow> clusters s c;
        if NCLUSTER \<le> c_id x then None
        else Some (0, (upd_kthread k ((kthread_metas s k)\<lparr>cluster_list := cluster_list (kthread_metas s k) @ [c]\<rparr>) s)
               \<lparr>cluster_id2kthread_ptr := (cluster_id2kthread_ptr s)(c_id x := Some k)\<rparr>)
      })"

definition kthread_attch_cluster_head :: "bool \<Rightarrow> nat \<Rightarrow> nat \<Rightarrow> usys \<Rightarrow> (int \<times> usys) option" where
  "kthread_attch_cluster_head lock k c s =
     (if \<not> lock then Some (- EAGAIN_CODE, s)
      else do {
        x \<leftarrow> clusters s c;
        if NCLUSTER \<le> c_id x then None
        else Some (0, (upd_kthread k ((kthread_metas s k)\<lparr>cluster_list := c # cluster_list (kthread_metas s k)\<rparr>) s)
               \<lparr>cluster_id2kthread_ptr := (cluster_id2kthread_ptr s)(c_id x := Some k)\<rparr>)
      })"

definition kthread_park_cluster :: "nat \<Rightarrow> usys \<Rightarrow> (int \<times> usys) option" where
  "kthread_park_cluster c s =
     do {
       x \<leftarrow> clusters s c;
       Some (0, s\<lparr>cluster_id2kthread_ptr := (cluster_id2kthread_ptr s)(c_id x := None)\<rparr>)
     }"

definition kthread_pop_cluster :: "bool \<Rightarrow> nat \<Rightarrow> usys \<Rightarrow> (nat option \<times> usys) option" where
  "kthread_pop_cluster lock k s =
     (if \<not> lock then Some (None, s)
      else case cluster_list (kthread_metas s k) of
             [] \<Rightarrow> Some (None, s)
           | c # cs \<Rightarrow> do {
               x \<leftarrow> clusters s c;
               Some (Some c, (upd_kthread k ((kthread_metas s k)\<lparr>cluster_list := cs\<rparr>) s)
                 \<lparr>cluster_id2kthread_ptr := (cluster_id2kthread_ptr s)(c_id x := None)\<rparr>)
             })"

text \<open>On success the code returns the result of the last \<^verbatim>\<open>spin_try_lock\<close>, which is 1.\<close>

definition kthread_deattch_cluster :: "bool \<Rightarrow> nat \<Rightarrow> usys \<Rightarrow> (int \<times> usys) option" where
  "kthread_deattch_cluster lock c s =
     do {
       x \<leftarrow> clusters s c;
       case cluster_id2kthread_ptr s (c_id x) of
         None \<Rightarrow> Some (0, s)
       | Some k \<Rightarrow>
           if \<not> lock then Some (- EAGAIN_CODE, s)
           else Some (1, (upd_kthread k ((kthread_metas s k)\<lparr>cluster_list := remove1 c (cluster_list (kthread_metas s k))\<rparr>) s)
                  \<lparr>cluster_id2kthread_ptr := (cluster_id2kthread_ptr s)(c_id x := None)\<rparr>)
     }"

definition kthread_meta_init :: "usys \<Rightarrow> usys" where
  "kthread_meta_init s = s\<lparr>cluster_id2kthread_ptr := \<lambda>_. None\<rparr>"

section \<open>Starting a task and spawning a cluster\<close>

text \<open>
  \<^verbatim>\<open>task_init\<close>. A failing \<^verbatim>\<open>cpu_alloc\<close> returns with the task still allocated; the loop that
  attaches the main cluster to the first CPU of the task retries until the lock is free.
\<close>

record env =
  e_ncpu :: nat
  e_nnuma :: nat
  e_fs :: sysfs
  e_tmp :: bitmap
  e_tbl :: cpu_info
  e_cur :: nat
  e_pin :: "nat \<Rightarrow> ret"
  e_created :: "nat \<Rightarrow> u64 option"

text \<open>The part that follows the allocation of the CPUs.\<close>

definition task_start :: "env \<Rightarrow> bool \<Rightarrow> u64 \<Rightarrow> u64 \<Rightarrow> nat \<Rightarrow> usys \<Rightarrow> (ret \<times> usys) option" where
  "task_start e lock entry sargs t s =
     do {
       (ret, s) \<leftarrow> kthread_alloc (e_ncpu e) (e_created e) t s;
       if ret \<noteq> Ok then Some (ret, s)
       else do {
         (c, s) \<leftarrow> build_task_start_cluster (e_ncpu e) t entry sargs s;
         (ret, s) \<leftarrow> task_attach_cluster lock t c s;
         if ret \<noteq> Ok then Some (ret, s)
         else case positions_set (cpu_mask (t_cpu_info (task_map s t))) (e_ncpu e) 0 of
                [] \<Rightarrow> Some (Ok, s)
              | k # _ \<Rightarrow> do { (_, s) \<leftarrow> kthread_attch_cluster True k c s; Some (Ok, s) }
       }
     }"

definition task_init :: "env \<Rightarrow> int \<Rightarrow> bool \<Rightarrow> u64 \<Rightarrow> u64 \<Rightarrow> bitmap \<Rightarrow> bool \<Rightarrow> usys \<Rightarrow> (ret \<times> usys) option" where
  "task_init e p lock entry sargs affinitive_cpus exclusive s =
     do {
       (r, s) \<leftarrow> task_alloc p s;
       case r of
         None \<Rightarrow> Some (Err EAGAIN, s)
       | Some t \<Rightarrow> do {
           (ret, ci, st) \<leftarrow> cpu_alloc (e_ncpu e) (e_nnuma e) (e_fs e) (e_tmp e) (e_tbl e) (e_cur e) (e_pin e) (cpu_state s)
                           (t_cpu_info (task_map s t)) (Some affinitive_cpus) exclusive;
           let s = (upd_task t ((task_map s t)\<lparr>t_cpu_info := ci\<rparr>) s)\<lparr>cpu_state := st\<rparr>;
           if ret \<noteq> Ok then Some (ret, s) else task_start e lock entry sargs t s
         }
     }"

text \<open>
  \<^verbatim>\<open>cluster_spawn\<close> by the running cluster \<open>cur\<close>. \<open>stk\<close> is the top of the stack and \<open>tcb\<close> the
  thread control block the allocation functions of the task return.
\<close>

definition cluster_spawn :: "nat \<Rightarrow> nat \<Rightarrow> u64 \<Rightarrow> u64 \<Rightarrow> nat \<Rightarrow> u64 \<Rightarrow> u64 \<Rightarrow> usys \<Rightarrow> (u64 option \<times> usys) option" where
  "cluster_spawn nc cur func args pref_core_id stk tcb s =
     do {
       x \<leftarrow> clusters s cur;
       t \<leftarrow> mytask x;
       if \<not> bitmap_test (cpu_mask (t_cpu_info (task_map s t))) pref_core_id then Some (None, s)
       else do {
         (r, s) \<leftarrow> alloc_cluster s;
         c \<leftarrow> r;
         y \<leftarrow> clusters s c;
         let a = bitmap_init (cpu_affinity y) nc False;
         let a = bitmap_or a a (cpu_mask (t_cpu_info (task_map s t))) nc;
         let y = (set_software_entry y func args stk tcb)
             \<lparr>mytask := Some t, cpu_affinity := a, minimal_ops := minimal_ops x, minimal_ops_je := minimal_ops_je x,
              miniop_task := miniop_task x, to_start := False, with_fs := True, parked := False\<rparr>;
         (_, s) \<leftarrow> task_attach_cluster True t c (upd_cluster c y s);
         (_, s) \<leftarrow> kthread_attch_cluster True pref_core_id c s;
         Some (Some tcb, s)
       }
     }"

section \<open>The calls of a uProcess\<close>

text \<open>
  Every call first loads the thread pointer of the kthread and restores the caller's at the
  end. \<open>k\<close> is the CPU the call runs on. Here are the calls that return to their caller
  without a context switch; the others are in the theory of the cluster scheduler.
\<close>

definition loadfs :: "nat \<Rightarrow> u64 \<Rightarrow> usys \<Rightarrow> usys" where
  "loadfs k v s = s\<lparr>fs_reg := (fs_reg s)(k := v)\<rparr>"

definition switch_to_kthread_fs :: "nat \<Rightarrow> usys \<Rightarrow> usys" where
  "switch_to_kthread_fs k s = loadfs k (kthread_fs_map s k) s"

definition cur_ctx :: "nat \<Rightarrow> usys \<Rightarrow> (nat \<times> cluster_ctx) option" where
  "cur_ctx k s = do { c \<leftarrow> cur_cluster s k; x \<leftarrow> clusters s c; Some (c, x) }"

definition vessel_alloc_chunk_api :: "(u64 \<Rightarrow> u64 \<Rightarrow> int \<Rightarrow> bool) \<Rightarrow> nat \<Rightarrow> nat \<Rightarrow> usys \<Rightarrow> (u64 option \<times> usys) option" where
  "vessel_alloc_chunk_api prot_ok k chunk_num s =
     do {
       let cur_fs = fs_reg s k;
       let s = switch_to_kthread_fs k s;
       (_, x) \<leftarrow> cur_ctx k s;
       t \<leftarrow> mytask x;
       let (res, _, m, h) = alloc_chunk prot_ok (mem s) (task_id (task_map s t)) chunk_num (mds (task_map s t));
       let s = (upd_task t ((task_map s t)\<lparr>mds := h\<rparr>) s)\<lparr>mem := m\<rparr>;
       Some (res, loadfs k cur_fs s)
     }"

definition vessel_alloc_huge_chunk_api :: "(u64 \<Rightarrow> u64 \<Rightarrow> int \<Rightarrow> bool) \<Rightarrow> nat \<Rightarrow> nat \<Rightarrow> usys \<Rightarrow> (u64 option \<times> usys) option" where
  "vessel_alloc_huge_chunk_api prot_ok k chunk_num s =
     do {
       let cur_fs = fs_reg s k;
       let s = switch_to_kthread_fs k s;
       (_, x) \<leftarrow> cur_ctx k s;
       t \<leftarrow> mytask x;
       (res, _, m, h) \<leftarrow> alloc_huge_chunk prot_ok (mem s) (task_id (task_map s t)) chunk_num (mds (task_map s t));
       let s = (upd_task t ((task_map s t)\<lparr>mds := h\<rparr>) s)\<lparr>mem := m\<rparr>;
       Some (res, loadfs k cur_fs s)
     }"

definition vessel_cluster_spawn_api :: "nat \<Rightarrow> nat \<Rightarrow> u64 \<Rightarrow> u64 \<Rightarrow> nat \<Rightarrow> u64 \<Rightarrow> u64 \<Rightarrow> usys \<Rightarrow> (u64 option \<times> usys) option" where
  "vessel_cluster_spawn_api nc k func args pref stk tcb s =
     do {
       let cur_fs = fs_reg s k;
       let s = switch_to_kthread_fs k s;
       (c, x) \<leftarrow> cur_ctx k s;
       let s = upd_cluster c (x\<lparr>fctx := (fctx x)\<lparr>FS := cur_fs\<rparr>\<rparr>) s;
       (r, s) \<leftarrow> cluster_spawn nc c func args pref stk tcb s;
       Some (r, loadfs k cur_fs s)
     }"

text \<open>\<open>alloc i\<close> gives the stack and the control block of the cluster spawned for CPU \<open>i\<close>.\<close>

fun spawn_loop :: "nat \<Rightarrow> nat \<Rightarrow> nat \<Rightarrow> u64 \<Rightarrow> u64 \<Rightarrow> (nat \<Rightarrow> u64 \<times> u64) \<Rightarrow> nat list \<Rightarrow> usys \<Rightarrow> (ret \<times> usys) option" where
  "spawn_loop nc k c func args alloc [] s = Some (Ok, s)"
| "spawn_loop nc k c func args alloc (i # is) s =
     (if i = k then spawn_loop nc k c func args alloc is s
      else do {
        (r, s) \<leftarrow> cluster_spawn nc c func args i (fst (alloc i)) (snd (alloc i)) s;
        case r of
          None \<Rightarrow> Some (Err EAGAIN, s)
        | Some _ \<Rightarrow> spawn_loop nc k c func args alloc is s
      })"

definition vessel_spawn_all_clusters_api :: "nat \<Rightarrow> nat \<Rightarrow> u64 \<Rightarrow> u64 \<Rightarrow> (nat \<Rightarrow> u64 \<times> u64) \<Rightarrow> usys \<Rightarrow> (ret \<times> usys) option" where
  "vessel_spawn_all_clusters_api nc k func args alloc s =
     do {
       let cur_fs = fs_reg s k;
       let s = switch_to_kthread_fs k s;
       (c, x) \<leftarrow> cur_ctx k s;
       let s = upd_cluster c (x\<lparr>fctx := (fctx x)\<lparr>FS := cur_fs\<rparr>\<rparr>) s;
       t \<leftarrow> mytask x;
       (r, s) \<leftarrow> spawn_loop nc k c func args alloc (positions_set (cpu_mask (t_cpu_info (task_map s t))) nc 0) s;
       Some (r, loadfs k cur_fs s)
     }"

definition vessel_register_uipi_handlers_api :: "nat \<Rightarrow> u64 \<Rightarrow> usys \<Rightarrow> (ret \<times> usys) option" where
  "vessel_register_uipi_handlers_api k ops s =
     do {
       let cur_fs = fs_reg s k;
       let s = switch_to_kthread_fs k s;
       (c, x) \<leftarrow> cur_ctx k s;
       let s = upd_cluster c (x\<lparr>uipi_ops := ops\<rparr>) s;
       Some (Ok, loadfs k cur_fs s)
     }"

definition startup_vessel_register_tls_ops :: "nat \<Rightarrow> u64 \<Rightarrow> usys \<Rightarrow> usys option" where
  "startup_vessel_register_tls_ops k ops s =
     do {
       (_, x) \<leftarrow> cur_ctx k s;
       t \<leftarrow> mytask x;
       Some (upd_task t ((task_map s t)\<lparr>tls_ops := ops\<rparr>) s)
     }"

definition startup_vessel_alloc_task_chunk :: "(u64 \<Rightarrow> u64 \<Rightarrow> int \<Rightarrow> bool) \<Rightarrow> nat \<Rightarrow> nat \<Rightarrow> usys \<Rightarrow> (u64 option \<times> usys) option" where
  "startup_vessel_alloc_task_chunk prot_ok k chunk_num s =
     do {
       (_, x) \<leftarrow> cur_ctx k s;
       t \<leftarrow> mytask x;
       let (res, _, m, h) = alloc_chunk prot_ok (mem s) (task_id (task_map s t)) chunk_num (mds (task_map s t));
       Some (res, (upd_task t ((task_map s t)\<lparr>mds := h\<rparr>) s)\<lparr>mem := m\<rparr>)
     }"

text \<open>The memory a task starts with and its allocation functions; \<open>n\<close> is \<^verbatim>\<open>START_MEM_CHUNK_NUM\<close>.\<close>

definition minimal_jemalloc_init :: "(u64 \<Rightarrow> u64 \<Rightarrow> int \<Rightarrow> bool) \<Rightarrow> nat \<Rightarrow> nat \<Rightarrow> usys \<Rightarrow> usys option" where
  "minimal_jemalloc_init prot_ok k n s =
     do {
       (c, x) \<leftarrow> cur_ctx k s;
       t \<leftarrow> mytask x;
       (r, s) \<leftarrow> startup_vessel_alloc_task_chunk prot_ok k n s;
       let base = (case r of None \<Rightarrow> 0 | Some p \<Rightarrow> p);
       let s = upd_task t ((task_map s t)\<lparr>t_miniop := (t_miniop (task_map s t))\<lparr>miniop_base := base\<rparr>\<rparr>) s;
       Some (upd_cluster c (x\<lparr>minimal_ops_je := Ops_start, minimal_ops := Ops_startup\<rparr>) s)
     }"

text \<open>
  The allocation functions of a starting task: the counters live in the task the cluster
  points to. The request is served by \<open>start_malloc\<close> and its siblings.
\<close>

definition startup_malloc :: "nat \<Rightarrow> u64 \<Rightarrow> usys \<Rightarrow> (u64 \<times> usys) option" where
  "startup_malloc k n s =
     do {
       let cur_fs = fs_reg s k;
       let s = switch_to_kthread_fs k s;
       (_, x) \<leftarrow> cur_ctx k s;
       t \<leftarrow> miniop_task x;
       (p, c) \<leftarrow> (if minimal_ops_je x = Ops_start then start_malloc (t_miniop (task_map s t)) n else None);
       Some (p, loadfs k cur_fs (upd_task t ((task_map s t)\<lparr>t_miniop := c\<rparr>) s))
     }"

definition startup_aligned_alloc :: "nat \<Rightarrow> u64 \<Rightarrow> u64 \<Rightarrow> usys \<Rightarrow> (u64 \<times> usys) option" where
  "startup_aligned_alloc k align n s =
     do {
       let cur_fs = fs_reg s k;
       let s = switch_to_kthread_fs k s;
       (_, x) \<leftarrow> cur_ctx k s;
       t \<leftarrow> miniop_task x;
       (p, c) \<leftarrow> (if minimal_ops_je x = Ops_start then start_aligned_alloc (t_miniop (task_map s t)) align n else None);
       Some (p, loadfs k cur_fs (upd_task t ((task_map s t)\<lparr>t_miniop := c\<rparr>) s))
     }"

definition startup_calloc :: "nat \<Rightarrow> u64 \<Rightarrow> u64 \<Rightarrow> usys \<Rightarrow> (u64 \<times> usys) option" where
  "startup_calloc k n m s =
     do {
       let cur_fs = fs_reg s k;
       let s = switch_to_kthread_fs k s;
       (_, x) \<leftarrow> cur_ctx k s;
       t \<leftarrow> miniop_task x;
       (p, _, c) \<leftarrow> (if minimal_ops_je x = Ops_start then start_calloc (t_miniop (task_map s t)) n m else None);
       Some (p, loadfs k cur_fs (upd_task t ((task_map s t)\<lparr>t_miniop := c\<rparr>) s))
     }"

definition startup_realloc :: "nat \<Rightarrow> u64 option \<Rightarrow> u64 \<Rightarrow> usys \<Rightarrow> (u64 \<times> usys) option" where
  "startup_realloc k ptr m s =
     do {
       let cur_fs = fs_reg s k;
       let s = switch_to_kthread_fs k s;
       (_, x) \<leftarrow> cur_ctx k s;
       t \<leftarrow> miniop_task x;
       (p, _, c) \<leftarrow> (if minimal_ops_je x = Ops_start then start_realloc (t_miniop (task_map s t)) ptr m else None);
       Some (p, loadfs k cur_fs (upd_task t ((task_map s t)\<lparr>t_miniop := c\<rparr>) s))
     }"

definition startup_free :: "nat \<Rightarrow> u64 \<Rightarrow> usys \<Rightarrow> usys option" where
  "startup_free k p s =
     do {
       let cur_fs = fs_reg s k;
       let s = switch_to_kthread_fs k s;
       (_, x) \<leftarrow> cur_ctx k s;
       t \<leftarrow> miniop_task x;
       c \<leftarrow> (if minimal_ops_je x = Ops_start then Some (start_free (t_miniop (task_map s t)) p) else None);
       Some (loadfs k cur_fs (upd_task t ((task_map s t)\<lparr>t_miniop := c\<rparr>) s))
     }"

section \<open>Protection keys\<close>

definition ERIM_SAFE_PKEY :: nat where "ERIM_SAFE_PKEY = 1"
definition ERIM_TUNNEL_PKEY :: nat where "ERIM_TUNNEL_PKEY = 2"

text \<open>The register value a core runs a uProcess with.\<close>

definition key2pkru :: "nat \<Rightarrow> u32" where
  "key2pkru key = 0xFFFFFFEC XOR push_bit (2 * key) 3"

text \<open>What the processor allows: bit \<open>2 k\<close> denies every access to key \<open>k\<close>, bit \<open>2 k + 1\<close> denies writes.\<close>

definition pkru_read :: "u32 \<Rightarrow> nat \<Rightarrow> bool" where "pkru_read r k \<longleftrightarrow> \<not> bit r (2 * k)"
definition pkru_write :: "u32 \<Rightarrow> nat \<Rightarrow> bool" where "pkru_write r k \<longleftrightarrow> \<not> bit r (2 * k) \<and> \<not> bit r (2 * k + 1)"

section \<open>The invariant of the tables\<close>

abbreviation task_cpus :: "usys \<Rightarrow> nat \<Rightarrow> bitmap" where
  "task_cpus s t \<equiv> cpu_mask (t_cpu_info (task_map s t))"

definition ids_ok :: "usys \<Rightarrow> bool" where
  "ids_ok s \<longleftrightarrow> 0 < id_cnt s \<and> id_cnt s \<le> NCLUSTER \<and>
     (\<forall>c. cluster_id2cluster_ptr s c = (if 0 < c \<and> c < id_cnt s then Some c else None))"

definition tasks_ok :: "usys \<Rightarrow> bool" where
  "tasks_ok s \<longleftrightarrow> task_num s \<le> NTASK \<and> task_anchor s = task_num s \<and>
     (\<forall>i < NTASK. active (task_map s i) \<longleftrightarrow> i < task_num s) \<and>
     (\<forall>i < task_num s. task_id (task_map s i) = int i + 1 \<and> mpk (task_map s i) = int i + 3)"

definition task_ready :: "nat \<Rightarrow> usys \<Rightarrow> nat \<Rightarrow> bool" where
  "task_ready nc s t \<longleftrightarrow> t < task_num s \<and> (\<forall>p < nc. bitmap_test (task_cpus s t) p \<longrightarrow> bitmap_test (kthread_map s) p)"

definition clusters_ok :: "nat \<Rightarrow> usys \<Rightarrow> bool" where
  "clusters_ok nc s \<longleftrightarrow>
     (\<forall>c x. clusters s c = Some x \<longrightarrow> c_id x = c \<and> 0 < c \<and> c < id_cnt s \<and>
        mytask x \<noteq> None \<and> task_ready nc s (the (mytask x)))"

definition attached_ok :: "usys \<Rightarrow> bool" where
  "attached_ok s \<longleftrightarrow>
     (\<forall>t. distinct (t_clusters (task_map s t)) \<and>
        (\<forall>c \<in> set (t_clusters (task_map s t)). Option.bind (clusters s c) mytask = Some t \<and> cluster_id2task_ptr s c = Some t))"

definition queues_ok :: "usys \<Rightarrow> bool" where
  "queues_ok s \<longleftrightarrow>
     (\<forall>k. distinct (cluster_list (kthread_metas s k)) \<and> (cluster_list (kthread_metas s k) \<noteq> [] \<longrightarrow> bitmap_test (kthread_map s) k) \<and>
        (\<forall>c. c \<in> set (cluster_list (kthread_metas s k)) \<longleftrightarrow> cluster_id2kthread_ptr s c = Some k)) \<and>
     (\<forall>c k. cluster_id2kthread_ptr s c = Some k \<longrightarrow> clusters s c \<noteq> None)"

definition utab_ok :: "nat \<Rightarrow> usys \<Rightarrow> bool" where
  "utab_ok nc s \<longleftrightarrow> ids_ok s \<and> tasks_ok s \<and> clusters_ok nc s \<and> attached_ok s \<and> queues_ok s"

lemmas utab_defs = utab_ok_def task_ready_def ids_ok_def tasks_ok_def clusters_ok_def attached_ok_def queues_ok_def

lemma utab_live: "utab_ok nc s \<Longrightarrow> clusters s c = Some x \<Longrightarrow> c_id x = c \<and> 0 < c \<and> c < id_cnt s \<and> c < NCLUSTER"
  by (fastforce simp: utab_ok_def ids_ok_def clusters_ok_def)

lemma utab_ready:
  assumes "utab_ok nc s" "clusters s c = Some x" "mytask x = Some t"
  shows "task_ready nc s t"
proof -
  have "task_ready nc s (the (mytask x))" using assms(1,2) unfolding utab_ok_def clusters_ok_def by blast
  with assms(3) show ?thesis by simp
qed

lemma utab_fresh:
  assumes "utab_ok nc s"
  shows "clusters s (id_cnt s) = None" "cluster_id2kthread_ptr s (id_cnt s) = None"
    "id_cnt s \<notin> set (t_clusters (task_map s t))" "id_cnt s \<notin> set (cluster_list (kthread_metas s k))"
proof -
  show n: "clusters s (id_cnt s) = None" using utab_live [OF assms, of "id_cnt s"] by fastforce
  then show k: "cluster_id2kthread_ptr s (id_cnt s) = None" using assms
    by (cases "cluster_id2kthread_ptr s (id_cnt s)") (auto simp: utab_ok_def queues_ok_def)
  show "id_cnt s \<notin> set (t_clusters (task_map s t))"
  proof
    assume "id_cnt s \<in> set (t_clusters (task_map s t))"
    then have "Option.bind (clusters s (id_cnt s)) mytask = Some t" using assms by (simp add: utab_ok_def attached_ok_def)
    with n show False by simp
  qed
  show "id_cnt s \<notin> set (cluster_list (kthread_metas s k))" using k assms by (auto simp: utab_ok_def queues_ok_def)
qed

text \<open>Operations that touch neither the tables nor the objects keep the invariant.\<close>

lemma utab_frame [simp]:
  "utab_ok nc (s\<lparr>mem := m\<rparr>) = utab_ok nc s" "utab_ok nc (s\<lparr>fs_reg := f\<rparr>) = utab_ok nc s"
  "utab_ok nc (s\<lparr>cpu_state := b\<rparr>) = utab_ok nc s" "utab_ok nc (s\<lparr>cur_cluster := cc\<rparr>) = utab_ok nc s"
  "utab_ok nc (loadfs k v s) = utab_ok nc s" "utab_ok nc (switch_to_kthread_fs k s) = utab_ok nc s"
  by (simp_all add: utab_defs loadfs_def switch_to_kthread_fs_def)

lemma utab_upd_cluster:
  assumes "utab_ok nc s" "clusters s c = Some x" "c_id y = c_id x" "mytask y = mytask x"
  shows "utab_ok nc (upd_cluster c y s)"
  using assms by (fastforce simp: utab_defs)

lemma utab_upd_task:
  assumes "utab_ok nc s" "active y = active (task_map s t)" "task_id y = task_id (task_map s t)"
    "mpk y = mpk (task_map s t)" "t_cpu_info y = t_cpu_info (task_map s t)" "t_clusters y = t_clusters (task_map s t)"
  shows "utab_ok nc (upd_task t y s)"
  using assms by (simp add: utab_defs)

text \<open>A new cluster of a task whose kthreads run.\<close>

definition add_cluster :: "cluster_ctx \<Rightarrow> usys \<Rightarrow> usys" where
  "add_cluster y s =
     s\<lparr>clusters := (clusters s)(id_cnt s := Some y),
       cluster_id2cluster_ptr := (cluster_id2cluster_ptr s)(id_cnt s := Some (id_cnt s)),
       id_cnt := id_cnt s + 1\<rparr>"

lemma utab_add_cluster:
  assumes ok: "utab_ok nc s" and "id_cnt s < NCLUSTER" "c_id y = id_cnt s" "mytask y = Some t" "task_ready nc s t"
  shows "utab_ok nc (add_cluster y s)"
proof -
  note fresh = utab_fresh [OF ok]
  have "ids_ok (add_cluster y s)" using assms by (auto simp: utab_ok_def ids_ok_def add_cluster_def)
  moreover have "tasks_ok (add_cluster y s)" using ok by (simp add: utab_ok_def tasks_ok_def add_cluster_def)
  moreover have "task_ready nc (add_cluster y s) = task_ready nc s" by (simp add: fun_eq_iff task_ready_def add_cluster_def)
  then have "clusters_ok nc (add_cluster y s)"
    using assms by (auto simp: utab_ok_def ids_ok_def clusters_ok_def add_cluster_def less_SucI)
  moreover have "attached_ok (add_cluster y s)"
    using ok fresh(3) by (auto simp: utab_ok_def attached_ok_def add_cluster_def)
  moreover have "queues_ok (add_cluster y s)"
    using ok fresh(2) by (auto simp: utab_ok_def queues_ok_def add_cluster_def)
  ultimately show ?thesis by (simp add: utab_ok_def)
qed

lemma alloc_cluster_cases:
  assumes "utab_ok nc s" "alloc_cluster s = Some (r, s')"
  shows "r = Some (id_cnt s) \<and> s' = add_cluster (zero_cluster\<lparr>c_id := id_cnt s\<rparr>) s \<and> id_cnt s < NCLUSTER"
  using assms by (auto simp: alloc_cluster_def add_cluster_def utab_ok_def ids_ok_def split: if_splits)

lemma utab_attach:
  assumes ok: "utab_ok nc s" and c: "clusters s c = Some x" "mytask x = Some t" "\<And>u. c \<notin> set (t_clusters (task_map s u))"
    and a: "task_attach_cluster lock t c s = Some (r, s')"
  shows "utab_ok nc s' \<and> clusters s' = clusters s \<and> cluster_id2kthread_ptr s' = cluster_id2kthread_ptr s \<and>
    kthread_metas s' = kthread_metas s \<and> kthread_map s' = kthread_map s \<and> id_cnt s' = id_cnt s \<and> cur_cluster s' = cur_cluster s \<and>
    t_cpu_info (task_map s' u) = t_cpu_info (task_map s u)"
proof (cases lock)
  case False
  then show ?thesis using a ok by (simp add: task_attach_cluster_def)
next
  case True
  have id: "c_id x = c" "c < NCLUSTER" using utab_live [OF ok c(1)] by simp_all
  have s': "s' = (upd_task t ((task_map s t)\<lparr>t_clusters := t_clusters (task_map s t) @ [c]\<rparr>) s)
      \<lparr>cluster_id2task_ptr := (cluster_id2task_ptr s)(c := Some t)\<rparr>"
    using a True c(1) id by (auto simp: task_attach_cluster_def split: if_splits)
  have "ids_ok s'" "queues_ok s'" "tasks_ok s'" using ok by (simp_all add: s' utab_ok_def ids_ok_def queues_ok_def tasks_ok_def)
  moreover have "task_ready nc s' = task_ready nc s" by (auto simp: fun_eq_iff task_ready_def s')
  then have "clusters_ok nc s'" using ok by (simp add: s' utab_ok_def clusters_ok_def)
  moreover have "attached_ok s'" using ok c by (auto simp: s' utab_ok_def attached_ok_def)
  ultimately show ?thesis by (simp add: utab_ok_def s')
qed

lemma utab_enqueue:
  assumes ok: "utab_ok nc s" and c: "clusters s c \<noteq> None" "cluster_id2kthread_ptr s c = None" "bitmap_test (kthread_map s) k"
    and l: "distinct l" "set l = insert c (set (cluster_list (kthread_metas s k)))"
  shows "utab_ok nc ((upd_kthread k ((kthread_metas s k)\<lparr>cluster_list := l\<rparr>) s)
    \<lparr>cluster_id2kthread_ptr := (cluster_id2kthread_ptr s)(c := Some k)\<rparr>)" (is "utab_ok nc ?s")
proof -
  have "ids_ok ?s" "tasks_ok ?s" "attached_ok ?s" "clusters_ok nc ?s"
    using ok by (simp_all add: utab_defs)
  moreover have "queues_ok ?s"
    using ok c l by (auto simp: utab_ok_def queues_ok_def)
  ultimately show ?thesis by (simp add: utab_ok_def)
qed

lemma utab_dequeue:
  assumes ok: "utab_ok nc s" and c: "cluster_id2kthread_ptr s c = Some k"
    and l: "distinct l" "set l = set (cluster_list (kthread_metas s k)) - {c}"
  shows "utab_ok nc ((upd_kthread k ((kthread_metas s k)\<lparr>cluster_list := l\<rparr>) s)
    \<lparr>cluster_id2kthread_ptr := (cluster_id2kthread_ptr s)(c := None)\<rparr>)" (is "utab_ok nc ?s")
proof -
  have "ids_ok ?s" "tasks_ok ?s" "attached_ok ?s" "clusters_ok nc ?s"
    using ok by (simp_all add: utab_defs)
  moreover have "c \<in> set (cluster_list (kthread_metas s k))" using ok c by (simp add: utab_ok_def queues_ok_def)
  then have "cluster_list (kthread_metas s k) \<noteq> []" by auto
  then have "bitmap_test (kthread_map s) k" using ok by (simp add: utab_ok_def queues_ok_def)
  then have "queues_ok ?s" using ok c l by (auto simp: utab_ok_def queues_ok_def)
  ultimately show ?thesis by (simp add: utab_ok_def)
qed

text \<open>What creating a cluster does to the objects and the queues.\<close>

definition grows :: "usys \<Rightarrow> usys \<Rightarrow> bool" where
  "grows s s' \<longleftrightarrow> cur_cluster s' = cur_cluster s \<and>
     (clusters s' = clusters s \<and> cluster_id2kthread_ptr s' = cluster_id2kthread_ptr s \<or>
      (\<exists>y. clusters s' = (clusters s)(id_cnt s := Some y) \<and> \<not> parked y \<and>
         (cluster_id2kthread_ptr s' = cluster_id2kthread_ptr s \<or>
          (\<exists>k. cluster_id2kthread_ptr s' = (cluster_id2kthread_ptr s)(id_cnt s := Some k)))))"

lemma attach_law:
  assumes ok: "utab_ok nc s" and c: "clusters s c = Some x" "cluster_id2kthread_ptr s c = None" "bitmap_test (kthread_map s) k"
    and a: "kthread_attch_cluster lock k c s = Some (r, s')"
  shows "utab_ok nc s' \<and> clusters s' = clusters s \<and> cur_cluster s' = cur_cluster s \<and>
    (if lock then r = 0 \<and> cluster_id2kthread_ptr s' = (cluster_id2kthread_ptr s)(c := Some k)
     else r = - EAGAIN_CODE \<and> s' = s)"
proof (cases lock)
  case True
  have id: "c_id x = c" "c < NCLUSTER" using utab_live [OF ok c(1)] by simp_all
  have "c \<notin> set (cluster_list (kthread_metas s k))" "distinct (cluster_list (kthread_metas s k))"
    using ok c(2) by (simp_all add: utab_ok_def queues_ok_def)
  with utab_enqueue [OF ok _ c(2,3), of "cluster_list (kthread_metas s k) @ [c]"] True a c(1) id show ?thesis
    by (auto simp: kthread_attch_cluster_def split: if_splits)
qed (use a ok in \<open>simp add: kthread_attch_cluster_def\<close>)

lemma spawn_law:
  assumes ok: "utab_ok nc s" and "pref < nc" and sp: "cluster_spawn nc cur func args pref stk tcb s = Some (r, s')"
  shows "utab_ok nc s' \<and> grows s s'"
proof -
  obtain x t where x: "clusters s cur = Some x" "mytask x = Some t"
    using sp by (auto simp: cluster_spawn_def Option.bind_eq_Some_conv)
  note ready = utab_ready [OF ok x]
  show ?thesis
  proof (cases "bitmap_test (task_cpus s t) pref")
    case False
    then show ?thesis using sp x ok by (simp add: cluster_spawn_def grows_def)
  next
    case True
    then have pref: "bitmap_test (kthread_map s) pref" using ready assms(2) by (simp add: task_ready_def)
    let ?c = "id_cnt s"
    obtain r1 s1 where s1: "alloc_cluster s = Some (r1, s1)"
      using sp x True by (auto simp: cluster_spawn_def Option.bind_eq_Some_conv)
    note al = alloc_cluster_cases [OF ok s1]
    define y where "y = (set_software_entry (zero_cluster\<lparr>c_id := ?c\<rparr>) func args stk tcb)
      \<lparr>mytask := Some t,
       cpu_affinity := bitmap_or (bitmap_init (cpu_affinity zero_cluster) nc False) (bitmap_init (cpu_affinity zero_cluster) nc False) (task_cpus s t) nc,
       minimal_ops := minimal_ops x, minimal_ops_je := minimal_ops_je x,
       miniop_task := miniop_task x, to_start := False, with_fs := True, parked := False\<rparr>"
    have y: "c_id y = ?c" "mytask y = Some t" "\<not> parked y" by (simp_all add: y_def set_software_entry_def)
    define s2 where "s2 = add_cluster y s"
    have ok2: "utab_ok nc s2" unfolding s2_def by (rule utab_add_cluster [OF ok _ y(1,2) ready]) (use al in simp)
    have c2: "clusters s2 ?c = Some y" "cluster_id2kthread_ptr s2 ?c = None" "?c \<notin> set (t_clusters (task_map s2 u))"
      "bitmap_test (kthread_map s2) pref" for u
      using utab_fresh [OF ok] pref by (simp_all add: s2_def add_cluster_def)
    have "upd_cluster ?c y s1 = s2" using al by (simp add: s2_def add_cluster_def)
    then obtain r3 s3 r4 s4 where s3: "task_attach_cluster True t ?c s2 = Some (r3, s3)"
      "kthread_attch_cluster True pref ?c s3 = Some (r4, s4)" "s' = s4"
      using sp x True s1 al
      by (auto simp: cluster_spawn_def opt_run y_def add_cluster_def set_software_entry_def
          zero_cluster_def)
    note t = utab_attach [OF ok2 c2(1) y(2) c2(3) s3(1)]
    have "utab_ok nc s' \<and> clusters s' = clusters s3 \<and> cur_cluster s' = cur_cluster s3 \<and>
      cluster_id2kthread_ptr s' = (cluster_id2kthread_ptr s3)(?c := Some pref)"
      using attach_law [of nc s3 ?c y pref True r4 s4] t c2 s3 by simp
    with t y(3) show ?thesis unfolding grows_def by (simp add: s2_def add_cluster_def) blast
  qed
qed

lemma find_slot_first:
  assumes "tasks_ok s" "task_num s \<noteq> NTASK"
  shows "find_slot (task_map s) (task_anchor s) = Some (task_num s)"
  using assms by (subst find_slot.simps) (auto simp: tasks_ok_def)

lemma task_alloc_law:
  assumes ok: "utab_ok nc s" and a: "task_alloc p s = Some (Some t, s')"
  shows "utab_ok nc s' \<and> t = task_num s \<and> task_num s' = task_num s + 1 \<and> clusters s' = clusters s \<and>
    kthread_map s' = kthread_map s \<and> cluster_id2kthread_ptr s' = cluster_id2kthread_ptr s \<and> cur_cluster s' = cur_cluster s \<and>
    id_cnt s' = id_cnt s \<and> (\<forall>u < task_num s. task_map s' u = task_map s u)"
proof -
  have tk: "tasks_ok s" using ok by (simp add: utab_ok_def)
  have n: "task_num s \<noteq> NTASK" using a by (auto simp: task_alloc_def)
  let ?t = "task_num s"
  obtain new where s': "t = ?t" "s' = upd_task ?t new (s\<lparr>task_anchor := ?t + 1, task_num := ?t + 1\<rparr>)" "active new"
    "task_id new = int ?t + 1" "mpk new = int ?t + 3" "t_clusters new = []"
    using a n find_slot_first [OF tk n] by (auto simp: task_alloc_def Let_def index2taskid_def taskid2mpk_def)
  have "tasks_ok s'" using tk n s' by (auto simp: tasks_ok_def less_Suc_eq)
  moreover have "ids_ok s'" "queues_ok s'" using ok s' by (simp_all add: utab_ok_def ids_ok_def queues_ok_def)
  moreover have "task_ready nc s' u" if "task_ready nc s u" for u using that s' by (auto simp: task_ready_def)
  then have "clusters_ok nc s'" using ok s' by (simp add: utab_ok_def clusters_ok_def)
  moreover have "attached_ok s'" using ok s' by (auto simp: utab_ok_def attached_ok_def)
  ultimately show ?thesis using s' by (simp add: utab_ok_def)
qed

text \<open>Setting the CPUs of a task no cluster belongs to yet.\<close>

lemma utab_set_cpus:
  assumes ok: "utab_ok nc s" and none: "\<And>c x. clusters s c = Some x \<Longrightarrow> mytask x \<noteq> Some t"
  shows "utab_ok nc (upd_task t ((task_map s t)\<lparr>t_cpu_info := ci\<rparr>) s)" (is "utab_ok nc ?s")
proof -
  have "ids_ok ?s" "tasks_ok ?s" "attached_ok ?s" "queues_ok ?s"
    using ok by (simp_all add: utab_ok_def ids_ok_def tasks_ok_def attached_ok_def queues_ok_def)
  moreover have "task_ready nc ?s u" if "task_ready nc s u" "u \<noteq> t" for u using that by (simp add: task_ready_def)
  then have "clusters_ok nc ?s" using ok none by (fastforce simp: utab_ok_def clusters_ok_def)
  ultimately show ?thesis by (simp add: utab_ok_def)
qed

lemma start_kthreads_law:
  assumes "utab_ok nc s" "distinct is" "\<And>i. i \<in> set is \<Longrightarrow> \<not> bitmap_test (kthread_map s) i" "start_kthreads created is s = Some s'"
  shows "utab_ok nc s' \<and> (\<forall>p. bitmap_test (kthread_map s') p \<longleftrightarrow> bitmap_test (kthread_map s) p \<or> p \<in> set is) \<and>
    task_map s' = task_map s \<and> task_num s' = task_num s \<and> clusters s' = clusters s \<and> id_cnt s' = id_cnt s \<and>
    cluster_id2kthread_ptr s' = cluster_id2kthread_ptr s \<and> cur_cluster s' = cur_cluster s"
  using assms
proof (induction "is" arbitrary: s)
  case (Cons i "is")
  obtain th where th: "created i = Some th" using Cons.prems(4) by (auto simp: Let_def split: option.splits)
  define s1 where "s1 = (upd_kthread i ((kthread_metas s i)\<lparr>cluster_list := [], cpuid := i, kthread_fs := th\<rparr>) s)
    \<lparr>kthread_map := bitmap_set (kthread_map s) i, kthread_fs_map := (kthread_fs_map s)(i := th)\<rparr>"
  have r: "start_kthreads created is s1 = Some s'" using Cons.prems(4) th by (simp add: s1_def Let_def)
  have "\<not> bitmap_test (kthread_map s) i" using Cons.prems(3) by simp
  then have e: "cluster_list (kthread_metas s i) = []" using Cons.prems(1) by (auto simp: utab_ok_def queues_ok_def)
  have "ids_ok s1" "tasks_ok s1" "attached_ok s1"
    using Cons.prems(1) by (simp_all add: s1_def utab_ok_def ids_ok_def tasks_ok_def attached_ok_def)
  moreover have "task_ready nc s1 u" if "task_ready nc s u" for u using that by (simp add: task_ready_def s1_def)
  then have "clusters_ok nc s1" using Cons.prems(1) by (simp add: s1_def utab_ok_def clusters_ok_def)
  moreover have "cluster_list (kthread_metas s1 k) = cluster_list (kthread_metas s k)" for k using e by (simp add: s1_def)
  then have "queues_ok s1" using Cons.prems(1) by (simp add: utab_ok_def queues_ok_def) (simp add: s1_def)
  ultimately have "utab_ok nc s1" by (simp add: utab_ok_def)
  from Cons.IH [OF this _ _ r] Cons.prems(2,3) show ?case by (auto simp: s1_def)
qed simp

lemma kthread_alloc_law:
  assumes ok: "utab_ok nc s" and a: "kthread_alloc_bitmap nc created cmask s = Some (r, s')"
  shows "r = Ok \<and> utab_ok nc s' \<and> (\<forall>p < nc. bitmap_test cmask p \<longrightarrow> bitmap_test (kthread_map s') p) \<and>
    (\<forall>p. bitmap_test (kthread_map s') p \<longleftrightarrow> bitmap_test (kthread_map s) p \<or> p < nc \<and> bitmap_test cmask p) \<and>
    task_map s' = task_map s \<and> task_num s' = task_num s \<and> clusters s' = clusters s \<and> id_cnt s' = id_cnt s \<and>
    cluster_id2kthread_ptr s' = cluster_id2kthread_ptr s \<and> cur_cluster s' = cur_cluster s"
proof -
  define x where "x = bitmap_xor (bitmap_init (\<lambda>_. 0) nc False) cmask (kthread_map s) nc"
  define y where "y = bitmap_and x cmask x nc"
  have y: "set (positions_set y nc 0) = {p. p < nc \<and> bitmap_test cmask p \<and> \<not> bitmap_test (kthread_map s) p}"
    by (auto simp: set_positions y_def x_def)
  have r: "r = Ok" "start_kthreads created (positions_set y nc 0) s = Some s'"
    using a unfolding kthread_alloc_bitmap_def Let_def x_def [symmetric] y_def [symmetric] by auto
  have "distinct (positions_set y nc 0)" by (simp add: positions_set_eq)
  from start_kthreads_law [OF ok this _ r(2)] y r(1) show ?thesis by auto
qed

lemma build_start_law:
  assumes ok: "utab_ok nc s" and ready: "task_ready nc s t"
    and b: "build_task_start_cluster nc t entry argv s = Some (c, s')"
  shows "\<exists>y. c = id_cnt s \<and> s' = add_cluster y s \<and> c_id y = c \<and> mytask y = Some t \<and> \<not> parked y \<and> utab_ok nc s'"
proof -
  obtain r1 s1 where s1: "alloc_cluster s = Some (r1, s1)"
    using b by (auto simp: build_task_start_cluster_def Option.bind_eq_Some_conv)
  note al = alloc_cluster_cases [OF ok s1]
  let ?c = "id_cnt s"
  obtain y where y: "c = ?c" "s' = upd_cluster ?c y s1" "c_id y = ?c" "mytask y = Some t" "\<not> parked y"
    using b s1 al by (auto simp: build_task_start_cluster_def opt_run add_cluster_def
        set_software_entry_def)
  then have s': "s' = add_cluster y s" using al by (simp add: add_cluster_def)
  have "utab_ok nc s'" unfolding s' by (rule utab_add_cluster [OF ok _ y(3,4) ready]) (use al in simp)
  with y(1,3,4,5) s' show ?thesis by blast
qed

lemma task_start_law:
  assumes ok: "utab_ok (e_ncpu e) s" and t: "t < task_num s" and a: "task_start e lock entry sargs t s = Some (r, s')"
  shows "utab_ok (e_ncpu e) s' \<and> grows s s'"
proof -
  let ?n = "e_ncpu e"
  obtain r1 s1 where s1: "kthread_alloc_bitmap ?n (e_created e) (task_cpus s t) s = Some (r1, s1)"
    using a by (auto simp: task_start_def kthread_alloc_def Option.bind_eq_Some_conv)
  note k = kthread_alloc_law [OF ok s1]
  have ok1: "utab_ok ?n s1" and ready: "task_ready ?n s1 t" and r1: "r1 = Ok"
    and e1: "clusters s1 = clusters s" "id_cnt s1 = id_cnt s" "cur_cluster s1 = cur_cluster s"
      "cluster_id2kthread_ptr s1 = cluster_id2kthread_ptr s"
    using k t by (auto simp: task_ready_def)
  obtain c s2 where s2: "build_task_start_cluster ?n t entry sargs s1 = Some (c, s2)"
    using a s1 r1 by (auto simp: task_start_def kthread_alloc_def Option.bind_eq_Some_conv)
  from build_start_law [OF ok1 ready s2] obtain y where y: "c = id_cnt s1" "s2 = add_cluster y s1" "mytask y = Some t"
    "\<not> parked y" "utab_ok ?n s2" by blast
  have c2: "clusters s2 c = Some y" "cluster_id2kthread_ptr s2 c = None" "c \<notin> set (t_clusters (task_map s2 u))" for u
    using utab_fresh [OF ok1] y by (simp_all add: add_cluster_def)
  obtain r3 s3 where s3: "task_attach_cluster lock t c s2 = Some (r3, s3)"
    using a s1 r1 s2 by (auto simp: task_start_def kthread_alloc_def Option.bind_eq_Some_conv)
  note at = utab_attach [OF y(5) c2(1) y(3) c2(3) s3]
  have e3: "clusters s3 = (clusters s)(id_cnt s := Some y)" "cluster_id2kthread_ptr s3 = cluster_id2kthread_ptr s"
    "cur_cluster s3 = cur_cluster s" "utab_ok ?n s3" "c = id_cnt s"
    using at y e1 by (simp_all add: add_cluster_def)
  have tail: "(if r3 \<noteq> Ok then Some (r3, s3)
      else case positions_set (task_cpus s3 t) ?n 0 of [] \<Rightarrow> Some (Ok, s3)
        | k # _ \<Rightarrow> do { (_, s) \<leftarrow> kthread_attch_cluster True k c s3; Some (Ok, s) }) = Some (r, s')"
    using a s1 r1 s2 s3 by (simp add: task_start_def kthread_alloc_def)
  then consider "s' = s3" | k ks r4 where "positions_set (task_cpus s3 t) ?n 0 = k # ks"
      "kthread_attch_cluster True k c s3 = Some (r4, s')"
    by (auto split: if_splits list.splits simp: Option.bind_eq_Some_conv)
  then show ?thesis
  proof cases
    case 1
    then show ?thesis using e3 y(4) unfolding grows_def by blast
  next
    case 2
    have "k \<in> set (positions_set (task_cpus s3 t) ?n 0)" using 2 by simp
    then have "k < ?n" "bitmap_test (task_cpus s3 t) k" by (simp_all add: set_positions)
    moreover have "task_ready ?n s3 t" using utab_ready [OF e3(4), of c y t] e3 y by simp
    ultimately have "bitmap_test (kthread_map s3) k" by (simp add: task_ready_def)
    from attach_law [OF e3(4) _ _ this 2(2), of y] c2 e3 y(1,2) e1
    have "utab_ok ?n s'" "clusters s' = (clusters s)(id_cnt s := Some y)" "cur_cluster s' = cur_cluster s"
      "cluster_id2kthread_ptr s' = (cluster_id2kthread_ptr s)(id_cnt s := Some k)"
      by (simp_all add: add_cluster_def)
    with y(4) show ?thesis unfolding grows_def by blast
  qed
qed

lemma task_init_law:
  assumes ok: "utab_ok (e_ncpu e) s" and a: "task_init e p lock entry sargs aff excl s = Some (r, s')"
  shows "utab_ok (e_ncpu e) s' \<and> grows s s'"
proof -
  let ?n = "e_ncpu e"
  obtain r1 s1 where s1: "task_alloc p s = Some (r1, s1)" using a by (auto simp: task_init_def Option.bind_eq_Some_conv)
  show ?thesis
  proof (cases r1)
    case None
    then have "s1 = s" using s1 by (auto simp: task_alloc_def opt_run split: if_splits)
    then show ?thesis using a s1 None ok by (simp add: task_init_def grows_def)
  next
    case (Some t)
    note ta = task_alloc_law [OF ok s1 [unfolded Some]]
    obtain ret ci st where ca: "cpu_alloc ?n (e_nnuma e) (e_fs e) (e_tmp e) (e_tbl e) (e_cur e) (e_pin e) (cpu_state s1)
        (t_cpu_info (task_map s1 t)) (Some aff) excl = Some (ret, ci, st)"
      using a s1 Some by (auto simp: task_init_def opt_run)
    define s2 where "s2 = (upd_task t ((task_map s1 t)\<lparr>t_cpu_info := ci\<rparr>) s1)\<lparr>cpu_state := st\<rparr>"
    have none: "mytask x \<noteq> Some t" if "clusters s1 c = Some x" for c x
      using that ta utab_ready [OF ok, of c x t] by (auto simp: task_ready_def)
    have "utab_ok ?n (upd_task t ((task_map s1 t)\<lparr>t_cpu_info := ci\<rparr>) s1)"
      using utab_set_cpus [of ?n s1 t ci] none ta by blast
    then have ok2: "utab_ok ?n s2" by (simp add: s2_def)
    have same2: "clusters s2 = clusters s" "cluster_id2kthread_ptr s2 = cluster_id2kthread_ptr s" "cur_cluster s2 = cur_cluster s"
      "id_cnt s2 = id_cnt s" "t < task_num s2" using ta by (simp_all add: s2_def)
    have "(if ret \<noteq> Ok then Some (ret, s2) else task_start e lock entry sargs t s2) = Some (r, s')"
      using a s1 Some ca by (simp add: task_init_def Let_def s2_def split: if_splits)
    then have "s' = s2 \<or> task_start e lock entry sargs t s2 = Some (r, s')" by (auto split: if_splits)
    then show ?thesis
    proof
      assume "s' = s2"
      then show ?thesis using ok2 same2 by (simp add: grows_def)
    next
      assume "task_start e lock entry sargs t s2 = Some (r, s')"
      from task_start_law [OF ok2 same2(5) this] same2 show ?thesis by (simp add: grows_def)
    qed
  qed
qed

lemma pop_law:
  assumes ok: "utab_ok nc s" and a: "kthread_pop_cluster lock k s = Some (r, s')"
  shows "utab_ok nc s' \<and> clusters s' = clusters s \<and> cur_cluster s' = cur_cluster s \<and>
    (case r of None \<Rightarrow> s' = s
     | Some c \<Rightarrow> cluster_id2kthread_ptr s c = Some k \<and> cluster_id2kthread_ptr s' = (cluster_id2kthread_ptr s)(c := None) \<and>
         clusters s c \<noteq> None)"
proof (cases "lock \<and> cluster_list (kthread_metas s k) \<noteq> []")
  case False
  then show ?thesis using a ok by (auto simp: kthread_pop_cluster_def split: if_splits)
next
  case True
  then obtain c cs where c: "cluster_list (kthread_metas s k) = c # cs" by (cases "cluster_list (kthread_metas s k)") auto
  have "c \<in> set (cluster_list (kthread_metas s k))" by (simp add: c)
  then have q: "cluster_id2kthread_ptr s c = Some k" "distinct (c # cs)"
    using ok unfolding c [symmetric] by (simp_all add: utab_ok_def queues_ok_def)
  then obtain x where x: "clusters s c = Some x" using ok by (auto simp: utab_ok_def queues_ok_def)
  have s': "r = Some c" "s' = (upd_kthread k ((kthread_metas s k)\<lparr>cluster_list := cs\<rparr>) s)
      \<lparr>cluster_id2kthread_ptr := (cluster_id2kthread_ptr s)(c := None)\<rparr>"
    using a True c x utab_live [OF ok x] by (auto simp: kthread_pop_cluster_def)
  have "utab_ok nc s'" unfolding s' by (rule utab_dequeue [OF ok q(1)]) (use q c in auto)
  with q s' x show ?thesis by simp
qed

lemma park_law:
  assumes ok: "utab_ok nc s" and x: "clusters s c = Some x" "cluster_id2kthread_ptr s c = None"
  shows "kthread_park_cluster c s = Some (0, s)"
proof -
  have "(cluster_id2kthread_ptr s)(c := None) = cluster_id2kthread_ptr s" using x(2) by auto
  with utab_live [OF ok x(1)] x(1) show ?thesis by (simp add: kthread_park_cluster_def)
qed

lemma detach_law:
  assumes ok: "utab_ok nc s" and c: "clusters s c = Some x" "cluster_id2kthread_ptr s c = None"
    and a: "task_deattach_cluster True c s = Some (r, s1)"
  shows "utab_ok nc (dealloc_cluster c s1) \<and> clusters (dealloc_cluster c s1) = (clusters s)(c := None) \<and>
    cluster_id2kthread_ptr (dealloc_cluster c s1) = cluster_id2kthread_ptr s \<and> cur_cluster (dealloc_cluster c s1) = cur_cluster s \<and>
    r \<noteq> Err EAGAIN"
proof -
  have id: "c_id x = c" using utab_live [OF ok c(1)] by simp
  obtain t where t: "cluster_id2task_ptr s c = Some t" using a c(1) id by (auto simp: task_deattach_cluster_def Option.bind_eq_Some_conv)
  define s' where "s' = dealloc_cluster c s1"
  have s1: "r \<noteq> Err EAGAIN" "s1 = (if mytask x = Some t then upd_task t ((task_map s t)\<lparr>t_clusters := remove1 c (t_clusters (task_map s t))\<rparr>) s else s)"
    using a c(1) id t by (auto simp: task_deattach_cluster_def split: if_splits)
  have e: "clusters s' = (clusters s)(c := None)" "cluster_id2kthread_ptr s' = cluster_id2kthread_ptr s"
    "cur_cluster s' = cur_cluster s" "cluster_id2task_ptr s' = cluster_id2task_ptr s" "id_cnt s' = id_cnt s"
    using s1 by (simp_all add: s'_def dealloc_cluster_def)
  have "ids_ok s'" "tasks_ok s'" using ok s1 by (simp_all add: s'_def utab_ok_def ids_ok_def tasks_ok_def dealloc_cluster_def)
  moreover have "task_ready nc s' u = task_ready nc s u" for u using s1 by (simp add: s'_def task_ready_def dealloc_cluster_def)
  then have "clusters_ok nc s'" using ok by (auto simp: utab_ok_def clusters_ok_def e)
  moreover have "attached_ok s'"
  proof -
    have "Option.bind (clusters s d) mytask = Some u \<and> cluster_id2task_ptr s d = Some u"
      if "d \<in> set (t_clusters (task_map s u))" for d u
      using that ok by (simp add: utab_ok_def attached_ok_def)
    moreover from this [of c] have "c \<notin> set (t_clusters (task_map s u))" if "u \<noteq> t \<or> mytask x \<noteq> Some t" for u
      using that c(1) t by auto
    moreover have "t_clusters (task_map s' u) = remove1 c (t_clusters (task_map s u))" for u
      using calculation(2) [of u] s1 by (auto simp: s'_def dealloc_cluster_def remove1_idem)
    moreover have "distinct (t_clusters (task_map s u))" for u using ok by (simp add: utab_ok_def attached_ok_def)
    ultimately show ?thesis by (auto simp: attached_ok_def e)
  qed
  moreover have "kthread_metas s' = kthread_metas s" "kthread_map s' = kthread_map s"
    using s1 by (simp_all add: s'_def dealloc_cluster_def)
  then have "queues_ok s'" using ok c(2) by (auto simp: utab_ok_def queues_ok_def e)
  ultimately show ?thesis using e s1(1) by (simp add: utab_ok_def s'_def)
qed

section \<open>Laws of the protection keys and of the calls\<close>

lemma bit_3: "bit (3 :: u32) n \<longleftrightarrow> n = 0 \<or> n = 1"
proof -
  have m: "(3 :: u32) = mask 2" by (simp add: mask_eq_exp_minus_1)
  show ?thesis unfolding m bit_mask_iff by auto
qed

lemma bit_base:
  assumes "n < 32"
  shows "bit (0xFFFFFFEC :: u32) n \<longleftrightarrow> n \<noteq> 0 \<and> n \<noteq> 1 \<and> n \<noteq> 4"
proof -
  have m: "(19 :: u32) = mask 2 OR push_bit 4 1" by (simp add: mask_eq_exp_minus_1)
  have "bit (19 :: u32) n \<longleftrightarrow> n = 0 \<or> n = 1 \<or> n = 4"
    using assms unfolding m bit_or_iff bit_mask_iff bit_push_bit_iff bit_1_iff by auto
  moreover have "(0xFFFFFFEC :: u32) = NOT 19" by simp
  ultimately show ?thesis using assms by (simp only: bit_not_iff) simp
qed

lemma bit_key2pkru:
  assumes "n < 32"
  shows "bit (key2pkru k) n \<longleftrightarrow> (n \<noteq> 0 \<and> n \<noteq> 1 \<and> n \<noteq> 4) \<noteq> (n = 2 * k \<or> n = 2 * k + 1)"
proof -
  have "bit (push_bit (2 * k) (3 :: u32)) n \<longleftrightarrow> 2 * k \<le> n \<and> (n - 2 * k = 0 \<or> n - 2 * k = 1)"
    using assms by (simp only: bit_push_bit_iff bit_3) simp
  also have "\<dots> \<longleftrightarrow> n = 2 * k \<or> n = 2 * k + 1" by linarith
  finally show ?thesis unfolding key2pkru_def bit_xor_iff bit_base [OF assms] by (rule arg_cong)
qed

text \<open>Every call leaves the thread pointer of its CPU as it found it.\<close>

definition keeps_fs :: "nat \<Rightarrow> usys \<Rightarrow> usys \<Rightarrow> bool" where
  "keeps_fs k s s' \<longleftrightarrow> fs_reg s' k = fs_reg s k"

lemma loadfs_fs [simp]: "fs_reg (loadfs k v s) k = v"
  by (simp add: loadfs_def)

lemma utab_api [simp]:
  "utab_ok nc (loadfs k v s) = utab_ok nc s" "clusters (switch_to_kthread_fs k s) = clusters s"
  by (simp_all add: switch_to_kthread_fs_def loadfs_def utab_defs)

lemma utab_mds: "utab_ok nc s \<Longrightarrow> utab_ok nc (upd_task t ((task_map s t)\<lparr>mds := h\<rparr>) s)"
  by (rule utab_upd_task) simp_all

lemma alloc_chunk_api_law:
  assumes ok: "utab_ok nc s" and a: "vessel_alloc_chunk_api prot_ok k n s = Some (p, s')"
  shows "keeps_fs k s s' \<and> utab_ok nc s'"
proof -
  obtain t m h where s': "s' = loadfs k (fs_reg s k) ((upd_task t ((task_map (switch_to_kthread_fs k s) t)\<lparr>mds := h\<rparr>)
      (switch_to_kthread_fs k s))\<lparr>mem := m\<rparr>)"
    using a by (force simp: vessel_alloc_chunk_api_def opt_run split_beta)
  from utab_mds [of nc "switch_to_kthread_fs k s" t h] ok show ?thesis by (simp add: s' keeps_fs_def)
qed

lemma alloc_huge_chunk_api_law:
  assumes ok: "utab_ok nc s" and a: "vessel_alloc_huge_chunk_api prot_ok k n s = Some (p, s')"
  shows "keeps_fs k s s' \<and> utab_ok nc s'"
proof -
  obtain t m h where s': "s' = loadfs k (fs_reg s k) ((upd_task t ((task_map (switch_to_kthread_fs k s) t)\<lparr>mds := h\<rparr>)
      (switch_to_kthread_fs k s))\<lparr>mem := m\<rparr>)"
    using a by (force simp: vessel_alloc_huge_chunk_api_def opt_run split_beta)
  from utab_mds [of nc "switch_to_kthread_fs k s" t h] ok show ?thesis by (simp add: s' keeps_fs_def)
qed

lemma cur_ctx_live: "cur_ctx k s = Some (c, x) \<Longrightarrow> clusters s c = Some x"
  by (auto simp: cur_ctx_def Option.bind_eq_Some_conv)

lemma utab_cur_ctx:
  assumes "utab_ok nc s" "cur_ctx k (switch_to_kthread_fs k s) = Some (c, x)" "c_id y = c_id x" "mytask y = mytask x"
  shows "utab_ok nc (upd_cluster c y (switch_to_kthread_fs k s))"
  using assms utab_upd_cluster [of nc "switch_to_kthread_fs k s" c x y] cur_ctx_live [of k "switch_to_kthread_fs k s" c x] by simp

lemma spawn_api_law:
  assumes ok: "utab_ok nc s" and "pref < nc" and a: "vessel_cluster_spawn_api nc k func args pref stk tcb s = Some (p, s')"
  shows "keeps_fs k s s' \<and> utab_ok nc s'"
proof -
  obtain c x s1 where c: "cur_ctx k (switch_to_kthread_fs k s) = Some (c, x)"
    and sp: "cluster_spawn nc c func args pref stk tcb
      (upd_cluster c (x\<lparr>fctx := (fctx x)\<lparr>FS := fs_reg s k\<rparr>\<rparr>) (switch_to_kthread_fs k s)) = Some (p, s1)"
    and s': "s' = loadfs k (fs_reg s k) s1"
    using a by (auto simp: vessel_cluster_spawn_api_def opt_run)
  have "utab_ok nc (upd_cluster c (x\<lparr>fctx := (fctx x)\<lparr>FS := fs_reg s k\<rparr>\<rparr>) (switch_to_kthread_fs k s))"
    using ok c by (rule utab_cur_ctx) simp_all
  from spawn_law [OF this assms(2) sp] show ?thesis by (simp add: s' keeps_fs_def)
qed

lemma spawn_loop_law:
  "utab_ok nc s \<Longrightarrow> \<forall>i \<in> set is. i < nc \<Longrightarrow> spawn_loop nc k c func args alloc is s = Some (r, s') \<Longrightarrow> utab_ok nc s'"
proof (induction "is" arbitrary: s)
  case (Cons i "is")
  show ?case
  proof (cases "i = k")
    case False
    then obtain r1 s1 where s1: "cluster_spawn nc c func args i (fst (alloc i)) (snd (alloc i)) s = Some (r1, s1)"
      "(case r1 of None \<Rightarrow> Some (Err EAGAIN, s1) | Some _ \<Rightarrow> spawn_loop nc k c func args alloc is s1) = Some (r, s')"
      using Cons.prems(3) by (auto simp: Option.bind_eq_Some_conv)
    have "utab_ok nc s1" using spawn_law [OF Cons.prems(1) _ s1(1)] Cons.prems(2) by simp
    with Cons.IH [of s1] s1(2) Cons.prems(2) show ?thesis by (cases r1) auto
  qed (use Cons in simp)
qed simp

lemma spawn_all_api_law:
  assumes ok: "utab_ok nc s" and a: "vessel_spawn_all_clusters_api nc k func args alloc s = Some (r, s')"
  shows "keeps_fs k s s' \<and> utab_ok nc s'"
proof -
  obtain c x s1 b where c: "cur_ctx k (switch_to_kthread_fs k s) = Some (c, x)"
    and sp: "spawn_loop nc k c func args alloc (positions_set b nc 0)
      (upd_cluster c (x\<lparr>fctx := (fctx x)\<lparr>FS := fs_reg s k\<rparr>\<rparr>) (switch_to_kthread_fs k s)) = Some (r, s1)"
    and s': "s' = loadfs k (fs_reg s k) s1"
    using a by (auto simp: vessel_spawn_all_clusters_api_def opt_run)
  have l: "\<forall>i \<in> set (positions_set b nc 0). i < nc" by (simp add: set_positions)
  have "utab_ok nc (upd_cluster c (x\<lparr>fctx := (fctx x)\<lparr>FS := fs_reg s k\<rparr>\<rparr>) (switch_to_kthread_fs k s))"
    using ok c by (rule utab_cur_ctx) simp_all
  from spawn_loop_law [OF this l sp] show ?thesis by (simp add: s' keeps_fs_def)
qed

lemma register_api_law:
  assumes ok: "utab_ok nc s" and a: "vessel_register_uipi_handlers_api k ops s = Some (r, s')"
  shows "keeps_fs k s s' \<and> utab_ok nc s'"
proof -
  obtain c x where c: "cur_ctx k (switch_to_kthread_fs k s) = Some (c, x)"
    and s': "s' = loadfs k (fs_reg s k) (upd_cluster c (x\<lparr>uipi_ops := ops\<rparr>) (switch_to_kthread_fs k s))"
    using a by (auto simp: vessel_register_uipi_handlers_api_def opt_run)
  have "utab_ok nc (upd_cluster c (x\<lparr>uipi_ops := ops\<rparr>) (switch_to_kthread_fs k s))"
    using ok c by (rule utab_cur_ctx) simp_all
  then show ?thesis by (simp add: s' keeps_fs_def)
qed

text \<open>The tables as the start-up code leaves them, with zeroed shared memory.\<close>

definition zero_task :: task where
  "zero_task = \<lparr>active = False, task_id = 0, pid = 0, mpk = 0, t_cpu_info = demo_cpu\<lparr>cpu_mask := \<lambda>_. 0\<rparr>, mds = [], t_clusters = [],
     tls_ops = 0, t_miniop = \<lparr>miniop_cnt = 0, miniop_last = 0, miniop_base = 0\<rparr>\<rparr>"

definition boot_usys :: usys where
  "boot_usys = kthread_meta_init (task_meta_init (cluster_init
     \<lparr>id_cnt = 1, clusters = \<lambda>_. None, cluster_id2cluster_ptr = \<lambda>_. None, cluster_id2task_ptr = \<lambda>_. None,
      cluster_id2kthread_ptr = \<lambda>_. None, task_anchor = 0, task_num = 0, task_map = \<lambda>_. zero_task,
      kthread_map = \<lambda>_. 0, kthread_metas = \<lambda>_. \<lparr>cpuid = 0, kthread_fs = 0, cluster_list = []\<rparr>, cpu_state = \<lambda>_. 0,
      mem = init_mem_meta zero_meta, fs_reg = \<lambda>_. 7, kthread_fs_map = \<lambda>_. 0, cur_cluster = \<lambda>_. None\<rparr>))"

lemma boot_utab_ok: "utab_ok nc boot_usys"
  by (auto simp: utab_defs boot_usys_def kthread_meta_init_def task_meta_init_def cluster_init_def zero_task_def NCLUSTER_def)

section \<open>Properties\<close>

text \<open>
  C2: protection keys isolate uProcesses. Under the key register value a core loads for the
  uProcess in slot \<open>t\<close>, its own key can be read and written, the key of every other
  uProcess and the key of the scheduler's memory can be neither, and the memory shared for
  the switch can be read but not written.
\<close>

theorem mpk_isolation:
  assumes "t < NTASK" "u < NTASK" "u \<noteq> t"
    and "kt = nat (taskid2mpk (index2taskid t))" "ku = nat (taskid2mpk (index2taskid u))"
  shows "pkru_write (key2pkru kt) kt \<and> \<not> pkru_read (key2pkru kt) ku \<and> \<not> pkru_read (key2pkru kt) ERIM_SAFE_PKEY \<and>
    pkru_read (key2pkru kt) ERIM_TUNNEL_PKEY \<and> \<not> pkru_write (key2pkru kt) ERIM_TUNNEL_PKEY"
proof -
  have k: "kt = t + 3" "ku = u + 3" using assms(4,5) by (simp_all add: taskid2mpk_def index2taskid_def nat_add_distrib)
  have "t < 13" "u < 13" using assms(1,2) by (simp_all add: NTASK_def)
  then show ?thesis
    using assms(3) by (auto simp: k pkru_read_def pkru_write_def bit_key2pkru ERIM_SAFE_PKEY_def ERIM_TUNNEL_PKEY_def)
qed

theorem mpk_isolation_witness:
  "\<not> pkru_read (key2pkru 3) 15 \<and> pkru_write (key2pkru 3) 3"
  using mpk_isolation [of 0 12 3 15] by (simp add: NTASK_def taskid2mpk_def index2taskid_def)

text \<open>
  C22: allocating a task always ends and never reads outside the table: with a free slot the
  first free one is taken and its task gets the id and the protection key of the slot, and
  with none the call fails and changes nothing.
\<close>

theorem task_alloc_total:
  assumes "utab_ok nc s"
  shows "\<exists>r s'. task_alloc p s = Some (r, s') \<and>
    (if task_num s = NTASK then r = None \<and> s' = s
     else r = Some (task_num s) \<and> task_num s < NTASK \<and> active (task_map s' (task_num s)) \<and> \<not> active (task_map s (task_num s)) \<and>
       task_id (task_map s' (task_num s)) = int (task_num s) + 1 \<and>
       mpk (task_map s' (task_num s)) = taskid2mpk (int (task_num s) + 1) \<and> utab_ok nc s')"
proof (cases "task_num s = NTASK")
  case False
  have tk: "tasks_ok s" using assms by (simp add: utab_ok_def)
  obtain s' where s': "task_alloc p s = Some (Some (task_num s), s')" "active (task_map s' (task_num s))"
    "task_id (task_map s' (task_num s)) = int (task_num s) + 1"
    "mpk (task_map s' (task_num s)) = taskid2mpk (int (task_num s) + 1)"
    using False find_slot_first [OF tk False] by (simp add: task_alloc_def Let_def index2taskid_def)
  from task_alloc_law [OF assms s'(1)] s' tk False show ?thesis by (auto simp: tasks_ok_def)
qed (simp add: task_alloc_def)

theorem task_alloc_total_witness:
  "utab_ok 64 boot_usys \<and> (\<exists>s'. task_alloc 1 boot_usys = Some (Some 0, s') \<and> utab_ok 64 s')"
proof -
  have n: "task_num boot_usys = 0" "0 \<noteq> NTASK"
    by (simp_all add: boot_usys_def kthread_meta_init_def task_meta_init_def cluster_init_def NTASK_def)
  from task_alloc_total [OF boot_utab_ok, of 1 64] n boot_utab_ok [of 64] show ?thesis by auto
qed


definition demo_usys :: usys where
  "demo_usys = (add_cluster (zero_cluster\<lparr>c_id := 1, mytask := Some 0\<rparr>) (snd (the (task_alloc 1 boot_usys))))
     \<lparr>cur_cluster := (\<lambda>_. None)(0 := Some 1)\<rparr>"

lemma demo_utab_ok:
  "utab_ok nc demo_usys \<and> clusters demo_usys = [1 \<mapsto> zero_cluster\<lparr>c_id := 1, mytask := Some 0\<rparr>] \<and>
    cluster_id2kthread_ptr demo_usys = (\<lambda>_. None)"
proof -
  have tk: "tasks_ok boot_usys" using boot_utab_ok [of 0] by (simp add: utab_ok_def)
  have b: "task_num boot_usys = 0" "task_num boot_usys \<noteq> NTASK" "id_cnt boot_usys = 1" "kthread_map boot_usys = (\<lambda>_. 0)"
    "cpu_mask (t_cpu_info (task_map boot_usys 0)) = (\<lambda>_. 0)"
    "clusters boot_usys = (\<lambda>_. None)" "cluster_id2kthread_ptr boot_usys = (\<lambda>_. None)"
    by (simp_all add: boot_usys_def kthread_meta_init_def task_meta_init_def cluster_init_def NTASK_def zero_task_def)
  obtain s1 where s1: "task_alloc 1 boot_usys = Some (Some 0, s1)" "task_cpus s1 0 = (\<lambda>_. 0)"
    using b find_slot_first [OF tk b(2)] by (simp add: task_alloc_def Let_def)
  note ta = task_alloc_law [OF boot_utab_ok s1(1)]
  have "task_ready nc s1 0" using ta s1(2) by (simp add: task_ready_def)
  moreover have "id_cnt s1 = 1" using ta b by simp
  ultimately have "utab_ok nc (add_cluster (zero_cluster\<lparr>c_id := 1, mytask := Some 0\<rparr>) s1)"
    using ta by (intro utab_add_cluster) (auto simp: NCLUSTER_def)
  with s1 ta b show ?thesis by (simp add: demo_usys_def) (simp add: add_cluster_def)
qed


end
