(* ===== verification/Ksched.thy ===== *)
theory Ksched
  imports Bitmap "HOL-Library.Monad_Syntax"
begin

text \<open>
  The words a core shares with the scheduler process (\<^verbatim>\<open>inc/scheds/state.h\<close>) and the operations of
  the scheduler process on them (\<^verbatim>\<open>iokernel/ksched.h\<close>, \<^verbatim>\<open>iokernel/ksched.c\<close>): posting a request
  with a new generation number, polling for its completion, and user interrupts, in the build with
  \<^verbatim>\<open>VESSEL_UIPI\<close>. \<^verbatim>\<open>abort\<close> and \<^verbatim>\<open>BUG_ON\<close> are \<open>None\<close>.
\<close>

section \<open>State\<close>

record core_conn =
  next_tid :: int
  gen :: u32
  last_gen :: u32
  yield_fd :: int
  cede_fd :: int
  op :: int
  idling :: bool
  to_steal :: bool
  pmc_val :: u64
  pmc_tsc :: u64
  pmc_done :: bool

record ksched =
  cs_map :: "nat \<Rightarrow> core_conn"
  ksched_gens :: "nat \<Rightarrow> u32"
  ksched_count :: int
  cpu_tosend :: bitmap
  yield_op :: "nat \<Rightarrow> int"
  cede_op :: "nat \<Rightarrow> int"

abbreviation upd_cs :: "nat \<Rightarrow> core_conn \<Rightarrow> ksched \<Rightarrow> ksched" where
  "upd_cs c x s \<equiv> s\<lparr>cs_map := (cs_map s)(c := x)\<rparr>"

section \<open>Operations\<close>

definition ksched_run :: "nat \<Rightarrow> int \<Rightarrow> ksched \<Rightarrow> ksched" where
  "ksched_run core tid s =
     (let g = ksched_gens s core + 1;
          s = s\<lparr>ksched_gens := (ksched_gens s)(core := g)\<rparr>;
          s = upd_cs core ((cs_map s core)\<lparr>next_tid := tid\<rparr>) s;
          s = upd_cs core ((cs_map s core)\<lparr>gen := g\<rparr>) s
      in s\<lparr>cpu_tosend := bitmap_set (cpu_tosend s) core\<rparr>)"

definition ksched_poll_run_done :: "nat \<Rightarrow> ksched \<Rightarrow> bool" where
  "ksched_poll_run_done core s \<longleftrightarrow> last_gen (cs_map s core) = ksched_gens s core"

definition ksched_poll_idle :: "nat \<Rightarrow> ksched \<Rightarrow> bool" where
  "ksched_poll_idle core s \<longleftrightarrow> idling (cs_map s core)"

definition ksched_set_to_steal :: "nat \<Rightarrow> bool \<Rightarrow> ksched \<Rightarrow> ksched" where
  "ksched_set_to_steal core st s = upd_cs core ((cs_map s core)\<lparr>to_steal := st\<rparr>) s"

definition ksched_idle_hint :: "nat \<Rightarrow> nat \<Rightarrow> ksched \<Rightarrow> ksched" where
  "ksched_idle_hint core hint s = s"

text \<open>\<open>Intr_other\<close>: any value that is not of the enumeration.\<close>

datatype intr_type = KSCHED_INTR_CEDE | KSCHED_INTR_YIELD | Intr_other

definition ksched_enqueue_intr :: "nat \<Rightarrow> intr_type \<Rightarrow> ksched \<Rightarrow> ksched option" where
  "ksched_enqueue_intr core type s =
     (case type of
        Intr_other \<Rightarrow> Some s
      | KSCHED_INTR_YIELD \<Rightarrow> None
      | KSCHED_INTR_CEDE \<Rightarrow>
          if cede_op s core < 0 then None
          else Some ((upd_cs core ((cs_map s core)\<lparr>op := cede_op s core\<rparr>) s)
                 \<lparr>ksched_count := ksched_count s + 1, cpu_tosend := bitmap_set (cpu_tosend s) core\<rparr>))"

definition ksched_enqueue_pmc :: "nat \<Rightarrow> u64 \<Rightarrow> ksched \<Rightarrow> ksched option" where
  "ksched_enqueue_pmc core sel s =
     do {
       s \<leftarrow> ksched_enqueue_intr core KSCHED_INTR_CEDE (upd_cs core ((cs_map s core)\<lparr>pmc_done := False\<rparr>) s);
       Some (s\<lparr>ksched_count := ksched_count s + 1\<rparr>)
     }"

definition ksched_poll_pmc :: "nat \<Rightarrow> ksched \<Rightarrow> (u64 \<times> u64) option" where
  "ksched_poll_pmc core s =
     (if pmc_done (cs_map s core) then Some (pmc_val (cs_map s core), pmc_tsc (cs_map s core)) else None)"

text \<open>The result lists the operands of \<^verbatim>\<open>_senduipi\<close>, in order.\<close>

fun send_loop :: "nat list \<Rightarrow> ksched \<Rightarrow> int list \<times> ksched" where
  "send_loop [] s = ([], s)"
| "send_loop (core # cs) s =
     (if op (cs_map s core) = 0 then send_loop cs s
      else let (ops, s') = send_loop cs (s\<lparr>cpu_tosend := bitmap_atomic_clear (cpu_tosend s) core\<rparr>)
           in (op (cs_map s core) # ops, s'))"

definition ksched_send_intrs :: "nat \<Rightarrow> ksched \<Rightarrow> int list \<times> ksched" where
  "ksched_send_intrs nc s = send_loop (positions_set (cpu_tosend s) nc 0) s"

text \<open>\<open>reg fd\<close> is the result of \<^verbatim>\<open>uintr_register_sender\<close> for the descriptor of the core.\<close>

definition set_ops :: "int \<Rightarrow> int \<Rightarrow> nat \<Rightarrow> ksched \<Rightarrow> ksched option" where
  "set_ops regy regc core s =
     (if yield_op s core \<noteq> - 1 then Some s
      else if regy < 0 \<or> regc < 0 then None
      else Some (s\<lparr>yield_op := (yield_op s)(core := regy), cede_op := (cede_op s)(core := regc)\<rparr>))"

definition zero_conn :: core_conn where
  "zero_conn = \<lparr>next_tid = 0, gen = 0, last_gen = 0, yield_fd = 0, cede_fd = 0, op = 0, idling = False, to_steal = False,
     pmc_val = 0, pmc_tsc = 0, pmc_done = False\<rparr>"

definition ksched_init :: "nat \<Rightarrow> ksched \<Rightarrow> ksched" where
  "ksched_init nc s =
     s\<lparr>ksched_gens := \<lambda>_. 0, yield_op := \<lambda>_. - 1, cede_op := \<lambda>_. - 1,
       cs_map := \<lambda>i. if i < nc then zero_conn\<lparr>pmc_done := True\<rparr> else cs_map s i\<rparr>"

section \<open>Laws\<close>

text \<open>A request is outstanding until the core acknowledges its generation.\<close>

definition gens_ok :: "ksched \<Rightarrow> bool" where
  "gens_ok s \<longleftrightarrow> (\<forall>c. gen (cs_map s c) = ksched_gens s c)"

lemma ksched_run_law:
  assumes "ksched_poll_run_done core s"
  shows "\<not> ksched_poll_run_done core (ksched_run core tid s) \<and>
    next_tid (cs_map (ksched_run core tid s) core) = tid \<and>
    gen (cs_map (ksched_run core tid s) core) \<noteq> last_gen (cs_map (ksched_run core tid s) core) \<and>
    (\<forall>c. c \<noteq> core \<longrightarrow> cs_map (ksched_run core tid s) c = cs_map s c)"
  using assms by (simp add: ksched_run_def ksched_poll_run_done_def Let_def)

lemma ksched_run_gens: "gens_ok s \<Longrightarrow> gens_ok (ksched_run core tid s)"
  by (simp add: gens_ok_def ksched_run_def Let_def)

lemma send_loop_law:
  assumes "send_loop cs s = (ops, s')"
  shows "cs_map s' = cs_map s \<and> ops = map (\<lambda>c. op (cs_map s c)) (filter (\<lambda>c. op (cs_map s c) \<noteq> 0) cs) \<and>
    (\<forall>c. bitmap_test (cpu_tosend s') c \<longleftrightarrow> bitmap_test (cpu_tosend s) c \<and> (c \<in> set cs \<longrightarrow> op (cs_map s c) = 0))"
  using assms
proof (induction cs arbitrary: s ops)
  case (Cons c cs)
  then show ?case by (fastforce simp: Let_def split: if_splits prod.splits)
qed simp

text \<open>A word of a request changes only when the last request has been acknowledged.\<close>

definition posts_guarded :: "(nat \<Rightarrow> core_conn) \<Rightarrow> (nat \<Rightarrow> core_conn) \<Rightarrow> bool" where
  "posts_guarded m m' \<longleftrightarrow> (\<forall>k. next_tid (m' k) \<noteq> next_tid (m k) \<or> gen (m' k) \<noteq> gen (m k) \<longrightarrow> gen (m k) = last_gen (m k))"

lemma posts_guarded_refl [simp]: "posts_guarded m m"
  by (simp add: posts_guarded_def)

lemma posts_guarded_run:
  assumes "gens_ok s" "ksched_poll_run_done core s"
  shows "posts_guarded (cs_map s) (cs_map (ksched_run core tid s))"
  using assms by (auto simp: posts_guarded_def gens_ok_def ksched_poll_run_done_def ksched_run_def Let_def)

lemma intr_words:
  assumes "ksched_enqueue_intr core ty s = Some s'"
  shows "next_tid (cs_map s' k) = next_tid (cs_map s k)" "gen (cs_map s' k) = gen (cs_map s k)"
    "last_gen (cs_map s' k) = last_gen (cs_map s k)" "ksched_gens s' = ksched_gens s"
  using assms by (auto simp: ksched_enqueue_intr_def split: intr_type.splits if_splits)

end
