(* ===== verification/Csched.thy ===== *)
theory Csched
  imports Uproc Ksched
begin

text \<open>
  The cluster scheduler that runs on every core: \<^verbatim>\<open>core/csched.c\<close>, the user interrupt of
  \<^verbatim>\<open>core/uipi.c\<close>, and the requests the scheduler process posts to a core
  (\<^verbatim>\<open>iokernel/ksched.h\<close>). A core's control is a program counter whose values are the points of
  \<^verbatim>\<open>csched\<close> between two reads of memory that other cores or the scheduler process write;
  \<open>csched_step\<close> runs to the next such point, and is \<open>None\<close> while a spin loop waits. The relation
  \<open>cstep\<close> interleaves the cores, the running clusters, new tasks, and a scheduler process that
  writes any request at any time. \<open>C_crash\<close> is an access through a bad pointer.
\<close>

section \<open>State\<close>

text \<open>
  The local variable \<^verbatim>\<open>cur\<close> of \<^verbatim>\<open>csched\<close> is an argument of most points. \<open>C_parked w\<close> is the
  point in \<^verbatim>\<open>__yield\<close> (\<^verbatim>\<open>__mwait\<close> if \<open>w\<close>) where the cluster has been published as parked.
  \<open>saved_fs c\<close> is the variable \<^verbatim>\<open>cur_fs\<close> on the stack of a cluster \<open>c\<close> that called the interface:
  it is loaded when the call returns.
\<close>

datatype cpc =
    C_user
  | C_parked bool
  | C_mwait
  | C_again "nat option"
  | C_next "nat option"
  | C_ack "nat option"
  | C_idle "nat option"
  | C_read "nat option"
  | C_spin "nat option" nat
  | C_taken "nat option" nat
  | C_have "nat option" "nat option"
  | C_crash

record csys =
  us :: usys
  conn :: "nat \<Rightarrow> core_conn"
  pcs :: "nat \<Rightarrow> cpc"
  pkru_map :: "nat \<Rightarrow> u32"
  cluster_ctx_map :: "nat \<Rightarrow> nat option"
  minimal_ops_map :: "nat \<Rightarrow> nat option"
  saved_fs :: "nat \<Rightarrow> u64"

abbreviation goto :: "nat \<Rightarrow> cpc \<Rightarrow> csys \<Rightarrow> csys" where
  "goto k p s \<equiv> s\<lparr>pcs := (pcs s)(k := p)\<rparr>"

abbreviation upd_conn :: "nat \<Rightarrow> core_conn \<Rightarrow> csys \<Rightarrow> csys" where
  "upd_conn k x s \<equiv> s\<lparr>conn := (conn s)(k := x)\<rparr>"

section \<open>The scheduler of a core\<close>

text \<open>The part of \<^verbatim>\<open>csched\<close> before \<^verbatim>\<open>have_next\<close> that frees a cluster that exits.\<close>

definition reap :: "bool \<Rightarrow> nat option \<Rightarrow> usys \<Rightarrow> (nat option \<times> usys) option" where
  "reap lock cur u =
     (case cur of
        None \<Rightarrow> Some (None, u)
      | Some c \<Rightarrow> do {
          x \<leftarrow> clusters u c;
          if \<not> to_exit x then Some (cur, u)
          else do {
            (_, u) \<leftarrow> task_deattach_cluster lock c u;
            Some (None, dealloc_cluster c u)
          }
        })"

text \<open>Making the cluster \<open>n\<close> the current one of core \<open>k\<close>.\<close>

definition install :: "nat \<Rightarrow> nat \<Rightarrow> csys \<Rightarrow> csys option" where
  "install k n s =
     do {
       x \<leftarrow> clusters (us s) n;
       t \<leftarrow> mytask x;
       let x = (if to_start x then x\<lparr>fctx := (fctx x)\<lparr>FS := fs_reg (us s) k\<rparr>\<rparr> else x);
       let u = (upd_cluster n x (us s))\<lparr>cur_cluster := (cur_cluster (us s))(k := Some n)\<rparr>;
       Some (s\<lparr>us := u,
               pkru_map := (pkru_map s)(k := key2pkru (nat (mpk (task_map u t)))),
               cluster_ctx_map := (cluster_ctx_map s)(k := Some n),
               minimal_ops_map := (minimal_ops_map s)(k := Some n)\<rparr>)
     }"

text \<open>
  The switch to the current cluster \<open>c\<close>; \<open>nxt\<close> is the variable \<^verbatim>\<open>next\<close>. Without \<^verbatim>\<open>with_fs\<close> the
  cluster continues inside its call of the interface, which then loads its thread pointer.
\<close>

definition enter :: "nat \<Rightarrow> nat \<Rightarrow> nat option \<Rightarrow> csys \<Rightarrow> csys option" where
  "enter k c nxt s =
     do {
       x \<leftarrow> clusters (us s) c;
       if \<not> to_start x then
         if \<not> with_fs x then Some (goto k C_user (s\<lparr>us := loadfs k (saved_fs s c) (us s)\<rparr>))
         else Some (goto k C_user (s\<lparr>us := loadfs k (FS (fctx x)) (upd_cluster c (x\<lparr>with_fs := False\<rparr>) (us s))\<rparr>))
       else do {
         n \<leftarrow> nxt;
         y \<leftarrow> clusters (us s) n;
         let u = upd_cluster n (y\<lparr>to_start := False\<rparr>) (us s);
         Some (goto k C_user (s\<lparr>us := loadfs k (FS (fctx x)) u\<rparr>))
       }
     }"

definition have_next :: "bool \<Rightarrow> nat \<Rightarrow> nat option \<Rightarrow> nat option \<Rightarrow> csys \<Rightarrow> csys option" where
  "have_next lock k cur nxt s =
     do {
       (cur, u) \<leftarrow> reap lock cur (us s);
       case nxt of
         Some n \<Rightarrow> do { s \<leftarrow> install k n (s\<lparr>us := u\<rparr>); enter k n nxt s }
       | None \<Rightarrow>
           (case cur of
              Some c \<Rightarrow> enter k c nxt (s\<lparr>us := u\<rparr>)
            | None \<Rightarrow> Some (goto k (C_again None) (s\<lparr>us := u\<rparr>)))
     }"

definition crash :: "nat \<Rightarrow> csys \<Rightarrow> csys option \<Rightarrow> csys" where
  "crash k s r = (case r of None \<Rightarrow> goto k C_crash s | Some s' \<Rightarrow> s')"

text \<open>
  \<open>lock\<close>: whether the \<^verbatim>\<open>spin_try_lock\<close> of this step finds its lock free. Without the lock,
  \<^verbatim>\<open>task_deattach_cluster\<close> returns \<^verbatim>\<open>EAGAIN\<close> and the loop around it tries again. The test of
  \<^verbatim>\<open>next_tid\<close> and the acknowledgement \<open>C_ack\<close> are separate accesses, and so are the end of the wait
  for a parked cluster and its acknowledgement \<open>C_taken\<close>.
\<close>

definition exiting :: "nat option \<Rightarrow> usys \<Rightarrow> bool" where
  "exiting cur u =
     (case cur of None \<Rightarrow> False | Some c \<Rightarrow> (case clusters u c of None \<Rightarrow> False | Some x \<Rightarrow> to_exit x))"

definition csched_step :: "bool \<Rightarrow> nat \<Rightarrow> csys \<Rightarrow> csys option" where
  "csched_step lock k s =
     (let cc = conn s k
      in case pcs s k of
           C_user \<Rightarrow> None
         | C_crash \<Rightarrow> None
         | C_parked w \<Rightarrow>
             Some (goto k (if w then C_mwait else C_again None)
               (upd_conn k (cc\<lparr>idling := True\<rparr>) (s\<lparr>us := (us s)\<lparr>cur_cluster := (cur_cluster (us s))(k := None)\<rparr>\<rparr>)))
         | C_mwait \<Rightarrow>
             if gen cc = last_gen cc then None
             else Some (goto k (C_again None) (upd_conn k (cc\<lparr>idling := False\<rparr>) s))
         | C_again cur \<Rightarrow>
             if gen cc \<noteq> last_gen cc then Some (goto k (C_next cur) s)
             else Some (crash k s (do {
                    (r, u) \<leftarrow> kthread_pop_cluster lock k (us s);
                    Some (goto k (C_have cur r) (s\<lparr>us := u\<rparr>)) }))
         | C_next cur \<Rightarrow>
             if next_tid cc = 0 then Some (goto k (C_ack cur) s)
             else Some (goto k (C_read cur) (upd_conn k (cc\<lparr>idling := False\<rparr>) s))
         | C_ack cur \<Rightarrow>
             Some (goto k (C_idle cur) (upd_conn k (cc\<lparr>last_gen := gen cc, idling := True\<rparr>) s))
         | C_idle cur \<Rightarrow>
             if gen cc = last_gen cc then None else Some (goto k (C_next cur) s)
         | C_read cur \<Rightarrow>
             Some (crash k s (do {
               n \<leftarrow> (if 0 \<le> next_tid cc \<and> next_tid cc < int NCLUSTER
                    then cluster_id2cluster_ptr (us s) (nat (next_tid cc)) else None);
               Some (goto k (C_spin cur n) s) }))
         | C_spin cur n \<Rightarrow>
             (case clusters (us s) n of
                None \<Rightarrow> Some (goto k C_crash s)
              | Some x \<Rightarrow>
                  if \<not> parked x then None
                  else Some (goto k (C_taken cur n) (s\<lparr>us := upd_cluster n (x\<lparr>parked := False\<rparr>) (us s)\<rparr>)))
         | C_taken cur n \<Rightarrow>
             Some (goto k (C_have cur (Some n)) (upd_conn k (cc\<lparr>last_gen := gen cc\<rparr>) s))
         | C_have cur nxt \<Rightarrow>
             if \<not> lock \<and> exiting cur (us s) then None else Some (crash k s (have_next lock k cur nxt s)))"

section \<open>What a running cluster does\<close>

text \<open>\<^verbatim>\<open>__yield\<close> and \<^verbatim>\<open>__mwait\<close> up to the store that parks the cluster.\<close>

definition park :: "bool \<Rightarrow> nat \<Rightarrow> csys \<Rightarrow> csys option" where
  "park w k s =
     do {
       c \<leftarrow> cur_cluster (us s) k;
       (_, u) \<leftarrow> kthread_park_cluster c (us s);
       x \<leftarrow> clusters u c;
       Some (goto k (C_parked w) (s\<lparr>us := upd_cluster c (x\<lparr>parked := True\<rparr>) u\<rparr>))
     }"

definition cluster_yield :: "nat \<Rightarrow> csys \<Rightarrow> csys option" where
  "cluster_yield k s = (if cur_cluster (us s) k \<noteq> None then park False k s else Some (goto k (C_again None) s))"

definition cluster_mwait :: "nat \<Rightarrow> csys \<Rightarrow> csys option" where
  "cluster_mwait k s = park True k s"

definition cluster_exit :: "nat \<Rightarrow> csys \<Rightarrow> csys option" where
  "cluster_exit k s =
     do {
       c \<leftarrow> cur_cluster (us s) k;
       x \<leftarrow> clusters (us s) c;
       Some (goto k (C_again (Some c)) (s\<lparr>us := upd_cluster c (x\<lparr>to_exit := True\<rparr>) (us s)\<rparr>))
     }"

definition cluster_id :: "nat \<Rightarrow> csys \<Rightarrow> nat option" where
  "cluster_id k s = map_option (\<lambda>(c, x). c_id x) (cur_ctx k (us s))"

definition cluster_to_steal :: "nat \<Rightarrow> csys \<Rightarrow> bool \<times> csys" where
  "cluster_to_steal k s = (to_steal (conn s k), upd_conn k ((conn s k)\<lparr>to_steal := False\<rparr>) s)"

text \<open>
  The user interrupt. The handler returns at once when the core is inside the scheduler (its
  thread pointer \<open>f\<close> is that of the kthread) or nothing was requested; it counts its nesting
  while the uProcess's handler runs. \<open>g\<close> is the value its second read of \<^verbatim>\<open>gen\<close> sees; when that
  equals \<^verbatim>\<open>last_gen\<close>, every case of the \<^verbatim>\<open>switch\<close> aborts.
\<close>

datatype uipi_result = U_resume | U_cede | U_abort

definition uipi_handler :: "nat \<Rightarrow> u64 \<Rightarrow> u32 \<Rightarrow> csys \<Rightarrow> (uipi_result \<times> csys) option" where
  "uipi_handler k f g s =
     (if f = kthread_fs_map (us s) k \<or> gen (conn s k) = last_gen (conn s k) then Some (U_resume, s)
      else do {
        c \<leftarrow> cluster_ctx_map s k;
        x \<leftarrow> clusters (us s) c;
        if FS (fctx x) \<noteq> f then Some (U_abort, s)
        else do {
          let s' = s\<lparr>us := upd_cluster c (x\<lparr>cede_cnt := cede_cnt x + 1\<rparr>) (us s)\<rparr>;
          Some (if g \<noteq> last_gen (conn s k) then U_cede else U_abort, s')
        }
      })"

text \<open>The end of the handler, when the uProcess's handler has returned.\<close>

definition uipi_return :: "nat \<Rightarrow> csys \<Rightarrow> csys" where
  "uipi_return c s =
     (case clusters (us s) c of
        None \<Rightarrow> s
      | Some x \<Rightarrow> s\<lparr>us := upd_cluster c (x\<lparr>cede_cnt := cede_cnt x - 1\<rparr>) (us s)\<rparr>)"

section \<open>The remaining entry points of the interface\<close>

text \<open>
  The calls that give up the core run on the thread pointer of the kthread; the caller's is
  saved in \<open>saved_fs\<close>.
\<close>

definition enter_api :: "nat \<Rightarrow> csys \<Rightarrow> csys" where
  "enter_api k s =
     (case cur_cluster (us s) k of
        None \<Rightarrow> s\<lparr>us := switch_to_kthread_fs k (us s)\<rparr>
      | Some c \<Rightarrow> s\<lparr>us := switch_to_kthread_fs k (us s), saved_fs := (saved_fs s)(c := fs_reg (us s) k)\<rparr>)"

definition vessel_cluster_yield_api :: "nat \<Rightarrow> csys \<Rightarrow> csys option" where
  "vessel_cluster_yield_api k s = cluster_yield k (enter_api k s)"

definition vessel_cluster_mwait_api :: "nat \<Rightarrow> csys \<Rightarrow> csys option" where
  "vessel_cluster_mwait_api k s = cluster_mwait k (enter_api k s)"

definition vessel_cluster_exit_api :: "nat \<Rightarrow> csys \<Rightarrow> csys option" where
  "vessel_cluster_exit_api k s = cluster_exit k (enter_api k s)"

text \<open>The calls that return to their caller on the same core load its thread pointer themselves.\<close>

definition vessel_cluster_id_api :: "nat \<Rightarrow> csys \<Rightarrow> (nat \<times> csys) option" where
  "vessel_cluster_id_api k s =
     do {
       let f = fs_reg (us s) k;
       let s = s\<lparr>us := switch_to_kthread_fs k (us s)\<rparr>;
       r \<leftarrow> cluster_id k s;
       Some (r, s\<lparr>us := loadfs k f (us s)\<rparr>)
     }"

definition vessel_cluster_to_steal_api :: "nat \<Rightarrow> csys \<Rightarrow> bool \<times> csys" where
  "vessel_cluster_to_steal_api k s =
     (let f = fs_reg (us s) k;
          s = s\<lparr>us := switch_to_kthread_fs k (us s)\<rparr>;
          (r, s) = cluster_to_steal k s
      in (r, s\<lparr>us := loadfs k f (us s)\<rparr>))"

section \<open>The interleaved system\<close>

text \<open>
  \<open>nc\<close> is the number of CPUs. The scheduler process writes the two words of a request one after
  the other, and the relation lets it write any values at any time.
\<close>

inductive cstep :: "nat \<Rightarrow> csys \<Rightarrow> csys \<Rightarrow> bool" for nc where
  core: "csched_step lock k s = Some s' \<Longrightarrow> cstep nc s s'"
| yield: "pcs s k = C_user \<Longrightarrow> vessel_cluster_yield_api k s = Some s' \<Longrightarrow> cstep nc s s'"
| mwait: "pcs s k = C_user \<Longrightarrow> vessel_cluster_mwait_api k s = Some s' \<Longrightarrow> cstep nc s s'"
| leave: "pcs s k = C_user \<Longrightarrow> vessel_cluster_exit_api k s = Some s' \<Longrightarrow> cstep nc s s'"
| spawn: "pcs s k = C_user \<Longrightarrow> cur_cluster (us s) k = Some c \<Longrightarrow>
    cluster_spawn nc c func args pref tls stk (us s) = Some (r, u) \<Longrightarrow> pref < nc \<Longrightarrow> cstep nc s (s\<lparr>us := u\<rparr>)"
| init: "task_init e p lock entry sargs aff excl (us s) = Some (r, u) \<Longrightarrow> e_ncpu e = nc \<Longrightarrow> cstep nc s (s\<lparr>us := u\<rparr>)"
| intr: "uipi_handler k f g s = Some (r, s') \<Longrightarrow> cstep nc s s'"
| intr_end: "cstep nc s (uipi_return c s)"
| steal: "cstep nc s (snd (cluster_to_steal k s))"
| post_tid: "cstep nc s (upd_conn k ((conn s k)\<lparr>next_tid := n\<rparr>) s)"
| post_gen: "cstep nc s (upd_conn k ((conn s k)\<lparr>gen := g\<rparr>) s)"

inductive reach :: "nat \<Rightarrow> csys \<Rightarrow> csys \<Rightarrow> bool" for nc s where
  start: "reach nc s s"
| step: "reach nc s s' \<Longrightarrow> cstep nc s' s'' \<Longrightarrow> reach nc s s''"

section \<open>Which core has which cluster\<close>

text \<open>The clusters a core has taken off the queues or unparked, from its program counter.\<close>

fun local_cur :: "cpc \<Rightarrow> nat option" where
  "local_cur (C_again cur) = cur"
| "local_cur (C_next cur) = cur"
| "local_cur (C_ack cur) = cur"
| "local_cur (C_idle cur) = cur"
| "local_cur (C_read cur) = cur"
| "local_cur (C_spin cur n) = cur"
| "local_cur (C_taken cur n) = cur"
| "local_cur (C_have cur nxt) = cur"
| "local_cur p = None"

fun local_next :: "cpc \<Rightarrow> nat option" where
  "local_next (C_taken cur n) = Some n"
| "local_next (C_have cur nxt) = nxt"
| "local_next p = None"

definition running :: "csys \<Rightarrow> nat \<Rightarrow> nat option" where
  "running s k = (if pcs s k = C_user then cur_cluster (us s) k else local_cur (pcs s k))"

definition runs :: "csys \<Rightarrow> nat \<Rightarrow> nat list" where
  "runs s k = opt_list (running s k) @ opt_list (local_next (pcs s k))"

text \<open>A cluster that a core has is neither parked nor in a queue, and no other core has it.\<close>

definition free_run :: "usys \<Rightarrow> nat \<Rightarrow> bool" where
  "free_run u c \<longleftrightarrow> clusters u c \<noteq> None \<and> \<not> parked (the (clusters u c)) \<and> cluster_id2kthread_ptr u c = None"

definition excl_ok :: "(nat \<Rightarrow> nat list) \<Rightarrow> usys \<Rightarrow> bool" where
  "excl_ok r u \<longleftrightarrow>
     (\<forall>k. distinct (r k) \<and> (\<forall>c \<in> set (r k). free_run u c)) \<and>
     (\<forall>j k. j \<noteq> k \<longrightarrow> set (r j) \<inter> set (r k) = {}) \<and>
     (\<forall>c x. clusters u c = Some x \<longrightarrow> parked x \<longrightarrow> cluster_id2kthread_ptr u c = None)"

definition cur_ok :: "csys \<Rightarrow> bool" where
  "cur_ok s \<longleftrightarrow> (\<forall>k. (local_cur (pcs s k) \<noteq> None \<longrightarrow> cur_cluster (us s) k = local_cur (pcs s k)) \<and>
     (pcs s k = C_user \<longrightarrow> cur_cluster (us s) k \<noteq> None))"

text \<open>While a cluster runs, the register value of its core is the one of its task.\<close>

definition pkru_ok :: "csys \<Rightarrow> bool" where
  "pkru_ok s \<longleftrightarrow> (\<forall>k c x t. running s k = Some c \<longrightarrow> clusters (us s) c = Some x \<longrightarrow> mytask x = Some t \<longrightarrow>
     pkru_map s k = key2pkru (t + 3) \<and> cluster_ctx_map s k = Some c)"

definition cinv :: "nat \<Rightarrow> csys \<Rightarrow> bool" where
  "cinv nc s \<longleftrightarrow> utab_ok nc (us s) \<and> excl_ok (runs s) (us s) \<and> cur_ok s \<and> pkru_ok s"

lemma running_live:
  assumes "excl_ok (runs s) (us s)" "running s k = Some c"
  shows "free_run (us s) c"
proof -
  have "c \<in> set (runs s k)" using assms(2) by (simp add: runs_def)
  with assms(1) show ?thesis unfolding excl_ok_def by blast
qed

lemma run_free: "excl_ok r u \<Longrightarrow> c \<in> set (r k) \<Longrightarrow> free_run u c"
  by (simp add: excl_ok_def)

lemma not_run: "excl_ok r u \<Longrightarrow> \<not> free_run u c \<Longrightarrow> c \<notin> set (r j)"
  by (auto simp: excl_ok_def)

lemma excl_ok_upd:
  assumes ok: "excl_ok r u" and l: "distinct l" "\<And>c. c \<in> set l \<Longrightarrow> free_run u' c"
    and own: "\<And>c j. c \<in> set l \<Longrightarrow> c \<in> set (r k) \<or> c \<notin> set (r j)"
    and oth: "\<And>c j. j \<noteq> k \<Longrightarrow> c \<in> set (r j) \<Longrightarrow> free_run u c \<Longrightarrow> free_run u' c"
    and pq: "\<And>c x. clusters u' c = Some x \<Longrightarrow> parked x \<Longrightarrow> cluster_id2kthread_ptr u' c = None"
  shows "excl_ok (r(k := l)) u'"
proof -
  have dis: "c \<notin> set (r j)" if "j \<noteq> k" "c \<in> set l" for j c
    using own [OF that(2), of j] ok that(1) unfolding excl_ok_def by blast
  have "distinct ((r(k := l)) j) \<and> (\<forall>c \<in> set ((r(k := l)) j). free_run u' c)" for j
    using ok l oth [of j] by (auto simp: excl_ok_def)
  moreover have "set ((r(k := l)) i) \<inter> set ((r(k := l)) j) = {}" if "i \<noteq> j" for i j
    using ok that dis [of i] dis [of j] by (auto simp: excl_ok_def)
  ultimately show ?thesis using pq unfolding excl_ok_def by blast
qed

lemma cinv_conn [simp]: "cinv nc (s\<lparr>conn := x\<rparr>) = cinv nc s"
  by (simp add: cinv_def excl_ok_def cur_ok_def pkru_ok_def runs_def running_def)

lemma cinv_goto:
  assumes "cinv nc s" "pcs s k \<noteq> C_user" "p \<noteq> C_user" "local_cur p = local_cur (pcs s k)" "local_next p = local_next (pcs s k)"
  shows "cinv nc (goto k p s)"
proof -
  have r: "running (goto k p s) = running s" "runs (goto k p s) = runs s"
    using assms by (auto simp: runs_def running_def)
  have "cur_ok (goto k p s)" using assms by (auto simp: cinv_def cur_ok_def)
  moreover have "pkru_ok (goto k p s)" using assms(1) by (simp add: cinv_def pkru_ok_def r)
  ultimately show ?thesis using assms(1) by (simp add: cinv_def r)
qed

text \<open>What a step of core \<open>k\<close> has to show: it only concerns what that core has.\<close>

lemma cinv_move:
  assumes inv: "cinv nc s" and utab: "utab_ok nc (us s')" and pc: "pcs s' = (pcs s)(k := p)"
    and cc: "\<And>j. j \<noteq> k \<Longrightarrow> cur_cluster (us s') j = cur_cluster (us s) j"
    and l: "distinct (runs s' k)" "\<And>c. c \<in> set (runs s' k) \<Longrightarrow> free_run (us s') c"
    and own: "\<And>c j. c \<in> set (runs s' k) \<Longrightarrow> c \<in> set (runs s k) \<or> c \<notin> set (runs s j)"
    and oth: "\<And>c. c \<notin> set (runs s k) \<Longrightarrow> free_run (us s) c \<Longrightarrow> free_run (us s') c"
    and pq: "\<And>c x. clusters (us s') c = Some x \<Longrightarrow> parked x \<Longrightarrow> cluster_id2kthread_ptr (us s') c = None"
    and cur: "local_cur p \<noteq> None \<Longrightarrow> cur_cluster (us s') k = local_cur p" "p = C_user \<Longrightarrow> cur_cluster (us s') k \<noteq> None"
    and same: "\<And>c x. clusters (us s') c = Some x \<Longrightarrow> \<exists>y. clusters (us s) c = Some y \<and> mytask y = mytask x"
    and maps: "\<And>j. j \<noteq> k \<Longrightarrow> pkru_map s' j = pkru_map s j \<and> cluster_ctx_map s' j = cluster_ctx_map s j"
    and pk: "\<And>c x t. running s' k = Some c \<Longrightarrow> clusters (us s') c = Some x \<Longrightarrow> mytask x = Some t \<Longrightarrow>
      pkru_map s' k = key2pkru (t + 3) \<and> cluster_ctx_map s' k = Some c"
  shows "cinv nc s'"
proof -
  have ok: "excl_ok (runs s) (us s)" "cur_ok s" "pkru_ok s" using inv by (simp_all add: cinv_def)
  have run: "running s' j = running s j" "runs s' j = runs s j" if "j \<noteq> k" for j
    using that cc [OF that] by (simp_all add: running_def runs_def pc)
  have "excl_ok ((runs s)(k := runs s' k)) (us s')"
  proof (rule excl_ok_upd [OF ok(1) l own])
    show "free_run (us s') c" if "j \<noteq> k" "c \<in> set (runs s j)" "free_run (us s) c" for c j
    proof (rule oth)
      show "c \<notin> set (runs s k)" using that ok(1) unfolding excl_ok_def by blast
    qed (rule that(3))
  qed (use pq in auto)
  moreover have "(runs s)(k := runs s' k) = runs s'" using run(2) by auto
  moreover have "cur_ok s'" using ok(2) cur cc by (auto simp: cur_ok_def pc)
  moreover have "pkru_ok s'"
    unfolding pkru_ok_def
  proof (intro allI impI)
    fix j c x t
    assume a: "running s' j = Some c" "clusters (us s') c = Some x" "mytask x = Some t"
    show "pkru_map s' j = key2pkru (t + 3) \<and> cluster_ctx_map s' j = Some c"
    proof (cases "j = k")
      case False
      with same [OF a(2)] a(1,3) run(1) [OF False] maps [OF False] ok(3) show ?thesis by (auto simp: pkru_ok_def)
    qed (use a pk in simp)
  qed
  ultimately show ?thesis using utab by (simp add: cinv_def)
qed

lemmas run_defs = running_def runs_def

text \<open>Losing a core: the cluster goes to nobody.\<close>

lemma cinv_crash: "cinv nc s \<Longrightarrow> cinv nc (goto k C_crash s)"
  by (rule cinv_move [where k = k]) (auto simp: cinv_def excl_ok_def run_defs)

text \<open>Creating clusters does not change who has which.\<close>

lemma cinv_grows:
  assumes inv: "cinv nc s" and u: "utab_ok nc u" "grows (us s) u"
  shows "cinv nc (s\<lparr>us := u\<rparr>)"
proof -
  have ok: "excl_ok (runs s) (us s)" "cur_ok s" "pkru_ok s" "utab_ok nc (us s)" using inv by (simp_all add: cinv_def)
  have cc: "cur_cluster u = cur_cluster (us s)" using u(2) by (simp add: grows_def)
  have r: "running (s\<lparr>us := u\<rparr>) = running s" "runs (s\<lparr>us := u\<rparr>) = runs s" by (auto simp: run_defs cc)
  note fresh = utab_fresh(1,2) [OF ok(4)]
  have old: "clusters u c = clusters (us s) c \<and> cluster_id2kthread_ptr u c = cluster_id2kthread_ptr (us s) c" if "c \<noteq> id_cnt (us s)" for c
    using u(2) that by (auto simp: grows_def)
  have new: "clusters u (id_cnt (us s)) = Some x \<Longrightarrow> \<not> parked x" for x
    using u(2) fresh(1) by (auto simp: grows_def)
  have live: "c \<noteq> id_cnt (us s)" if "free_run (us s) c" for c using that fresh(1) by (auto simp: free_run_def)
  then have free: "free_run u c" if "free_run (us s) c" for c using old [OF live [OF that]] that by (simp add: free_run_def)
  have pq: "cluster_id2kthread_ptr u c = None" if "clusters u c = Some x" "parked x" for c x
    using that old [of c] new ok(1) by (cases "c = id_cnt (us s)") (auto simp: excl_ok_def)
  have "excl_ok (runs s) u" using ok(1) free pq by (auto simp: excl_ok_def)
  moreover have "cur_ok (s\<lparr>us := u\<rparr>)" using ok(2) by (simp add: cur_ok_def cc)
  moreover have "pkru_ok (s\<lparr>us := u\<rparr>)"
    unfolding pkru_ok_def r
  proof (intro allI impI)
    fix k c x t
    assume a: "running s k = Some c" "clusters (us (s\<lparr>us := u\<rparr>)) c = Some x" "mytask x = Some t"
    have "clusters (us s) c = Some x" using old [OF live [OF running_live [OF ok(1) a(1)]]] a(2) by simp
    with a ok(3) show "pkru_map (s\<lparr>us := u\<rparr>) k = key2pkru (t + 3) \<and> cluster_ctx_map (s\<lparr>us := u\<rparr>) k = Some c"
      by (simp add: pkru_ok_def)
  qed
  ultimately show ?thesis using u(1) by (simp add: cinv_def r)
qed

text \<open>Stores that do not matter to the invariant.\<close>

lemma cinv_frame [simp]:
  "cinv nc (s\<lparr>us := (us s)\<lparr>fs_reg := f\<rparr>\<rparr>) = cinv nc s"
  "cinv nc (s\<lparr>saved_fs := g\<rparr>) = cinv nc s"
  "cinv nc (s\<lparr>minimal_ops_map := m\<rparr>) = cinv nc s"
  by (simp_all add: cinv_def excl_ok_def cur_ok_def pkru_ok_def run_defs free_run_def)

lemma cinv_loadfs [simp]:
  "cinv nc (s\<lparr>us := loadfs k v (us s)\<rparr>) = cinv nc s"
  "cinv nc (s\<lparr>us := switch_to_kthread_fs k (us s)\<rparr>) = cinv nc s"
  by (simp_all add: loadfs_def switch_to_kthread_fs_def)

lemma cinv_touch:
  assumes inv: "cinv nc s" and x: "clusters (us s) c = Some x" "c_id y = c_id x" "mytask y = mytask x" "parked y = parked x"
  shows "cinv nc (s\<lparr>us := upd_cluster c y (us s)\<rparr>)"
proof -
  let ?s = "s\<lparr>us := upd_cluster c y (us s)\<rparr>"
  have ok: "utab_ok nc (us s)" "excl_ok (runs s) (us s)" "cur_ok s" "pkru_ok s" using inv by (simp_all add: cinv_def)
  have r: "running ?s = running s" "runs ?s = runs s" by (simp_all add: run_defs fun_eq_iff)
  have f: "free_run (us ?s) = free_run (us s)" using x by (auto simp: free_run_def fun_eq_iff)
  have "excl_ok (runs s) (us ?s)" using ok(2) x unfolding excl_ok_def f by auto
  moreover have "utab_ok nc (us ?s)" using utab_upd_cluster [OF ok(1) x(1-3)] by simp
  moreover have "cur_ok ?s" using ok(3) by (simp add: cur_ok_def)
  moreover have "pkru_ok ?s" using ok(4) x unfolding pkru_ok_def r by auto
  ultimately show ?thesis by (simp add: cinv_def r)
qed

lemma cinv_pop:
  assumes inv: "cinv nc s" and pc: "pcs s k = C_again cur" and pop: "kthread_pop_cluster lock k (us s) = Some (r, u)"
  shows "cinv nc (goto k (C_have cur r) (s\<lparr>us := u\<rparr>))"
proof -
  have ok: "utab_ok nc (us s)" "excl_ok (runs s) (us s)" using inv by (simp_all add: cinv_def)
  note law = pop_law [OF ok(1) pop]
  show ?thesis
  proof (cases r)
    case None
    then show ?thesis using law pc by (auto intro: cinv_goto [OF inv])
  next
    case (Some c)
    with law obtain x where u: "utab_ok nc u" "clusters u = clusters (us s)" "cur_cluster u = cur_cluster (us s)"
      "cluster_id2kthread_ptr (us s) c = Some k" "cluster_id2kthread_ptr u = (cluster_id2kthread_ptr (us s))(c := None)"
      "clusters (us s) c = Some x" by auto
    have nr: "c \<notin> set (runs s j)" for j using not_run [OF ok(2), of c j] u(4) by (simp add: free_run_def)
    let ?s = "goto k (C_have cur r) (s\<lparr>us := u\<rparr>)"
    have runs: "runs s k = opt_list cur" "runs ?s k = opt_list cur @ [c]" "running ?s k = cur" "running s k = cur"
      using pc Some by (simp_all add: run_defs)
    have free: "free_run u d" if "free_run (us s) d" for d using that u by (simp add: free_run_def)
    have np: "\<not> parked x" using ok(2) u(4,6) unfolding excl_ok_def by fastforce
    show ?thesis
    proof (rule cinv_move [OF inv, where k = k])
      have "c \<notin> set (opt_list cur)" using nr [of k] runs(1) by simp
      then show "distinct (runs ?s k)" unfolding runs(2) by (cases cur) simp_all
      have "free_run u c" using u np by (simp add: free_run_def)
      then show "free_run (us ?s) d" if "d \<in> set (runs ?s k)" for d
        using that free [of d] run_free [OF ok(2), of d k] unfolding runs by (cases "d = c") simp_all
    qed (use u inv pc nr free runs Some in \<open>auto simp: cinv_def excl_ok_def cur_ok_def pkru_ok_def\<close>)
  qed
qed

lemma cinv_take:
  assumes inv: "cinv nc s" and pc: "pcs s k = C_spin cur n" and x: "clusters (us s) n = Some x" "parked x"
  shows "cinv nc (goto k (C_taken cur n) (s\<lparr>us := upd_cluster n (x\<lparr>parked := False\<rparr>) (us s)\<rparr>))" (is "cinv nc ?s")
proof -
  have ok: "utab_ok nc (us s)" "excl_ok (runs s) (us s)" using inv by (simp_all add: cinv_def)
  have nr: "n \<notin> set (runs s j)" for j using not_run [OF ok(2), of n j] x by (simp add: free_run_def)
  have q: "cluster_id2kthread_ptr (us s) n = None" using ok(2) x unfolding excl_ok_def by blast
  have runs: "runs s k = opt_list cur" "runs ?s k = opt_list cur @ [n]" "running ?s k = cur" "running s k = cur"
    using pc by (simp_all add: run_defs)
  have free: "free_run (us ?s) d" if "free_run (us s) d" for d using that by (simp add: free_run_def)
  show ?thesis
  proof (rule cinv_move [OF inv, where k = k])
    show "utab_ok nc (us ?s)" using utab_upd_cluster [OF ok(1) x(1)] by simp
    have "n \<notin> set (opt_list cur)" using nr [of k] runs(1) by simp
    then show "distinct (runs ?s k)" unfolding runs(2) by (cases cur) simp_all
    have "free_run (us ?s) n" using q by (simp add: free_run_def)
    then show "free_run (us ?s) d" if "d \<in> set (runs ?s k)" for d
      using that free [of d] run_free [OF ok(2), of d k] unfolding runs by (cases "d = n") simp_all
  qed (use inv pc nr free runs x in \<open>auto simp: cinv_def excl_ok_def cur_ok_def pkru_ok_def split: if_splits\<close>)
qed

lemma cinv_unset:
  assumes inv: "cinv nc s" and pc: "pcs s k = C_parked w" and p: "p = C_mwait \<or> p = C_again None"
  shows "cinv nc (goto k p (s\<lparr>us := (us s)\<lparr>cur_cluster := (cur_cluster (us s))(k := None)\<rparr>\<rparr>))"
  by (rule cinv_move [OF inv, where k = k])
    (use inv pc p in \<open>auto simp: cinv_def excl_ok_def cur_ok_def pkru_ok_def run_defs free_run_def\<close>)

lemma cinv_park:
  assumes inv: "cinv nc s" and pc: "pcs s k = C_user" and a: "park w k s = Some s'"
  shows "cinv nc s'"
proof -
  have ok: "utab_ok nc (us s)" "excl_ok (runs s) (us s)" using inv by (simp_all add: cinv_def)
  obtain c where c: "cur_cluster (us s) k = Some c" using a by (auto simp: park_def Option.bind_eq_Some_conv)
  have runs: "runs s k = [c]" using pc c by (simp add: run_defs)
  have "free_run (us s) c" using run_free [OF ok(2), of c k] runs by simp
  then obtain x where x: "clusters (us s) c = Some x" "cluster_id2kthread_ptr (us s) c = None" by (auto simp: free_run_def)
  have s': "s' = goto k (C_parked w) (s\<lparr>us := upd_cluster c (x\<lparr>parked := True\<rparr>) (us s)\<rparr>)"
    using a c x park_law [OF ok(1) x] by (simp add: park_def)
  have "runs s' k = []" "running s' k = None" by (simp_all add: s' run_defs)
  moreover have "utab_ok nc (us s')" using utab_upd_cluster [OF ok(1) x(1)] by (simp add: s')
  ultimately show ?thesis
    by (intro cinv_move [OF inv, where k = k and p = "C_parked w"])
      (use ok(2) x in \<open>auto simp: s' runs excl_ok_def free_run_def split: if_splits\<close>)
qed

lemma cinv_leave:
  assumes inv: "cinv nc s" and pc: "pcs s k = C_user" and c: "cur_cluster (us s) k = Some c"
  shows "cinv nc (goto k (C_again (Some c)) s)"
proof -
  have "running (goto k (C_again (Some c)) s) = running s" "runs (goto k (C_again (Some c)) s) = runs s"
    using pc c by (auto simp: run_defs)
  then show ?thesis using inv c by (auto simp: cinv_def cur_ok_def pkru_ok_def)
qed

lemma cinv_resume:
  assumes inv: "cinv nc s" and pc: "pcs s k = C_have (Some c) None"
  shows "cinv nc (goto k C_user s)"
proof -
  have c: "cur_cluster (us s) k = Some c" using inv pc by (auto simp: cinv_def cur_ok_def)
  have "running (goto k C_user s) = running s" "runs (goto k C_user s) = runs s" using pc c by (auto simp: run_defs)
  then show ?thesis using inv c by (auto simp: cinv_def cur_ok_def pkru_ok_def)
qed

lemma cinv_reap:
  assumes inv: "cinv nc s" and pc: "pcs s k = C_have cur nxt" and lock: "lock \<or> \<not> exiting cur (us s)"
    and a: "reap lock cur (us s) = Some (cur', u)"
  shows "cinv nc (goto k (C_have cur' nxt) (s\<lparr>us := u\<rparr>))"
proof (cases "exiting cur (us s)")
  case False
  then have "cur' = cur" "u = us s"
    using a by (auto simp: reap_def exiting_def Option.bind_eq_Some_conv split: option.splits if_splits)
  moreover have "goto k (C_have cur nxt) (s\<lparr>us := us s\<rparr>) = s" using pc by (cases s) auto
  ultimately show ?thesis using inv by simp
next
  case True
  have ok: "utab_ok nc (us s)" "excl_ok (runs s) (us s)" using inv by (simp_all add: cinv_def)
  from True obtain c x where c: "cur = Some c" "clusters (us s) c = Some x" "to_exit x"
    by (auto simp: exiting_def split: option.splits)
  have runs: "runs s k = c # opt_list nxt" using pc c(1) by (simp add: run_defs)
  have free: "free_run (us s) c" using run_free [OF ok(2), of c k] runs by simp
  obtain r v where v: "task_deattach_cluster True c (us s) = Some (r, v)" "cur' = None" "u = dealloc_cluster c v"
    using a lock True c by (auto simp: reap_def Option.bind_eq_Some_conv)
  have law: "utab_ok nc u" "clusters u = (clusters (us s))(c := None)"
    "cluster_id2kthread_ptr u = cluster_id2kthread_ptr (us s)" "cur_cluster u = cur_cluster (us s)"
    using detach_law [OF ok(1) c(2) _ v(1)] free v(3) by (simp_all add: free_run_def)
  let ?s = "goto k (C_have cur' nxt) (s\<lparr>us := u\<rparr>)"
  have runs': "runs ?s k = opt_list nxt" "running ?s k = None" using v(2) by (simp_all add: run_defs)
  have d: "distinct (c # opt_list nxt)" using ok(2) runs unfolding excl_ok_def by metis
  have keep: "free_run u d" if "free_run (us s) d" "d \<noteq> c" for d using that law by (simp add: free_run_def)
  show ?thesis
  proof (rule cinv_move [OF inv, where k = k])
    show "free_run (us ?s) e" if "e \<in> set (runs ?s k)" for e
      using that keep [of e] run_free [OF ok(2), of e k] d unfolding runs runs' by auto
  qed (use law runs runs' d keep v ok(2) in \<open>auto simp: excl_ok_def split: if_splits\<close>)
qed

lemma task_key:
  assumes "utab_ok nc u" "clusters u c = Some x" "mytask x = Some t"
  shows "nat (mpk (task_map u t)) = t + 3"
proof -
  have "t < task_num u" using utab_ready [OF assms] by (simp add: task_ready_def)
  then have "mpk (task_map u t) = int t + 3" using assms(1) by (simp add: utab_ok_def tasks_ok_def)
  then show ?thesis by simp
qed

lemma cinv_install:
  assumes inv: "cinv nc s" and pc: "pcs s k = C_have cur (Some n)" and a: "install k n s = Some s'"
  shows "cinv nc (goto k C_user s') \<and> cur_cluster (us s') k = Some n"
proof -
  have ok: "utab_ok nc (us s)" "excl_ok (runs s) (us s)" "pkru_ok s" "cur_ok s" using inv by (simp_all add: cinv_def)
  obtain x t where x: "clusters (us s) n = Some x" "mytask x = Some t"
    using a by (auto simp: install_def Option.bind_eq_Some_conv)
  define y where "y = (if to_start x then x\<lparr>fctx := (fctx x)\<lparr>FS := fs_reg (us s) k\<rparr>\<rparr> else x)"
  have y: "c_id y = c_id x" "mytask y = mytask x" "parked y = parked x" by (simp_all add: y_def)
  define u where "u = (upd_cluster n y (us s))\<lparr>cur_cluster := (cur_cluster (us s))(k := Some n)\<rparr>"
  have s': "s' = s\<lparr>us := u, pkru_map := (pkru_map s)(k := key2pkru (t + 3)),
      cluster_ctx_map := (cluster_ctx_map s)(k := Some n), minimal_ops_map := (minimal_ops_map s)(k := Some n)\<rparr>"
    using a x task_key [OF ok(1) x] by (simp add: install_def Let_def u_def y_def)
  let ?s = "goto k C_user s'"
  have runs: "runs s k = opt_list cur @ [n]" "runs ?s k = [n]" "running ?s k = Some n"
    using pc by (simp_all add: run_defs s' u_def)
  have free: "free_run u d = free_run (us s) d" for d using x y by (simp add: free_run_def u_def)
  have "free_run (us s) n" using run_free [OF ok(2), of n k] runs by simp
  moreover have "utab_ok nc u" using utab_upd_cluster [OF ok(1) x(1) y(1,2)] by (simp add: u_def)
  moreover have "cluster_id2kthread_ptr u c = None" if "clusters u c = Some z" "parked z" for c z
    using that ok(2) x y unfolding excl_ok_def u_def by (auto split: if_splits)
  moreover have "\<exists>z'. clusters (us s) c = Some z' \<and> mytask z' = mytask z" if "clusters u c = Some z" for c z
    using that x y by (auto simp: u_def split: if_splits)
  moreover have "us s' = u" "cur_cluster u k = Some n" by (simp_all add: s' u_def)
  ultimately have "cinv nc ?s"
    by (intro cinv_move [OF inv, where k = k and p = C_user])
      (use runs free x y in \<open>auto simp: s' u_def simp del: fun_upd_apply simp: fun_upd_same fun_upd_other\<close>)
  then show ?thesis by (simp add: s' u_def)
qed

lemma us_pcs: "s\<lparr>us := u, pcs := q\<rparr> = s\<lparr>pcs := q, us := u\<rparr>"
  by simp

lemma conn_pcs: "s\<lparr>conn := x, pcs := q\<rparr> = s\<lparr>pcs := q, conn := x\<rparr>"
  by simp

lemma cinv_enter:
  assumes inv: "cinv nc (goto k C_user s)" and a: "enter k c nxt s = Some s'"
  shows "cinv nc s'"
proof -
  let ?g = "goto k C_user s"
  obtain x where x: "clusters (us s) c = Some x" using a by (auto simp: enter_def Option.bind_eq_Some_conv)
  have touch: "cinv nc (goto k C_user (s\<lparr>us := loadfs k v (upd_cluster d z (us s))\<rparr>))"
    if "clusters (us s) d = Some y" "c_id z = c_id y" "mytask z = mytask y" "parked z = parked y" for d y z v
  proof -
    have "cinv nc (?g\<lparr>us := upd_cluster d z (us ?g)\<rparr>)" using cinv_touch [OF inv, of d y z] that by simp
    then have "cinv nc ((?g\<lparr>us := upd_cluster d z (us ?g)\<rparr>)\<lparr>us := loadfs k v (us (?g\<lparr>us := upd_cluster d z (us ?g)\<rparr>))\<rparr>)"
      by (simp only: cinv_loadfs)
    then show ?thesis by (simp add: us_pcs)
  qed
  have plain: "cinv nc (goto k C_user (s\<lparr>us := loadfs k v (us s)\<rparr>))" for v
    using inv cinv_loadfs(1) [of nc k v ?g] by (simp add: us_pcs)
  show ?thesis
  proof (cases "to_start x")
    case True
    then obtain n y where "clusters (us s) n = Some y"
      "s' = goto k C_user (s\<lparr>us := loadfs k (FS (fctx x)) (upd_cluster n (y\<lparr>to_start := False\<rparr>) (us s))\<rparr>)"
      using a x by (auto simp: enter_def opt_run)
    then show ?thesis using touch [of n y "y\<lparr>to_start := False\<rparr>"] by simp
  next
    case False
    then show ?thesis using a x plain touch [OF x, of "x\<lparr>with_fs := False\<rparr>"]
      by (auto simp: enter_def split: if_splits)
  qed
qed

lemma cinv_have_next:
  assumes inv: "cinv nc s" and pc: "pcs s k = C_have cur nxt" and lock: "lock \<or> \<not> exiting cur (us s)"
    and a: "have_next lock k cur nxt s = Some s'"
  shows "cinv nc s'"
proof -
  obtain cur' u where u: "reap lock cur (us s) = Some (cur', u)" using a by (auto simp: have_next_def Option.bind_eq_Some_conv)
  let ?s = "s\<lparr>us := u\<rparr>" and ?g = "goto k (C_have cur' nxt) (s\<lparr>us := u\<rparr>)"
  have g: "cinv nc ?g" by (rule cinv_reap [OF inv pc lock u])
  show ?thesis
  proof (cases nxt)
    case (Some n)
    then obtain s2 where s2: "install k n ?s = Some s2" "enter k n nxt s2 = Some s'"
      using a u by (auto simp: have_next_def Option.bind_eq_Some_conv)
    have "install k n ?g = Some (goto k (C_have cur' nxt) s2)"
      using s2(1) by (auto simp: install_def opt_run)
    from cinv_install [OF g _ this] Some have "cinv nc (goto k C_user s2)" by simp
    from cinv_enter [OF this s2(2)] show ?thesis .
  next
    case None
    show ?thesis
    proof (cases cur')
      case None
      have "s' = goto k (C_again None) ?s" using a u \<open>nxt = None\<close> None by (simp add: have_next_def)
      moreover have "cinv nc (goto k (C_again None) ?g)" by (rule cinv_goto [OF g]) (simp_all add: None \<open>nxt = None\<close>)
      ultimately show ?thesis by simp
    next
      case (Some c)
      have "cinv nc (goto k C_user ?g)" by (rule cinv_resume [OF g]) (simp add: Some None)
      then have "cinv nc (goto k C_user ?s)" by simp
      moreover have "enter k c nxt ?s = Some s'" using a u None Some by (simp add: have_next_def)
      ultimately show ?thesis by (rule cinv_enter)
    qed
  qed
qed

lemma cinv_csched_step:
  assumes inv: "cinv nc s" and a: "csched_step lock k s = Some s'"
  shows "cinv nc s'"
proof (cases "pcs s k")
  case (C_parked w)
  then show ?thesis using a cinv_unset [OF inv C_parked] by (auto simp: csched_step_def Let_def conn_pcs)
next
  case (C_again cur)
  then show ?thesis using a inv cinv_pop [OF inv C_again, of lock]
    by (auto simp: csched_step_def crash_def cinv_crash Let_def intro: cinv_goto split: if_splits option.splits bind_splits)
next
  case (C_spin cur n)
  then show ?thesis using a inv cinv_take [OF inv C_spin]
    by (auto simp: csched_step_def cinv_crash split: option.splits if_splits)
next
  case (C_read cur)
  then show ?thesis using a inv cinv_crash [OF inv, of k] cinv_goto [OF inv, of k]
    by (auto simp: csched_step_def crash_def Let_def split: if_splits option.splits bind_splits)
next
  case (C_have cur nxt)
  then show ?thesis using a inv cinv_have_next [OF inv C_have, of lock]
    by (auto simp: csched_step_def crash_def cinv_crash split: option.splits if_splits)
qed (use a inv in \<open>auto simp: csched_step_def crash_def Let_def cinv_crash conn_pcs intro!: cinv_goto split: if_splits option.splits bind_splits\<close>)

lemma cinv_enter_api: "cinv nc s \<Longrightarrow> cinv nc (enter_api k s)"
  by (auto simp: enter_api_def split: option.splits)

lemma enter_api_same [simp]:
  "pcs (enter_api k s) = pcs s" "cur_cluster (us (enter_api k s)) = cur_cluster (us s)"
  "clusters (us (enter_api k s)) = clusters (us s)"
  by (simp_all add: enter_api_def switch_to_kthread_fs_def loadfs_def split: option.splits)

lemma cinv_yield_api:
  assumes inv: "cinv nc s" and pc: "pcs s k = C_user"
  shows "vessel_cluster_yield_api k s = Some s' \<Longrightarrow> cinv nc s'" "vessel_cluster_mwait_api k s = Some s' \<Longrightarrow> cinv nc s'"
proof -
  have "cur_cluster (us s) k \<noteq> None" using inv pc by (auto simp: cinv_def cur_ok_def)
  then show "vessel_cluster_yield_api k s = Some s' \<Longrightarrow> cinv nc s'"
    using cinv_park [OF cinv_enter_api [OF inv]] pc by (auto simp: vessel_cluster_yield_api_def cluster_yield_def)
  show "vessel_cluster_mwait_api k s = Some s' \<Longrightarrow> cinv nc s'"
    using cinv_park [OF cinv_enter_api [OF inv]] pc by (auto simp: vessel_cluster_mwait_api_def cluster_mwait_def)
qed

lemma cinv_exit_api:
  assumes inv: "cinv nc s" and pc: "pcs s k = C_user" and a: "vessel_cluster_exit_api k s = Some s'"
  shows "cinv nc s'"
proof -
  let ?e = "enter_api k s"
  obtain c x where c: "cur_cluster (us ?e) k = Some c" "clusters (us ?e) c = Some x"
    "s' = goto k (C_again (Some c)) (?e\<lparr>us := upd_cluster c (x\<lparr>to_exit := True\<rparr>) (us ?e)\<rparr>)"
    using a by (auto simp: vessel_cluster_exit_api_def cluster_exit_def Option.bind_eq_Some_conv)
  have "cinv nc (?e\<lparr>us := upd_cluster c (x\<lparr>to_exit := True\<rparr>) (us ?e)\<rparr>)"
    by (rule cinv_touch [OF cinv_enter_api [OF inv] c(2)]) simp_all
  from cinv_leave [OF this, of k c] c(1,3) pc show ?thesis by simp
qed

lemma cinv_uipi:
  assumes inv: "cinv nc s"
  shows "uipi_handler k f g s = Some (r, s') \<Longrightarrow> cinv nc s'" "cinv nc (uipi_return c s)"
  using inv by (auto simp: uipi_handler_def uipi_return_def opt_run
    intro!: cinv_touch split: if_splits option.splits)

lemma cinv_step:
  assumes "cstep nc s s'" "cinv nc s"
  shows "cinv nc s'"
  using assms
proof (induction rule: cstep.induct)
  case (spawn s k c func args pref tls stk r u)
  then have "utab_ok nc (us s)" by (simp add: cinv_def)
  with spawn spawn_law show ?case by (intro cinv_grows) blast+
next
  case (init e p lock entry sargs aff excl s r u)
  then have "utab_ok nc u \<and> grows (us s) u" using task_init_law [of e "us s"] by (auto simp: cinv_def)
  with init show ?case by (intro cinv_grows) simp_all
qed (auto intro: cinv_csched_step cinv_yield_api cinv_exit_api cinv_uipi simp: cluster_to_steal_def)

lemma cinv_reach: "reach nc s s' \<Longrightarrow> cinv nc s \<Longrightarrow> cinv nc s'"
  by (induction rule: reach.induct) (auto intro: cinv_step)

section \<open>Requests of the scheduler process\<close>

text \<open>
  The scheduler process posts a request only when the last one has been acknowledged: a word of
  the request changes only while \<^verbatim>\<open>gen = last_gen\<close>.
\<close>

definition posts_ok :: "csys \<Rightarrow> csys \<Rightarrow> bool" where
  "posts_ok s s' \<longleftrightarrow> posts_guarded (conn s) (conn s')"

inductive reach_posts :: "nat \<Rightarrow> csys \<Rightarrow> csys \<Rightarrow> bool" for nc s where
  p_start: "reach_posts nc s s"
| p_step: "reach_posts nc s s' \<Longrightarrow> cstep nc s' s'' \<Longrightarrow> posts_ok s' s'' \<Longrightarrow> reach_posts nc s s''"

fun serving :: "cpc \<Rightarrow> core_conn \<Rightarrow> bool" where
  "serving (C_next cur) cc = (gen cc \<noteq> last_gen cc)"
| "serving (C_ack cur) cc = (gen cc \<noteq> last_gen cc \<and> next_tid cc = 0)"
| "serving (C_read cur) cc = (gen cc \<noteq> last_gen cc)"
| "serving (C_spin cur n) cc = (gen cc \<noteq> last_gen cc \<and> next_tid cc = int n)"
| "serving (C_taken cur n) cc = (gen cc \<noteq> last_gen cc \<and> next_tid cc = int n)"
| "serving _ cc = True"

definition serving_ok :: "csys \<Rightarrow> bool" where
  "serving_ok s \<longleftrightarrow> (\<forall>k. serving (pcs s k) (conn s k))"

lemma install_shape: "install k n s = Some s' \<Longrightarrow> conn s' = conn s \<and> pcs s' = pcs s"
  by (auto simp: install_def opt_run)

lemma enter_shape: "enter k c nxt s = Some s' \<Longrightarrow> conn s' = conn s \<and> pcs s' = (pcs s)(k := C_user)"
  by (auto simp: enter_def opt_run split: if_splits)

lemma have_next_shape:
  assumes "have_next lock k cur nxt s = Some s'"
  shows "conn s' = conn s \<and> (pcs s' = (pcs s)(k := C_user) \<or> pcs s' = (pcs s)(k := C_again None))"
  using assms
  by (auto simp: have_next_def Option.bind_eq_Some_conv dest!: install_shape enter_shape split: option.splits)

lemma csched_step_serving:
  assumes ok: "utab_ok nc (us s)" and s: "serving_ok s" and a: "csched_step lock k s = Some s'"
  shows "serving_ok s'"
proof -
  have k: "serving (pcs s k) (conn s k)" using s by (simp add: serving_ok_def)
  have ptr: "cluster_id2cluster_ptr (us s) c = Some n \<Longrightarrow> n = c" for c n
    using ok by (auto simp: utab_ok_def ids_ok_def split: if_splits)
  have "serving (pcs s' k) (conn s' k) \<and> (\<forall>j. j \<noteq> k \<longrightarrow> pcs s' j = pcs s j \<and> conn s' j = conn s j)"
  proof (cases "pcs s k")
    case (C_have cur nxt)
    then show ?thesis using a have_next_shape [of lock k cur nxt s]
      by (auto simp: csched_step_def crash_def split: if_splits option.splits)
  qed (use a k in \<open>auto simp: csched_step_def crash_def Let_def dest!: ptr split: if_splits option.splits bind_splits\<close>)
  then show ?thesis using s unfolding serving_ok_def by metis
qed

lemma api_shape:
  "vessel_cluster_yield_api k s = Some s' \<Longrightarrow> conn s' = conn s \<and> (\<exists>p. pcs s' = (pcs s)(k := p) \<and> serving p cc)"
  "vessel_cluster_mwait_api k s = Some s' \<Longrightarrow> conn s' = conn s \<and> (\<exists>p. pcs s' = (pcs s)(k := p) \<and> serving p cc)"
  "vessel_cluster_exit_api k s = Some s' \<Longrightarrow> conn s' = conn s \<and> (\<exists>p. pcs s' = (pcs s)(k := p) \<and> serving p cc)"
proof -
  have e: "conn (enter_api k s) = conn s" by (simp add: enter_api_def split: option.splits)
  have *: "pcs s' = (pcs s)(k := p) \<Longrightarrow> serving p cc \<Longrightarrow> \<exists>p. pcs s' = (pcs s)(k := p) \<and> serving p cc" for p by blast
  show "vessel_cluster_yield_api k s = Some s' \<Longrightarrow> conn s' = conn s \<and> (\<exists>p. pcs s' = (pcs s)(k := p) \<and> serving p cc)"
    using * [of "C_parked False"] * [of "C_again None"]
    by (auto simp: vessel_cluster_yield_api_def cluster_yield_def park_def e Option.bind_eq_Some_conv split: if_splits)
  show "vessel_cluster_mwait_api k s = Some s' \<Longrightarrow> conn s' = conn s \<and> (\<exists>p. pcs s' = (pcs s)(k := p) \<and> serving p cc)"
    using * [of "C_parked True"]
    by (auto simp: vessel_cluster_mwait_api_def cluster_mwait_def park_def e Option.bind_eq_Some_conv)
  show "vessel_cluster_exit_api k s = Some s' \<Longrightarrow> conn s' = conn s \<and> (\<exists>p. pcs s' = (pcs s)(k := p) \<and> serving p cc)"
    using * [of "C_again c" for c]
    by (auto simp: vessel_cluster_exit_api_def cluster_exit_def e Option.bind_eq_Some_conv)
qed

lemma serving_upd:
  assumes "serving_ok s" "conn s' = conn s" "pcs s' = (pcs s)(k := p)" "serving p (conn s k)"
  shows "serving_ok s'"
  using assms by (auto simp: serving_ok_def)

text \<open>A write of the scheduler process that follows the protocol.\<close>

lemma serving_post:
  assumes s: "serving_ok s" and p: "pcs s' = pcs s" "\<And>j. last_gen (conn s' j) = last_gen (conn s j)" "posts_ok s s'"
  shows "serving_ok s'"
  unfolding serving_ok_def
proof
  fix k
  have k: "serving (pcs s k) (conn s k)" using s by (simp add: serving_ok_def)
  show "serving (pcs s' k) (conn s' k)"
  proof (cases "gen (conn s k) = last_gen (conn s k)")
    case True
    with k show ?thesis unfolding p(1) by (cases "pcs s k") auto
  next
    case False
    with p(3) have "next_tid (conn s' k) = next_tid (conn s k)" "gen (conn s' k) = gen (conn s k)" by (auto simp: posts_ok_def posts_guarded_def)
    with k p(2) [of k] show ?thesis unfolding p(1) by (cases "pcs s k") auto
  qed
qed

lemma serving_step:
  assumes "cstep nc s s'" "posts_ok s s'" "utab_ok nc (us s)" "serving_ok s"
  shows "serving_ok s'"
  using assms
proof (induction rule: cstep.induct)
  case (core lock k s s')
  then show ?case by (auto intro: csched_step_serving)
next
  case (yield s k s')
  from api_shape(1) [OF yield(2), of "conn s k"] yield(5) show ?case by (auto intro: serving_upd)
next
  case (mwait s k s')
  from api_shape(2) [OF mwait(2), of "conn s k"] mwait(5) show ?case by (auto intro: serving_upd)
next
  case (leave s k s')
  from api_shape(3) [OF leave(2), of "conn s k"] leave(5) show ?case by (auto intro: serving_upd)
next
  case (intr k f g s r s')
  then have "conn s' = conn s" "pcs s' = pcs s"
    by (auto simp: uipi_handler_def opt_run split: if_splits)
  with intr(4) show ?case by (simp add: serving_ok_def)
next
  case (intr_end s c)
  then show ?case by (simp add: serving_ok_def uipi_return_def split: option.splits)
next
  case (steal s k)
  then show ?case by (intro serving_post [OF steal(3) _ _ steal(1)]) (simp_all add: cluster_to_steal_def)
next
  case (post_tid s k n)
  then show ?case by (intro serving_post [OF post_tid(3) _ _ post_tid(1)]) simp_all
next
  case (post_gen s k g)
  then show ?case by (intro serving_post [OF post_gen(3) _ _ post_gen(1)]) simp_all
qed (simp_all add: serving_ok_def)

lemma serving_reach:
  assumes "reach_posts nc s s'" "cinv nc s" "serving_ok s"
  shows "cinv nc s' \<and> serving_ok s'"
  using assms(1)
proof induction
  case (p_step s' s'')
  then have "cinv nc s''" "utab_ok nc (us s')" using cinv_step by (auto simp: cinv_def)
  with p_step show ?case by (auto intro: serving_step)
qed (use assms in simp)

section \<open>Serving a request\<close>

text \<open>A core running on its own, its locks free, for a number of steps.\<close>

fun run_core :: "nat \<Rightarrow> nat \<Rightarrow> csys \<Rightarrow> csys option" where
  "run_core 0 k s = Some s"
| "run_core (Suc m) k s = do { s \<leftarrow> csched_step True k s; run_core m k s }"

lemma run_core_add: "run_core (m + n) k s = do { s \<leftarrow> run_core m k s; run_core n k s }"
proof (induction m arbitrary: s)
  case (Suc m)
  then show ?case by (cases "csched_step True k s") simp_all
qed simp

text \<open>With no exiting cluster of its own, the core switches to the cluster it took.\<close>

lemma have_next_runs:
  assumes inv: "cinv nc s" and pc: "pcs s k = C_have None (Some n)"
  shows "\<exists>s'. csched_step True k s = Some s' \<and> pcs s' k = C_user \<and> cur_cluster (us s') k = Some n \<and> conn s' = conn s"
proof -
  have ok: "utab_ok nc (us s)" "excl_ok (runs s) (us s)" using inv by (simp_all add: cinv_def)
  have "n \<in> set (runs s k)" using pc by (simp add: run_defs)
  then obtain x where x: "clusters (us s) n = Some x" using run_free [OF ok(2)] by (auto simp: free_run_def)
  then obtain t where t: "mytask x = Some t" using ok(1) by (fastforce simp: utab_ok_def clusters_ok_def)
  obtain s2 y where s2: "install k n s = Some s2" "clusters (us s2) n = Some y" "cur_cluster (us s2) k = Some n" "conn s2 = conn s"
    using x t by (simp add: install_def Let_def split: if_splits)
  obtain s3 where s3: "enter k n (Some n) s2 = Some s3" "cur_cluster (us s3) k = Some n"
    using s2 by (cases "to_start y"; cases "with_fs y") (simp_all add: enter_def loadfs_def Let_def)
  have "csched_step True k s = Some s3"
    using pc s2 s3 by (simp add: csched_step_def crash_def have_next_def reap_def)
  with s3 s2(4) enter_shape [OF s3(1)] show ?thesis by simp
qed

section \<open>Initial states\<close>

definition boot_csys :: csys where
  "boot_csys = \<lparr>us = boot_usys, conn = \<lambda>_. zero_conn, pcs = \<lambda>_. C_again None, pkru_map = \<lambda>_. 0,
     cluster_ctx_map = \<lambda>_. None, minimal_ops_map = \<lambda>_. None, saved_fs = \<lambda>_. 0\<rparr>"

lemma boot_cinv: "cinv nc boot_csys" "serving_ok boot_csys"
proof -
  have "running boot_csys k = None" "runs boot_csys k = []" for k by (simp_all add: run_defs boot_csys_def)
  moreover have "clusters boot_usys c = None" for c
    by (simp add: boot_usys_def kthread_meta_init_def task_meta_init_def cluster_init_def)
  ultimately show "cinv nc boot_csys" using boot_utab_ok [of nc]
    by (simp add: cinv_def excl_ok_def cur_ok_def pkru_ok_def) (simp add: boot_csys_def)
  show "serving_ok boot_csys" by (simp add: serving_ok_def boot_csys_def)
qed

text \<open>A core that runs the cluster of the first task, and the same cluster parked.\<close>

definition demo_csys :: csys where
  "demo_csys = boot_csys\<lparr>us := demo_usys, pcs := (\<lambda>_. C_again None)(0 := C_user),
     pkru_map := (\<lambda>_. 0)(0 := key2pkru 3), cluster_ctx_map := (\<lambda>_. None)(0 := Some 1)\<rparr>"

lemma demo_cinv: "cinv nc demo_csys"
proof -
  have u: "us demo_csys = demo_usys" "pcs demo_csys = (\<lambda>_. C_again None)(0 := C_user)" "cur_cluster demo_usys = (\<lambda>_. None)(0 := Some 1)"
    by (simp_all add: demo_csys_def demo_usys_def)
  note d = demo_utab_ok [of nc]
  have "running demo_csys k = (if k = 0 then Some 1 else None)" "runs demo_csys k = (if k = 0 then [1] else [])" for k
    by (simp_all add: run_defs u)
  with d show ?thesis
    by (simp add: cinv_def excl_ok_def cur_ok_def pkru_ok_def free_run_def u) (auto simp: demo_csys_def zero_cluster_def)
qed

definition asked_csys :: csys where
  "asked_csys = demo_csys\<lparr>us := demo_usys\<lparr>clusters := [1 \<mapsto> zero_cluster\<lparr>c_id := 1, mytask := Some 0, parked := True\<rparr>],
       cur_cluster := \<lambda>_. None\<rparr>, pcs := \<lambda>_. C_again None, conn := \<lambda>_. zero_conn\<lparr>next_tid := 1, gen := 1\<rparr>\<rparr>"

lemma asked_cinv: "cinv nc asked_csys" "serving_ok asked_csys"
proof -
  note d = demo_utab_ok [of nc]
  have "utab_ok nc (upd_cluster 1 (zero_cluster\<lparr>c_id := 1, mytask := Some 0, parked := True\<rparr>) demo_usys)"
    using d by (intro utab_upd_cluster [where x = "zero_cluster\<lparr>c_id := 1, mytask := Some 0\<rparr>"]) simp_all
  then have "utab_ok nc (us asked_csys)" using d by (simp add: asked_csys_def)
  moreover have "running asked_csys k = None" "runs asked_csys k = []" for k by (simp_all add: run_defs asked_csys_def)
  ultimately show "cinv nc asked_csys" using d
    by (simp add: cinv_def excl_ok_def cur_ok_def pkru_ok_def) (simp add: asked_csys_def)
  show "serving_ok asked_csys" by (simp add: serving_ok_def asked_csys_def)
qed

section \<open>Properties\<close>

text \<open>
  C1: however the cores, the running clusters, new tasks and the scheduler process interleave, no
  cluster is ever run by two cores at once, and a cluster that runs is neither parked nor in the
  queue of a kthread.
\<close>

theorem cluster_runs_once:
  assumes "cinv nc s" "reach nc s s'" "pcs s' j = C_user" "cur_cluster (us s') j = Some c"
  shows "(pcs s' k = C_user \<and> cur_cluster (us s') k = Some c \<longrightarrow> k = j) \<and>
    clusters (us s') c \<noteq> None \<and> \<not> parked (the (clusters (us s') c)) \<and> cluster_id2kthread_ptr (us s') c = None"
proof -
  have ok: "excl_ok (runs s') (us s')" using cinv_reach [OF assms(2,1)] by (simp add: cinv_def)
  have c: "c \<in> set (runs s' i)" if "pcs s' i = C_user" "cur_cluster (us s') i = Some c" for i using that by (simp add: run_defs)
  have "free_run (us s') c" by (rule run_free [of "runs s'" _ _ j]) (use ok c assms(3,4) in auto)
  moreover have "k = j" if "pcs s' k = C_user" "cur_cluster (us s') k = Some c"
    using ok c [OF that] c [OF assms(3,4)] unfolding excl_ok_def by blast
  ultimately show ?thesis by (auto simp: free_run_def)
qed

theorem cluster_runs_once_witness:
  "pcs demo_csys 0 = C_user \<and> cluster_id2kthread_ptr (us demo_csys) 1 = None"
proof -
  have "pcs demo_csys 0 = C_user" "cur_cluster (us demo_csys) 0 = Some 1" by (simp_all add: demo_csys_def demo_usys_def)
  with cluster_runs_once [OF demo_cinv [of 4] start, of 0 1 0] show ?thesis by simp
qed

text \<open>
  C3: whenever a core runs a cluster, the protection-key register value of that core is the one
  of the cluster's own task: it gives access to the memory of this task and to that of no other
  task nor of the scheduler.
\<close>

theorem running_isolated:
  assumes "cinv nc s" "reach nc s s'" "pcs s' k = C_user"
  shows "\<exists>c x t. cur_cluster (us s') k = Some c \<and> clusters (us s') c = Some x \<and> mytask x = Some t \<and>
    pkru_write (pkru_map s' k) (t + 3) \<and> \<not> pkru_read (pkru_map s' k) ERIM_SAFE_PKEY \<and>
    (\<forall>u < NTASK. u \<noteq> t \<longrightarrow> \<not> pkru_read (pkru_map s' k) (u + 3))"
proof -
  have ok: "utab_ok nc (us s')" "excl_ok (runs s') (us s')" "cur_ok s'" "pkru_ok s'"
    using cinv_reach [OF assms(2,1)] by (simp_all add: cinv_def)
  obtain c where c: "cur_cluster (us s') k = Some c" "running s' k = Some c"
    using ok(3) assms(3) by (auto simp: cur_ok_def running_def)
  obtain x where x: "clusters (us s') c = Some x" using running_live [OF ok(2) c(2)] by (auto simp: free_run_def)
  then obtain t where t: "mytask x = Some t" using ok(1) by (fastforce simp: utab_ok_def clusters_ok_def)
  have "t < task_num (us s')" using utab_ready [OF ok(1) x t] by (simp add: task_ready_def)
  then have "t < 13" using ok(1) by (simp add: utab_ok_def tasks_ok_def NTASK_def)
  moreover have "pkru_map s' k = key2pkru (t + 3)" using ok(4) c(2) x t unfolding pkru_ok_def by blast
  ultimately show ?thesis
    using c(1) x t by (auto simp: pkru_read_def pkru_write_def bit_key2pkru ERIM_SAFE_PKEY_def NTASK_def)
qed

theorem running_isolated_witness:
  "pcs demo_csys 0 = C_user \<and> \<not> pkru_read (pkru_map demo_csys 0) ERIM_SAFE_PKEY"
proof -
  have "pcs demo_csys 0 = C_user" by (simp add: demo_csys_def)
  with running_isolated [OF demo_cinv [of 4] start, of 0] show ?thesis by auto
qed

text \<open>
  C7: a request for a parked cluster is served. A core that looks for work, left to run on its
  own, switches to the requested cluster within six steps and has then acknowledged the request.
\<close>

theorem csched_serves_request:
  assumes inv: "cinv nc s" and pc: "pcs s k = C_again None" and g: "gen (conn s k) \<noteq> last_gen (conn s k)"
    and n: "next_tid (conn s k) = int n" "clusters (us s) n = Some x" "parked x"
  shows "\<exists>s'. run_core 6 k s = Some s' \<and> pcs s' k = C_user \<and> cur_cluster (us s') k = Some n \<and>
    last_gen (conn s' k) = gen (conn s k)"
proof -
  have "0 < n" "n < NCLUSTER" "n < id_cnt (us s)" using utab_live [OF _ n(2)] inv by (auto simp: cinv_def)
  moreover have "cluster_id2cluster_ptr (us s) n = Some n" using calculation inv by (simp add: cinv_def utab_ok_def ids_ok_def)
  ultimately have "\<exists>s5. run_core 5 k s = Some s5 \<and> pcs s5 k = C_have None (Some n) \<and> last_gen (conn s5 k) = gen (conn s k)"
    using pc g n by (simp add: eval_nat_numeral csched_step_def crash_def Let_def)
  then obtain s5 where s5: "run_core 5 k s = Some s5" "pcs s5 k = C_have None (Some n)" "last_gen (conn s5 k) = gen (conn s k)"
    by blast
  have keep: "run_core m k r = Some r' \<Longrightarrow> cinv nc r \<Longrightarrow> cinv nc r'" for m r r'
    by (induction m arbitrary: r) (auto simp: Option.bind_eq_Some_conv intro: cinv_csched_step)
  from have_next_runs [OF keep [OF s5(1) inv] s5(2)] s5 show ?thesis
    using run_core_add [of 5 1 k s] by (auto simp: s5)
qed

theorem csched_serves_request_witness:
  "\<exists>s'. run_core 6 2 asked_csys = Some s' \<and> pcs s' 2 = C_user \<and> cur_cluster (us s') 2 = Some 1"
proof -
  have "pcs asked_csys 2 = C_again None" "gen (conn asked_csys 2) \<noteq> last_gen (conn asked_csys 2)" "next_tid (conn asked_csys 2) = int 1"
    "clusters (us asked_csys) 1 = Some (zero_cluster\<lparr>c_id := 1, mytask := Some 0, parked := True\<rparr>)"
    by (simp_all add: asked_csys_def zero_conn_def)
  from csched_serves_request [OF asked_cinv(1) [of 4] this] show ?thesis by auto
qed

text \<open>
  C11: when the scheduler process posts a request only after the last one was acknowledged, a core
  never acknowledges a request it does not serve: what it acknowledges when it has taken a cluster
  is the request for that cluster, and what it acknowledges when it goes idle is the request to
  idle.
\<close>

theorem csched_acks_its_request:
  assumes "cinv nc s" "serving_ok s" "reach_posts nc s s'"
  shows "(pcs s' k = C_taken cur n \<longrightarrow> next_tid (conn s' k) = int n \<and> gen (conn s' k) \<noteq> last_gen (conn s' k)) \<and>
    (pcs s' k = C_ack cur \<longrightarrow> next_tid (conn s' k) = 0 \<and> gen (conn s' k) \<noteq> last_gen (conn s' k))"
proof -
  have "serving (pcs s' k) (conn s' k)" using serving_reach [OF assms(3,1,2)] by (simp add: serving_ok_def)
  then show ?thesis by auto
qed

theorem csched_acks_its_request_witness:
  "\<exists>s'. reach_posts 4 asked_csys s' \<and> pcs s' 2 = C_taken None 1 \<and> next_tid (conn s' 2) = 1"
proof -
  have ptr: "cluster_id2cluster_ptr (us asked_csys) 1 = Some 1"
    using utab_live [of 0 "us asked_csys" 1] asked_cinv(1) [of 0]
    by (simp add: cinv_def utab_ok_def ids_ok_def clusters_ok_def) (simp add: asked_csys_def zero_cluster_def)
  have *: "reach_posts 4 s t'" if "reach_posts 4 s t" "csched_step True k t = Some t'" "conn t' = conn t \<or>
      conn t' = (conn t)(k := (conn t k)\<lparr>idling := False\<rparr>)" for s t t' k
    using that by (intro p_step [OF that(1) core]) (auto simp: posts_ok_def posts_guarded_def split: if_splits)
  obtain s1 where s1: "csched_step True 2 asked_csys = Some s1" "pcs s1 2 = C_next None" "conn s1 = conn asked_csys" "us s1 = us asked_csys"
    by (simp add: csched_step_def asked_csys_def zero_conn_def)
  obtain s2 where s2: "csched_step True 2 s1 = Some s2" "pcs s2 2 = C_read None" "us s2 = us s1"
      "conn s2 = (conn s1)(2 := (conn s1 2)\<lparr>idling := False\<rparr>)"
    using s1 by (simp add: csched_step_def Let_def) (simp add: asked_csys_def zero_conn_def)
  obtain s3 where s3: "csched_step True 2 s2 = Some s3" "pcs s3 2 = C_spin None 1" "conn s3 = conn s2" "us s3 = us s2"
    using s1 s2 ptr by (simp add: csched_step_def Let_def crash_def) (simp add: asked_csys_def zero_conn_def NCLUSTER_def)
  obtain s4 where s4: "csched_step True 2 s3 = Some s4" "pcs s4 2 = C_taken None 1" "conn s4 = conn s3"
    using s1 s2 s3 by (simp add: csched_step_def) (simp add: asked_csys_def)
  have r: "reach_posts 4 asked_csys s4"
    using * [OF * [OF * [OF * [OF p_start s1(1)] s2(1)] s3(1)] s4(1)] s1 s2 s3 s4 by simp
  from csched_acks_its_request [OF asked_cinv r, of 2 None 1] r s4(2) show ?thesis by auto
qed

end
