(* ===== verification/Iok_Delay.thy ===== *)
theory Iok_Delay
  imports Lrpc "HOL-Library.Monad_Syntax"
begin

text \<open>
  How the scheduler process measures the queueing delay of a runtime (\<^verbatim>\<open>iokernel/sched.c\<close>): it reads
  the ring indices of every kthread and the completion rings of its devices (\<^verbatim>\<open>hwq\<close> in
  \<^verbatim>\<open>iokernel/defs.h\<close>), and from them the time the oldest entry has waited. Index arithmetic is on
  32-bit words that wrap, time on 64-bit words. The build is the one without hardware timestamps.
\<close>

section \<open>Completion rings\<close>

text \<open>\<open>descriptor_table\<close> holds the bytes of the descriptor ring; \<open>consumer_idx\<close> is the word the runtime writes.\<close>

record hwq =
  h_enabled :: bool
  descriptor_table :: "nat \<Rightarrow> 8 word"
  consumer_idx :: u32
  descriptor_log_size :: nat
  nr_descriptors :: u32
  parity_byte_offset :: u32
  parity_bit_mask :: u32
  last_tail :: u32
  last_head :: u32
  busy_since :: u64

definition hwq_busy :: "hwq \<Rightarrow> u32 \<Rightarrow> bool" where
  "hwq_busy h cq_idx =
     (let idx = cq_idx AND (nr_descriptors h - 1);
          parity = (cq_idx AND nr_descriptors h \<noteq> 0);
          addr = unat (push_bit (descriptor_log_size h) idx) + unat (parity_byte_offset h);
          hd_parity = (ucast (descriptor_table h addr) AND parity_bit_mask h \<noteq> 0)
      in parity = hd_parity)"

function find_head_loop :: "hwq \<Rightarrow> u32 \<Rightarrow> u32 \<Rightarrow> u32 \<Rightarrow> u32" where
  "find_head_loop h start nr i =
     (if i < nr then if \<not> hwq_busy h (start + i) then i else find_head_loop h start nr (i + 1) else i)"
  by auto

lemma word_incr: "i < n \<Longrightarrow> unat (i + 1) = Suc (unat i)" for i n :: u32
proof -
  assume "i < n"
  then have "unat i + unat (1 :: u32) < 2 ^ LENGTH(32)" using unsigned_less [of n, where ?'a = nat] by (simp add: word_less_nat_alt)
  then show ?thesis by (simp add: unat_add_lem [THEN iffD1])
qed

termination find_head_loop
  by (relation "measure (\<lambda>(h, start, nr, i). unat nr - unat i)") (auto simp: word_incr word_less_nat_alt)

declare find_head_loop.simps [simp del]

definition hwq_find_head :: "hwq \<Rightarrow> u32 \<Rightarrow> u32 \<Rightarrow> u32" where
  "hwq_find_head h cur_tail l_head =
     (let start_idx = (if wraps_lt cur_tail l_head then l_head else cur_tail);
          nr_desc = nr_descriptors h - (start_idx - cur_tail)
      in find_head_loop h start_idx nr_desc 0 + start_idx)"

definition UINT64_MAX :: u64 where "UINT64_MAX = - 1"

text \<open>\<open>active\<close> is the flag of the thread, \<open>now\<close> the variable \<^verbatim>\<open>cur_tsc\<close>.\<close>

definition sched_measure_hardware_delay :: "u64 \<Rightarrow> bool \<Rightarrow> bool \<Rightarrow> hwq \<Rightarrow> bool \<times> hwq" where
  "sched_measure_hardware_delay now active update_pointers h =
     (if \<not> h_enabled h then (False, h)
      else let l_head = last_head h;
               l_tail = last_tail h;
               cur_tail = consumer_idx h;
               cur_head = hwq_find_head h cur_tail l_head;
               h = (if update_pointers then h\<lparr>last_tail := cur_tail, last_head := cur_head\<rparr> else h)
           in if cur_head = cur_tail then (False, h\<lparr>busy_since := UINT64_MAX\<rparr>)
              else let h = (if cur_tail \<noteq> l_tail \<or> busy_since h = UINT64_MAX then h\<lparr>busy_since := now\<rparr> else h)
                   in (if active then wraps_lt cur_tail l_head else cur_head \<noteq> cur_tail, h))"

definition calc_delay_tsc :: "u64 \<Rightarrow> u64 \<Rightarrow> u64" where
  "calc_delay_tsc now tsc = now - min tsc now"

section \<open>Remote requests\<close>

text \<open>
  \<^verbatim>\<open>watch_cxltp_tqueue\<close>: every waiter of the list is a flag saying whether its connection has a
  request or is shut down; \<open>lock\<close> is whether its lock was free.
\<close>

record tqueue =
  waiters :: "bool list"
  state_hasq :: bool

fun count_waiters :: "u64 \<Rightarrow> bool list \<Rightarrow> u64 \<Rightarrow> u64" where
  "count_waiters bound [] r = r"
| "count_waiters bound (w # ws) r =
     (if w then if bound < r + 1 then r + 1 else count_waiters bound ws (r + 1) else count_waiters bound ws r)"

definition watch_cxltp_tqueue :: "bool \<Rightarrow> u64 \<Rightarrow> tqueue \<Rightarrow> u64 \<Rightarrow> u64 \<times> tqueue" where
  "watch_cxltp_tqueue lock cycles_per_us q bound_us =
     (if \<not> lock then (0, q)
      else let r = count_waiters (bound_us div 1) (waiters q) 0
           in (r * 1 * cycles_per_us, if r \<noteq> 0 then q\<lparr>state_hasq := True\<rparr> else q))"

section \<open>The delay of a kthread\<close>

text \<open>\<open>q_ptrs\<close> and \<open>rxq_shm\<close> are memory the runtime writes; \<open>next_tsc\<close> the word its timer heap publishes.\<close>

record q_ptrs =
  rq_head :: u32
  rq_tail :: u32
  oldest_tsc :: u64

record thread =
  th_active :: bool
  th_tid :: int
  th_core :: nat
  at_idx :: nat
  ts_idx :: nat
  qptrs :: q_ptrs
  rxq :: lrpc_chan_out
  rxq_shm :: lrpc_shm
  last_rq_head :: u32
  last_rq_tail :: u32
  last_rxq_head :: u32
  last_rxq_tail :: u32
  rxq_busy_since :: u64
  qdelay :: u64
  directpath_hwq :: hwq
  storage_hwq :: hwq
  next_tsc :: u64
  cxltp_waiters :: "tqueue option"

record delays =
  rxq_tsc :: u64
  uthread_tsc :: u64
  storage_tsc :: u64
  timer_tsc :: u64
  cxltp_alive :: u64
  hw_busy :: bool

definition standing :: "bool \<Rightarrow> u32 \<Rightarrow> u32 \<Rightarrow> u32 \<Rightarrow> bool" where
  "standing active cur_tail cur_head l_head = (if active then wraps_lt cur_tail l_head else cur_head \<noteq> cur_tail)"

definition measure_uthread :: "u64 \<Rightarrow> thread \<Rightarrow> bool \<times> u64 \<times> thread" where
  "measure_uthread now th =
     (let cur_tail = rq_tail (qptrs th);
          l_head = last_rq_head th;
          cur_head = rq_head (qptrs th)
      in (standing (th_active th) cur_tail cur_head l_head,
          if cur_head \<noteq> cur_tail then calc_delay_tsc now (oldest_tsc (qptrs th)) else 0,
          th\<lparr>last_rq_head := cur_head, last_rq_tail := cur_tail\<rparr>))"

definition measure_rxq :: "u64 \<Rightarrow> thread \<Rightarrow> bool \<times> u64 \<times> thread" where
  "measure_rxq now th =
     (let l_tail = last_rxq_tail th;
          (cur_tail, ch) = lrpc_poll_send_tail (rxq_shm th) (rxq th);
          l_head = last_rxq_head th;
          cur_head = send_head ch;
          since = (if cur_head = cur_tail then UINT64_MAX
                   else if cur_tail \<noteq> l_tail \<or> rxq_busy_since th = UINT64_MAX then now
                   else rxq_busy_since th)
      in (standing (th_active th) cur_tail cur_head l_head, calc_delay_tsc now since,
          th\<lparr>rxq := ch, last_rxq_head := cur_head, last_rxq_tail := cur_tail, rxq_busy_since := since\<rparr>))"

definition measure_timer :: "u64 \<Rightarrow> thread \<Rightarrow> bool \<times> u64" where
  "measure_timer now th =
     (let tmp = (if next_tsc th = 0 then UINT64_MAX else next_tsc th)
      in (tmp \<le> now, calc_delay_tsc now tmp))"

definition sched_measure_kthread_delay :: "bool \<Rightarrow> u64 \<Rightarrow> u64 \<Rightarrow> thread \<Rightarrow> bool \<times> delays \<times> thread" where
  "sched_measure_kthread_delay lock cycles_per_us now th =
     (let (b1, uthr, th) = measure_uthread now th;
          (b2, rx, th) = measure_rxq now th;
          (b3, tmr) = measure_timer now th;
          (b4, hd) = sched_measure_hardware_delay now (th_active th) True (directpath_hwq th);
          th = th\<lparr>directpath_hwq := hd\<rparr>;
          rx = max rx (calc_delay_tsc now (busy_since hd));
          (b5, hs) = sched_measure_hardware_delay now (th_active th) True (storage_hwq th);
          th = th\<lparr>storage_hwq := hs\<rparr>;
          (cx, wq) = (case cxltp_waiters th of
              None \<Rightarrow> (0, None)
            | Some q \<Rightarrow> let (n, q') = watch_cxltp_tqueue lock cycles_per_us q 10 in (n, Some q'));
          th = th\<lparr>cxltp_waiters := wq\<rparr>
      in (b1 \<or> b2 \<or> b3 \<or> b4 \<or> b5 \<or> 0 < cx,
          \<lparr>rxq_tsc = rx, uthread_tsc = uthr, storage_tsc = calc_delay_tsc now (busy_since hs), timer_tsc = tmr,
           cxltp_alive = cx, hw_busy = b4\<rparr>, th))"

section \<open>Laws\<close>

lemma find_head_loop_spec:
  assumes "i \<le> nr"
  shows "i \<le> find_head_loop h start nr i \<and> find_head_loop h start nr i \<le> nr \<and>
    (\<forall>j. i \<le> j \<and> j < find_head_loop h start nr i \<longrightarrow> hwq_busy h (start + j)) \<and>
    (find_head_loop h start nr i < nr \<longrightarrow> \<not> hwq_busy h (start + find_head_loop h start nr i))"
  using assms
proof (induction h start nr i rule: find_head_loop.induct)
  case (1 h start nr i)
  show ?case
  proof (cases "i < nr \<and> hwq_busy h (start + i)")
    case True
    have u: "unat (i + 1) = Suc (unat i)" using True word_incr [of i nr] by simp
    then have le: "i + 1 \<le> nr" using True by (simp add: word_le_nat_alt word_less_nat_alt)
    have split: "i \<le> j \<longleftrightarrow> j = i \<or> i + 1 \<le> j" for j
      unfolding word_le_nat_alt u by (auto simp: word_unat_eq_iff)
    have eq: "find_head_loop h start nr i = find_head_loop h start nr (i + 1)" using True by (subst find_head_loop.simps) simp
    have "hwq_busy h (start + i)" using True by simp
    with 1(1) [OF _ _ le] True show ?thesis unfolding eq by (auto simp: split)
  next
    case False
    then have "find_head_loop h start nr i = i" by (subst find_head_loop.simps) auto
    with False 1(2) show ?thesis by (auto simp: order_le_less)
  qed
qed

lemma find_head_loop_eq:
  assumes m: "m \<le> nr" "\<And>j. j < m \<Longrightarrow> hwq_busy h (start + j)" "m < nr \<Longrightarrow> \<not> hwq_busy h (start + m)"
  shows "find_head_loop h start nr 0 = m"
proof -
  let ?r = "find_head_loop h start nr 0"
  have r: "?r \<le> nr" "\<And>j. j < ?r \<Longrightarrow> hwq_busy h (start + j)" "?r < nr \<Longrightarrow> \<not> hwq_busy h (start + ?r)"
    using find_head_loop_spec [of 0 nr h start] by auto
  have "\<not> ?r < m" using m r by (meson order_less_le_trans)
  moreover have "\<not> m < ?r" using m r by (meson order_less_le_trans)
  ultimately show ?thesis by simp
qed

lemma calc_delay_simps:
  "tsc \<le> now \<Longrightarrow> calc_delay_tsc now tsc = now - tsc" "now \<le> tsc \<Longrightarrow> calc_delay_tsc now tsc = 0"
  by (simp_all add: calc_delay_tsc_def min_def)

lemma max_ge [simp]: "x \<le> UINT64_MAX"
  by (simp add: UINT64_MAX_def)

lemma word_split:
  fixes d m n j :: u32
  assumes "d \<le> m" "m \<le> n"
  shows "m - d \<le> n - d" "j < m - d \<Longrightarrow> d + j < m" "m - d < n - d \<Longrightarrow> m < n"
proof -
  have u: "unat (m - d) = unat m - unat d" "unat (n - d) = unat n - unat d"
    using assms by (auto intro: unat_sub order_trans)
  note w = word_le_nat_alt word_less_nat_alt
  show "m - d \<le> n - d" using assms unfolding w u by simp
  show "m < n" if "m - d < n - d" using that unfolding w u by simp
  show "d + j < m" if "j < m - d"
  proof -
    have j: "unat j < unat m - unat d" using that unfolding w u by simp
    have "unat m < 2 ^ LENGTH(32)" by (rule unsigned_less)
    with j have "unat d + unat j < 2 ^ LENGTH(32)" by simp
    then have "unat (d + j) = unat d + unat j" by (simp add: unat_add_lem [THEN iffD1])
    with j show ?thesis unfolding w by simp
  qed
qed

section \<open>Properties\<close>

text \<open>
  The producer index of a completion ring is found without reading a counter of the device.
  When the device has produced \<open>m\<close> entries from the consumer index on, the search ends at the
  \<open>m\<close>-th, whether it starts at the consumer index or at the head of the last measurement, and
  whether or not the indices wrap around.
\<close>

theorem hwq_find_head_exact:
  assumes busy: "\<And>j. j < m \<Longrightarrow> hwq_busy h (tail + j)" and free: "m < nr_descriptors h \<Longrightarrow> \<not> hwq_busy h (tail + m)"
    and le: "m \<le> nr_descriptors h" and last: "wraps_lt tail l \<Longrightarrow> l - tail \<le> m"
  shows "hwq_find_head h tail l = tail + m"
proof (cases "wraps_lt tail l")
  case True
  note s = word_split [OF last [OF True] le]
  have "find_head_loop h l (nr_descriptors h - (l - tail)) 0 = m - (l - tail)"
  proof (rule find_head_loop_eq)
    show "hwq_busy h (l + j)" if "j < m - (l - tail)" for j
      using busy [OF s(2) [OF that]] by (simp add: algebra_simps)
    show "\<not> hwq_busy h (l + (m - (l - tail)))" if "m - (l - tail) < nr_descriptors h - (l - tail)"
      using free [OF s(3) [OF that]] by (simp add: algebra_simps)
  qed (rule s(1))
  with True show ?thesis by (simp add: hwq_find_head_def Let_def)
next
  case False
  have "find_head_loop h tail (nr_descriptors h) 0 = m" by (rule find_head_loop_eq [OF le busy free])
  with False show ?thesis by (simp add: hwq_find_head_def Let_def add.commute)
qed

text \<open>A ring of four one-byte descriptors with three entries after a wrap of the index.\<close>

definition demo_hwq :: hwq where
  "demo_hwq = \<lparr>h_enabled = True, descriptor_table = (\<lambda>i. if i = 2 then 0 else 1), consumer_idx = - 1, descriptor_log_size = 0,
     nr_descriptors = 4, parity_byte_offset = 0, parity_bit_mask = 1, last_tail = - 1, last_head = 0, busy_since = 5\<rparr>"

theorem hwq_find_head_exact_witness: "hwq_find_head demo_hwq (- 1) 0 = - 1 + 1"
proof -
  have b: "hwq_busy demo_hwq (- 1)" "\<not> hwq_busy demo_hwq 0"
    by (simp_all add: hwq_busy_def demo_hwq_def Let_def)
  have z: "j < (1 :: u32) \<Longrightarrow> j = 0" for j by (simp add: word_less_nat_alt unat_eq_0)
  show ?thesis
    by (rule hwq_find_head_exact [of 1]) (use b z in \<open>auto simp: demo_hwq_def\<close>)
qed


definition demo_thread :: thread where
  "demo_thread = \<lparr>th_active = False, th_tid = 1, th_core = 0, at_idx = 0, ts_idx = 0,
     qptrs = \<lparr>rq_head = 0, rq_tail = 0, oldest_tsc = 0\<rparr>, rxq = \<lparr>send_head = 3, send_tail = 0, out_size = 8\<rparr>,
     rxq_shm = \<lparr>tbl = \<lambda>_. \<lparr>msg_cmd = 0, msg_payload = 0\<rparr>, recv_head_wb = 1\<rparr>, last_rq_head = 0, last_rq_tail = 0,
     last_rxq_head = 0, last_rxq_tail = 0, rxq_busy_since = UINT64_MAX, qdelay = 0, directpath_hwq = demo_hwq\<lparr>h_enabled := False\<rparr>,
     storage_hwq = demo_hwq\<lparr>h_enabled := False\<rparr>, next_tsc = 0, cxltp_waiters = None\<rparr>"


end
