(* ===== verification/Iosched.thy ===== *)
theory Iosched
  imports Iok_Delay Ksched
begin

text \<open>
  The scheduler core of the scheduler process (\<^verbatim>\<open>iokernel/sched.c\<close>): which kthread of which runtime
  runs on which core, and the requests that make it so. A thread is named by its process and its
  index in \<^verbatim>\<open>p->threads\<close>. The state is an extensible record; a scheduling policy adds its own fields
  and is passed to \<open>sched_poll\<close> as its table of operations \<^verbatim>\<open>sched_ops\<close>. A failing \<^verbatim>\<open>BUG_ON\<close> and an
  index below zero are \<open>None\<close>.
\<close>

section \<open>State\<close>

type_synonym tref = "nat \<times> nat"

definition UINT_MAX :: nat where "UINT_MAX = 2 ^ 32 - 1"
definition IOKERNEL_POLL_INTERVAL :: u64 where "IOKERNEL_POLL_INTERVAL = 6"

record sched_spec =
  priority :: u32
  max_cores :: u32
  guaranteed_cores :: u32
  preferred_socket :: u32
  cfg_qdelay_us :: u64
  ht_punish_us :: u64

definition SCHED_PRIO_LC :: u32 where "SCHED_PRIO_LC = 0"

record proc =
  has_directpath :: bool
  kill :: bool
  attach_fail :: bool
  p_ref :: int
  sched_cfg :: sched_spec
  flow_tbl :: "nat \<Rightarrow> nat"
  thread_count :: nat
  active_thread_count :: nat
  threads :: "nat \<Rightarrow> thread"
  active_threads :: "nat \<Rightarrow> nat"
  idle_threads :: "nat list"
  avg_delay_tsc :: u64
  kthread_yield_requested :: nat

record core_state =
  pending_th :: "tref option"
  cur_th :: "tref option"
  c_idle :: bool
  c_pending :: bool
  c_wait :: bool

record iosys =
  procs :: "nat \<Rightarrow> proc"
  cstate :: "nat \<Rightarrow> core_state"
  ks :: ksched
  sched_allowed_cores :: bitmap
  sched_siblings :: "nat \<Rightarrow> nat"
  sched_cores_tbl :: "nat list"
  sched_siblings_tbl :: "nat list"
  sched_ctrl_core :: nat
  sched_dp_core :: nat
  socket_cores :: "nat \<Rightarrow> bitmap"
  cur_tsc :: u64
  last_time :: u64
  clients :: "nat list"
  released :: "nat list"

abbreviation upd_proc :: "nat \<Rightarrow> proc \<Rightarrow> 'a iosys_scheme \<Rightarrow> 'a iosys_scheme" where
  "upd_proc p x s \<equiv> s\<lparr>procs := (procs s)(p := x)\<rparr>"

abbreviation upd_core :: "nat \<Rightarrow> core_state \<Rightarrow> 'a iosys_scheme \<Rightarrow> 'a iosys_scheme" where
  "upd_core c x s \<equiv> s\<lparr>cstate := (cstate s)(c := x)\<rparr>"

definition the_thread :: "tref \<Rightarrow> 'a iosys_scheme \<Rightarrow> thread" where
  "the_thread th s = threads (procs s (fst th)) (snd th)"

section \<open>Flow steering\<close>

fun steer_rest :: "proc \<Rightarrow> nat list \<Rightarrow> nat \<Rightarrow> (nat \<Rightarrow> nat) \<Rightarrow> (nat \<Rightarrow> nat)" where
  "steer_rest p [] j f = f"
| "steer_rest p (i # is) j f =
     (if f i \<noteq> UINT_MAX then steer_rest p is j f
      else steer_rest p is (j + 1) (f(i := active_threads p (j mod active_thread_count p))))"

definition sched_steer_flows :: "proc \<Rightarrow> proc" where
  "sched_steer_flows p =
     (if active_thread_count p = 0 then p
      else let f = fold (\<lambda>i f. f(active_threads p i := active_threads p i)) [0..<active_thread_count p] (\<lambda>_. UINT_MAX)
           in p\<lparr>flow_tbl := steer_rest p [0..<thread_count p] 0 f\<rparr>)"

section \<open>Enabling and disabling kthreads\<close>

abbreviation upd_thread :: "nat \<Rightarrow> thread \<Rightarrow> proc \<Rightarrow> proc" where
  "upd_thread i x p \<equiv> p\<lparr>threads := (threads p)(i := x)\<rparr>"

definition sched_enable_kthread :: "nat \<Rightarrow> nat \<Rightarrow> proc \<Rightarrow> proc" where
  "sched_enable_kthread i core p =
     (let p = upd_thread i ((threads p i)\<lparr>th_active := True, th_core := core\<rparr>) p;
          p = p\<lparr>idle_threads := remove1 i (idle_threads p)\<rparr>;
          p = upd_thread i ((threads p i)\<lparr>at_idx := active_thread_count p\<rparr>) p;
          p = p\<lparr>active_threads := (active_threads p)(active_thread_count p := i), active_thread_count := active_thread_count p + 1\<rparr>
      in sched_steer_flows p)"

definition sched_disable_kthread :: "nat \<Rightarrow> proc \<Rightarrow> proc option" where
  "sched_disable_kthread i p =
     (if active_thread_count p = 0 then None
      else let p = upd_thread i ((threads p i)\<lparr>th_active := False\<rparr>) p;
               a = at_idx (threads p i);
               n = active_thread_count p - 1;
               p = p\<lparr>active_thread_count := n, active_threads := (active_threads p)(a := active_threads p n)\<rparr>;
               l = active_threads p a;
               p = upd_thread l ((threads p l)\<lparr>at_idx := a\<rparr>) p;
               p = p\<lparr>idle_threads := i # idle_threads p\<rparr>
           in Some (sched_steer_flows p))"

definition proc_get :: "nat \<Rightarrow> 'a iosys_scheme \<Rightarrow> 'a iosys_scheme" where
  "proc_get p s = upd_proc p ((procs s p)\<lparr>p_ref := p_ref (procs s p) + 1\<rparr>) s"

text \<open>\<open>released\<close> records the calls of \<^verbatim>\<open>proc_release\<close>, which tells the control plane.\<close>

definition proc_put :: "nat \<Rightarrow> 'a iosys_scheme \<Rightarrow> 'a iosys_scheme" where
  "proc_put p s =
     (let s = upd_proc p ((procs s p)\<lparr>p_ref := p_ref (procs s p) - 1\<rparr>) s
      in if p_ref (procs s p) = 0 then s\<lparr>released := released s @ [p]\<rparr> else s)"

text \<open>The pair of calls that takes a kthread off its core.\<close>

definition drop_kthread :: "tref \<Rightarrow> 'a iosys_scheme \<Rightarrow> 'a iosys_scheme option" where
  "drop_kthread th s =
     do {
       p \<leftarrow> sched_disable_kthread (snd th) (procs s (fst th));
       Some (proc_put (fst th) (upd_proc (fst th) p s))
     }"

definition drop_opt :: "tref option \<Rightarrow> 'a iosys_scheme \<Rightarrow> 'a iosys_scheme option" where
  "drop_opt th s = (case th of None \<Rightarrow> Some s | Some t \<Rightarrow> drop_kthread t s)"

definition sched_pick_kthread :: "nat \<Rightarrow> nat \<Rightarrow> 'a iosys_scheme \<Rightarrow> nat option" where
  "sched_pick_kthread p core s =
     (let pr = procs s p
      in case find (\<lambda>i. th_core (threads pr i) = core) (idle_threads pr) of
           Some i \<Rightarrow> Some i
         | None \<Rightarrow>
             (case find (\<lambda>i. th_core (threads pr i) = sched_siblings s core) (idle_threads pr) of
                Some i \<Rightarrow> Some i
              | None \<Rightarrow> if idle_threads pr = [] then None else Some (last (idle_threads pr))))"

section \<open>Running a kthread on a core\<close>

definition tid_of :: "tref option \<Rightarrow> 'a iosys_scheme \<Rightarrow> int" where
  "tid_of th s = (case th of None \<Rightarrow> 0 | Some t \<Rightarrow> th_tid (the_thread t s))"

definition sched_run :: "nat \<Rightarrow> tref option \<Rightarrow> 'a iosys_scheme \<Rightarrow> 'a iosys_scheme option" where
  "sched_run core th s =
     (if c_wait (cstate s core) then
        do {
          s \<leftarrow> drop_opt (pending_th (cstate s core)) s;
          Some (upd_core core ((cstate s core)\<lparr>pending_th := th, c_pending := True\<rparr>) s)
        }
      else do {
        k \<leftarrow> (if \<not> c_idle (cstate s core) \<and> cur_th (cstate s core) \<noteq> None
              then ksched_enqueue_intr core KSCHED_INTR_CEDE (ks s) else Some (ks s));
        let s = s\<lparr>ks := ksched_run core (tid_of th s) k\<rparr>;
        s \<leftarrow> drop_opt (cur_th (cstate s core)) s;
        Some (upd_core core ((cstate s core)\<lparr>cur_th := th, c_wait := True, c_idle := False\<rparr>) s)
      })"

definition sched_run_on_core :: "nat \<Rightarrow> nat \<Rightarrow> nat \<Rightarrow> 'a iosys_scheme \<Rightarrow> (ret \<times> 'a iosys_scheme) option" where
  "sched_run_on_core nc p core s =
     (if idle_threads (procs s p) = [] \<or> nc \<le> core \<or> \<not> bitmap_test (sched_allowed_cores s) core then Some (Err EINVAL, s)
      else case sched_pick_kthread p core s of
             None \<Rightarrow> Some (Err ENOENT, s)
           | Some i \<Rightarrow> do {
               let s = proc_get p s;
               let s = upd_proc p (sched_enable_kthread i core (procs s p)) s;
               s \<leftarrow> sched_run core (Some (p, i)) s;
               Some (Ok, s)
             })"

definition sched_idle_on_core :: "nat \<Rightarrow> nat \<Rightarrow> nat \<Rightarrow> 'a iosys_scheme \<Rightarrow> (ret \<times> 'a iosys_scheme) option" where
  "sched_idle_on_core nc hint core s =
     (if nc \<le> core \<or> \<not> bitmap_test (sched_allowed_cores s) core then Some (Err EINVAL, s)
      else do {
        s \<leftarrow> sched_run core None (s\<lparr>ks := ksched_idle_hint core hint (ks s)\<rparr>);
        Some (Ok, s)
      })"

definition sched_get_thread_on_core :: "nat \<Rightarrow> 'a iosys_scheme \<Rightarrow> tref option" where
  "sched_get_thread_on_core core s =
     (if c_pending (cstate s core) then pending_th (cstate s core) else cur_th (cstate s core))"

definition sched_threads_active :: "nat \<Rightarrow> 'a iosys_scheme \<Rightarrow> nat" where
  "sched_threads_active p s = active_thread_count (procs s p)"

definition sched_threads_avail :: "nat \<Rightarrow> 'a iosys_scheme \<Rightarrow> int" where
  "sched_threads_avail p s = int (thread_count (procs s p)) - int (active_thread_count (procs s p))"

section \<open>Polling\<close>

text \<open>
  A kthread that parked with packets or completions pending is woken again at once. The flag says
  whether the call returned 0.
\<close>

definition sched_try_fast_rewake :: "tref \<Rightarrow> 'a iosys_scheme \<Rightarrow> bool \<times> 'a iosys_scheme" where
  "sched_try_fast_rewake th s =
     (let t = the_thread th s;
          (tail, ch) = lrpc_poll_send_tail (rxq_shm t) (rxq t);
          t = t\<lparr>rxq := ch\<rparr>;
          s = upd_proc (fst th) (upd_thread (snd th) t (procs s (fst th))) s;
          pend = (send_head ch \<noteq> tail \<or>
            (\<exists>h \<in> set [directpath_hwq t, storage_hwq t]. h_enabled h \<and> hwq_busy h (consumer_idx h)))
      in if pend
         then (True, upd_core (th_core t) ((cstate s (th_core t))\<lparr>c_wait := True\<rparr>)
                 (s\<lparr>ks := ksched_run (th_core t) (th_tid t) (ks s)\<rparr>))
         else (False, s))"

text \<open>The two checks of the fast pass for one core.\<close>

definition poll_done :: "nat \<Rightarrow> 'a iosys_scheme \<Rightarrow> 'a iosys_scheme option" where
  "poll_done core s =
     (if c_wait (cstate s core) \<and> ksched_poll_run_done core (ks s) then
        if c_pending (cstate s core) then
          do {
            let th = pending_th (cstate s core);
            let s = upd_core core ((cstate s core)\<lparr>pending_th := None, c_pending := False\<rparr>) s;
            k \<leftarrow> ksched_enqueue_intr core KSCHED_INTR_CEDE (ks s);
            let s = s\<lparr>ks := ksched_run core (tid_of th s) k\<rparr>;
            s \<leftarrow> drop_opt (cur_th (cstate s core)) s;
            Some (upd_core core ((cstate s core)\<lparr>cur_th := th\<rparr>) s)
          }
        else Some (upd_core core ((cstate s core)\<lparr>c_wait := False\<rparr>) s)
      else Some s)"

definition set_idle :: "nat \<Rightarrow> 'a iosys_scheme \<Rightarrow> 'a iosys_scheme" where
  "set_idle core s = upd_core core ((cstate s core)\<lparr>c_idle := True\<rparr>) s"

definition poll_idle :: "nat \<Rightarrow> 'a iosys_scheme \<Rightarrow> (bool \<times> 'a iosys_scheme) option" where
  "poll_idle core s =
     (if \<not> c_wait (cstate s core) \<and> \<not> c_idle (cstate s core) \<and> ksched_poll_idle core (ks s) then
        case cur_th (cstate s core) of
          None \<Rightarrow> Some (True, set_idle core s)
        | Some th \<Rightarrow>
            (let (again, s) = sched_try_fast_rewake th s
             in if again then Some (False, s)
                else do {
                  s \<leftarrow> drop_kthread th s;
                  let s = upd_core core ((cstate s core)\<lparr>cur_th := None\<rparr>) s;
                  Some (True, set_idle core s)
                })
      else Some (False, s))"

fun fast_pass :: "nat list \<Rightarrow> bitmap \<Rightarrow> nat \<Rightarrow> 'a iosys_scheme \<Rightarrow> (bitmap \<times> nat \<times> 'a iosys_scheme) option" where
  "fast_pass [] idle cnt s = Some (idle, cnt, s)"
| "fast_pass (core # cs) idle cnt s =
     do {
       s \<leftarrow> poll_done core s;
       (went, s) \<leftarrow> poll_idle core s;
       if went then fast_pass cs (bitmap_set idle core) (cnt + 1) s else fast_pass cs idle cnt s
     }"

section \<open>Policies and the measurement of congestion\<close>

text \<open>The table \<^verbatim>\<open>sched_ops\<close> of a policy, over the state \<open>'s\<close>.\<close>

record 's sched_ops =
  op_attach :: "nat \<Rightarrow> 's \<Rightarrow> (ret \<times> 's) option"
  op_detach :: "nat \<Rightarrow> 's \<Rightarrow> 's option"
  notify_congested :: "nat \<Rightarrow> bool \<Rightarrow> u64 \<Rightarrow> bool \<Rightarrow> 's \<Rightarrow> 's option"
  notify_core_needed :: "nat \<Rightarrow> 's \<Rightarrow> (ret \<times> 's) option"
  op_sched_poll :: "u64 \<Rightarrow> nat \<Rightarrow> bitmap \<Rightarrow> 's \<Rightarrow> 's option"

record measured =
  m_hdelay :: u64
  m_total :: u64
  m_busy :: bool
  m_parked_busy :: bool
  m_min_delay :: u64
  m_min_id :: nat

fun measure_loop :: "(nat \<Rightarrow> bool) \<Rightarrow> u64 \<Rightarrow> u64 \<Rightarrow> nat list \<Rightarrow> measured \<Rightarrow> proc \<Rightarrow> measured \<times> proc" where
  "measure_loop lock cyc now [] m p = (m, p)"
| "measure_loop lock cyc now (i # is) m p =
     (let (busy, d, th) = sched_measure_kthread_delay (lock i) cyc now (threads p i);
          delay = rxq_tsc d + uthread_tsc d + storage_tsc d + timer_tsc d + cxltp_alive d;
          m = m\<lparr>m_busy := m_busy m \<or> busy, m_hdelay := max delay (m_hdelay m),
                m_parked_busy := m_parked_busy m \<or> 0 < delay \<and> \<not> th_active th\<rparr>;
          p = upd_thread i (th\<lparr>qdelay := delay\<rparr>) p;
          m = (if th_active th \<and> delay < m_min_delay m then m\<lparr>m_min_delay := delay, m_min_id := i\<rparr> else m);
          m = m\<lparr>m_total := m_total m + delay\<rparr>
      in measure_loop lock cyc now is m p)"

definition sched_measure_delay ::
  "'a iosys_scheme sched_ops \<Rightarrow> (nat \<Rightarrow> bool) \<Rightarrow> u64 \<Rightarrow> nat \<Rightarrow> 'a iosys_scheme \<Rightarrow> 'a iosys_scheme option" where
  "sched_measure_delay ops lock cyc p s =
     do {
       let m0 = \<lparr>m_hdelay = 0, m_total = 0, m_busy = False, m_parked_busy = False, m_min_delay = UINT64_MAX, m_min_id = 0\<rparr>;
       let (m, pr) = measure_loop lock cyc (cur_tsc s) [0..<thread_count (procs s p)] m0 (procs s p);
       let total = (if 0 < active_thread_count pr then m_total m div of_nat (active_thread_count pr) else m_total m);
       let s = upd_proc p (pr\<lparr>avg_delay_tsc := total\<rparr>) s;
       s \<leftarrow> notify_congested ops p (m_busy m) (m_hdelay m div cyc) (m_parked_busy m) s;
       Some (upd_proc p ((procs s p)\<lparr>kthread_yield_requested :=
               (if priority (sched_cfg (procs s p)) = SCHED_PRIO_LC then m_min_id m else UINT_MAX)\<rparr>) s)
     }"

definition sched_add_core :: "'a iosys_scheme sched_ops \<Rightarrow> nat \<Rightarrow> 'a iosys_scheme \<Rightarrow> (ret \<times> 'a iosys_scheme) option" where
  "sched_add_core ops p s = notify_core_needed ops p s"

fun detect_loop :: "'a iosys_scheme sched_ops \<Rightarrow> nat \<Rightarrow> nat list \<Rightarrow> 'a iosys_scheme \<Rightarrow> 'a iosys_scheme option" where
  "detect_loop ops p [] s = Some s"
| "detect_loop ops p (i # is) s =
     (let th = threads (procs s p) i;
          (b, h) = sched_measure_hardware_delay (cur_tsc s) (th_active th) False (directpath_hwq th);
          s = upd_proc p (upd_thread i (th\<lparr>directpath_hwq := h\<rparr>) (procs s p)) s
      in if b then map_option snd (sched_add_core ops p s) else detect_loop ops p is s)"

definition sched_detect_io_for_idle_runtime :: "'a iosys_scheme sched_ops \<Rightarrow> nat \<Rightarrow> 'a iosys_scheme \<Rightarrow> 'a iosys_scheme option" where
  "sched_detect_io_for_idle_runtime ops p s = detect_loop ops p [0..<thread_count (procs s p)] s"

fun over_clients :: "(nat \<Rightarrow> 's \<Rightarrow> 's option) \<Rightarrow> nat list \<Rightarrow> 's \<Rightarrow> 's option" where
  "over_clients f [] s = Some s"
| "over_clients f (p # ps) s = do { s \<leftarrow> f p s; over_clients f ps s }"

text \<open>
  \<open>tsc\<close> and \<open>start_tsc\<close> are the values of the clock, \<open>lock p i\<close> whether the queue of remote waiters
  of a kthread can be locked; the list is what \<^verbatim>\<open>_senduipi\<close> sends.
\<close>

definition sched_poll ::
  "nat \<Rightarrow> 'a iosys_scheme sched_ops \<Rightarrow> (nat \<Rightarrow> nat \<Rightarrow> bool) \<Rightarrow> u64 \<Rightarrow> u64 \<Rightarrow> u64 \<Rightarrow> 'a iosys_scheme \<Rightarrow>
    (int list \<times> 'a iosys_scheme) option" where
  "sched_poll nc ops lock tsc start_tsc cyc s =
     do {
       let s = s\<lparr>cur_tsc := tsc\<rparr>;
       let now = (tsc - start_tsc) div cyc;
       s \<leftarrow> (if IOKERNEL_POLL_INTERVAL \<le> now - last_time s
             then over_clients (\<lambda>p. sched_measure_delay ops (lock p) cyc p) (clients s) (s\<lparr>last_time := now\<rparr>)
             else over_clients (\<lambda>p s. if has_directpath (procs s p) \<and> sched_threads_active p s = 0
                                      then sched_detect_io_for_idle_runtime ops p s else Some s) (clients s) s);
       (idle, cnt, s) \<leftarrow> fast_pass (sched_cores_tbl s) (bitmap_init (\<lambda>_. 0) nc False) 0 s;
       s \<leftarrow> op_sched_poll ops now cnt idle s;
       let (sent, k) = ksched_send_intrs nc (ks s);
       Some (sent, s\<lparr>ks := k\<rparr>)
     }"

section \<open>Attaching and detaching runtimes\<close>

fun reset_threads :: "nat list \<Rightarrow> proc \<Rightarrow> proc" where
  "reset_threads [] p = p"
| "reset_threads (i # is) p =
     reset_threads is ((upd_thread i ((threads p i)\<lparr>th_core := UINT_MAX, th_active := False\<rparr>) p)
       \<lparr>idle_threads := idle_threads p @ [i]\<rparr>)"

definition sched_attach_proc :: "'a iosys_scheme sched_ops \<Rightarrow> nat \<Rightarrow> 'a iosys_scheme \<Rightarrow> (ret \<times> 'a iosys_scheme) option" where
  "sched_attach_proc ops p s =
     (let pr = (procs s p)\<lparr>active_thread_count := 0, idle_threads := []\<rparr>;
          pr = reset_threads [0..<thread_count pr] pr
      in op_attach ops p (upd_proc p pr s))"

definition sched_detach_proc :: "'a iosys_scheme sched_ops \<Rightarrow> nat \<Rightarrow> 'a iosys_scheme \<Rightarrow> 'a iosys_scheme option" where
  "sched_detach_proc ops p s = op_detach ops p s"

definition dp_clients_add_client :: "'a iosys_scheme sched_ops \<Rightarrow> nat \<Rightarrow> 'a iosys_scheme \<Rightarrow> 'a iosys_scheme option" where
  "dp_clients_add_client ops p s =
     do {
       (r, s) \<leftarrow> sched_attach_proc ops p s;
       if r = Ok then Some ((upd_proc p ((procs s p)\<lparr>kill := False\<rparr>) s)\<lparr>clients := clients s @ [p]\<rparr>)
       else Some (proc_put p (upd_proc p ((procs s p)\<lparr>attach_fail := True\<rparr>) s))
     }"

text \<open>The last client takes the place of the one that leaves.\<close>

definition dp_clients_remove_client :: "'a iosys_scheme sched_ops \<Rightarrow> nat \<Rightarrow> 'a iosys_scheme \<Rightarrow> 'a iosys_scheme option" where
  "dp_clients_remove_client ops p s =
     (let cl = clients s;
          i = length (takeWhile (\<lambda>c. c \<noteq> p) cl)
      in if i = length cl then Some s
         else do {
           let s = s\<lparr>clients := butlast (cl[i := last cl])\<rparr>;
           s \<leftarrow> sched_detach_proc ops p (upd_proc p ((procs s p)\<lparr>kill := True\<rparr>) s);
           Some (proc_put p s)
         })"

definition DATAPLANE_ADD_CLIENT :: u64 where "DATAPLANE_ADD_CLIENT = 0"
definition DATAPLANE_REMOVE_CLIENT :: u64 where "DATAPLANE_REMOVE_CLIENT = 1"
definition IOKERNEL_CONTROL_BURST_SIZE :: nat where "IOKERNEL_CONTROL_BURST_SIZE = 4"

text \<open>\<open>reg c\<close>: what registering the two interrupt senders of core \<open>c\<close> returns.\<close>

fun set_all_ops :: "(nat \<Rightarrow> int \<times> int) \<Rightarrow> nat list \<Rightarrow> ksched \<Rightarrow> ksched option" where
  "set_all_ops reg [] k = Some k"
| "set_all_ops reg (c # cs) k = do { k \<leftarrow> set_ops (fst (reg c)) (snd (reg c)) c k; set_all_ops reg cs k }"

definition control_cmd :: "'a iosys_scheme sched_ops \<Rightarrow> (nat \<Rightarrow> int \<times> int) \<Rightarrow> u64 \<Rightarrow> u64 \<Rightarrow> 'a iosys_scheme \<Rightarrow> 'a iosys_scheme option" where
  "control_cmd ops reg cmd payload s =
     (if cmd = DATAPLANE_ADD_CLIENT then do {
        s \<leftarrow> dp_clients_add_client ops (unat payload) s;
        k \<leftarrow> set_all_ops reg (sched_cores_tbl s) (ks s);
        Some (s\<lparr>ks := k\<rparr>)
      }
      else if cmd = DATAPLANE_REMOVE_CLIENT then dp_clients_remove_client ops (unat payload) s
      else Some s)"

fun rx_control :: "nat \<Rightarrow> 'a iosys_scheme sched_ops \<Rightarrow> (nat \<Rightarrow> int \<times> int) \<Rightarrow> lrpc_shm \<Rightarrow> lrpc_chan_in \<Rightarrow> 'a iosys_scheme \<Rightarrow>
    (lrpc_shm \<times> lrpc_chan_in \<times> 'a iosys_scheme) option" where
  "rx_control 0 ops reg shm ch s = Some (shm, ch, s)"
| "rx_control (Suc n) ops reg shm ch s =
     (case lrpc_recv shm ch of
        (None, shm, ch) \<Rightarrow> Some (shm, ch, s)
      | (Some (cmd, payload), shm, ch) \<Rightarrow> do {
          s \<leftarrow> control_cmd ops reg cmd payload s;
          rx_control n ops reg shm ch s
        })"

definition dp_clients_rx_control_lrpcs :: "'a iosys_scheme sched_ops \<Rightarrow> (nat \<Rightarrow> int \<times> int) \<Rightarrow> lrpc_shm \<Rightarrow> lrpc_chan_in \<Rightarrow> 'a iosys_scheme \<Rightarrow>
    (lrpc_shm \<times> lrpc_chan_in \<times> 'a iosys_scheme) option" where
  "dp_clients_rx_control_lrpcs ops reg shm ch s = rx_control IOKERNEL_CONTROL_BURST_SIZE ops reg shm ch s"

section \<open>Choosing the cores\<close>

text \<open>An entry of \<^verbatim>\<open>iokernel_cpu_info_tbl\<close>.\<close>

record cpu_entry =
  thread_siblings_mask :: bitmap
  package :: int

fun scan_node_loop :: "nat \<Rightarrow> (nat \<Rightarrow> cpu_entry) \<Rightarrow> nat \<Rightarrow> nat list \<Rightarrow> bool \<Rightarrow> 'a iosys_scheme \<Rightarrow> bool \<times> 'a iosys_scheme" where
  "scan_node_loop nc tab node [] ok s = (ok, s)"
| "scan_node_loop nc tab node (i # is) ok s =
     (if package (tab i) \<noteq> int node then scan_node_loop nc tab node is ok s
      else let m = thread_siblings_mask (tab i);
               s = s\<lparr>socket_cores := (socket_cores s)(node := bitmap_set (socket_cores s node) i)\<rparr>;
               sib = bitmap_find_next_set m nc 0;
               sib = (if sib = i then bitmap_find_next_set m nc (sib + 1) else sib)
           in scan_node_loop nc tab node is (ok \<and> bitmap_popcount m nc = 2)
                (s\<lparr>sched_siblings := (sched_siblings s)(i := sib)\<rparr>))"

definition sched_scan_node :: "nat \<Rightarrow> nat \<Rightarrow> (nat \<Rightarrow> cpu_entry) \<Rightarrow> nat \<Rightarrow> 'a iosys_scheme \<Rightarrow> bool \<times> 'a iosys_scheme" where
  "sched_scan_node nc cpu_count tab node s = scan_node_loop nc tab node [0..<cpu_count] True s"

fun scan_nodes :: "nat \<Rightarrow> nat \<Rightarrow> (nat \<Rightarrow> cpu_entry) \<Rightarrow> nat list \<Rightarrow> bool \<Rightarrow> 'a iosys_scheme \<Rightarrow> bool \<times> 'a iosys_scheme" where
  "scan_nodes nc cpu_count tab [] ok s = (ok, s)"
| "scan_nodes nc cpu_count tab (n # ns) ok s =
     (let (r, s) = sched_scan_node nc cpu_count tab n s in scan_nodes nc cpu_count tab ns (ok \<and> r) s)"

fun sibling_table :: "(nat \<Rightarrow> nat) \<Rightarrow> nat list \<Rightarrow> nat list \<Rightarrow> nat list" where
  "sibling_table sib [] tab = tab"
| "sibling_table sib (i # is) tab =
     (if \<exists>c \<in> set tab. sib c = i then sibling_table sib is tab else sibling_table sib is (tab @ [i]))"

text \<open>The loop that drops the second hyperthread of every core still allowed.\<close>

fun drop_siblings :: "(nat \<Rightarrow> nat) \<Rightarrow> nat list \<Rightarrow> bitmap \<Rightarrow> bitmap" where
  "drop_siblings sib [] b = b"
| "drop_siblings sib (i # is) b =
     (if \<not> bitmap_test b i then drop_siblings sib is b else drop_siblings sib is (bitmap_clear b (sib i)))"

text \<open>
  \<open>numa\<close>: whether the policy is \<^verbatim>\<open>numa_ops\<close>; \<open>inp\<close>: the cores given on the command line, if any. The
  tables of a first call start empty.
\<close>

definition sched_init ::
  "nat \<Rightarrow> nat \<Rightarrow> nat \<Rightarrow> (nat \<Rightarrow> cpu_entry) \<Rightarrow> bool \<Rightarrow> bitmap option \<Rightarrow> bool \<Rightarrow> 'a iosys_scheme \<Rightarrow> ret \<times> 'a iosys_scheme" where
  "sched_init nc cpu_count numa_count tab numa inp noht s =
     (let allowed = bitmap_init (sched_allowed_cores s) cpu_count False;
          (valid, s) = scan_nodes nc cpu_count tab [0..<numa_count] True s
      in if \<not> valid then (Err EINVAL, s\<lparr>sched_allowed_cores := allowed\<rparr>)
         else let allowed = fold (\<lambda>i b. if package (tab i) = - 1 \<and> \<not> numa then b
                  else if (case inp of None \<Rightarrow> False | Some m \<Rightarrow> \<not> bitmap_test m i) then b
                  else bitmap_set b i) [0..<cpu_count] allowed
              in if bitmap_popcount allowed nc < 4 then (Err EINVAL, s\<lparr>sched_allowed_cores := allowed\<rparr>)
                 else let ctrl = bitmap_find_next_set allowed nc 0;
                          dp = (if noht then bitmap_find_next_set allowed nc (ctrl + 1) else sched_siblings s ctrl);
                          allowed = bitmap_clear (bitmap_clear allowed ctrl) dp;
                          allowed = (if noht then drop_siblings (sched_siblings s) [0..<nc] allowed else allowed);
                          cores = positions_set allowed nc 0
                      in (Ok, s\<lparr>sched_allowed_cores := allowed, sched_ctrl_core := ctrl, sched_dp_core := dp,
                            sched_cores_tbl := cores, sched_siblings_tbl := sibling_table (sched_siblings s) cores []\<rparr>))"

section \<open>The threads of a process\<close>

text \<open>
  The array of active threads and the index each active thread keeps into it agree, and the idle
  list holds exactly the other threads.
\<close>

definition proc_ok :: "proc \<Rightarrow> bool" where
  "proc_ok p \<longleftrightarrow>
     (\<forall>j < active_thread_count p. active_threads p j < thread_count p \<and> th_active (threads p (active_threads p j)) \<and>
        at_idx (threads p (active_threads p j)) = j) \<and>
     (\<forall>i < thread_count p. th_active (threads p i) \<longrightarrow>
        at_idx (threads p i) < active_thread_count p \<and> active_threads p (at_idx (threads p i)) = i) \<and>
     distinct (idle_threads p) \<and> set (idle_threads p) = {i. i < thread_count p \<and> \<not> th_active (threads p i)}"

lemma steer_frame [simp]:
  "threads (sched_steer_flows p) = threads p" "thread_count (sched_steer_flows p) = thread_count p"
  "active_thread_count (sched_steer_flows p) = active_thread_count p" "active_threads (sched_steer_flows p) = active_threads p"
  "idle_threads (sched_steer_flows p) = idle_threads p" "p_ref (sched_steer_flows p) = p_ref p"
  "sched_cfg (sched_steer_flows p) = sched_cfg p" "kill (sched_steer_flows p) = kill p"
  by (simp_all add: sched_steer_flows_def Let_def)

lemma proc_ok_steer [simp]: "proc_ok (sched_steer_flows p) = proc_ok p"
  by (simp add: proc_ok_def)

lemma proc_ok_idle: "proc_ok p \<Longrightarrow> i \<in> set (idle_threads p) \<Longrightarrow> i < thread_count p \<and> \<not> th_active (threads p i)"
  by (simp add: proc_ok_def)

lemma idle_count:
  assumes ok: "proc_ok p"
  shows "length (idle_threads p) + active_thread_count p = thread_count p"
proof -
  let ?act = "{i. i < thread_count p \<and> th_active (threads p i)}" and ?idle = "{i. i < thread_count p \<and> \<not> th_active (threads p i)}"
  have "bij_betw (active_threads p) {..<active_thread_count p} ?act"
    by (rule bij_betw_byWitness [where f' = "\<lambda>i. at_idx (threads p i)"]) (use ok in \<open>auto simp: proc_ok_def\<close>)
  then have "card ?act = active_thread_count p" using bij_betw_same_card by fastforce
  moreover have "card ?idle = length (idle_threads p)" using ok distinct_card [of "idle_threads p"] by (simp add: proc_ok_def)
  moreover have "card ?idle + card ?act = card (?idle \<union> ?act)" by (rule card_Un_disjoint [symmetric]) auto
  moreover have "?idle \<union> ?act = {..<thread_count p}" by auto
  ultimately show ?thesis by simp
qed

lemma proc_ok_enable:
  assumes ok: "proc_ok p" and i: "i \<in> set (idle_threads p)"
  shows "proc_ok (sched_enable_kthread i core p)"
proof -
  have d: "i < thread_count p" "\<not> th_active (threads p i)" using proc_ok_idle [OF ok i] by simp_all
  have a: "active_threads p j \<noteq> i" if "j < active_thread_count p" for j using ok d that by (auto simp: proc_ok_def)
  show ?thesis
    using ok d a unfolding sched_enable_kthread_def Let_def proc_ok_steer
    by (auto simp: proc_ok_def less_Suc_eq)
qed

lemma disable_shape:
  assumes "sched_disable_kthread i p = Some p'"
  shows "thread_count p' = thread_count p \<and> p_ref p' = p_ref p \<and> sched_cfg p' = sched_cfg p \<and> kill p' = kill p \<and>
    active_thread_count p = Suc (active_thread_count p') \<and>
    (\<forall>j. th_core (threads p' j) = th_core (threads p j)) \<and> (\<forall>j. th_tid (threads p' j) = th_tid (threads p j)) \<and>
    (\<forall>j. th_active (threads p' j) \<longleftrightarrow> j \<noteq> i \<and> th_active (threads p j))"
  using assms by (auto simp: sched_disable_kthread_def Let_def split: if_splits)

lemma proc_ok_disable:
  assumes ok: "proc_ok p" and i: "i < thread_count p" "th_active (threads p i)"
  shows "\<exists>p'. sched_disable_kthread i p = Some p' \<and> proc_ok p'"
proof -
  let ?n = "active_thread_count p - 1" and ?a = "at_idx (threads p i)"
  have a: "?a < active_thread_count p" "active_threads p ?a = i" using ok i by (auto simp: proc_ok_def)
  let ?l = "active_threads p ?n"
  have n: "?n < active_thread_count p" using a by simp
  have l: "?l < thread_count p" "th_active (threads p ?l)" "at_idx (threads p ?l) = ?n" using ok n by (auto simp: proc_ok_def)
  have inj: "active_threads p j = active_threads p k \<Longrightarrow> j = k" if "j < active_thread_count p" "k < active_thread_count p" for j k
    using ok that unfolding proc_ok_def by metis
  define q where "q = p\<lparr>active_thread_count := ?n, active_threads := (active_threads p)(?a := ?l),
      threads := (threads p)(i := (threads p i)\<lparr>th_active := False\<rparr>,
        ?l := (if ?l = i then (threads p i)\<lparr>th_active := False\<rparr> else threads p ?l)\<lparr>at_idx := ?a\<rparr>),
      idle_threads := i # idle_threads p\<rparr>"
  have "sched_disable_kthread i p = Some (sched_steer_flows q)"
    using a by (auto simp: sched_disable_kthread_def Let_def q_def)
  moreover have "proc_ok q"
    unfolding proc_ok_def
  proof (intro conjI)
    have other: "active_threads p j \<noteq> i \<and> active_threads p j \<noteq> ?l" if "j < ?n" "j \<noteq> ?a" for j
      using inj [of j ?a] inj [of j ?n] that a n by auto
    show "\<forall>j < active_thread_count q. active_threads q j < thread_count q \<and> th_active (threads q (active_threads q j)) \<and>
        at_idx (threads q (active_threads q j)) = j"
      using ok other l a n inj [of ?a ?n] by (auto simp: q_def proc_ok_def)
    show "\<forall>j < thread_count q. th_active (threads q j) \<longrightarrow>
        at_idx (threads q j) < active_thread_count q \<and> active_threads q (at_idx (threads q j)) = j"
    proof (intro allI impI)
      fix j
      assume j: "j < thread_count q" "th_active (threads q j)"
      then have ne: "j \<noteq> i" "th_active (threads p j)" by (auto simp: q_def split: if_splits)
      have jj: "at_idx (threads p j) < active_thread_count p" "active_threads p (at_idx (threads p j)) = j"
        using ok j ne by (auto simp: proc_ok_def q_def)
      show "at_idx (threads q j) < active_thread_count q \<and> active_threads q (at_idx (threads q j)) = j"
      proof (cases "j = ?l")
        case True
        then have "?a \<noteq> ?n" using a ne by auto
        with True a ne show ?thesis by (auto simp: q_def)
      next
        case False
        then have "at_idx (threads p j) \<noteq> ?n" "at_idx (threads p j) \<noteq> ?a" using jj ne a by auto
        with False ne jj show ?thesis by (auto simp: q_def)
      qed
    qed
    show "distinct (idle_threads q)" "set (idle_threads q) = {j. j < thread_count q \<and> \<not> th_active (threads q j)}"
      using ok i l by (auto simp: q_def proc_ok_def)
  qed
  ultimately show ?thesis by auto
qed

section \<open>Which core has which kthread\<close>

definition held :: "core_state \<Rightarrow> tref list" where
  "held c = opt_list (cur_th c) @ opt_list (pending_th c)"

text \<open>
  An active thread is on exactly one core, the one it names, either running or waiting there; the
  reference count of a process covers its active threads. \<open>X\<close> is a thread that has been enabled and
  is not yet on its core.
\<close>

definition pinv :: "tref option \<Rightarrow> (nat \<Rightarrow> proc) \<Rightarrow> (nat \<Rightarrow> core_state) \<Rightarrow> bool" where
  "pinv X P C \<longleftrightarrow>
     (\<forall>p. proc_ok (P p) \<and> int (active_thread_count (P p)) \<le> p_ref (P p)) \<and>
     (\<forall>k. distinct (held (C k))) \<and>
     (\<forall>k p i. (p, i) \<in> set (held (C k)) \<longrightarrow>
        i < thread_count (P p) \<and> th_active (threads (P p) i) \<and> th_core (threads (P p) i) = k \<and> X \<noteq> Some (p, i)) \<and>
     (\<forall>p i. i < thread_count (P p) \<longrightarrow> th_active (threads (P p) i) \<longrightarrow>
        (p, i) \<in> set (held (C (th_core (threads (P p) i)))) \<or> X = Some (p, i))"

definition kinv :: "(nat \<Rightarrow> core_state) \<Rightarrow> ksched \<Rightarrow> bitmap \<Rightarrow> bool" where
  "kinv C K A \<longleftrightarrow> gens_ok K \<and>
     (\<forall>k. (\<not> c_wait (C k) \<longrightarrow> ksched_poll_run_done k K) \<and> (\<not> c_pending (C k) \<longrightarrow> pending_th (C k) = None) \<and>
       (c_pending (C k) \<longrightarrow> c_wait (C k)) \<and> (bitmap_test A k \<longrightarrow> 0 \<le> cede_op K k))"

definition sched_inv :: "'a iosys_scheme \<Rightarrow> bool" where
  "sched_inv s \<longleftrightarrow> pinv None (procs s) (cstate s) \<and> kinv (cstate s) (ks s) (sched_allowed_cores s)"

text \<open>
  What the scheduler core may change of a process: the references that no active thread holds are
  kept.
\<close>

abbreviation slack :: "proc \<Rightarrow> int" where
  "slack p \<equiv> p_ref p - int (active_thread_count p)"

abbreviation keeps :: "proc \<Rightarrow> proc \<Rightarrow> bool" where
  "keeps p q \<equiv> thread_count q = thread_count p \<and> sched_cfg q = sched_cfg p \<and> slack q = slack p"

text \<open>What the scheduler core may change: the policy's own fields are out of its reach.\<close>

definition core_frame :: "'a iosys_scheme \<Rightarrow> 'a iosys_scheme \<Rightarrow> bool" where
  "core_frame s s' \<longleftrightarrow> sched_allowed_cores s' = sched_allowed_cores s \<and> sched_siblings s' = sched_siblings s \<and>
     sched_cores_tbl s' = sched_cores_tbl s \<and> socket_cores s' = socket_cores s \<and> clients s' = clients s \<and>
     iosys.more s' = iosys.more s \<and>
     (\<forall>p. keeps (procs s p) (procs s' p))"

lemma pinvD:
  assumes "pinv X P C"
  shows "proc_ok (P p)" "int (active_thread_count (P p)) \<le> p_ref (P p)" "distinct (held (C k))"
    "(p, i) \<in> set (held (C k)) \<Longrightarrow>
      i < thread_count (P p) \<and> th_active (threads (P p) i) \<and> th_core (threads (P p) i) = k \<and> X \<noteq> Some (p, i)"
    "i < thread_count (P p) \<Longrightarrow> th_active (threads (P p) i) \<Longrightarrow>
      (p, i) \<in> set (held (C (th_core (threads (P p) i)))) \<or> X = Some (p, i)"
  using assms unfolding pinv_def by simp_all

lemma pinv_cong: "pinv X P C \<Longrightarrow> (\<And>k. held (C' k) = held (C k)) \<Longrightarrow> pinv X P C'"
  by (simp add: pinv_def)

lemma pinvI:
  assumes "\<And>p. proc_ok (P p) \<and> int (active_thread_count (P p)) \<le> p_ref (P p)" "\<And>k. distinct (held (C k))"
    "\<And>k p i. (p, i) \<in> set (held (C k)) \<Longrightarrow>
      i < thread_count (P p) \<and> th_active (threads (P p) i) \<and> th_core (threads (P p) i) = k \<and> X \<noteq> Some (p, i)"
    "\<And>p i. i < thread_count (P p) \<Longrightarrow> th_active (threads (P p) i) \<Longrightarrow>
      (p, i) \<in> set (held (C (th_core (threads (P p) i)))) \<or> X = Some (p, i)"
  shows "pinv X P C"
  using assms unfolding pinv_def by blast

lemma released_id: "s\<lparr>procs := P, released := released s\<rparr> = s\<lparr>procs := P\<rparr>"
  by (cases s) simp

lemma drop_pinv:
  assumes inv: "pinv X (procs s) C" and x: "x \<in> set (held (C k))" and h: "held c = remove1 x (held (C k))"
  shows "\<exists>p' R. drop_kthread x s = Some (s\<lparr>procs := (procs s)(fst x := p'), released := R\<rparr>) \<and>
    pinv X ((procs s)(fst x := p')) (C(k := c)) \<and> keeps (procs s (fst x)) p' \<and>
    (\<forall>j. th_core (threads p' j) = th_core (threads (procs s (fst x)) j)) \<and>
    (\<forall>j. th_active (threads p' j) \<longleftrightarrow> j \<noteq> snd x \<and> th_active (threads (procs s (fst x)) j))"
proof -
  obtain p i where pi: "x = (p, i)" by (cases x)
  let ?q = "procs s p"
  have q: "proc_ok ?q" "int (active_thread_count ?q) \<le> p_ref ?q" "i < thread_count ?q" "th_active (threads ?q i)"
    "th_core (threads ?q i) = k" "distinct (held (C k))"
    using pinvD [OF inv, of p] pinvD(3) [OF inv, of k] x pi by auto
  obtain q' where q': "sched_disable_kthread i ?q = Some q'" "proc_ok q'" using proc_ok_disable [OF q(1,3,4)] by blast
  note sh = disable_shape [OF q'(1)]
  let ?p = "q'\<lparr>p_ref := p_ref q' - 1\<rparr>"
  have ok': "proc_ok ?p" using q'(2) by (simp add: proc_ok_def)
  obtain R where R: "drop_kthread x s = Some (s\<lparr>procs := (procs s)(p := ?p), released := R\<rparr>)"
  proof (cases "p_ref q' = 1")
    case True
    with q'(1) show thesis by (intro that [of "released s @ [p]"]) (simp add: drop_kthread_def proc_put_def pi Let_def)
  next
    case False
    with q'(1) show thesis by (intro that [of "released s"]) (simp add: drop_kthread_def proc_put_def pi Let_def released_id)
  qed
  have inv': "pinv X ((procs s)(p := ?p)) (C(k := c))"
  proof (rule pinvI)
    show "proc_ok (((procs s)(p := ?p)) r) \<and> int (active_thread_count (((procs s)(p := ?p)) r)) \<le> p_ref (((procs s)(p := ?p)) r)" for r
      using pinvD(1,2) [OF inv, of r] ok' sh q(2) by auto
    show "distinct (held ((C(k := c)) j))" for j using pinvD(3) [OF inv, of j] q(6) h by auto
    fix r l
    show "l < thread_count (((procs s)(p := ?p)) r) \<and> th_active (threads (((procs s)(p := ?p)) r) l) \<and>
        th_core (threads (((procs s)(p := ?p)) r) l) = j \<and> X \<noteq> Some (r, l)"
      if m: "(r, l) \<in> set (held ((C(k := c)) j))" for j
    proof -
      have "(r, l) \<in> set (held (C j))" "j = k \<Longrightarrow> (r, l) \<noteq> (p, i)"
        using m h q(6) pi by (auto split: if_splits dest: notin_set_remove1)
      moreover have "(r, l) \<noteq> (p, i)" using calculation pinvD(4) [OF inv, of r l j] q(5) by auto
      ultimately show ?thesis using pinvD(4) [OF inv, of r l j] sh by auto
    qed
    assume a: "l < thread_count (((procs s)(p := ?p)) r)" "th_active (threads (((procs s)(p := ?p)) r) l)"
    have ne: "(r, l) \<noteq> (p, i)" using a sh by auto
    have "th_core (threads (((procs s)(p := ?p)) r) l) = th_core (threads (procs s r) l)" using sh by auto
    moreover have "l < thread_count (procs s r)" "th_active (threads (procs s r) l)" using a sh by (auto split: if_splits)
    ultimately show "(r, l) \<in> set (held ((C(k := c)) (th_core (threads (((procs s)(p := ?p)) r) l)))) \<or> X = Some (r, l)"
      using pinvD(5) [OF inv, of l r] ne h pi by auto
  qed
  have "keeps ?q ?p \<and> (\<forall>j. th_core (threads ?p j) = th_core (threads ?q j)) \<and>
      (\<forall>j. th_active (threads ?p j) \<longleftrightarrow> j \<noteq> i \<and> th_active (threads ?q j))"
    using sh by simp
  then show ?thesis using R inv' by (intro exI [of _ ?p] exI [of _ R] conjI) (simp_all add: pi)
qed

lemma place_pinv:
  assumes inv: "pinv (Some x) P C" and k: "th_core (threads (P (fst x)) (snd x)) = k"
    "snd x < thread_count (P (fst x))" "th_active (threads (P (fst x)) (snd x))"
    and h: "distinct (held c)" "set (held c) = insert x (set (held (C k)))"
  shows "pinv None P (C(k := c))"
proof -
  obtain a b where x: "x = (a, b)" by (cases x)
  have "(p, i) \<in> set (held ((C(k := c)) (th_core (threads (P p) i))))" if "i < thread_count (P p)" "th_active (threads (P p) i)" for p i
  proof -
    have "(p, i) \<in> set (held (C (th_core (threads (P p) i)))) \<or> x = (p, i)" using inv that by (auto simp: pinv_def)
    with h k(1) x show ?thesis by auto
  qed
  with inv k h x show ?thesis by (auto simp: pinv_def split: if_splits)
qed

text \<open>The thread being placed, if any, is enabled for this core.\<close>

definition placing :: "tref option \<Rightarrow> nat \<Rightarrow> (nat \<Rightarrow> proc) \<Rightarrow> bool" where
  "placing th core P \<longleftrightarrow> (case th of None \<Rightarrow> True
     | Some (p, i) \<Rightarrow> i < thread_count (P p) \<and> th_active (threads (P p) i) \<and> th_core (threads (P p) i) = core)"

lemma drop_opt_pinv:
  assumes inv: "pinv X (procs s) C" and x: "\<And>x. th = Some x \<Longrightarrow> x \<in> set (held (C k))"
    and h: "held c = (case th of None \<Rightarrow> held (C k) | Some x \<Rightarrow> remove1 x (held (C k)))"
  shows "\<exists>P R. drop_opt th s = Some (s\<lparr>procs := P, released := R\<rparr>) \<and> pinv X P (C(k := c)) \<and>
    (\<forall>p. keeps (procs s p) (P p)) \<and>
    (\<forall>core. placing X core (procs s) \<longrightarrow> placing X core P)"
proof (cases th)
  case None
  have "s = s\<lparr>procs := procs s, released := released s\<rparr>" by (cases s) simp
  moreover have "pinv X (procs s) (C(k := c))" using inv h None by (auto simp: pinv_def split: if_splits)
  ultimately show ?thesis using None by (auto simp: drop_opt_def intro!: exI [of _ "procs s"] exI [of _ "released s"])
next
  case (Some y)
  obtain p' R where p': "drop_kthread y s = Some (s\<lparr>procs := (procs s)(fst y := p'), released := R\<rparr>)"
    "pinv X ((procs s)(fst y := p')) (C(k := c))" "keeps (procs s (fst y)) p'"
    "\<And>j. th_core (threads p' j) = th_core (threads (procs s (fst y)) j)"
    "\<And>j. th_active (threads p' j) \<longleftrightarrow> j \<noteq> snd y \<and> th_active (threads (procs s (fst y)) j)"
    using drop_pinv [OF inv x [OF Some], of c] h Some by auto
  have "X \<noteq> Some y" using pinvD(4) [OF inv, of "fst y" "snd y" k] x [OF Some] by auto
  then have "placing X core (procs s) \<longrightarrow> placing X core ((procs s)(fst y := p'))" for core
    using p'(3,4,5) by (cases y) (auto simp: placing_def split: option.splits)
  with Some p' show ?thesis by (auto simp: drop_opt_def)
qed

lemma kinv_intr:
  assumes "kinv C K A" "bitmap_test A core"
  shows "\<exists>K'. ksched_enqueue_intr core KSCHED_INTR_CEDE K = Some K' \<and> kinv C K' A \<and>
    (\<forall>k. last_gen (cs_map K' k) = last_gen (cs_map K k))"
  using assms by (auto simp: kinv_def ksched_enqueue_intr_def gens_ok_def ksched_poll_run_done_def)

lemma kinv_run:
  assumes "kinv C K A" "c_wait c" "c_pending c \<longrightarrow> c_pending (C core)" "\<not> c_pending c \<longrightarrow> pending_th c = None"
  shows "kinv (C(core := c)) (ksched_run core tid K) A"
  using assms by (auto simp: kinv_def ksched_run_def gens_ok_def ksched_poll_run_done_def Let_def)

lemma place_opt_pinv:
  assumes inv: "pinv th P C" and p: "placing th k P" and h: "held c = opt_list th @ held (C k) \<or> held c = held (C k) @ opt_list th"
  shows "pinv None P (C(k := c))"
proof (cases th)
  case None
  then show ?thesis using inv h by (auto simp: pinv_def split: if_splits)
next
  case (Some x)
  have "x \<notin> set (held (C k))" using pinvD(4) [OF inv, of "fst x" "snd x" k] Some by auto
  moreover have "distinct (held (C k))" by (rule pinvD(3) [OF inv])
  ultimately have "distinct (held c)" "set (held c) = insert x (set (held (C k)))" using h Some by auto
  with inv p Some show ?thesis by (intro place_pinv) (auto simp: placing_def split: prod.splits)
qed

lemma held_drop:
  assumes "distinct (held c)"
  shows "held (c\<lparr>pending_th := None\<rparr>) = (case pending_th c of None \<Rightarrow> held c | Some x \<Rightarrow> remove1 x (held c))"
    "held (c\<lparr>cur_th := None\<rparr>) = (case cur_th c of None \<Rightarrow> held c | Some x \<Rightarrow> remove1 x (held c))"
  using assms by (auto simp: held_def opt_list_def split: option.splits)

lemma held_mem: "pending_th c = Some x \<Longrightarrow> x \<in> set (held c)" "cur_th c = Some x \<Longrightarrow> x \<in> set (held c)"
  by (simp_all add: held_def)

lemma drop_cur:
  assumes "pinv X (procs s) C"
  obtains P R where "drop_opt (cur_th (C k)) s = Some (s\<lparr>procs := P, released := R\<rparr>)"
    "pinv X P (C(k := (C k)\<lparr>cur_th := None\<rparr>))"
    "\<forall>p. keeps (procs s p) (P p)"
    "\<forall>core. placing X core (procs s) \<longrightarrow> placing X core P"
proof -
  have "\<exists>P R. drop_opt (cur_th (C k)) s = Some (s\<lparr>procs := P, released := R\<rparr>) \<and> pinv X P (C(k := (C k)\<lparr>cur_th := None\<rparr>)) \<and>
      (\<forall>p. keeps (procs s p) (P p)) \<and>
      (\<forall>core. placing X core (procs s) \<longrightarrow> placing X core P)"
    by (rule drop_opt_pinv [OF assms]) (erule held_mem(2), rule held_drop(2) [OF pinvD(3) [OF assms]])
  then show thesis by (elim exE conjE) (rule that)
qed

lemma drop_pending:
  assumes "pinv X (procs s) C"
  obtains P R where "drop_opt (pending_th (C k)) s = Some (s\<lparr>procs := P, released := R\<rparr>)"
    "pinv X P (C(k := (C k)\<lparr>pending_th := None\<rparr>))"
    "\<forall>p. keeps (procs s p) (P p)"
    "\<forall>core. placing X core (procs s) \<longrightarrow> placing X core P"
proof -
  have "\<exists>P R. drop_opt (pending_th (C k)) s = Some (s\<lparr>procs := P, released := R\<rparr>) \<and> pinv X P (C(k := (C k)\<lparr>pending_th := None\<rparr>)) \<and>
      (\<forall>p. keeps (procs s p) (P p)) \<and>
      (\<forall>core. placing X core (procs s) \<longrightarrow> placing X core P)"
    by (rule drop_opt_pinv [OF assms]) (erule held_mem(1), rule held_drop(1) [OF pinvD(3) [OF assms]])
  then show thesis by (elim exE conjE) (rule that)
qed

lemma sched_run_inv:
  assumes inv: "pinv th (procs s) (cstate s)" "kinv (cstate s) (ks s) (sched_allowed_cores s)"
    and core: "bitmap_test (sched_allowed_cores s) core" and th: "placing th core (procs s)"
  shows "\<exists>s'. sched_run core th s = Some s' \<and> sched_inv s' \<and> core_frame s s' \<and>
    sched_get_thread_on_core core s' = th \<and> (\<forall>k. k \<noteq> core \<longrightarrow> cstate s' k = cstate s k)"
proof (cases "c_wait (cstate s core)")
  case True
  let ?c = "cstate s core" and ?c' = "(cstate s core)\<lparr>pending_th := th, c_pending := True\<rparr>"
  obtain P R where d: "drop_opt (pending_th ?c) s = Some (s\<lparr>procs := P, released := R\<rparr>)"
    "pinv th P ((cstate s)(core := ?c\<lparr>pending_th := None\<rparr>))"
    "\<forall>p. keeps (procs s p) (P p)"
    "\<forall>core. placing th core (procs s) \<longrightarrow> placing th core P"
    by (rule drop_pending [OF inv(1), of core])
  have pl: "placing th core P" using d(4) th by simp
  have "pinv None P ((cstate s)(core := ?c\<lparr>pending_th := None\<rparr>, core := ?c'))"
    by (rule place_opt_pinv [OF d(2) pl]) (simp add: held_def)
  moreover have "kinv ((cstate s)(core := ?c')) (ks s) (sched_allowed_cores s)" using inv(2) True by (auto simp: kinv_def)
  moreover have "sched_run core th s = Some (s\<lparr>procs := P, released := R, cstate := (cstate s)(core := ?c')\<rparr>)"
    using True d(1) by (simp add: sched_run_def)
  ultimately show ?thesis using d(3)
    by (simp add: sched_inv_def core_frame_def sched_get_thread_on_core_def)
next
  case False
  let ?c = "cstate s core" and ?c' = "(cstate s core)\<lparr>cur_th := th, c_wait := True, c_idle := False\<rparr>"
  have np: "\<not> c_pending ?c" "pending_th ?c = None" using inv(2) False by (auto simp: kinv_def)
  obtain K where K: "(if \<not> c_idle ?c \<and> cur_th ?c \<noteq> None then ksched_enqueue_intr core KSCHED_INTR_CEDE (ks s) else Some (ks s)) = Some K"
    "kinv (cstate s) K (sched_allowed_cores s)"
    using kinv_intr [OF inv(2) core] inv(2) by (cases "\<not> c_idle ?c \<and> cur_th ?c \<noteq> None") auto
  let ?K = "ksched_run core (tid_of th s) K" and ?s = "s\<lparr>ks := ksched_run core (tid_of th s) K\<rparr>"
  have inv': "pinv th (procs ?s) (cstate s)" using inv(1) by simp
  obtain P R where d: "drop_opt (cur_th ?c) ?s = Some (?s\<lparr>procs := P, released := R\<rparr>)"
    "pinv th P ((cstate s)(core := ?c\<lparr>cur_th := None\<rparr>))"
    "\<forall>p. keeps (procs ?s p) (P p)"
    "\<forall>core. placing th core (procs ?s) \<longrightarrow> placing th core P"
    by (rule drop_cur [OF inv', of core])
  have pl: "placing th core P" using d(4) th by simp
  have "pinv None P ((cstate s)(core := ?c\<lparr>cur_th := None\<rparr>, core := ?c'))"
    by (rule place_opt_pinv [OF d(2) pl]) (simp add: held_def)
  moreover have "kinv ((cstate s)(core := ?c')) ?K (sched_allowed_cores s)" by (rule kinv_run [OF K(2)]) (simp_all add: np)
  moreover have "sched_run core th s = Some (?s\<lparr>procs := P, released := R, cstate := (cstate s)(core := ?c')\<rparr>)"
    using False d(1) K(1) by (simp add: sched_run_def)
  ultimately show ?thesis using d(3) np
    by (simp add: sched_inv_def core_frame_def sched_get_thread_on_core_def)
qed

lemma find_Some_mem: "find Q xs = Some x \<Longrightarrow> x \<in> set xs"
  by (auto simp: find_Some_iff)

lemma pick_idle:
  assumes "idle_threads (procs s p) \<noteq> []"
  shows "\<exists>i. sched_pick_kthread p core s = Some i \<and> i \<in> set (idle_threads (procs s p))"
  using assms by (auto simp: sched_pick_kthread_def Let_def dest: find_Some_mem split: option.splits)

lemma enable_shape:
  assumes "p' = sched_enable_kthread i core p"
  shows "thread_count p' = thread_count p \<and> sched_cfg p' = sched_cfg p \<and> p_ref p' = p_ref p \<and>
    active_thread_count p' = active_thread_count p + 1 \<and> th_active (threads p' i) \<and> th_core (threads p' i) = core \<and>
    (\<forall>j. j \<noteq> i \<longrightarrow> threads p' j = threads p j)"
  using assms by (simp add: sched_enable_kthread_def Let_def)

lemma sched_run_on_core_inv:
  assumes inv: "sched_inv s"
  shows "\<exists>r s'. sched_run_on_core nc p core s = Some (r, s') \<and> sched_inv s' \<and> core_frame s s' \<and>
    (\<forall>k. k \<noteq> core \<longrightarrow> cstate s' k = cstate s k) \<and>
    (r = Ok \<longrightarrow> core < nc \<and> bitmap_test (sched_allowed_cores s) core \<and>
       (\<exists>i. i \<in> set (idle_threads (procs s p)) \<and> sched_get_thread_on_core core s' = Some (p, i))) \<and>
    (r \<noteq> Ok \<longrightarrow> s' = s \<and> (idle_threads (procs s p) = [] \<or> nc \<le> core \<or> \<not> bitmap_test (sched_allowed_cores s) core))"
proof (cases "idle_threads (procs s p) = [] \<or> nc \<le> core \<or> \<not> bitmap_test (sched_allowed_cores s) core")
  case True
  then show ?thesis using inv by (simp add: sched_run_on_core_def core_frame_def)
next
  case False
  then obtain i where i: "sched_pick_kthread p core s = Some i" "i \<in> set (idle_threads (procs s p))"
    using pick_idle by blast
  have pi: "pinv None (procs s) (cstate s)" "kinv (cstate s) (ks s) (sched_allowed_cores s)" using inv by (simp_all add: sched_inv_def)
  let ?q = "(procs s p)\<lparr>p_ref := p_ref (procs s p) + 1\<rparr>"
  define q' where "q' = sched_enable_kthread i core ?q"
  note sh = enable_shape [OF q'_def]
  have idle: "i < thread_count (procs s p)" "\<not> th_active (threads (procs s p) i)"
    using proc_ok_idle [OF pinvD(1) [OF pi(1)] i(2)] by simp_all
  have "proc_ok ?q" using pinvD(1) [OF pi(1), of p] by (simp add: proc_ok_def)
  then have ok: "proc_ok q'" unfolding q'_def using i(2) by (intro proc_ok_enable) simp_all
  let ?P = "(procs s)(p := q')"
  have "pinv (Some (p, i)) ?P (cstate s)"
  proof (rule pinvI)
    show "proc_ok (?P r) \<and> int (active_thread_count (?P r)) \<le> p_ref (?P r)" for r
      using ok sh pinvD(1,2) [OF pi(1), of r] by auto
    fix r l
    show "l < thread_count (?P r) \<and> th_active (threads (?P r) l) \<and> th_core (threads (?P r) l) = k \<and> Some (p, i) \<noteq> Some (r, l)"
      if "(r, l) \<in> set (held (cstate s k))" for k
      using pinvD(4) [OF pi(1) that] idle sh by auto
    show "(r, l) \<in> set (held (cstate s (th_core (threads (?P r) l)))) \<or> Some (p, i) = Some (r, l)"
      if "l < thread_count (?P r)" "th_active (threads (?P r) l)"
      using that pinvD(5) [OF pi(1), of l r] sh by (cases "(r, l) = (p, i)") (auto split: if_splits)
  qed (rule pinvD(3) [OF pi(1)])
  moreover have "placing (Some (p, i)) core ?P" using sh idle by (simp add: placing_def)
  ultimately obtain s' where s': "sched_run core (Some (p, i)) (upd_proc p q' s) = Some s'" "sched_inv s'"
    "core_frame (upd_proc p q' s) s'" "sched_get_thread_on_core core s' = Some (p, i)" "\<forall>k. k \<noteq> core \<longrightarrow> cstate s' k = cstate s k"
    using sched_run_inv [of "Some (p, i)" "upd_proc p q' s" core] pi(2) False by auto
  have "sched_run_on_core nc p core s = Some (Ok, s')"
    using False i s'(1) by (simp add: sched_run_on_core_def proc_get_def q'_def Let_def)
  moreover have "core_frame s s'" using s'(3) sh by (auto simp: core_frame_def split: if_splits)
  ultimately show ?thesis using s' i False by auto
qed

lemma sched_idle_on_core_inv:
  assumes inv: "sched_inv s"
  shows "\<exists>r s'. sched_idle_on_core nc hint core s = Some (r, s') \<and> sched_inv s' \<and> core_frame s s' \<and>
    (\<forall>k. k \<noteq> core \<longrightarrow> cstate s' k = cstate s k) \<and>
    (r = Ok \<longrightarrow> sched_get_thread_on_core core s' = None)"
proof (cases "nc \<le> core \<or> \<not> bitmap_test (sched_allowed_cores s) core")
  case True
  then show ?thesis using inv by (auto simp: sched_idle_on_core_def core_frame_def)
next
  case False
  have "s\<lparr>ks := ks s\<rparr> = s" by (cases s) simp
  with False show ?thesis using sched_run_inv [of None s core] inv
    by (auto simp: sched_idle_on_core_def ksched_idle_hint_def sched_inv_def placing_def)
qed

text \<open>The steps of a poll, for a core that is allowed.\<close>

lemma poll_done_inv:
  assumes inv: "sched_inv s" and core: "bitmap_test (sched_allowed_cores s) core"
  shows "\<exists>s'. poll_done core s = Some s' \<and> sched_inv s' \<and> core_frame s s' \<and>
    (\<forall>k. sched_get_thread_on_core k s' = sched_get_thread_on_core k s)"
proof -
  have pi: "pinv None (procs s) (cstate s)" "kinv (cstate s) (ks s) (sched_allowed_cores s)" using inv by (simp_all add: sched_inv_def)
  let ?c = "cstate s core"
  consider "\<not> (c_wait ?c \<and> ksched_poll_run_done core (ks s))"
    | "c_wait ?c" "ksched_poll_run_done core (ks s)" "\<not> c_pending ?c"
    | "c_wait ?c" "ksched_poll_run_done core (ks s)" "c_pending ?c" by blast
  then show ?thesis
  proof cases
    case 1
    then show ?thesis using inv by (auto simp: poll_done_def core_frame_def)
  next
    case 2
    have "pinv None (procs s) ((cstate s)(core := ?c\<lparr>c_wait := False\<rparr>))"
      by (rule pinv_cong [OF pi(1)]) (simp add: held_def)
    moreover have "kinv ((cstate s)(core := ?c\<lparr>c_wait := False\<rparr>)) (ks s) (sched_allowed_cores s)"
      using pi(2) 2 by (auto simp: kinv_def)
    ultimately show ?thesis using 2 by (auto simp: poll_done_def sched_inv_def core_frame_def sched_get_thread_on_core_def)
  next
    case 3
    let ?th = "pending_th ?c" and ?c1 = "?c\<lparr>pending_th := None, c_pending := False\<rparr>"
    obtain K where K: "ksched_enqueue_intr core KSCHED_INTR_CEDE (ks s) = Some K" "kinv (cstate s) K (sched_allowed_cores s)"
      using kinv_intr [OF pi(2) core] by blast
    let ?s1 = "upd_core core ?c1 s"
    let ?s = "?s1\<lparr>ks := ksched_run core (tid_of ?th ?s1) K\<rparr>" and ?c' = "?c1\<lparr>cur_th := ?th\<rparr>"
    have inv': "pinv None (procs ?s) (cstate s)" using pi(1) by simp
    obtain P R where d: "drop_opt (cur_th ?c) ?s = Some (?s\<lparr>procs := P, released := R\<rparr>)"
      "pinv None P ((cstate s)(core := ?c\<lparr>cur_th := None\<rparr>))"
      "\<forall>p. keeps (procs ?s p) (P p)"
      by (rule drop_cur [OF inv', of core])
    have "pinv None P ((cstate s)(core := ?c'))" by (rule pinv_cong [OF d(2)]) (simp add: held_def)
    moreover have "kinv ((cstate s)(core := ?c')) (ksched_run core (tid_of ?th ?s1) K) (sched_allowed_cores s)"
      by (rule kinv_run [OF K(2)]) (simp_all add: 3)
    moreover have "poll_done core s = Some (upd_core core ?c' (?s\<lparr>procs := P, released := R\<rparr>))"
      using 3 d(1) K(1) by (simp add: poll_done_def Let_def)
    ultimately show ?thesis using d(3) 3 by (simp add: sched_inv_def core_frame_def sched_get_thread_on_core_def)
  qed
qed

definition polled :: "thread \<Rightarrow> thread" where
  "polled t = t\<lparr>rxq := snd (lrpc_poll_send_tail (rxq_shm t) (rxq t))\<rparr>"

lemma polled_simps [simp]:
  "th_active (polled t) = th_active t" "th_core (polled t) = th_core t" "at_idx (polled t) = at_idx t" "th_tid (polled t) = th_tid t"
  by (simp_all add: polled_def)

definition poll_rxq :: "tref \<Rightarrow> 'a iosys_scheme \<Rightarrow> 'a iosys_scheme" where
  "poll_rxq th s = upd_proc (fst th) (upd_thread (snd th) (polled (the_thread th s)) (procs s (fst th))) s"

lemma rewake_cases:
  "sched_try_fast_rewake th s =
     (True, upd_core (th_core (the_thread th s)) ((cstate s (th_core (the_thread th s)))\<lparr>c_wait := True\<rparr>)
        ((poll_rxq th s)\<lparr>ks := ksched_run (th_core (the_thread th s)) (th_tid (the_thread th s)) (ks s)\<rparr>)) \<or>
   sched_try_fast_rewake th s = (False, poll_rxq th s)"
  by (simp add: sched_try_fast_rewake_def poll_rxq_def polled_def case_prod_beta Let_def)

lemma proc_ok_thread:
  assumes "proc_ok p" "th_active t = th_active (threads p i)" "at_idx t = at_idx (threads p i)"
  shows "proc_ok (upd_thread i t p)"
proof -
  have "th_active (((threads p)(i := t)) j) = th_active (threads p j)" "at_idx (((threads p)(i := t)) j) = at_idx (threads p j)" for j
    using assms(2,3) by auto
  with assms(1) show ?thesis by (simp add: proc_ok_def del: fun_upd_apply)
qed

lemma pinv_same:
  assumes "pinv X P C" "\<And>p. proc_ok (P' p)"
    "\<And>p. thread_count (P' p) = thread_count (P p)" "\<And>p. active_thread_count (P' p) = active_thread_count (P p)"
    "\<And>p. p_ref (P' p) = p_ref (P p)" "\<And>p i. th_active (threads (P' p) i) = th_active (threads (P p) i)"
    "\<And>p i. th_core (threads (P' p) i) = th_core (threads (P p) i)"
  shows "pinv X P' C"
  using assms by (simp add: pinv_def)

lemma pinv_thread:
  assumes inv: "pinv X P C" and t: "th_active t = th_active (threads (P p) i)" "at_idx t = at_idx (threads (P p) i)"
    "th_core t = th_core (threads (P p) i)"
  shows "pinv X (P(p := upd_thread i t (P p))) C"
  by (rule pinv_same [OF inv]) (use pinvD(1) [OF inv] proc_ok_thread [OF pinvD(1) [OF inv, of p] t(1,2)] t in auto)

lemma poll_rxq_inv:
  assumes "sched_inv s"
  shows "sched_inv (poll_rxq th s)" "core_frame s (poll_rxq th s)"
  using assms pinv_thread [of None "procs s" "cstate s" "polled (the_thread th s)" "fst th" "snd th"]
  by (simp_all add: sched_inv_def core_frame_def poll_rxq_def the_thread_def)

lemma core_frame_trans: "core_frame s s' \<Longrightarrow> core_frame s' s'' \<Longrightarrow> core_frame s s''"
  by (simp add: core_frame_def)

lemma core_frame_core [simp]: "core_frame s (upd_core k c s') = core_frame s s'"
  by (simp add: core_frame_def)

lemma set_idle_inv:
  assumes "sched_inv s"
  shows "sched_inv (set_idle k s)" "core_frame s (set_idle k s)"
  using assms pinv_cong [of None "procs s" "cstate s" "cstate (set_idle k s)"]
  by (simp_all add: sched_inv_def set_idle_def core_frame_def held_def kinv_def)

lemma set_idle_get: "sched_get_thread_on_core k (set_idle c s) = sched_get_thread_on_core k s"
  by (simp add: sched_get_thread_on_core_def set_idle_def)

lemma poll_idle_inv:
  assumes inv: "sched_inv s"
  shows "\<exists>b s'. poll_idle core s = Some (b, s') \<and> sched_inv s' \<and> core_frame s s' \<and>
    (\<forall>k. \<not> (b \<and> k = core) \<longrightarrow> sched_get_thread_on_core k s' = sched_get_thread_on_core k s)"
proof (cases "\<not> c_wait (cstate s core) \<and> \<not> c_idle (cstate s core) \<and> ksched_poll_idle core (ks s)")
  case False
  then show ?thesis using inv by (auto simp: poll_idle_def core_frame_def)
next
  case True
  note q = poll_rxq_inv [OF inv]
  show ?thesis
  proof (cases "cur_th (cstate s core)")
    case None
    then have "poll_idle core s = Some (True, set_idle core s)" using True by (simp add: poll_idle_def)
    then show ?thesis using set_idle_inv [OF inv] set_idle_get by blast
  next
    case (Some th)
    let ?s1 = "poll_rxq th s"
    have pi: "pinv None (procs s) (cstate s)" "kinv (cstate s) (ks s) (sched_allowed_cores s)" using inv by (simp_all add: sched_inv_def)
    have core: "th_core (the_thread th s) = core"
      using pinvD(4) [OF pi(1), of "fst th" "snd th" core] held_mem(2) [OF Some] by (simp add: the_thread_def)
    have same: "cstate ?s1 = cstate s" "ks ?s1 = ks s" "sched_allowed_cores ?s1 = sched_allowed_cores s" by (simp_all add: poll_rxq_def)
    have p1: "pinv None (procs ?s1) (cstate ?s1)" using q(1) [of th] by (simp add: sched_inv_def)
    consider "sched_try_fast_rewake th s = (True, upd_core core ((cstate s core)\<lparr>c_wait := True\<rparr>)
        (?s1\<lparr>ks := ksched_run core (th_tid (the_thread th s)) (ks s)\<rparr>))" | "sched_try_fast_rewake th s = (False, ?s1)"
      using rewake_cases [of th s] core by auto
    then show ?thesis
    proof cases
      case 1
      let ?c = "(cstate s core)\<lparr>c_wait := True\<rparr>"
      let ?s2 = "upd_core core ?c (?s1\<lparr>ks := ksched_run core (th_tid (the_thread th s)) (ks s)\<rparr>)"
      have "pinv None (procs ?s1) ((cstate s)(core := ?c))" by (rule pinv_cong [OF p1]) (simp add: held_def same)
      moreover have "kinv ((cstate s)(core := ?c)) (ksched_run core (th_tid (the_thread th s)) (ks s)) (sched_allowed_cores s)"
        by (rule kinv_run [OF pi(2)]) (use pi(2) in \<open>auto simp: kinv_def\<close>)
      ultimately have "sched_inv ?s2" by (simp add: sched_inv_def same)
      moreover have "core_frame s ?s2" using q(2) [of th] by (simp add: core_frame_def)
      moreover have "poll_idle core s = Some (False, ?s2)" using True Some 1 by (simp add: poll_idle_def)
      moreover have "sched_get_thread_on_core k ?s2 = sched_get_thread_on_core k s" for k by (simp add: sched_get_thread_on_core_def same)
      ultimately show ?thesis by blast
    next
      case 2
      obtain P R where d: "drop_opt (cur_th (cstate ?s1 core)) ?s1 = Some (?s1\<lparr>procs := P, released := R\<rparr>)"
        "pinv None P ((cstate ?s1)(core := (cstate ?s1 core)\<lparr>cur_th := None\<rparr>))"
        "\<forall>p. keeps (procs ?s1 p) (P p)"
        by (rule drop_cur [OF p1, of core])
      let ?s2 = "upd_core core ((cstate s core)\<lparr>cur_th := None\<rparr>) (?s1\<lparr>procs := P, released := R\<rparr>)"
      have "kinv ((cstate s)(core := (cstate s core)\<lparr>cur_th := None\<rparr>)) (ks s) (sched_allowed_cores s)"
        using pi(2) by (simp add: kinv_def)
      with d(2) have i2: "sched_inv ?s2" by (simp add: sched_inv_def same)
      have "core_frame s ?s2" using q(2) [of th] d(3) by (simp add: core_frame_def)
      moreover have "poll_idle core s = Some (True, set_idle core ?s2)"
        using True Some 2 d(1) by (simp add: poll_idle_def drop_opt_def same)
      moreover have "sched_get_thread_on_core k (set_idle core ?s2) = sched_get_thread_on_core k s" if "k \<noteq> core" for k
        using that by (simp add: sched_get_thread_on_core_def set_idle_def same)
      ultimately show ?thesis using set_idle_inv [OF i2, of core] core_frame_trans by blast
    qed
  qed
qed

text \<open>
  The pass leaves every core it does not report with the thread it had, and reports no core unless
  it counts one.
\<close>

definition pass_ok :: "nat list \<Rightarrow> bitmap \<Rightarrow> nat \<Rightarrow> bitmap \<Rightarrow> nat \<Rightarrow> bool" where
  "pass_ok cs idle cnt idle' cnt' \<longleftrightarrow> cnt \<le> cnt' \<and>
     (\<forall>k. bitmap_test idle' k \<longrightarrow> bitmap_test idle k \<or> k \<in> set cs \<and> cnt < cnt') \<and>
     (\<forall>k. bitmap_test idle k \<longrightarrow> bitmap_test idle' k)"

lemma fast_pass_inv:
  assumes "sched_inv s" "\<And>c. c \<in> set cs \<Longrightarrow> bitmap_test (sched_allowed_cores s) c"
  shows "\<exists>b n s'. fast_pass cs idle cnt s = Some (b, n, s') \<and> sched_inv s' \<and> core_frame s s' \<and> pass_ok cs idle cnt b n \<and>
    (\<forall>k. \<not> bitmap_test b k \<longrightarrow> sched_get_thread_on_core k s' = sched_get_thread_on_core k s)"
  using assms
proof (induction cs arbitrary: idle cnt s)
  case Nil
  then show ?case by (simp add: core_frame_def pass_ok_def)
next
  case (Cons c cs)
  obtain s1 where s1: "poll_done c s = Some s1" "sched_inv s1" "core_frame s s1"
    "\<And>k. sched_get_thread_on_core k s1 = sched_get_thread_on_core k s"
    using poll_done_inv [OF Cons(2), of c] Cons(3) by auto
  obtain b s2 where s2: "poll_idle c s1 = Some (b, s2)" "sched_inv s2" "core_frame s1 s2"
    "\<And>k. \<not> (b \<and> k = c) \<Longrightarrow> sched_get_thread_on_core k s2 = sched_get_thread_on_core k s1"
    using poll_idle_inv [OF s1(2)] by blast
  have f: "core_frame s s2" by (rule core_frame_trans [OF s1(3) s2(3)])
  have "bitmap_test (sched_allowed_cores s2) d" if "d \<in> set cs" for d
    using Cons(3) that f by (simp add: core_frame_def)
  then obtain b' n' s' where r: "fast_pass cs (if b then bitmap_set idle c else idle) (if b then cnt + 1 else cnt) s2 = Some (b', n', s')"
    "sched_inv s'" "core_frame s2 s'" "pass_ok cs (if b then bitmap_set idle c else idle) (if b then cnt + 1 else cnt) b' n'"
    "\<And>k. \<not> bitmap_test b' k \<Longrightarrow> sched_get_thread_on_core k s' = sched_get_thread_on_core k s2"
    using Cons(1) [OF s2(2)] by blast
  have "pass_ok (c # cs) idle cnt b' n'" using r(4) by (auto simp: pass_ok_def split: if_splits)
  moreover have "sched_get_thread_on_core k s' = sched_get_thread_on_core k s" if k: "\<not> bitmap_test b' k" for k
  proof -
    have "\<not> (b \<and> k = c)" using r(4) k by (auto simp: pass_ok_def)
    with r(5) [OF k] s2(4) [of k] s1(4) [of k] show ?thesis by simp
  qed
  moreover have "fast_pass (c # cs) idle cnt s = Some (b', n', s')" using s1(1) s2(1) r(1) by (cases b) auto
  ultimately show ?case using r(2) core_frame_trans [OF f r(3)] by blast
qed

text \<open>Measuring reads and caches; it neither moves a thread nor changes its core.\<close>

definition same_threads :: "proc \<Rightarrow> proc \<Rightarrow> bool" where
  "same_threads p p' \<longleftrightarrow> thread_count p' = thread_count p \<and> active_thread_count p' = active_thread_count p \<and>
     active_threads p' = active_threads p \<and> idle_threads p' = idle_threads p \<and> p_ref p' = p_ref p \<and> sched_cfg p' = sched_cfg p \<and>
     (\<forall>i. th_active (threads p' i) = th_active (threads p i) \<and> th_core (threads p' i) = th_core (threads p i) \<and>
        at_idx (threads p' i) = at_idx (threads p i))"

lemma same_threads_refl [simp]: "same_threads p p"
  by (simp add: same_threads_def)

lemma same_threads_trans: "same_threads p q \<Longrightarrow> same_threads q r \<Longrightarrow> same_threads p r"
  by (simp add: same_threads_def)

lemma same_threads_ok: "same_threads p p' \<Longrightarrow> proc_ok p \<Longrightarrow> proc_ok p'"
  by (simp add: same_threads_def proc_ok_def)

lemma same_threads_upd:
  assumes "th_active t = th_active (threads p i)" "th_core t = th_core (threads p i)" "at_idx t = at_idx (threads p i)"
  shows "same_threads p (upd_thread i t p)"
  using assms by (simp add: same_threads_def)

lemma same_threads_inv:
  assumes inv: "sched_inv s" and p: "same_threads (procs s p) p'"
  shows "sched_inv (upd_proc p p' s) \<and> core_frame s (upd_proc p p' s)"
proof -
  have pi: "pinv None (procs s) (cstate s)" using inv by (simp add: sched_inv_def)
  have "pinv None ((procs s)(p := p')) (cstate s)"
  proof (rule pinv_same [OF pi])
    show "proc_ok (((procs s)(p := p')) q)" for q using same_threads_ok [OF p] pinvD(1) [OF pi] by simp
  qed (use p in \<open>auto simp: same_threads_def\<close>)
  with inv p show ?thesis by (simp add: sched_inv_def core_frame_def same_threads_def)
qed

lemma measure_thread:
  assumes "sched_measure_kthread_delay lock cyc now t = (b, d, t')"
  shows "th_active t' = th_active t \<and> th_core t' = th_core t \<and> at_idx t' = at_idx t"
  using assms
  by (auto simp: sched_measure_kthread_delay_def measure_uthread_def measure_rxq_def case_prod_beta Let_def)

lemma measure_loop_same: "measure_loop lock cyc now is m p = (m', p') \<Longrightarrow> same_threads p p'"
proof (induction "is" arbitrary: m p)
  case (Cons i "is")
  obtain b d t where t: "sched_measure_kthread_delay (lock i) cyc now (threads p i) = (b, d, t)" by (metis prod_cases3)
  obtain m1 delay where "measure_loop lock cyc now is m1 (upd_thread i (t\<lparr>qdelay := delay\<rparr>) p) = (m', p')"
    using Cons(2) t by (auto simp: Let_def)
  from same_threads_trans [OF same_threads_upd Cons(1) [OF this]] measure_thread [OF t] show ?case by simp
qed simp

section \<open>Requests follow the protocol\<close>

lemma drop_ks:
  "drop_opt th s = Some s' \<Longrightarrow> ks s' = ks s \<and> cstate s' = cstate s"
  by (auto simp: drop_opt_def drop_kthread_def proc_put_def opt_run split: option.splits if_splits)

text \<open>An interrupt before a request changes neither word of it.\<close>

lemma posts_intr_run:
  assumes "gens_ok k0" "ksched_poll_run_done core k0" "k1 = k0 \<or> ksched_enqueue_intr core ty k0 = Some k1"
  shows "posts_guarded (cs_map k0) (cs_map (ksched_run core tid k1))"
proof -
  have eq: "next_tid (cs_map k1 k) = next_tid (cs_map k0 k)" "gen (cs_map k1 k) = gen (cs_map k0 k)"
    "last_gen (cs_map k1 k) = last_gen (cs_map k0 k)" "ksched_gens k1 = ksched_gens k0" for k
    using assms(3) intr_words [of core ty k0 k1] by auto
  have "gens_ok k1" "ksched_poll_run_done core k1" using assms(1,2) by (simp_all add: gens_ok_def ksched_poll_run_done_def eq)
  from posts_guarded_run [OF this, of tid] show ?thesis by (simp add: posts_guarded_def eq)
qed

lemma sched_run_posts:
  assumes inv: "kinv (cstate s) (ks s) A" and a: "sched_run core th s = Some s'"
  shows "posts_guarded (cs_map (ks s)) (cs_map (ks s'))"
proof (cases "c_wait (cstate s core)")
  case True
  with a show ?thesis by (auto simp: sched_run_def Option.bind_eq_Some_conv dest!: drop_ks)
next
  case False
  with a have "ks s' = ksched_run core (tid_of th s) (ks s) \<or>
      (\<exists>k1. ksched_enqueue_intr core KSCHED_INTR_CEDE (ks s) = Some k1 \<and> ks s' = ksched_run core (tid_of th s) k1)"
    by (auto simp: sched_run_def opt_run dest!: drop_ks split: if_splits)
  moreover have "gens_ok (ks s)" "ksched_poll_run_done core (ks s)" using inv False by (auto simp: kinv_def)
  ultimately show ?thesis using posts_intr_run by metis
qed

lemma poll_posts:
  assumes inv: "sched_inv s"
  shows "poll_done core s = Some s' \<Longrightarrow> posts_guarded (cs_map (ks s)) (cs_map (ks s'))"
    and "poll_idle core s = Some (b, s') \<Longrightarrow> posts_guarded (cs_map (ks s)) (cs_map (ks s'))"
proof -
  have k: "gens_ok (ks s)" "\<And>c. \<not> c_wait (cstate s c) \<Longrightarrow> ksched_poll_run_done c (ks s)"
    using inv by (auto simp: sched_inv_def kinv_def)
  show "posts_guarded (cs_map (ks s)) (cs_map (ks s'))" if a: "poll_done core s = Some s'"
  proof (cases "c_wait (cstate s core) \<and> ksched_poll_run_done core (ks s) \<and> c_pending (cstate s core)")
    case True
    with a obtain k1 tid where "ksched_enqueue_intr core KSCHED_INTR_CEDE (ks s) = Some k1" "ks s' = ksched_run core tid k1"
      by (auto simp: poll_done_def opt_run dest!: drop_ks)
    with True posts_intr_run [OF k(1), of core k1 KSCHED_INTR_CEDE tid] show ?thesis by simp
  next
    case False
    with a show ?thesis by (auto simp: poll_done_def split: if_splits)
  qed
  show "posts_guarded (cs_map (ks s)) (cs_map (ks s'))" if a: "poll_idle core s = Some (b, s')"
  proof (cases "cur_th (cstate s core)")
    case None
    with a show ?thesis by (auto simp: poll_idle_def set_idle_def split: if_splits)
  next
    case (Some th)
    have core: "th_core (the_thread th s) = core"
      using pinvD(4) [of None "procs s" "cstate s" "fst th" "snd th" core] inv held_mem(2) [OF Some]
      by (simp add: the_thread_def sched_inv_def)
    have "ks s' = ks s \<or> (\<not> c_wait (cstate s core) \<and> ks s' = ksched_run core (th_tid (the_thread th s)) (ks s))"
      using rewake_cases [of th s] a Some core drop_ks [of "Some th" "poll_rxq th s"]
      by (auto simp: poll_idle_def set_idle_def drop_opt_def poll_rxq_def Option.bind_eq_Some_conv split: if_splits)
    with k posts_guarded_run [OF k(1), of core] show ?thesis by auto
  qed
qed

section \<open>Properties\<close>

lemma steer_first: "fold (\<lambda>i f. f(a i := a i)) js f x = (if x \<in> a ` set js then x else f x)"
  by (induction js arbitrary: f) auto

lemma steer_rest_law:
  assumes "0 < active_thread_count p"
  shows "(f i \<noteq> UINT_MAX \<or> i \<notin> set is \<longrightarrow> steer_rest p is j f i = f i) \<and>
    (f i = UINT_MAX \<and> i \<in> set is \<longrightarrow> (\<exists>k < active_thread_count p. steer_rest p is j f i = active_threads p k))"
proof (induction "is" arbitrary: j f)
  case (Cons l "is")
  let ?a = "active_threads p (j mod active_thread_count p)"
  have k: "\<exists>k < active_thread_count p. ?a = active_threads p k" using assms by (intro exI [of _ "j mod active_thread_count p"]) simp
  show ?case
  proof (cases "f l = UINT_MAX")
    case False
    then show ?thesis using Cons [where j = j and f = f] by auto
  next
    case True
    define g where "g = f(l := ?a)"
    have g: "g i = (if i = l then ?a else f i)" by (simp add: g_def)
    have "steer_rest p (l # is) j f = steer_rest p is (j + 1) g" using True by (simp add: g_def)
    then show ?thesis using Cons [where j = "j + 1" and f = g] g k True
      by (cases "i = l"; cases "i \<in> set is"; cases "?a = UINT_MAX") simp_all
  qed
qed simp

text \<open>
  After the flow table of a process with active threads has been recomputed, every flow goes to
  an active thread of the process, and an active thread keeps its own flow.
\<close>

theorem flows_to_active:
  assumes ok: "proc_ok p" "0 < active_thread_count p" "thread_count p \<le> UINT_MAX" and i: "i < thread_count p"
  shows "flow_tbl (sched_steer_flows p) i < thread_count p \<and> th_active (threads p (flow_tbl (sched_steer_flows p) i)) \<and>
    (th_active (threads p i) \<longrightarrow> flow_tbl (sched_steer_flows p) i = i)"
proof -
  let ?f = "fold (\<lambda>i f. f(active_threads p i := active_threads p i)) [0..<active_thread_count p] (\<lambda>_. UINT_MAX)"
  have eq: "flow_tbl (sched_steer_flows p) = steer_rest p [0..<thread_count p] 0 ?f"
    using ok(2) by (simp add: sched_steer_flows_def Let_def)
  have f: "?f i = (if i \<in> active_threads p ` {0..<active_thread_count p} then i else UINT_MAX)" by (simp add: steer_first)
  have a: "th_active (threads p i) \<longleftrightarrow> i \<in> active_threads p ` {0..<active_thread_count p}"
    using ok(1) i by (auto simp: proc_ok_def image_iff) force
  have k: "active_threads p k < thread_count p \<and> th_active (threads p (active_threads p k))" if "k < active_thread_count p" for k
    using ok(1) that by (simp add: proc_ok_def)
  have ne: "i \<noteq> UINT_MAX" using ok(3) i by simp
  show ?thesis
  proof (cases "th_active (threads p i)")
    case True
    with a f ne have "?f i = i" "?f i \<noteq> UINT_MAX" by simp_all
    then have "flow_tbl (sched_steer_flows p) i = i" unfolding eq using steer_rest_law [OF ok(2), of ?f i "[0..<thread_count p]" 0] by simp
    with True i show ?thesis by simp
  next
    case False
    with a f have "?f i = UINT_MAX" by simp
    then obtain k' where "k' < active_thread_count p" "flow_tbl (sched_steer_flows p) i = active_threads p k'"
      unfolding eq using steer_rest_law [OF ok(2), of ?f i "[0..<thread_count p]" 0] i by auto
    with k False show ?thesis by simp
  qed
qed

definition demo_proc :: proc where
  "demo_proc = \<lparr>has_directpath = False, kill = False, attach_fail = False, p_ref = 2,
     sched_cfg = \<lparr>priority = SCHED_PRIO_LC, max_cores = 2, guaranteed_cores = 1, preferred_socket = 0, cfg_qdelay_us = 10, ht_punish_us = 0\<rparr>,
     flow_tbl = (\<lambda>_. 0), thread_count = 2, active_thread_count = 1, threads = (\<lambda>i. demo_thread\<lparr>th_active := i = 1, th_core := 3\<rparr>),
     active_threads = (\<lambda>_. 1), idle_threads = [0], avg_delay_tsc = 0, kthread_yield_requested = 0\<rparr>"

lemma demo_proc_ok: "proc_ok demo_proc"
  by (auto simp: proc_ok_def demo_proc_def demo_thread_def)

theorem flows_to_active_witness:
  "flow_tbl (sched_steer_flows demo_proc) 0 < thread_count demo_proc \<and>
    th_active (threads demo_proc (flow_tbl (sched_steer_flows demo_proc) 0))"
  using flows_to_active [OF demo_proc_ok, of 0] by (simp add: demo_proc_def UINT_MAX_def)

end
