(* ===== verification/Control.thy ===== *)
theory Control
  imports Iosched
begin

text \<open>
  The control plane of the scheduler process (\<^verbatim>\<open>iokernel/control.c\<close>) and the pointers that runtimes
  pass it (\<^verbatim>\<open>inc/iokernel/shm.h\<close>): how the header a runtime leaves in its shared region becomes a
  process, and how the guaranteed cores are accounted for. An address is a 64-bit word and \<^verbatim>\<open>NULL\<close> is
  0; what the region holds, the outcome of \<^verbatim>\<open>malloc\<close> and of the system calls are arguments. A shift
  or an index that C leaves undefined is \<open>None\<close>.
\<close>

unbundle bit_operations_syntax

section \<open>Pointers into a shared region\<close>

record shm_region =
  r_base :: u64
  r_len :: u64

definition ptr_to_shmptr :: "shm_region \<Rightarrow> u64 \<Rightarrow> u64 \<Rightarrow> u64" where
  "ptr_to_shmptr r p len = p - r_base r"

definition shmptr_to_ptr :: "shm_region \<Rightarrow> u64 \<Rightarrow> u64 \<Rightarrow> u64" where
  "shmptr_to_ptr r shmptr len =
     (if UINT64_MAX - shmptr < r_len r \<or> r_len r < shmptr + len then 0 else shmptr + r_base r)"

record queue_spec =
  msg_count :: u64
  msg_buf :: u64
  spec_wb :: u64

text \<open>The sizes of \<^verbatim>\<open>struct lrpc_msg\<close> and of a write-back word.\<close>

definition SIZEOF_lrpc_msg :: u64 where "SIZEOF_lrpc_msg = 16"
definition SIZEOF_wb :: u64 where "SIZEOF_wb = 4"

record lrpc_in_ptrs =
  in_chan :: lrpc_chan_in
  in_tbl :: u64
  in_wb :: u64

record lrpc_out_ptrs =
  out_chan :: lrpc_chan_out
  out_tbl :: u64
  out_wb :: u64

definition shm_init_lrpc_in :: "shm_region \<Rightarrow> queue_spec \<Rightarrow> errno + lrpc_in_ptrs" where
  "shm_init_lrpc_in r s =
     (let t = shmptr_to_ptr r (msg_buf s) (SIZEOF_lrpc_msg * msg_count s)
      in if t = 0 then Inl EINVAL
         else let wb = shmptr_to_ptr r (spec_wb s) SIZEOF_wb
              in if wb = 0 then Inl EINVAL
                 else (case lrpc_init_in (ucast (msg_count s)) of
                         Inl e \<Rightarrow> Inl e
                       | Inr c \<Rightarrow> Inr \<lparr>in_chan = c, in_tbl = t, in_wb = wb\<rparr>))"

definition shm_init_lrpc_out :: "shm_region \<Rightarrow> queue_spec \<Rightarrow> errno + lrpc_out_ptrs" where
  "shm_init_lrpc_out r s =
     (let t = shmptr_to_ptr r (msg_buf s) (SIZEOF_lrpc_msg * msg_count s)
      in if t = 0 then Inl EINVAL
         else let wb = shmptr_to_ptr r (spec_wb s) SIZEOF_wb
              in if wb = 0 then Inl EINVAL
                 else (case lrpc_init_out (ucast (msg_count s)) of
                         Inl e \<Rightarrow> Inl e
                       | Inr c \<Rightarrow> Inr \<lparr>out_chan = c, out_tbl = t, out_wb = wb\<rparr>))"

section \<open>What a runtime leaves in its region\<close>

definition HWQ_INVALID :: u32 where "HWQ_INVALID = 0"

record hardware_queue_spec =
  hs_descriptor_table :: u64
  hs_consumer_idx :: u64
  hs_descriptor_log_size :: u32
  hs_nr_descriptors :: u32
  hs_parity_byte_offset :: u32
  hs_parity_bit_mask :: u32
  hs_hwq_type :: u32

record thread_spec =
  sp_rxq :: queue_spec
  sp_txpktq :: queue_spec
  sp_txcmdq :: queue_spec
  sp_q_ptrs :: u64
  sp_tid :: int
  sp_direct_rxq :: hardware_queue_spec
  sp_storage_hwq :: hardware_queue_spec
  sp_next_tsc :: u64
  sp_cxltp_waiters :: u64
  sp_qdelay :: u64

definition CONTROL_HDR_MAGIC :: u32 where "CONTROL_HDR_MAGIC = 0x696f6b3a"
definition CONTROL_HDR_VERSION :: u32 where "CONTROL_HDR_VERSION = 5"
definition BUSY_KTHREAD_SIZE :: u64 where "BUSY_KTHREAD_SIZE = 128"

record control_hdr =
  version_no :: u32
  magic :: u32
  hdr_thread_count :: u32
  egress_buf_count :: u64
  hdr_congestion_info :: u64
  hdr_mac :: "8 word list"
  hdr_sched_cfg :: sched_spec
  hdr_thread_specs :: u64
  hdr_busy_kthreads :: u64
  hdr_busy_kthreads_meta :: u64

text \<open>The sizes of the structures, as the ABI lays them out.\<close>

definition SIZEOF_control_hdr :: u64 where "SIZEOF_control_hdr = 96"
definition SIZEOF_thread_spec :: u64 where "SIZEOF_thread_spec = 200"
definition SIZEOF_congestion_info :: u64 where "SIZEOF_congestion_info = 32"
definition SIZEOF_q_ptrs :: u64 where "SIZEOF_q_ptrs = 56"

definition eth_addr_is_multicast :: "8 word list \<Rightarrow> bool" where
  "eth_addr_is_multicast a \<longleftrightarrow> (a ! 0) AND 1 \<noteq> 0"

definition eth_addr_is_zero :: "8 word list \<Rightarrow> bool" where
  "eth_addr_is_zero a \<longleftrightarrow> list_all (\<lambda>b. b = 0) a"

section \<open>Creating a process\<close>

record hwq_ptrs =
  hq_enabled :: bool
  hq_table :: u64
  hq_consumer_idx :: u64
  hq_log_size :: u32
  hq_nr :: u32
  hq_offset :: u32
  hq_mask :: u32

text \<open>\<^verbatim>\<open>1 << descriptor_log_size\<close> is defined up to 30; the product with the 32-bit count is one of 32 bits.\<close>

definition control_init_hwq :: "shm_region \<Rightarrow> hardware_queue_spec \<Rightarrow> (errno + hwq_ptrs) option" where
  "control_init_hwq r hs =
     (if hs_hwq_type hs = HWQ_INVALID
      then Some (Inr \<lparr>hq_enabled = False, hq_table = 0, hq_consumer_idx = 0, hq_log_size = 0, hq_nr = 0, hq_offset = 0, hq_mask = 0\<rparr>)
      else if 30 < hs_descriptor_log_size hs then None
      else let one = push_bit (unat (hs_descriptor_log_size hs)) 1 :: u32;
               t = shmptr_to_ptr r (hs_descriptor_table hs) (ucast (one * hs_nr_descriptors hs));
               ci = shmptr_to_ptr r (hs_consumer_idx hs) 4
           in if t = 0 \<or> ci = 0 then Some (Inl EINVAL)
              else if \<not> is_power_of_two (hs_nr_descriptors hs) then Some (Inl EINVAL)
              else if one < hs_parity_byte_offset hs then Some (Inl EINVAL)
              else Some (Inr \<lparr>hq_enabled = True, hq_table = t, hq_consumer_idx = ci, hq_log_size = hs_descriptor_log_size hs,
                          hq_nr = hs_nr_descriptors hs, hq_offset = hs_parity_byte_offset hs, hq_mask = hs_parity_bit_mask hs\<rparr>))"

record cthread =
  ct_rxq :: lrpc_out_ptrs
  ct_txpktq :: lrpc_in_ptrs
  ct_txcmdq :: lrpc_in_ptrs
  ct_next_tsc :: u64
  ct_tid :: int
  ct_qdelay :: u64
  ct_cxltp_waiters :: u64
  ct_q_ptrs :: u64
  ct_directpath :: hwq_ptrs
  ct_storage :: hwq_ptrs

text \<open>The body of the loop over the threads; \<open>Inl\<close> is the jump to \<^verbatim>\<open>fail\<close>.\<close>

definition init_thread :: "shm_region \<Rightarrow> thread_spec \<Rightarrow> (errno + cthread) option" where
  "init_thread r s =
     (case shm_init_lrpc_out r (sp_rxq s) of Inl e \<Rightarrow> Some (Inl e) | Inr rx \<Rightarrow>
      (case shm_init_lrpc_in r (sp_txpktq s) of Inl e \<Rightarrow> Some (Inl e) | Inr txp \<Rightarrow>
       (case shm_init_lrpc_in r (sp_txcmdq s) of Inl e \<Rightarrow> Some (Inl e) | Inr txc \<Rightarrow>
         let nt = shmptr_to_ptr r (sp_next_tsc s) 8
         in if nt = 0 then Some (Inl EINVAL)
            else let qd = shmptr_to_ptr r (sp_qdelay s) 8;
                     qp = shmptr_to_ptr r (sp_q_ptrs s) SIZEOF_q_ptrs
                 in if qp = 0 then Some (Inl EINVAL)
                    else do {
                      d \<leftarrow> control_init_hwq r (sp_direct_rxq s);
                      case d of Inl e \<Rightarrow> Some (Inl e) | Inr d \<Rightarrow> do {
                        st \<leftarrow> control_init_hwq r (sp_storage_hwq s);
                        case st of Inl e \<Rightarrow> Some (Inl e) | Inr st \<Rightarrow>
                          Some (Inr \<lparr>ct_rxq = rx, ct_txpktq = txp, ct_txcmdq = txc, ct_next_tsc = nt, ct_tid = sp_tid s, ct_qdelay = qd,
                                     ct_cxltp_waiters = sp_cxltp_waiters s, ct_q_ptrs = qp, ct_directpath = d, ct_storage = st\<rparr>)
                      }
                    })))"

fun init_threads :: "shm_region \<Rightarrow> thread_spec list \<Rightarrow> (errno + cthread list) option" where
  "init_threads r [] = Some (Inr [])"
| "init_threads r (s # ss) =
     do {
       t \<leftarrow> init_thread r s;
       case t of Inl e \<Rightarrow> Some (Inl e) | Inr t \<Rightarrow> do {
         ts \<leftarrow> init_threads r ss;
         case ts of Inl e \<Rightarrow> Some (Inl e) | Inr ts \<Rightarrow> Some (Inr (t # ts))
       }
     }"

record cproc =
  cp_region :: shm_region
  cp_sched_cfg :: sched_spec
  cp_mac :: "8 word list"
  cp_congestion_info :: u64
  cp_busy_kthreads :: u64
  cp_busy_kthreads_meta :: u64
  cp_threads :: "cthread list"
  cp_has_directpath :: bool
  cp_max_overflows :: u64

text \<open>
  \<open>hdr\<close> and \<open>specs\<close> are what the region holds when the header and the array of thread
  specifications are copied; \<open>lfq\<close> is the size of \<^verbatim>\<open>struct lf_queue\<close>, the flags are the outcomes of
  the three allocations and of the lookup of the pages. \<^verbatim>\<open>nr_guaranteed\<close> is added to an unsigned
  number, so it is kept as a 32-bit word.
\<close>

definition control_create_proc ::
  "nat \<Rightarrow> u64 \<Rightarrow> bitmap \<Rightarrow> bool \<Rightarrow> bool \<Rightarrow> bool \<Rightarrow> bool \<Rightarrow> shm_region \<Rightarrow> control_hdr \<Rightarrow> (nat \<Rightarrow> thread_spec) \<Rightarrow> u32 \<Rightarrow>
    (cproc option \<times> u32) option" where
  "control_create_proc nc lfq allowed mem1 mem2 mem3 pages r hdr specs nr_guaranteed =
     (let fail = Some (None, nr_guaranteed)
      in if r_len r < SIZEOF_control_hdr \<or> r_base r = UINT64_MAX then fail
         else if magic hdr \<noteq> CONTROL_HDR_MAGIC \<or> version_no hdr \<noteq> CONTROL_HDR_VERSION then fail
         else if nc < unat (hdr_thread_count hdr) \<or> hdr_thread_count hdr = 0 then fail
         else if of_nat (bitmap_popcount allowed nc) < guaranteed_cores (hdr_sched_cfg hdr) + nr_guaranteed then fail
         else if shmptr_to_ptr r (hdr_thread_specs hdr) (ucast (hdr_thread_count hdr) * SIZEOF_thread_spec) = 0 \<or> \<not> mem1 then fail
         else if \<not> mem2 then fail
         else if eth_addr_is_multicast (hdr_mac hdr) \<or> eth_addr_is_zero (hdr_mac hdr) then fail
         else let ci = shmptr_to_ptr r (hdr_congestion_info hdr) SIZEOF_congestion_info
              in if ci = 0 then fail
                 else do {
                   ts \<leftarrow> init_threads r (map specs [0..<unat (hdr_thread_count hdr)]);
                   case ts of Inl e \<Rightarrow> fail | Inr ts \<Rightarrow>
                     if \<not> pages \<or> \<not> mem3 then fail
                     else Some (Some \<lparr>cp_region = r, cp_sched_cfg = hdr_sched_cfg hdr, cp_mac = hdr_mac hdr, cp_congestion_info = ci,
                                  cp_busy_kthreads = shmptr_to_ptr r (hdr_busy_kthreads hdr) lfq,
                                  cp_busy_kthreads_meta = shmptr_to_ptr r (hdr_busy_kthreads_meta hdr) (4 * BUSY_KTHREAD_SIZE),
                                  cp_threads = ts, cp_has_directpath = (\<exists>t \<in> set ts. hq_enabled (ct_directpath t)),
                                  cp_max_overflows = egress_buf_count hdr\<rparr>,
                                nr_guaranteed + guaranteed_cores (hdr_sched_cfg hdr))
                 })"

section \<open>The table of clients\<close>

definition IOKERNEL_MAX_PROC :: nat where "IOKERNEL_MAX_PROC = 1024"

record client =
  cl_proc :: cproc
  cl_fd :: int
  cl_id :: nat
  cl_removed :: bool

record ctl =
  ctl_clients :: "client list"
  ctl_guaranteed :: u32
  ctl_yield_fd :: "nat \<Rightarrow> int"
  ctl_cede_fd :: "nat \<Rightarrow> int"

text \<open>The descriptors of the cores that a runtime sends; the core number is not checked.\<close>

fun store_fds :: "nat \<Rightarrow> (int \<times> int \<times> int) list \<Rightarrow> ctl \<Rightarrow> ctl option" where
  "store_fds nc [] c = Some c"
| "store_fds nc ((core, y, e) # fs) c =
     (if core < 0 \<or> int nc \<le> core then None
      else if ctl_yield_fd c (nat core) = 0
      then store_fds nc fs (c\<lparr>ctl_yield_fd := (ctl_yield_fd c)(nat core := y), ctl_cede_fd := (ctl_cede_fd c)(nat core := e)\<rparr>)
      else store_fds nc fs c)"

definition control_destroy_proc :: "cproc \<Rightarrow> ctl \<Rightarrow> ctl" where
  "control_destroy_proc p c = c\<lparr>ctl_guaranteed := ctl_guaranteed c - guaranteed_cores (cp_sched_cfg p)\<rparr>"

text \<open>
  \<open>fd\<close> is what \<^verbatim>\<open>accept\<close> returned; \<open>rd\<close>: the credentials and the region were read; \<open>uipi\<close>: what was
  read of the interrupt descriptors, \<open>None\<close> when a read fell short; \<open>mk\<close> is the call of
  \<^verbatim>\<open>control_create_proc\<close> on that region; \<open>nl\<close> and \<open>sent\<close> are the outcomes of registering the
  address and of telling the data plane; \<open>i\<close> names the new process.
\<close>

definition control_add_client ::
  "nat \<Rightarrow> int \<Rightarrow> bool \<Rightarrow> (int \<times> int \<times> int) list option \<Rightarrow> (u32 \<Rightarrow> (cproc option \<times> u32) option) \<Rightarrow> bool \<Rightarrow> bool \<Rightarrow> nat \<Rightarrow> ctl \<Rightarrow> ctl option" where
  "control_add_client nc fd rd uipi mk nl sent i c =
     (if fd = - 1 \<or> IOKERNEL_MAX_PROC \<le> length (ctl_clients c) \<or> \<not> rd then Some c
      else do {
        fs \<leftarrow> uipi;
        c \<leftarrow> store_fds nc fs c;
        (p, n) \<leftarrow> mk (ctl_guaranteed c);
        case p of
          None \<Rightarrow> Some (c\<lparr>ctl_guaranteed := n\<rparr>)
        | Some p \<Rightarrow>
            let c = c\<lparr>ctl_guaranteed := n\<rparr>
            in if \<not> nl \<or> \<not> sent then Some (control_destroy_proc p c)
               else Some (c\<lparr>ctl_clients := ctl_clients c @ [\<lparr>cl_proc = p, cl_fd = fd, cl_id = i, cl_removed = False\<rparr>]\<rparr>)
      })"

definition control_instruct_dataplane_to_remove_client :: "int \<Rightarrow> ctl \<Rightarrow> nat option \<times> ctl" where
  "control_instruct_dataplane_to_remove_client fd c =
     (let cl = ctl_clients c; i = length (takeWhile (\<lambda>x. cl_fd x \<noteq> fd) cl)
      in if i = length cl then (None, c)
         else (Some (cl_id (cl ! i)), c\<lparr>ctl_clients := cl[i := (cl ! i)\<lparr>cl_removed := True\<rparr>]\<rparr>))"

definition control_remove_client :: "nat \<Rightarrow> ctl \<Rightarrow> ctl" where
  "control_remove_client p c =
     (let cl = ctl_clients c; i = length (takeWhile (\<lambda>x. cl_id x \<noteq> p) cl)
      in if i = length cl then c
         else (control_destroy_proc (cl_proc (cl ! i)) c)\<lparr>ctl_clients := butlast (cl[i := last cl])\<rparr>)"

section \<open>Pointers stay in their region\<close>

definition in_region :: "shm_region \<Rightarrow> u64 \<Rightarrow> nat \<Rightarrow> bool" where
  "in_region r a n \<longleftrightarrow> unat (r_base r) \<le> unat a \<and> unat a + n \<le> unat (r_base r) + unat (r_len r)"

lemma shmptr_sound:
  assumes r: "unat (r_base r) + unat (r_len r) < 2 ^ 64" and len: "len \<le> r_len r" and ok: "shmptr_to_ptr r p len \<noteq> 0"
  shows "in_region r (shmptr_to_ptr r p len) (unat len)"
proof -
  have c: "r_len r \<le> UINT64_MAX - p" "p + len \<le> r_len r" and eq: "shmptr_to_ptr r p len = p + r_base r"
    using ok by (auto simp: shmptr_to_ptr_def not_less split: if_splits)
  have "unat (UINT64_MAX - p) = 2 ^ 64 - 1 - unat p"
    by (simp add: UINT64_MAX_def unat_sub unsigned_minus_1_eq_mask mask_eq_exp_minus_1)
  with c(1) have p: "unat p + unat (r_len r) < 2 ^ 64" using unsigned_less [of p, where 'a = nat] by (simp add: word_le_nat_alt)
  have l: "unat len \<le> unat (r_len r)" using len by (simp add: word_le_nat_alt)
  have "unat (p + len) = unat p + unat len" using p l by (intro unat_add_lem [THEN iffD1]) simp
  with c(2) have s: "unat p + unat len \<le> unat (r_len r)" by (simp add: word_le_nat_alt)
  have "unat (p + r_base r) = unat p + unat (r_base r)" using s r by (intro unat_add_lem [THEN iffD1]) simp
  with s show ?thesis by (simp add: in_region_def eq)
qed

text \<open>A pointer into the region survives the trip to the other address space and back.\<close>

lemma shmptr_roundtrip:
  assumes a: "in_region r a (unat len)" and r: "unat (r_len r) < 2 ^ 63"
  shows "shmptr_to_ptr r (ptr_to_shmptr r a len) len = a"
proof -
  have p: "unat (a - r_base r) = unat a - unat (r_base r)" using a by (simp add: in_region_def unat_sub word_le_nat_alt)
  then have s: "unat (a - r_base r) + unat len \<le> unat (r_len r)" using a unfolding in_region_def by linarith
  have "unat (UINT64_MAX - (a - r_base r)) = 2 ^ 64 - 1 - unat (a - r_base r)"
    by (simp add: UINT64_MAX_def unat_sub unsigned_minus_1_eq_mask mask_eq_exp_minus_1)
  moreover have "unat (a - r_base r + len) = unat (a - r_base r) + unat len" using s r by (intro unat_add_lem [THEN iffD1]) simp
  ultimately have "\<not> UINT64_MAX - (a - r_base r) < r_len r" "\<not> r_len r < a - r_base r + len"
    using s r by (simp_all add: word_less_nat_alt)
  then show ?thesis by (simp add: shmptr_to_ptr_def ptr_to_shmptr_def)
qed

lemma in_region_mono: "in_region r a n \<Longrightarrow> m \<le> n \<Longrightarrow> in_region r a m"
  by (simp add: in_region_def)

lemma ring_bytes: "16 * unat (ucast m :: u32) \<le> unat (SIZEOF_lrpc_msg * m)" for m :: u64
proof -
  have "unat (SIZEOF_lrpc_msg * m) = (16 * unat m) mod 2 ^ 64" by (simp add: SIZEOF_lrpc_msg_def unat_word_ariths)
  moreover have "unat (ucast m :: u32) = unat m mod 2 ^ 32" by (simp add: unsigned_ucast_eq take_bit_eq_mod)
  moreover have "(16 * unat m) mod 2 ^ 64 mod 2 ^ 36 = (16 * unat m) mod 2 ^ 36" by (simp add: mod_mod_cancel)
  moreover have "(16 * unat m) mod 2 ^ 36 = 16 * (unat m mod 2 ^ 32)" using mult_mod_right [of 16 "unat m" "2 ^ 32"] by simp
  ultimately show ?thesis by (metis mod_less_eq_dividend)
qed

lemma init_in_sound:
  assumes r: "unat (r_base r) + unat (r_len r) < 2 ^ 64" "SIZEOF_control_hdr \<le> r_len r" and ok: "shm_init_lrpc_in r s = Inr x"
  shows "in_region r (in_wb x) 4 \<and> is_power_of_two (in_size (in_chan x)) \<and>
    (SIZEOF_lrpc_msg * msg_count s \<le> r_len r \<longrightarrow> in_region r (in_tbl x) (16 * unat (in_size (in_chan x))))"
proof -
  have x: "in_tbl x = shmptr_to_ptr r (msg_buf s) (SIZEOF_lrpc_msg * msg_count s)" "in_tbl x \<noteq> 0"
    "in_wb x = shmptr_to_ptr r (spec_wb s) SIZEOF_wb" "in_wb x \<noteq> 0" "in_size (in_chan x) = ucast (msg_count s)"
    "is_power_of_two (in_size (in_chan x))"
    using ok by (auto simp: shm_init_lrpc_in_def lrpc_init_in_def Let_def split: if_splits sum.splits)
  have "SIZEOF_wb \<le> r_len r" using r(2) by (rule order_trans [rotated]) (simp add: SIZEOF_wb_def SIZEOF_control_hdr_def)
  from shmptr_sound [OF r(1) this, of "spec_wb s"] x(3,4) have "in_region r (in_wb x) 4" by (simp add: SIZEOF_wb_def)
  moreover have "in_region r (in_tbl x) (16 * unat (in_size (in_chan x)))" if "SIZEOF_lrpc_msg * msg_count s \<le> r_len r"
    unfolding x(1,5) by (rule in_region_mono [OF shmptr_sound [OF r(1) that]]) (use x(1,2) ring_bytes in simp_all)
  ultimately show ?thesis using x(6) by simp
qed

lemma init_out_sound:
  assumes r: "unat (r_base r) + unat (r_len r) < 2 ^ 64" "SIZEOF_control_hdr \<le> r_len r" and ok: "shm_init_lrpc_out r s = Inr x"
  shows "in_region r (out_wb x) 4 \<and> is_power_of_two (out_size (out_chan x)) \<and>
    (SIZEOF_lrpc_msg * msg_count s \<le> r_len r \<longrightarrow> in_region r (out_tbl x) (16 * unat (out_size (out_chan x))))"
proof -
  have x: "out_tbl x = shmptr_to_ptr r (msg_buf s) (SIZEOF_lrpc_msg * msg_count s)" "out_tbl x \<noteq> 0"
    "out_wb x = shmptr_to_ptr r (spec_wb s) SIZEOF_wb" "out_wb x \<noteq> 0" "out_size (out_chan x) = ucast (msg_count s)"
    "is_power_of_two (out_size (out_chan x))"
    using ok by (auto simp: shm_init_lrpc_out_def lrpc_init_out_def Let_def split: if_splits sum.splits)
  have "SIZEOF_wb \<le> r_len r" using r(2) by (rule order_trans [rotated]) (simp add: SIZEOF_wb_def SIZEOF_control_hdr_def)
  from shmptr_sound [OF r(1) this, of "spec_wb s"] x(3,4) have "in_region r (out_wb x) 4" by (simp add: SIZEOF_wb_def)
  moreover have "in_region r (out_tbl x) (16 * unat (out_size (out_chan x)))" if "SIZEOF_lrpc_msg * msg_count s \<le> r_len r"
    unfolding x(1,5) by (rule in_region_mono [OF shmptr_sound [OF r(1) that]]) (use x(1,2) ring_bytes in simp_all)
  ultimately show ?thesis using x(6) by simp
qed

text \<open>The words of a thread that every thread has in the region, and its rings when they fit.\<close>

definition thread_in_region :: "shm_region \<Rightarrow> thread_spec \<Rightarrow> cthread \<Rightarrow> bool" where
  "thread_in_region r s t \<longleftrightarrow>
     in_region r (ct_q_ptrs t) 56 \<and> in_region r (ct_next_tsc t) 8 \<and>
     in_region r (out_wb (ct_rxq t)) 4 \<and> in_region r (in_wb (ct_txpktq t)) 4 \<and> in_region r (in_wb (ct_txcmdq t)) 4 \<and>
     (SIZEOF_lrpc_msg * msg_count (sp_rxq s) \<le> r_len r \<longrightarrow>
        in_region r (out_tbl (ct_rxq t)) (16 * unat (out_size (out_chan (ct_rxq t))))) \<and>
     (SIZEOF_lrpc_msg * msg_count (sp_txpktq s) \<le> r_len r \<longrightarrow>
        in_region r (in_tbl (ct_txpktq t)) (16 * unat (in_size (in_chan (ct_txpktq t))))) \<and>
     (SIZEOF_lrpc_msg * msg_count (sp_txcmdq s) \<le> r_len r \<longrightarrow>
        in_region r (in_tbl (ct_txcmdq t)) (16 * unat (in_size (in_chan (ct_txcmdq t)))))"

lemma init_thread_sound:
  assumes r: "unat (r_base r) + unat (r_len r) < 2 ^ 64" "SIZEOF_control_hdr \<le> r_len r" and ok: "init_thread r s = Some (Inr t)"
  shows "thread_in_region r s t"
proof -
  have t: "shm_init_lrpc_out r (sp_rxq s) = Inr (ct_rxq t)" "shm_init_lrpc_in r (sp_txpktq s) = Inr (ct_txpktq t)"
    "shm_init_lrpc_in r (sp_txcmdq s) = Inr (ct_txcmdq t)" "ct_next_tsc t = shmptr_to_ptr r (sp_next_tsc s) 8" "ct_next_tsc t \<noteq> 0"
    "ct_q_ptrs t = shmptr_to_ptr r (sp_q_ptrs s) SIZEOF_q_ptrs" "ct_q_ptrs t \<noteq> 0"
    using ok by (cases "control_init_hwq r (sp_direct_rxq s)"; cases "control_init_hwq r (sp_storage_hwq s)";
      auto simp: init_thread_def Let_def split: sum.splits if_splits)+
  have "8 \<le> r_len r" "SIZEOF_q_ptrs \<le> r_len r"
    using r(2) by (auto simp: SIZEOF_q_ptrs_def SIZEOF_control_hdr_def elim!: order_trans [rotated])
  from shmptr_sound [OF r(1) this(1), of "sp_next_tsc s"] shmptr_sound [OF r(1) this(2), of "sp_q_ptrs s"] t(4-7)
  have "in_region r (ct_next_tsc t) 8" "in_region r (ct_q_ptrs t) 56" by (simp_all add: SIZEOF_q_ptrs_def)
  with init_out_sound [OF r t(1)] init_in_sound [OF r t(2)] init_in_sound [OF r t(3)] show ?thesis
    by (simp add: thread_in_region_def)
qed

lemma init_threads_sound:
  assumes r: "unat (r_base r) + unat (r_len r) < 2 ^ 64" "SIZEOF_control_hdr \<le> r_len r"
  shows "init_threads r ss = Some (Inr ts) \<Longrightarrow> list_all2 (thread_in_region r) ss ts"
proof (induction ss arbitrary: ts)
  case (Cons s ss)
  then obtain t ts' where "init_thread r s = Some (Inr t)" "init_threads r ss = Some (Inr ts')" "ts = t # ts'"
    by (cases "init_thread r s"; cases "init_threads r ss") (auto split: sum.splits)
  with Cons(1) init_thread_sound [OF r, of s] show ?case by simp
qed simp

lemma create_proc_shape:
  assumes "control_create_proc nc lfq allowed mem1 mem2 mem3 pages r hdr specs n = Some (Some p, n')"
  shows "SIZEOF_control_hdr \<le> r_len r \<and> n' = n + guaranteed_cores (hdr_sched_cfg hdr) \<and> cp_sched_cfg p = hdr_sched_cfg hdr \<and>
    init_threads r (map specs [0..<unat (hdr_thread_count hdr)]) = Some (Inr (cp_threads p)) \<and>
    cp_congestion_info p = shmptr_to_ptr r (hdr_congestion_info hdr) SIZEOF_congestion_info \<and> cp_congestion_info p \<noteq> 0 \<and>
    0 < unat (hdr_thread_count hdr) \<and> unat (hdr_thread_count hdr) \<le> nc \<and>
    guaranteed_cores (hdr_sched_cfg hdr) + n \<le> of_nat (bitmap_popcount allowed nc)"
  using assms by (cases "init_threads r (map specs [0..<unat (hdr_thread_count hdr)])")
    (auto simp: control_create_proc_def Let_def not_less unat_gt_0 split: if_splits sum.splits)

lemma create_proc_fails:
  assumes "control_create_proc nc lfq allowed mem1 mem2 mem3 pages r hdr specs n = Some (None, n')"
  shows "n' = n"
  using assms by (cases "init_threads r (map specs [0..<unat (hdr_thread_count hdr)])")
    (auto simp: control_create_proc_def Let_def split: if_splits sum.splits)


section \<open>The table of clients\<close>

definition table_ok :: "ctl \<Rightarrow> bool" where
  "table_ok c \<longleftrightarrow> length (ctl_clients c) \<le> IOKERNEL_MAX_PROC \<and>
     ctl_guaranteed c = sum_list (map (\<lambda>x. guaranteed_cores (cp_sched_cfg (cl_proc x))) (ctl_clients c))"

lemma store_fds_frame: "store_fds nc fs c = Some c' \<Longrightarrow> ctl_clients c' = ctl_clients c \<and> ctl_guaranteed c' = ctl_guaranteed c"
  by (induction nc fs c rule: store_fds.induct) (auto split: if_splits)

lemma map_update_same:
  assumes "g y = g (xs ! i)"
  shows "map g (xs[i := y]) = map g xs"
proof (cases "i < length xs")
  case True
  with assms have "g y = map g xs ! i" by simp
  then show ?thesis by (simp only: map_update list_update_id)
qed (simp add: list_update_beyond)

lemma sum_list_update_word:
  "i < length xs \<Longrightarrow> sum_list (xs[i := y]) = sum_list xs - xs ! i + y" for xs :: "'a::ab_group_add list"
  by (induction xs arbitrary: i) (auto split: nat.splits)

lemma sum_list_butlast:
  "xs \<noteq> [] \<Longrightarrow> sum_list (butlast xs) = sum_list xs - last xs" for xs :: "'a::ab_group_add list"
  by (induction xs) auto

text \<open>
  C34: the table of clients never exceeds its 1,024 entries, and the total of guaranteed cores the
  control plane keeps is the sum over the clients in the table, whichever clients are added, are
  refused, close their connection or are removed.
\<close>

theorem client_table_kept:
  assumes ok: "table_ok c"
    and st: "control_add_client nc fd rd uipi (control_create_proc nc lfq allowed mem1 mem2 mem3 pages r hdr specs) nl sent i c = Some c' \<or>
      control_instruct_dataplane_to_remove_client fd c = (q, c') \<or> control_remove_client i c = c'"
  shows "table_ok c'"
  using st
proof (elim disjE)
  assume a: "control_add_client nc fd rd uipi (control_create_proc nc lfq allowed mem1 mem2 mem3 pages r hdr specs) nl sent i c = Some c'"
  show ?thesis
  proof (cases "fd = - 1 \<or> IOKERNEL_MAX_PROC \<le> length (ctl_clients c) \<or> \<not> rd")
    case True
    with a ok show ?thesis by (auto simp: control_add_client_def)
  next
    case False
    with a obtain fs c1 p n where c1: "store_fds nc fs c = Some c1"
      "control_create_proc nc lfq allowed mem1 mem2 mem3 pages r hdr specs (ctl_guaranteed c1) = Some (p, n)"
      "(case p of None \<Rightarrow> Some (c1\<lparr>ctl_guaranteed := n\<rparr>) | Some p \<Rightarrow> let c = c1\<lparr>ctl_guaranteed := n\<rparr>
          in if \<not> nl \<or> \<not> sent then Some (control_destroy_proc p c)
             else Some (c\<lparr>ctl_clients := ctl_clients c @ [\<lparr>cl_proc = p, cl_fd = fd, cl_id = i, cl_removed = False\<rparr>]\<rparr>)) = Some c'"
      by (auto simp: control_add_client_def Option.bind_eq_Some_conv)
    with ok False store_fds_frame [OF c1(1)] show ?thesis
      by (cases p) (auto simp: control_destroy_proc_def table_ok_def Let_def dest!: create_proc_fails create_proc_shape split: if_splits)
  qed
next
  assume "control_instruct_dataplane_to_remove_client fd c = (q, c')"
  then show ?thesis using ok
    by (auto simp: control_instruct_dataplane_to_remove_client_def table_ok_def Let_def map_update_same split: if_splits)
next
  assume a: "control_remove_client i c = c'"
  let ?cl = "ctl_clients c" and ?i = "length (takeWhile (\<lambda>x. cl_id x \<noteq> i) (ctl_clients c))"
  let ?g = "\<lambda>x. guaranteed_cores (cp_sched_cfg (cl_proc x))"
  show ?thesis
  proof (cases "?i = length ?cl")
    case True
    with a ok show ?thesis by (simp add: control_remove_client_def Let_def)
  next
    case False
    then have i: "?i < length ?cl" "?cl \<noteq> []" using length_takeWhile_le [of _ ?cl] by (auto simp: le_less)
    have "sum_list (map ?g (butlast (?cl[?i := last ?cl]))) = sum_list (map ?g ?cl) - ?g (?cl ! ?i)"
      using i by (simp add: map_butlast map_update sum_list_butlast sum_list_update_word last_list_update last_map)
    with a ok False i show ?thesis
      by (auto simp: control_remove_client_def control_destroy_proc_def table_ok_def Let_def)
  qed
qed

section \<open>Witnesses and checks that wrap around\<close>

definition demo_region :: shm_region where
  "demo_region = \<lparr>r_base = 0x100000000, r_len = 0x200000\<rparr>"

definition demo_queue :: "u64 \<Rightarrow> queue_spec" where
  "demo_queue a = \<lparr>msg_count = 8, msg_buf = a, spec_wb = a + 128\<rparr>"

definition no_hwq :: hardware_queue_spec where
  "no_hwq = \<lparr>hs_descriptor_table = 0, hs_consumer_idx = 0, hs_descriptor_log_size = 0, hs_nr_descriptors = 0, hs_parity_byte_offset = 0,
     hs_parity_bit_mask = 0, hs_hwq_type = HWQ_INVALID\<rparr>"

definition demo_spec :: thread_spec where
  "demo_spec = \<lparr>sp_rxq = demo_queue 0x1000, sp_txpktq = demo_queue 0x2000, sp_txcmdq = demo_queue 0x3000, sp_q_ptrs = 0x4000, sp_tid = 7,
     sp_direct_rxq = no_hwq, sp_storage_hwq = no_hwq, sp_next_tsc = 0x4040, sp_cxltp_waiters = 0, sp_qdelay = 0x4080\<rparr>"

definition demo_hdr :: control_hdr where
  "demo_hdr = \<lparr>version_no = 5, magic = 0x696f6b3a, hdr_thread_count = 1, egress_buf_count = 8, hdr_congestion_info = 0x800,
     hdr_mac = [2, 0, 0, 0, 0, 1], hdr_sched_cfg = \<lparr>priority = 0, max_cores = 2, guaranteed_cores = 1, preferred_socket = 0, cfg_qdelay_us = 10,
       ht_punish_us = 0\<rparr>, hdr_thread_specs = 96, hdr_busy_kthreads = 0x5000, hdr_busy_kthreads_meta = 0x6000\<rparr>"

abbreviation demo_create :: "control_hdr \<Rightarrow> u32 \<Rightarrow> (cproc option \<times> u32) option" where
  "demo_create h n \<equiv> control_create_proc 64 4096 (\<lambda>_. 15) True True True True demo_region h (\<lambda>_. demo_spec) n"

lemma demo_created: "\<exists>p. demo_create demo_hdr 0 = Some (Some p, 1)"
proof -
  have "(case demo_create demo_hdr 0 of Some (Some p, n) \<Rightarrow> n = 1 | _ \<Rightarrow> False)" by code_simp
  then show ?thesis by (auto split: option.splits prod.splits)
qed


definition demo_ctl :: ctl where
  "demo_ctl = \<lparr>ctl_clients = [], ctl_guaranteed = 0, ctl_yield_fd = \<lambda>_. 0, ctl_cede_fd = \<lambda>_. 0\<rparr>"

theorem client_table_kept_witness:
  "\<exists>c'. control_add_client 64 5 True (Some [(2, 10, 11)]) (demo_create demo_hdr) True True 1 demo_ctl = Some c' \<and>
    length (ctl_clients c') = 1 \<and> table_ok c'"
proof -
  obtain p where p: "demo_create demo_hdr 0 = Some (Some p, 1)" using demo_created by blast
  then have "\<exists>c'. control_add_client 64 5 True (Some [(2, 10, 11)]) (demo_create demo_hdr) True True 1 demo_ctl = Some c' \<and>
      length (ctl_clients c') = 1"
    by (simp add: control_add_client_def demo_ctl_def IOKERNEL_MAX_PROC_def Let_def)
  moreover have "table_ok demo_ctl" by (simp add: table_ok_def demo_ctl_def)
  ultimately show ?thesis using client_table_kept by blast
qed

text \<open>
  Three of the checks of the control plane wrap around: a ring larger than the region is
  accepted with a table that starts below the region, a descriptor table of \<open>2 ^ 32\<close> bytes is
  accepted in a region of two megabytes, and a runtime that asks for \<open>2 ^ 32 - 1\<close> guaranteed cores is
  accepted on four cores, with which the total of the guarantees becomes 0.
\<close>

theorem control_checks_wrap:
  "(\<exists>x. shm_init_lrpc_in demo_region \<lparr>msg_count = 2 ^ 18, msg_buf = - (2 ^ 22), spec_wb = 0\<rparr> = Inr x \<and> in_tbl x < r_base demo_region \<and>
     in_size (in_chan x) = 2 ^ 18) \<and>
   (\<exists>h. control_init_hwq demo_region (no_hwq\<lparr>hs_hwq_type := 1, hs_descriptor_log_size := 16, hs_nr_descriptors := 2 ^ 16\<rparr>) = Some (Inr h) \<and>
     unat (r_len demo_region) < 2 ^ unat (hq_log_size h) * unat (hq_nr h)) \<and>
   (\<exists>p. demo_create (demo_hdr\<lparr>hdr_sched_cfg := (hdr_sched_cfg demo_hdr)\<lparr>guaranteed_cores := - 1\<rparr>\<rparr>) 1 = Some (Some p, 0))"
proof (intro conjI)
  show "\<exists>x. shm_init_lrpc_in demo_region \<lparr>msg_count = 2 ^ 18, msg_buf = - (2 ^ 22), spec_wb = 0\<rparr> = Inr x \<and> in_tbl x < r_base demo_region \<and>
     in_size (in_chan x) = 2 ^ 18"
    by (simp add: shm_init_lrpc_in_def shmptr_to_ptr_def SIZEOF_lrpc_msg_def SIZEOF_wb_def demo_region_def lrpc_init_in_def
      is_power_of_two_def UINT64_MAX_def Let_def)
  have "(case control_init_hwq demo_region (no_hwq\<lparr>hs_hwq_type := 1, hs_descriptor_log_size := 16, hs_nr_descriptors := 2 ^ 16\<rparr>) of
      Some (Inr h) \<Rightarrow> hq_log_size h = 16 \<and> hq_nr h = 2 ^ 16 | _ \<Rightarrow> False)" by code_simp
  then show "\<exists>h. control_init_hwq demo_region (no_hwq\<lparr>hs_hwq_type := 1, hs_descriptor_log_size := 16, hs_nr_descriptors := 2 ^ 16\<rparr>) = Some (Inr h) \<and>
     unat (r_len demo_region) < 2 ^ unat (hq_log_size h) * unat (hq_nr h)"
    by (auto simp: demo_region_def split: option.splits sum.splits)
  have "(case demo_create (demo_hdr\<lparr>hdr_sched_cfg := (hdr_sched_cfg demo_hdr)\<lparr>guaranteed_cores := - 1\<rparr>\<rparr>) 1 of
      Some (Some p, n) \<Rightarrow> n = 0 | _ \<Rightarrow> False)" by code_simp
  then show "\<exists>p. demo_create (demo_hdr\<lparr>hdr_sched_cfg := (hdr_sched_cfg demo_hdr)\<lparr>guaranteed_cores := - 1\<rparr>\<rparr>) 1 = Some (Some p, 0)"
    by (auto split: option.splits prod.splits)
qed

end
