(* ===== verification/Core_Ledger.thy ===== *)
theory Core_Ledger
  imports Iosched
begin

text \<open>
  The bookkeeping that the scheduling policies \<^verbatim>\<open>simple.c\<close> and \<^verbatim>\<open>numa.c\<close> keep alike: which process owns
  which core, how many cores each process has, which processes wait for more, which cores are free
  and which processes ran on a core before. A policy's record of a process is named by the process.
  The functions are those of \<^verbatim>\<open>simple.c\<close>; \<^verbatim>\<open>numa.c\<close> has its own copies.
\<close>

section \<open>State\<close>

record pol_data =
  is_congested :: bool
  waking :: bool
  qdelay_us :: u64
  threads_guaranteed :: int
  threads_max :: int
  threads_active :: int

record 'd pol_sys = iosys +
  pdata :: "nat \<Rightarrow> 'd pol_data_scheme"
  congested_procs :: "nat list"
  idle_cores :: bitmap
  cores :: "nat \<Rightarrow> nat option"
  hist :: "nat \<Rightarrow> nat option list"

definition NHIST :: nat where "NHIST = 4"

section \<open>Operations\<close>

definition simple_proc_is_preemptible :: "'d pol_data_scheme \<Rightarrow> 'd pol_data_scheme \<Rightarrow> bool" where
  "simple_proc_is_preemptible cursd nextsd \<longleftrightarrow>
     threads_guaranteed cursd < threads_active cursd \<and> threads_active nextsd < threads_guaranteed nextsd"

definition simple_cleanup_core :: "nat \<Rightarrow> ('d, 'z) pol_sys_scheme \<Rightarrow> ('d, 'z) pol_sys_scheme" where
  "simple_cleanup_core core s =
     (case cores s core of
        None \<Rightarrow> s
      | Some p \<Rightarrow>
          let d = pdata s p
          in s\<lparr>pdata := (pdata s)(p := d\<lparr>threads_active := threads_active d - 1\<rparr>), cores := (cores s)(core := None),
               hist := (hist s)(core := Some p # take (NHIST - 1) (hist s core))\<rparr>)"

definition simple_mark_congested :: "nat \<Rightarrow> ('d, 'z) pol_sys_scheme \<Rightarrow> ('d, 'z) pol_sys_scheme" where
  "simple_mark_congested p s =
     (if is_congested (pdata s p) then s
      else s\<lparr>pdata := (pdata s)(p := (pdata s p)\<lparr>is_congested := True\<rparr>), congested_procs := p # congested_procs s\<rparr>)"

definition simple_unmark_congested :: "nat \<Rightarrow> ('d, 'z) pol_sys_scheme \<Rightarrow> ('d, 'z) pol_sys_scheme" where
  "simple_unmark_congested p s =
     (if \<not> is_congested (pdata s p) then s
      else s\<lparr>pdata := (pdata s)(p := (pdata s p)\<lparr>is_congested := False\<rparr>), congested_procs := remove1 p (congested_procs s)\<rparr>)"

definition simple_detach :: "nat \<Rightarrow> nat \<Rightarrow> ('d, 'z) pol_sys_scheme \<Rightarrow> ('d, 'z) pol_sys_scheme option" where
  "simple_detach nc p s =
     (let s = simple_unmark_congested p s
      in Some (s\<lparr>cores := \<lambda>i. if i < nc \<and> cores s i = Some p then None else cores s i,
                 hist := \<lambda>i. if i < nc then map (\<lambda>h. if h = Some p then None else h) (hist s i) else hist s i\<rparr>))"

text \<open>A core that \<open>p\<close> may get: not its own, and free or preemptible.\<close>

definition can_take :: "('d, 'z) pol_sys_scheme \<Rightarrow> nat \<Rightarrow> nat \<Rightarrow> bool" where
  "can_take s p core \<longleftrightarrow> cores s core \<noteq> Some p \<and>
     (case cores s core of None \<Rightarrow> True | Some q \<Rightarrow> simple_proc_is_preemptible (pdata s q) (pdata s p))"

definition core_at :: "nat \<Rightarrow> nat \<Rightarrow> nat option" where
  "core_at nc c = (if c < nc then Some c else None)"

definition preemptible_core :: "('d, 'z) pol_sys_scheme \<Rightarrow> nat \<Rightarrow> nat \<Rightarrow> bool" where
  "preemptible_core s p core \<longleftrightarrow> cores s core \<noteq> Some p \<and>
     (case cores s core of None \<Rightarrow> False | Some q \<Rightarrow> simple_proc_is_preemptible (pdata s q) (pdata s p))"


text \<open>The processes with locality to a core, in the order the function looks at them.\<close>

definition local_procs :: "('d, 'z) pol_sys_scheme \<Rightarrow> nat \<Rightarrow> nat \<Rightarrow> nat list" where
  "local_procs s core sib =
     opt_list (cores s sib) @ concat (map (\<lambda>i. opt_list (hist s core ! i) @ opt_list (hist s sib ! i)) [0..<NHIST])"

section \<open>The books are right\<close>

definition owners_ok :: "nat \<Rightarrow> nat set \<Rightarrow> (nat \<Rightarrow> nat option) \<Rightarrow> (nat \<Rightarrow> 'd pol_data_scheme) \<Rightarrow> bool" where
  "owners_ok nc A C D \<longleftrightarrow> (\<forall>c p. C c = Some p \<longrightarrow> p \<in> A \<and> c < nc) \<and>
     (\<forall>p \<in> A. threads_active (D p) = int (card {c. C c = Some p}))"

definition waiting_ok :: "nat set \<Rightarrow> nat list \<Rightarrow> (nat \<Rightarrow> 'd pol_data_scheme) \<Rightarrow> bool" where
  "waiting_ok A L D \<longleftrightarrow> distinct L \<and> set L = {p \<in> A. is_congested (D p)}"

definition hist_ok :: "nat \<Rightarrow> nat set \<Rightarrow> (nat \<Rightarrow> nat option list) \<Rightarrow> bool" where
  "hist_ok nc A H \<longleftrightarrow> (\<forall>c < nc. length (H c) = NHIST \<and> (\<forall>q. Some q \<in> set (H c) \<longrightarrow> q \<in> A))"

text \<open>The owner of a core that did not go idle since the last report runs there, or is about to.\<close>

definition agrees :: "nat set \<Rightarrow> (nat \<Rightarrow> nat option) \<Rightarrow> ('d, 'z) pol_sys_scheme \<Rightarrow> bool" where
  "agrees I C s \<longleftrightarrow> (\<forall>c p. C c = Some p \<longrightarrow> c \<notin> I \<longrightarrow> (\<exists>i. sched_get_thread_on_core c s = Some (p, i)))"

definition base_ok :: "nat \<Rightarrow> nat set \<Rightarrow> ('d, 'z) pol_sys_scheme \<Rightarrow> bool" where
  "base_ok nc A s \<longleftrightarrow> sched_inv s \<and> (\<forall>c \<in> set (sched_cores_tbl s). c < nc \<and> bitmap_test (sched_allowed_cores s) c) \<and>
     (\<forall>c < nc. sched_siblings s c < nc) \<and> (\<forall>p \<in> A. 0 < slack (procs s p))"

definition ledger_ok :: "nat \<Rightarrow> nat set \<Rightarrow> nat set \<Rightarrow> ('d, 'z) pol_sys_scheme \<Rightarrow> bool" where
  "ledger_ok nc A I s \<longleftrightarrow> base_ok nc A s \<and> owners_ok nc A (cores s) (pdata s) \<and> waiting_ok A (congested_procs s) (pdata s) \<and>
     hist_ok nc A (hist s) \<and> (\<forall>c. bitmap_test (idle_cores s) c \<longrightarrow> cores s c = None) \<and> agrees I (cores s) s"

text \<open>The scheduler core does not read the policy's fields.\<close>

lemma get_thread_policy [simp]:
  "sched_get_thread_on_core k (s\<lparr>pdata := D\<rparr>) = sched_get_thread_on_core k s"
  "sched_get_thread_on_core k (s\<lparr>congested_procs := L\<rparr>) = sched_get_thread_on_core k s"
  "sched_get_thread_on_core k (s\<lparr>idle_cores := B\<rparr>) = sched_get_thread_on_core k s"
  "sched_get_thread_on_core k (s\<lparr>cores := C\<rparr>) = sched_get_thread_on_core k s"
  "sched_get_thread_on_core k (s\<lparr>hist := H\<rparr>) = sched_get_thread_on_core k s"
  "sched_get_thread_on_core k (t\<lparr>procs := P\<rparr>) = sched_get_thread_on_core k t"
  "sched_get_thread_on_core k (t\<lparr>clients := cl\<rparr>) = sched_get_thread_on_core k t"
  "sched_get_thread_on_core k (t\<lparr>released := R\<rparr>) = sched_get_thread_on_core k t"
  by (simp_all add: sched_get_thread_on_core_def)

lemma sched_inv_policy [simp]:
  "sched_inv (s\<lparr>pdata := D\<rparr>) = sched_inv s" "sched_inv (s\<lparr>congested_procs := L\<rparr>) = sched_inv s"
  "sched_inv (s\<lparr>idle_cores := B\<rparr>) = sched_inv s" "sched_inv (s\<lparr>cores := C\<rparr>) = sched_inv s"
  "sched_inv (s\<lparr>hist := H\<rparr>) = sched_inv s" "sched_inv (t\<lparr>clients := cl\<rparr>) = sched_inv t" "sched_inv (t\<lparr>released := R\<rparr>) = sched_inv t"
  by (simp_all add: sched_inv_def)

lemma owners_finite: "owners_ok nc A C D \<Longrightarrow> finite {c. C c = Some p}"
  by (rule finite_subset [of _ "{..<nc}"]) (auto simp: owners_ok_def)

lemma owners_cong:
  assumes "owners_ok nc A C D" "\<And>p. p \<in> A \<Longrightarrow> threads_active (D' p) = threads_active (D p)"
  shows "owners_ok nc A C D'"
  using assms by (simp add: owners_ok_def)

lemma owners_release:
  assumes ok: "owners_ok nc A C D" and c: "C core = Some p" and d: "threads_active d = threads_active (D p) - 1"
  shows "owners_ok nc A (C(core := None)) (D(p := d))"
proof -
  have "{c. (C(core := None)) c = Some q} = {c. C c = Some q} - (if q = p then {core} else {})" for q using c by auto
  moreover have "card ({c. C c = Some p} - {core}) + 1 = card {c. C c = Some p}"
    using card_Suc_Diff1 [OF owners_finite [OF ok], of core p] c by simp
  ultimately show ?thesis using ok d by (auto simp: owners_ok_def)
qed

lemma owners_assign:
  assumes ok: "owners_ok nc A C D" and c: "C core = None" "core < nc" "p \<in> A" and d: "threads_active d = threads_active (D p) + 1"
  shows "owners_ok nc A (C(core := Some p)) (D(p := d))"
proof -
  have "{c. (C(core := Some p)) c = Some q} = (if q = p then insert core {c. C c = Some q} else {c. C c = Some q})" for q using c by auto
  moreover have "card (insert core {c. C c = Some p}) = card {c. C c = Some p} + 1"
    using card_insert_disjoint [OF owners_finite [OF ok], of core p] c by simp
  ultimately show ?thesis using ok c d by (auto simp: owners_ok_def)
qed

lemma owners_detach:
  assumes "owners_ok nc A C D" "\<And>q. q \<noteq> p \<Longrightarrow> threads_active (D' q) = threads_active (D q)"
  shows "owners_ok nc (A - {p}) (\<lambda>i. if i < nc \<and> C i = Some p then None else C i) D'"
proof -
  have "{i. (if i < nc \<and> C i = Some p then None else C i) = Some q} = {i. C i = Some q}" if "q \<noteq> p" for q using that by auto
  with assms show ?thesis by (auto simp: owners_ok_def split: if_splits)
qed

lemma ledger_cleanup:
  assumes ok: "ledger_ok nc A I s"
  shows "ledger_ok nc A (I - {core}) (simple_cleanup_core core s)" "cores (simple_cleanup_core core s) core = None"
proof -
  show "cores (simple_cleanup_core core s) core = None" by (simp add: simple_cleanup_core_def Let_def split: option.splits)
  show "ledger_ok nc A (I - {core}) (simple_cleanup_core core s)"
  proof (cases "cores s core")
    case None
    then show ?thesis using ok by (auto simp: simple_cleanup_core_def ledger_ok_def agrees_def)
  next
    case (Some p)
    let ?d = "(pdata s p)\<lparr>threads_active := threads_active (pdata s p) - 1\<rparr>"
    have p: "p \<in> A" "core < nc" using ok Some by (auto simp: ledger_ok_def owners_ok_def)
    have "owners_ok nc A ((cores s)(core := None)) ((pdata s)(p := ?d))"
      by (rule owners_release) (use ok Some in \<open>simp_all add: ledger_ok_def\<close>)
    moreover have "waiting_ok A (congested_procs s) ((pdata s)(p := ?d))" using ok by (auto simp: ledger_ok_def waiting_ok_def)
    moreover have "hist_ok nc A ((hist s)(core := Some p # take (NHIST - 1) (hist s core)))"
      using ok p by (auto simp: ledger_ok_def hist_ok_def NHIST_def dest: in_set_takeD)
    ultimately show ?thesis using ok Some
      by (simp add: simple_cleanup_core_def Let_def ledger_ok_def base_ok_def agrees_def)
  qed
qed

text \<open>Giving a free core on which a thread of \<open>p\<close> was placed to \<open>p\<close>.\<close>

definition assign_core :: "nat \<Rightarrow> nat \<Rightarrow> 'd pol_data_scheme \<Rightarrow> ('d, 'z) pol_sys_scheme \<Rightarrow> ('d, 'z) pol_sys_scheme" where
  "assign_core p core d s = s\<lparr>pdata := (pdata s)(p := d), cores := (cores s)(core := Some p), idle_cores := bitmap_clear (idle_cores s) core\<rparr>"

lemma ledger_assign:
  assumes ok: "ledger_ok nc A I s" and c: "cores s core = None" "core < nc" "p \<in> A"
    and g: "sched_get_thread_on_core core s = Some (p, i)"
    and d: "threads_active d = threads_active (pdata s p) + 1" "is_congested d = is_congested (pdata s p)"
  shows "ledger_ok nc A I (assign_core p core d s)"
proof -
  have "owners_ok nc A ((cores s)(core := Some p)) ((pdata s)(p := d))"
    by (rule owners_assign) (use ok c d in \<open>simp_all add: ledger_ok_def\<close>)
  moreover have "waiting_ok A (congested_procs s) ((pdata s)(p := d))" using ok d(2) by (auto simp: ledger_ok_def waiting_ok_def)
  moreover have "agrees I ((cores s)(core := Some p)) (assign_core p core d s)"
    using ok g by (auto simp: ledger_ok_def agrees_def assign_core_def split: if_splits)
  ultimately show ?thesis using ok by (simp add: assign_core_def ledger_ok_def base_ok_def)
qed

text \<open>Updates of the data that touch neither the count nor the mark.\<close>

lemma ledger_data:
  assumes ok: "ledger_ok nc A I s"
    and D: "\<And>p. p \<in> A \<Longrightarrow> threads_active (D p) = threads_active (pdata s p) \<and> is_congested (D p) = is_congested (pdata s p)"
  shows "ledger_ok nc A I (s\<lparr>pdata := D\<rparr>)"
proof -
  have "owners_ok nc A (cores s) D" by (rule owners_cong [of _ _ _ "pdata s"]) (use ok D in \<open>simp_all add: ledger_ok_def\<close>)
  moreover have "waiting_ok A (congested_procs s) D" using ok D by (auto simp: ledger_ok_def waiting_ok_def)
  ultimately show ?thesis using ok
    by (simp add: ledger_ok_def base_ok_def agrees_def)
qed

lemma ledger_waiting:
  assumes ok: "ledger_ok nc A I s" and p: "waiting_ok A L ((pdata s)(p := (pdata s p)\<lparr>is_congested := b\<rparr>))"
  shows "ledger_ok nc A I (s\<lparr>pdata := (pdata s)(p := (pdata s p)\<lparr>is_congested := b\<rparr>), congested_procs := L\<rparr>)"
proof -
  have "owners_ok nc A (cores s) ((pdata s)(p := (pdata s p)\<lparr>is_congested := b\<rparr>))"
    by (rule owners_cong [of _ _ _ "pdata s"]) (use ok in \<open>simp_all add: ledger_ok_def\<close>)
  with ok p show ?thesis by (simp add: ledger_ok_def base_ok_def agrees_def)
qed

lemma ledger_mark: "ledger_ok nc A I s \<Longrightarrow> p \<in> A \<Longrightarrow> ledger_ok nc A I (simple_mark_congested p s)"
  unfolding simple_mark_congested_def
  by (auto intro!: ledger_waiting) (auto simp: ledger_ok_def waiting_ok_def)

lemma ledger_unmark: "ledger_ok nc A I s \<Longrightarrow> ledger_ok nc A I (simple_unmark_congested p s)"
  unfolding simple_unmark_congested_def
  by (auto intro!: ledger_waiting) (auto simp: ledger_ok_def waiting_ok_def)

lemma ledger_idle:
  assumes "ledger_ok nc A I s" "cores s core = None"
  shows "ledger_ok nc A I (s\<lparr>idle_cores := bitmap_set (idle_cores s) core\<rparr>)"
  using assms by (simp add: ledger_ok_def base_ok_def agrees_def)

lemma ledger_frame:
  assumes ok: "ledger_ok nc A I s" and inv: "sched_inv s'" "core_frame s s'" and I: "I \<subseteq> I'"
    and g: "\<And>k. k \<notin> I' \<Longrightarrow> sched_get_thread_on_core k s' = sched_get_thread_on_core k s"
  shows "ledger_ok nc A I' s'"
proof -
  have more: "pdata s' = pdata s" "cores s' = cores s" "hist s' = hist s" "congested_procs s' = congested_procs s" "idle_cores s' = idle_cores s"
    using inv(2) by (cases s, cases s', simp add: core_frame_def)+
  have "agrees I' (cores s) s'" using ok I g unfolding ledger_ok_def agrees_def by (metis subsetD)
  with ok inv more show ?thesis by (simp add: ledger_ok_def base_ok_def core_frame_def)
qed

lemma ledger_new:
  assumes "ledger_ok nc A I s" "p \<notin> A" "sched_inv (upd_proc p q s)"
  shows "ledger_ok nc A I (upd_proc p q s)"
  using assms by (auto simp: ledger_ok_def base_ok_def agrees_def)

lemma ledger_clients: "ledger_ok nc A I s \<Longrightarrow> ledger_ok nc A I (s\<lparr>clients := cl, released := R\<rparr>)"
  by (simp add: ledger_ok_def base_ok_def agrees_def)

lemma ledger_attach:
  assumes ok: "ledger_ok nc A I s" and p: "p \<notin> A" "0 < slack (procs s p)" and d: "threads_active d = 0" "\<not> is_congested d"
  shows "ledger_ok nc (insert p A) I (s\<lparr>pdata := (pdata s)(p := d)\<rparr>)"
proof -
  have "{c. cores s c = Some p} = {}" using ok p(1) by (auto simp: ledger_ok_def owners_ok_def)
  then have "owners_ok nc (insert p A) (cores s) ((pdata s)(p := d))" using ok p(1) d(1) by (auto simp: ledger_ok_def owners_ok_def)
  moreover have "waiting_ok (insert p A) (congested_procs s) ((pdata s)(p := d))"
    using ok p(1) d(2) by (auto simp: ledger_ok_def waiting_ok_def)
  moreover have "hist_ok nc (insert p A) (hist s)" using ok by (auto simp: ledger_ok_def hist_ok_def)
  ultimately show ?thesis using ok p(2)
    by (simp add: ledger_ok_def base_ok_def agrees_def)
qed

lemma unmark_frame [simp]:
  "cores (simple_unmark_congested p s) = cores s" "hist (simple_unmark_congested p s) = hist s"
  "idle_cores (simple_unmark_congested p s) = idle_cores s" "procs (simple_unmark_congested p s) = procs s"
  "cstate (simple_unmark_congested p s) = cstate s" "clients (simple_unmark_congested p s) = clients s"
  "sched_allowed_cores (simple_unmark_congested p s) = sched_allowed_cores s"
  "\<not> is_congested (pdata (simple_unmark_congested p s) p)"
  "threads_active (pdata (simple_unmark_congested p s) q) = threads_active (pdata s q)"
  "threads_guaranteed (pdata (simple_unmark_congested p s) q) = threads_guaranteed (pdata s q)"
  by (auto simp: simple_unmark_congested_def)

lemma ledger_detach:
  assumes ok: "ledger_ok nc A I s"
  shows "\<exists>s'. simple_detach nc p s = Some s' \<and> ledger_ok nc (A - {p}) I s' \<and> clients s' = clients s \<and> procs s' = procs s"
proof -
  let ?s = "simple_unmark_congested p s"
  have ok1: "ledger_ok nc A I ?s" by (rule ledger_unmark [OF ok])
  then have "owners_ok nc (A - {p}) (\<lambda>i. if i < nc \<and> cores ?s i = Some p then None else cores ?s i) (pdata ?s)"
    by (intro owners_detach [of _ _ _ "pdata ?s"]) (simp_all add: ledger_ok_def)
  moreover have "waiting_ok (A - {p}) (congested_procs ?s) (pdata ?s)"
    using ok1 unmark_frame(8) [of p s] by (auto simp: ledger_ok_def waiting_ok_def)
  moreover have "hist_ok nc (A - {p}) (\<lambda>i. if i < nc then map (\<lambda>h. if h = Some p then None else h) (hist ?s i) else hist ?s i)"
    using ok1 by (auto simp: ledger_ok_def hist_ok_def split: if_splits)
  ultimately show ?thesis using ok1
    by (auto simp: simple_detach_def Let_def ledger_ok_def base_ok_def agrees_def)
qed

lemma sibling_ok: "base_ok nc A s \<Longrightarrow> c < nc \<Longrightarrow> core_at nc (sched_siblings s c) = Some (sched_siblings s c)"
  by (simp add: base_ok_def core_at_def)

lemma preemptible_can_take: "preemptible_core s p c \<Longrightarrow> can_take s p c"
  by (auto simp: preemptible_core_def can_take_def split: option.splits)

lemma idle_can_take:
  "ledger_ok nc A I s \<Longrightarrow> bitmap_test (idle_cores s) c \<Longrightarrow> can_take s p c"
  by (simp add: ledger_ok_def can_take_def)

lemma first_idle:
  assumes ok: "ledger_ok nc A I s" and b: "\<And>k. k < nc \<Longrightarrow> bitmap_test B k \<Longrightarrow> bitmap_test (idle_cores s) k"
  shows "bitmap_find_next_set B nc 0 = nc \<and> (\<forall>k < nc. \<not> bitmap_test B k) \<or>
    bitmap_find_next_set B nc 0 < nc \<and> can_take s p (bitmap_find_next_set B nc 0)"
  by (rule first_idx_cases [of "bitmap_test B" 0 nc])
    (use idle_can_take [OF ok] b in \<open>auto simp: bitmap_find_next_set_def bitmap_find_next_first\<close>)

lemma local_procs_known:
  assumes ok: "ledger_ok nc A I s" and core: "core < nc" "sib < nc"
  shows "set (local_procs s core sib) \<subseteq> A"
proof -
  have "cores s c = Some q \<Longrightarrow> q \<in> A" for c q using ok by (auto simp: ledger_ok_def owners_ok_def)
  moreover have "hist s c ! i = Some q \<Longrightarrow> q \<in> A" if "c < nc" "i < NHIST" for c i q
    using ok that nth_mem [of i "hist s c"] by (auto simp: ledger_ok_def hist_ok_def)
  ultimately show ?thesis using core by (auto simp: local_procs_def)
qed

text \<open>What the scheduler core does when a policy asks it to run a process on a core.\<close>

lemma place_ok:
  assumes ok: "ledger_ok nc A I s"
  shows "\<exists>r s1. sched_run_on_core nc p core s = Some (r, s1) \<and> core_frame s s1 \<and>
    (r = Ok \<longrightarrow> core < nc \<and> ledger_ok nc A (insert core I) s1 \<and> (\<exists>i. sched_get_thread_on_core core s1 = Some (p, i))) \<and>
    (r \<noteq> Ok \<longrightarrow> s1 = s \<and> (sched_threads_avail p s = 0 \<or> nc \<le> core \<or> \<not> bitmap_test (sched_allowed_cores s) core))"
proof -
  have inv: "sched_inv s" using ok by (simp add: ledger_ok_def base_ok_def)
  obtain r s1 where r: "sched_run_on_core nc p core s = Some (r, s1)" "sched_inv s1" "core_frame s s1"
    "\<And>k. k \<noteq> core \<Longrightarrow> cstate s1 k = cstate s k"
    "r = Ok \<Longrightarrow> core < nc \<and> (\<exists>i. sched_get_thread_on_core core s1 = Some (p, i))"
    "r \<noteq> Ok \<Longrightarrow> s1 = s \<and> (idle_threads (procs s p) = [] \<or> nc \<le> core \<or> \<not> bitmap_test (sched_allowed_cores s) core)"
    using sched_run_on_core_inv [OF inv, of nc p core] by blast
  have "ledger_ok nc A (insert core I) s1"
    by (rule ledger_frame [OF ok r(2,3)]) (auto simp: sched_get_thread_on_core_def r(4))
  moreover have "idle_threads (procs s p) = [] \<Longrightarrow> sched_threads_avail p s = 0"
    using idle_count [of "procs s p"] inv pinvD(1) by (force simp: sched_threads_avail_def sched_inv_def)
  ultimately show ?thesis using r by blast
qed

section \<open>An example\<close>

text \<open>
  Process 0 runs its second kthread on core 3; core 2 is free, cores 0 and 1 are reserved; process 1
  has two parked kthreads.
\<close>

definition demo_parked :: proc where
  "demo_parked = demo_proc\<lparr>active_thread_count := 0, threads := \<lambda>_. demo_thread, idle_threads := [0, 1]\<rparr>"

lemma demo_parked_ok: "proc_ok demo_parked"
  by (auto simp: demo_parked_def demo_proc_def proc_ok_def demo_thread_def)

definition demo_ledger :: "(nat \<Rightarrow> 'd pol_data_scheme) \<Rightarrow> 'z \<Rightarrow> ('d, 'z) pol_sys_scheme" where
  "demo_ledger D m = \<lparr>procs = (\<lambda>p. if p = 0 then demo_proc else if p = 1 then demo_parked else demo_parked\<lparr>idle_threads := [], thread_count := 0\<rparr>),
     cstate = (\<lambda>k. \<lparr>pending_th = None, cur_th = (if k = 3 then Some (0, 1) else None), c_idle = k \<noteq> 3, c_pending = False, c_wait = False\<rparr>),
     ks = \<lparr>cs_map = (\<lambda>_. zero_conn), ksched_gens = (\<lambda>_. 0), ksched_count = 0, cpu_tosend = (\<lambda>_. 0), yield_op = (\<lambda>_. 0), cede_op = (\<lambda>_. 0)\<rparr>,
     sched_allowed_cores = (\<lambda>_. 12), sched_siblings = (\<lambda>c. if even c then c + 1 else c - 1), sched_cores_tbl = [2, 3],
     sched_siblings_tbl = [2], sched_ctrl_core = 0, sched_dp_core = 1, socket_cores = (\<lambda>_ _. 15), cur_tsc = 0, last_time = 0,
     clients = [0], released = [], pdata = D,
     congested_procs = [], idle_cores = (\<lambda>_. 4), cores = (\<lambda>c. if c = 3 then Some 0 else None),
     hist = (\<lambda>_. replicate 4 None), \<dots> = m\<rparr>"

lemma demo_ledger_sched: "sched_inv (demo_ledger D m)"
proof -
  have "pinv None (procs (demo_ledger D m)) (cstate (demo_ledger D m))"
  proof (rule pinvI)
    show "proc_ok (procs (demo_ledger D m) p) \<and> int (active_thread_count (procs (demo_ledger D m) p)) \<le> p_ref (procs (demo_ledger D m) p)" for p
      using demo_proc_ok demo_parked_ok
      by (simp add: demo_ledger_def) (simp add: demo_parked_def demo_proc_def proc_ok_def)
  qed (auto simp: demo_ledger_def held_def opt_list_def demo_parked_def demo_proc_def demo_thread_def split: if_splits)
  then show ?thesis
    by (simp add: sched_inv_def) (simp add: demo_ledger_def kinv_def gens_ok_def ksched_poll_run_done_def zero_conn_def)
qed

lemma demo_ledger_ok:
  assumes "threads_active (D 0) = 1" "\<not> is_congested (D 0)"
  shows "ledger_ok 4 (set (clients (demo_ledger D m))) {} (demo_ledger D m)"
proof -
  have "bitmap_test (\<lambda>_. 12) 2" "bitmap_test (\<lambda>_. 12) 3" "\<not> bitmap_test (\<lambda>_. 4) 3"
    by (simp_all add: bitmap_test_bit)
  moreover have "(if even c then c + 1 else c - 1) < 4" if "c < 4" for c :: nat using that by presburger
  ultimately have "base_ok 4 {0} (demo_ledger D m)"
    using demo_ledger_sched unfolding base_ok_def by (intro conjI) (simp_all add: demo_ledger_def demo_proc_def)
  moreover have "{c. (if c = 3 then Some 0 else None) = Some (0 :: nat)} = {3 :: nat}" by auto
  moreover have "set (clients (demo_ledger D m)) = {0}" by (simp add: demo_ledger_def)
  ultimately show ?thesis using \<open>\<not> bitmap_test (\<lambda>_. 4) 3\<close> assms unfolding ledger_ok_def
    by (intro conjI) (auto simp: demo_ledger_def owners_ok_def waiting_ok_def hist_ok_def NHIST_def agrees_def
      sched_get_thread_on_core_def split: if_splits)
qed

end
