(* ===== verification/Iok_Policy.thy ===== *)
theory Iok_Policy
  imports Iosched
begin

text \<open>
  What the main loop of the scheduler process relies on of a scheduling policy, and what it then
  promises: no call of the loop fails, and the policy's own invariant holds after every iteration.
  \<open>pol_ok A I s\<close>: the policy's bookkeeping is right for the attached processes \<open>A\<close>, up to the cores
  \<open>I\<close> that went idle and have not been reported to it yet.
\<close>

section \<open>Facts about the steps of the loop\<close>

lemma send_loop_frame:
  "send_loop cs s = (sent, s') \<Longrightarrow> cs_map s' = cs_map s \<and> ksched_gens s' = ksched_gens s \<and> cede_op s' = cede_op s"
  by (induction cs arbitrary: s sent) (fastforce simp: Let_def split: if_splits prod.splits)+

lemma kinv_words:
  assumes "kinv C K A" "cs_map K' = cs_map K" "ksched_gens K' = ksched_gens K" "cede_op K' = cede_op K"
  shows "kinv C K' A"
  using assms by (simp add: kinv_def gens_ok_def ksched_poll_run_done_def)

lemma send_intrs_inv:
  assumes "sched_inv s" "ksched_send_intrs nc (ks s) = (sent, k)"
  shows "sched_inv (s\<lparr>ks := k\<rparr>) \<and> core_frame s (s\<lparr>ks := k\<rparr>)"
proof -
  have "cs_map k = cs_map (ks s) \<and> ksched_gens k = ksched_gens (ks s) \<and> cede_op k = cede_op (ks s)"
    using assms(2) by (auto simp: ksched_send_intrs_def Let_def split: if_splits prod.splits dest: send_loop_frame)
  with assms(1) kinv_words show ?thesis by (simp add: sched_inv_def core_frame_def) blast
qed

lemma zero_bitmap_test [simp]: "\<not> bitmap_test (bitmap_init (\<lambda>_. 0) n False) k"
  by (simp add: bitmap_init_def bitmap_test_bit)

lemma reset_threads_shape:
  assumes "p' = reset_threads is p"
  shows "thread_count p' = thread_count p \<and> active_thread_count p' = active_thread_count p \<and> p_ref p' = p_ref p \<and>
    sched_cfg p' = sched_cfg p \<and> idle_threads p' = idle_threads p @ is \<and> (\<forall>i \<in> set is. \<not> th_active (threads p' i)) \<and>
    (\<forall>i. i \<notin> set is \<longrightarrow> threads p' i = threads p i)"
  using assms
proof (induction "is" arbitrary: p)
  case (Cons i "is")
  from Cons(1) [OF Cons(2) [unfolded reset_threads.simps]] show ?case by (cases "i \<in> set is") auto
qed simp

text \<open>A process without threads, and the same process with its threads reset.\<close>

definition no_threads :: "proc \<Rightarrow> proc" where
  "no_threads p = p\<lparr>thread_count := 0, active_thread_count := 0, idle_threads := []\<rparr>"

definition reset_proc :: "proc \<Rightarrow> proc" where
  "reset_proc p = reset_threads [0..<thread_count p] (p\<lparr>active_thread_count := 0, idle_threads := []\<rparr>)"

lemma reset_proc_ok:
  shows "proc_ok (reset_proc p)" "active_thread_count (reset_proc p) = 0" "p_ref (reset_proc p) = p_ref p"
    "sched_cfg (reset_proc p) = sched_cfg p"
    "i < thread_count (reset_proc p) \<Longrightarrow> \<not> th_active (threads (reset_proc p) i)"
  using reset_threads_shape [OF refl, of "[0..<thread_count p]" "p\<lparr>active_thread_count := 0, idle_threads := []\<rparr>"]
  by (auto simp: proc_ok_def reset_proc_def)

lemma reset_proc_inv:
  assumes inv: "sched_inv (upd_proc p (no_threads (procs s p)) s)"
  shows "sched_inv (upd_proc p (reset_proc (procs s p)) s)"
proof -
  let ?P = "(procs s)(p := no_threads (procs s p))" and ?Q = "(procs s)(p := reset_proc (procs s p))"
  have pi: "pinv None ?P (cstate s)" using inv by (simp add: sched_inv_def)
  have no: "(p, i) \<notin> set (held (cstate s k))" for i k
    using pinvD(4) [OF pi, of p i k] by (auto simp: no_threads_def)
  have ref: "0 \<le> p_ref (procs s p)" using pinvD(2) [OF pi, of p] by (simp add: no_threads_def)
  note R = reset_proc_ok [where p = "procs s p"]
  have "pinv None ?Q (cstate s)"
  proof (rule pinvI)
    show "proc_ok (?Q q) \<and> int (active_thread_count (?Q q)) \<le> p_ref (?Q q)" for q
      using pinvD(1,2) [OF pi, of q] R ref by (cases "q = p") auto
    show "distinct (held (cstate s k))" for k by (rule pinvD(3) [OF pi])
    show "i < thread_count (?Q q) \<and> th_active (threads (?Q q) i) \<and> th_core (threads (?Q q) i) = k \<and> None \<noteq> Some (q, i)"
      if "(q, i) \<in> set (held (cstate s k))" for k q i
      using pinvD(4) [OF pi that] no [of i k] that by (cases "q = p") auto
    show "(q, i) \<in> set (held (cstate s (th_core (threads (?Q q) i)))) \<or> None = Some (q, i)"
      if "i < thread_count (?Q q)" "th_active (threads (?Q q) i)" for q i
      using pinvD(5) [OF pi, of i q] R(5) [of i] that by (cases "q = p") auto
  qed
  with inv show ?thesis by (simp add: sched_inv_def)
qed

section \<open>The main loop\<close>

text \<open>
  The steps that \<^verbatim>\<open>dataplane_loop\<close> interleaves with the cores and the runtimes: a poll, a command of the control plane, a core
  that acknowledges its request or goes idle, a runtime that writes its shared words. A new client
  comes with a process no core knows and that meets \<open>adm\<close>, what the policy asks of a process, and its
  interrupt senders can be registered.
\<close>

definition runtime_writes :: "proc \<Rightarrow> proc \<Rightarrow> bool" where
  "runtime_writes p q \<longleftrightarrow> (\<exists>f g h w. q = p\<lparr>threads := \<lambda>i. (threads p i)\<lparr>qptrs := f i, rxq_shm := g i, next_tsc := h i, cxltp_waiters := w i\<rparr>\<rparr>)"

definition core_writes :: "core_conn \<Rightarrow> core_conn \<Rightarrow> bool" where
  "core_writes c d \<longleftrightarrow> (\<exists>i v t b. d = c\<lparr>idling := i, pmc_val := v, pmc_tsc := t, pmc_done := b\<rparr> \<or>
     d = c\<lparr>last_gen := gen c, idling := i, pmc_val := v, pmc_tsc := t, pmc_done := b\<rparr>)"

definition new_client :: "nat \<Rightarrow> 'a iosys_scheme \<Rightarrow> bool" where
  "new_client p s \<longleftrightarrow> p \<notin> set (clients s) \<and> (\<forall>k i. (p, i) \<notin> set (held (cstate s k)))"

inductive io_step ::
  "nat \<Rightarrow> 'a iosys_scheme sched_ops \<Rightarrow> (proc \<Rightarrow> bool) \<Rightarrow> 'a iosys_scheme \<Rightarrow> 'a iosys_scheme \<Rightarrow> bool" for nc ops adm where
  io_poll: "sched_poll nc ops lock tsc start_tsc cyc s = Some (sent, s') \<Longrightarrow> io_step nc ops adm s s'"
| io_add: "new_client (unat p) s \<Longrightarrow> 0 < p_ref q \<Longrightarrow> adm q \<Longrightarrow> (\<And>c. 0 \<le> fst (reg c) \<and> 0 \<le> snd (reg c)) \<Longrightarrow>
    control_cmd ops reg DATAPLANE_ADD_CLIENT p (upd_proc (unat p) q s) = Some s' \<Longrightarrow> io_step nc ops adm s s'"
| io_remove: "control_cmd ops reg DATAPLANE_REMOVE_CLIENT p s = Some s' \<Longrightarrow> io_step nc ops adm s s'"
| io_core: "core_writes (cs_map (ks s) k) c \<Longrightarrow> io_step nc ops adm s (s\<lparr>ks := (ks s)\<lparr>cs_map := (cs_map (ks s))(k := c)\<rparr>\<rparr>)"
| io_runtime: "runtime_writes (procs s p) q \<Longrightarrow> io_step nc ops adm s (upd_proc p q s)"

inductive io_reach ::
  "nat \<Rightarrow> 'a iosys_scheme sched_ops \<Rightarrow> (proc \<Rightarrow> bool) \<Rightarrow> 'a iosys_scheme \<Rightarrow> 'a iosys_scheme \<Rightarrow> bool" for nc ops adm s0 where
  io_start: "io_reach nc ops adm s0 s0"
| io_next: "io_reach nc ops adm s0 s \<Longrightarrow> io_step nc ops adm s s' \<Longrightarrow> io_reach nc ops adm s0 s'"

lemma core_writes_inv:
  assumes "sched_inv s" "core_writes (cs_map (ks s) k) c"
  shows "sched_inv (s\<lparr>ks := (ks s)\<lparr>cs_map := (cs_map (ks s))(k := c)\<rparr>\<rparr>)"
proof -
  have c: "gen c = gen (cs_map (ks s) k)" "last_gen c = last_gen (cs_map (ks s) k) \<or> last_gen c = gen (cs_map (ks s) k)"
    using assms(2) by (auto simp: core_writes_def)
  with assms(1) show ?thesis by (auto simp: sched_inv_def kinv_def gens_ok_def ksched_poll_run_done_def)
qed

lemma runtime_writes_same: "runtime_writes p q \<Longrightarrow> same_threads p q"
  by (auto simp: runtime_writes_def same_threads_def)

lemma set_all_ops_ok:
  assumes "\<And>c. 0 \<le> fst (reg c) \<and> 0 \<le> snd (reg c)" "kinv C K A"
  shows "\<exists>K'. set_all_ops reg cs K = Some K' \<and> kinv C K' A"
  using assms(2)
proof (induction cs arbitrary: K)
  case (Cons c cs)
  have "\<exists>K'. set_ops (fst (reg c)) (snd (reg c)) c K = Some K' \<and> kinv C K' A"
    using Cons(2) assms(1) [of c] by (auto simp: set_ops_def kinv_def gens_ok_def ksched_poll_run_done_def)
  then show ?case using Cons(1) by auto
qed simp

lemma proc_put_inv:
  assumes inv: "sched_inv s" and p: "0 < slack (procs s p)"
  shows "\<exists>R. proc_put p s = (upd_proc p ((procs s p)\<lparr>p_ref := p_ref (procs s p) - 1\<rparr>) s)\<lparr>released := R\<rparr> \<and> sched_inv (proc_put p s)"
proof -
  let ?q = "(procs s p)\<lparr>p_ref := p_ref (procs s p) - 1\<rparr>"
  have pi: "pinv None (procs s) (cstate s)" using inv by (simp add: sched_inv_def)
  have "proc_ok ?q" using pinvD(1) [OF pi, of p] by (simp add: proc_ok_def)
  then have "pinv None ((procs s)(p := ?q)) (cstate s)"
    using pinvD [OF pi] p by (intro pinvI) (auto split: if_splits)
  moreover have "proc_put p s = (upd_proc p ?q s)\<lparr>released := (if p_ref ?q = 0 then released s @ [p] else released s)\<rparr>"
    by (cases s) (simp add: proc_put_def Let_def)
  moreover from calculation have "sched_inv (proc_put p s)" using inv by (simp add: sched_inv_def)
  ultimately show ?thesis by blast
qed

text \<open>Overwriting an element by the last one and dropping the last one removes the element.\<close>

definition swap_out :: "'b \<Rightarrow> 'b list \<Rightarrow> 'b list" where
  "swap_out p cl = butlast (cl[length (takeWhile (\<lambda>c. c \<noteq> p) cl) := last cl])"

lemma swap_out:
  assumes "distinct cl" "p \<in> set cl"
  shows "length (takeWhile (\<lambda>c. c \<noteq> p) cl) < length cl" "distinct (swap_out p cl)" "set (swap_out p cl) = set cl - {p}"
proof -
  let ?i = "length (takeWhile (\<lambda>c. c \<noteq> p) cl)"
  show i: "?i < length cl" using assms(2) by (induction cl) auto
  have p: "cl ! ?i = p" using nth_length_takeWhile [OF i] by simp
  obtain ys z where cl: "cl = ys @ [z]" using assms(2) by (metis empty_iff rev_exhaust set_empty)
  have "distinct (swap_out p cl) \<and> set (swap_out p cl) = set cl - {p}"
  proof (cases "?i < length ys")
    case True
    then have "swap_out p cl = ys[?i := z]" "ys ! ?i = p" using p by (simp_all add: swap_out_def cl list_update_append nth_append)
    moreover have "z \<noteq> p" using calculation(2) assms(1) True nth_mem [of ?i ys] by (auto simp: cl)
    ultimately show ?thesis using assms(1) True by (auto simp: cl set_update_distinct distinct_list_update)
  next
    case False
    with i p have "?i = length ys" "z = p" by (auto simp: cl nth_append)
    then show ?thesis using assms(1) by (auto simp: swap_out_def cl list_update_append)
  qed
  then show "distinct (swap_out p cl)" "set (swap_out p cl) = set cl - {p}" by simp_all
qed

section \<open>The contract of a policy\<close>

locale sched_policy =
  fixes nc :: nat and ops :: "'a iosys_scheme sched_ops" and adm :: "proc \<Rightarrow> bool" and pol_ok :: "nat set \<Rightarrow> nat set \<Rightarrow> 'a iosys_scheme \<Rightarrow> bool"
  assumes adm_cfg: "sched_cfg q = sched_cfg q' \<Longrightarrow> adm q = adm q'"
    and pol_sched: "pol_ok A I s \<Longrightarrow>
      sched_inv s \<and> (\<forall>c \<in> set (sched_cores_tbl s). bitmap_test (sched_allowed_cores s) c)"
    and pol_refs: "pol_ok A I s \<Longrightarrow> p \<in> A \<Longrightarrow> 0 < slack (procs s p)"
    and pol_frame: "pol_ok A I s \<Longrightarrow> sched_inv s' \<Longrightarrow> core_frame s s' \<Longrightarrow> I \<subseteq> I' \<Longrightarrow>
      (\<And>k. k \<notin> I' \<Longrightarrow> sched_get_thread_on_core k s' = sched_get_thread_on_core k s) \<Longrightarrow> pol_ok A I' s'"
    and pol_new: "pol_ok A I s \<Longrightarrow> p \<notin> A \<Longrightarrow> sched_inv (upd_proc p q s) \<Longrightarrow> pol_ok A I (upd_proc p q s)"
    and pol_clients: "pol_ok A I s \<Longrightarrow> pol_ok A I (s\<lparr>clients := cl, released := R\<rparr>)"
    and congested: "pol_ok A {} s \<Longrightarrow> p \<in> A \<Longrightarrow>
      \<exists>s'. notify_congested ops p b d k s = Some s' \<and> pol_ok A {} s' \<and> clients s' = clients s"
    and needed: "pol_ok A {} s \<Longrightarrow> p \<in> A \<Longrightarrow>
      \<exists>r s'. notify_core_needed ops p s = Some (r, s') \<and> pol_ok A {} s' \<and> clients s' = clients s"
    and poll: "pol_ok A {k. bitmap_test idle k} s \<Longrightarrow> (cnt = 0 \<longrightarrow> (\<forall>k. \<not> bitmap_test idle k)) \<Longrightarrow>
      (\<forall>k. bitmap_test idle k \<longrightarrow> k \<in> set (sched_cores_tbl s)) \<Longrightarrow>
      \<exists>s'. op_sched_poll ops now cnt idle s = Some s' \<and> pol_ok A {} s' \<and> clients s' = clients s"
    and attach: "pol_ok A {} s \<Longrightarrow> p \<notin> A \<Longrightarrow> 0 < slack (procs s p) \<Longrightarrow> adm (procs s p) \<Longrightarrow>
      \<exists>r s'. op_attach ops p s = Some (r, s') \<and> pol_ok (if r = Ok then insert p A else A) {} s' \<and>
        clients s' = clients s \<and> procs s' = procs s"
    and detach: "pol_ok A {} s \<Longrightarrow> p \<in> A \<Longrightarrow>
      \<exists>s'. op_detach ops p s = Some s' \<and> pol_ok (A - {p}) {} s' \<and> clients s' = clients s \<and> procs s' = procs s"
begin

lemma pol_upd:
  assumes "pol_ok A {} s" "same_threads (procs s p) q"
  shows "pol_ok A {} (upd_proc p q s)"
  using pol_frame [OF assms(1), of "upd_proc p q s" "{}"] same_threads_inv [OF _ assms(2)] pol_sched [OF assms(1)]
  by (simp add: sched_get_thread_on_core_def)

lemma pol_ignore:
  assumes "pol_ok A {} s" "sched_inv s'" "core_frame s s'" "cstate s' = cstate s"
  shows "pol_ok A {} s'"
  using pol_frame [OF assms(1-3), of "{}"] assms(4) by (simp add: sched_get_thread_on_core_def)

lemma measure_delay_ok:
  assumes ok: "pol_ok A {} s" and p: "p \<in> A"
  shows "\<exists>s'. sched_measure_delay ops lock cyc p s = Some s' \<and> pol_ok A {} s' \<and> clients s' = clients s"
proof -
  let ?m = "\<lparr>m_hdelay = 0, m_total = 0, m_busy = False, m_parked_busy = False, m_min_delay = UINT64_MAX, m_min_id = 0\<rparr>"
  obtain m q where m: "measure_loop lock cyc (cur_tsc s) [0..<thread_count (procs s p)] ?m (procs s p) = (m, q)"
    by (metis surj_pair)
  define t where "t = (if 0 < active_thread_count q then m_total m div of_nat (active_thread_count q) else m_total m)"
  have "same_threads (procs s p) (q\<lparr>avg_delay_tsc := t\<rparr>)"
    using measure_loop_same [OF m] by (simp add: same_threads_def)
  then have "pol_ok A {} (upd_proc p (q\<lparr>avg_delay_tsc := t\<rparr>) s)" by (rule pol_upd [OF ok])
  then obtain s1 where s1: "notify_congested ops p (m_busy m) (m_hdelay m div cyc) (m_parked_busy m)
      (upd_proc p (q\<lparr>avg_delay_tsc := t\<rparr>) s) = Some s1" "pol_ok A {} s1" "clients s1 = clients s"
    using congested [OF _ p] by force
  let ?s = "upd_proc p ((procs s1 p)\<lparr>kthread_yield_requested :=
      (if priority (sched_cfg (procs s1 p)) = SCHED_PRIO_LC then m_min_id m else UINT_MAX)\<rparr>) s1"
  have "pol_ok A {} ?s" by (rule pol_upd [OF s1(2)]) (simp add: same_threads_def)
  moreover have "sched_measure_delay ops lock cyc p s = Some ?s"
    using m s1(1) by (simp add: sched_measure_delay_def t_def Let_def)
  ultimately show ?thesis using s1(3) by simp
qed

lemma detect_loop_ok:
  assumes "pol_ok A {} s" "p \<in> A"
  shows "\<exists>s'. detect_loop ops p is s = Some s' \<and> pol_ok A {} s' \<and> clients s' = clients s"
  using assms
proof (induction "is" arbitrary: s)
  case (Cons i "is")
  obtain b h where h: "sched_measure_hardware_delay (cur_tsc s) (th_active (threads (procs s p) i)) False
      (directpath_hwq (threads (procs s p) i)) = (b, h)" by (metis surj_pair)
  let ?s = "upd_proc p (upd_thread i ((threads (procs s p) i)\<lparr>directpath_hwq := h\<rparr>) (procs s p)) s"
  have ok: "pol_ok A {} ?s" by (rule pol_upd [OF Cons(2)]) (simp add: same_threads_def)
  show ?case using needed [OF ok Cons(3)] Cons(1) [OF ok Cons(3)] h
    by (cases b) (auto simp: sched_add_core_def Let_def)
qed simp

lemma over_clients_ok:
  assumes f: "\<And>p s. p \<in> A \<Longrightarrow> pol_ok A {} s \<Longrightarrow> \<exists>s'. f p s = Some s' \<and> pol_ok A {} s' \<and> clients s' = clients s"
    and "set ps \<subseteq> A" "pol_ok A {} s"
  shows "\<exists>s'. over_clients f ps s = Some s' \<and> pol_ok A {} s' \<and> clients s' = clients s"
  using assms(2,3)
proof (induction ps arbitrary: s)
  case (Cons p ps)
  then obtain s1 where "f p s = Some s1" "pol_ok A {} s1" "clients s1 = clients s" using f [of p s] by auto
  with Cons(1) [of s1] Cons(2) show ?case by auto
qed simp

lemma poll_ok:
  assumes ok: "pol_ok (set (clients s)) {} s"
  shows "\<exists>sent s'. sched_poll nc ops lock tsc start_tsc cyc s = Some (sent, s') \<and> pol_ok (set (clients s')) {} s' \<and>
    clients s' = clients s"
proof -
  let ?A = "set (clients s)" and ?now = "(tsc - start_tsc) div cyc"
  let ?s0 = "s\<lparr>cur_tsc := tsc\<rparr>"
  have fr: "core_frame s (s\<lparr>cur_tsc := t\<rparr>)" "core_frame s (s\<lparr>cur_tsc := t, last_time := u\<rparr>)" for t u by (simp_all add: core_frame_def)
  have "sched_inv s" using pol_sched [OF ok] by simp
  then have inv: "sched_inv (s\<lparr>cur_tsc := t\<rparr>)" "sched_inv (s\<lparr>cur_tsc := t, last_time := u\<rparr>)" for t u by (simp_all add: sched_inv_def)
  have ok0: "pol_ok ?A {} (s\<lparr>cur_tsc := t\<rparr>)" "pol_ok ?A {} (s\<lparr>cur_tsc := t, last_time := u\<rparr>)" for t u
    using pol_ignore [OF ok inv(1) fr(1)] pol_ignore [OF ok inv(2) fr(2)] by simp_all
  let ?idle = "\<lambda>p s. if has_directpath (procs s p) \<and> sched_threads_active p s = 0
      then sched_detect_io_for_idle_runtime ops p s else Some s"
  let ?slow = "if IOKERNEL_POLL_INTERVAL \<le> ?now - last_time ?s0
      then over_clients (\<lambda>p. sched_measure_delay ops (lock p) cyc p) (clients ?s0) (?s0\<lparr>last_time := ?now\<rparr>)
      else over_clients ?idle (clients ?s0) ?s0"
  have "\<exists>s1. over_clients (\<lambda>p. sched_measure_delay ops (lock p) cyc p) (clients s) (?s0\<lparr>last_time := ?now\<rparr>) = Some s1 \<and>
      pol_ok ?A {} s1 \<and> clients s1 = clients (?s0\<lparr>last_time := ?now\<rparr>)"
    by (rule over_clients_ok [of ?A "\<lambda>p. sched_measure_delay ops (lock p) cyc p"])
      (rule measure_delay_ok, assumption+, rule subset_refl, rule ok0(2))
  moreover have "\<exists>s1. over_clients ?idle (clients s) ?s0 = Some s1 \<and> pol_ok ?A {} s1 \<and> clients s1 = clients ?s0"
    by (rule over_clients_ok [of ?A ?idle])
      (simp add: sched_detect_io_for_idle_runtime_def detect_loop_ok, rule subset_refl, rule ok0(1))
  ultimately have "\<exists>s1. ?slow = Some s1 \<and> pol_ok ?A {} s1 \<and> clients s1 = clients s" by simp
  then obtain s1 where s1: "?slow = Some s1" "pol_ok ?A {} s1" "clients s1 = clients s" by (elim exE conjE) (rule that)
  have "\<exists>b n s2. fast_pass (sched_cores_tbl s1) (bitmap_init (\<lambda>_. 0) nc False) 0 s1 = Some (b, n, s2) \<and> sched_inv s2 \<and>
      core_frame s1 s2 \<and> pass_ok (sched_cores_tbl s1) (bitmap_init (\<lambda>_. 0) nc False) 0 b n \<and>
      (\<forall>k. \<not> bitmap_test b k \<longrightarrow> sched_get_thread_on_core k s2 = sched_get_thread_on_core k s1)"
    by (rule fast_pass_inv) (use pol_sched [OF s1(2)] in simp_all)
  then obtain b n s2 where s2: "fast_pass (sched_cores_tbl s1) (bitmap_init (\<lambda>_. 0) nc False) 0 s1 = Some (b, n, s2)" "sched_inv s2"
      "core_frame s1 s2" "pass_ok (sched_cores_tbl s1) (bitmap_init (\<lambda>_. 0) nc False) 0 b n"
      "\<And>k. \<not> bitmap_test b k \<Longrightarrow> sched_get_thread_on_core k s2 = sched_get_thread_on_core k s1"
    by blast
  have p2: "pol_ok ?A {k. bitmap_test b k} s2" by (rule pol_frame [OF s1(2) s2(2,3)]) (simp_all add: s2(5))
  have b2: "n = 0 \<longrightarrow> (\<forall>k. \<not> bitmap_test b k)" "\<forall>k. bitmap_test b k \<longrightarrow> k \<in> set (sched_cores_tbl s2)"
    using s2(3,4) by (auto simp: pass_ok_def core_frame_def)
  obtain s3 where s3: "op_sched_poll ops ?now n b s2 = Some s3" "pol_ok ?A {} s3" "clients s3 = clients s2"
    using poll [OF p2 b2, of ?now] by (elim exE conjE) (rule that)
  obtain sent k where k: "ksched_send_intrs nc (ks s3) = (sent, k)" by (metis surj_pair)
  have "pol_ok ?A {} (s3\<lparr>ks := k\<rparr>)"
    using pol_ignore [OF s3(2)] send_intrs_inv [OF _ k] pol_sched [OF s3(2)] by simp
  moreover have "clients s3 = clients s" using s3(3) s2(3) s1(3) by (simp add: core_frame_def)
  moreover have "sched_poll nc ops lock tsc start_tsc cyc s = Some (sent, s3\<lparr>ks := k\<rparr>)"
    by (simp only: sched_poll_def Let_def s1(1) s2(1) s3(1) k bind.bind_lunit prod.case)
  ultimately show ?thesis by simp
qed

lemma pol_put:
  assumes ok: "pol_ok A {} s" and p: "p \<notin> A" "0 < slack (procs s p)"
  shows "pol_ok A {} (proc_put p s)" "clients (proc_put p s) = clients s"
proof -
  let ?q = "(procs s p)\<lparr>p_ref := p_ref (procs s p) - 1\<rparr>"
  obtain R where R: "proc_put p s = (upd_proc p ?q s)\<lparr>released := R\<rparr>" "sched_inv (proc_put p s)"
    using proc_put_inv [of s p] pol_sched [OF ok] p(2) by blast
  have "sched_inv (upd_proc p ?q s)" using R by (simp add: sched_inv_def)
  from pol_clients [OF pol_new [OF ok p(1) this], where cl = "clients s" and R = R]
  have "pol_ok A {} ((upd_proc p ?q s)\<lparr>clients := clients s, released := R\<rparr>)" .
  moreover have "(upd_proc p ?q s)\<lparr>clients := clients s, released := R\<rparr> = proc_put p s" unfolding R(1) by (cases s) simp
  ultimately show "pol_ok A {} (proc_put p s)" by simp
  show "clients (proc_put p s) = clients s" by (simp add: R(1))
qed

lemma add_client_ok:
  assumes ok: "pol_ok (set (clients s)) {} s" and p: "new_client p s" and q: "0 < p_ref q" "adm q"
  shows "\<exists>s'. dp_clients_add_client ops p (upd_proc p q s) = Some s' \<and> pol_ok (set (clients s')) {} s' \<and>
    (clients s' = clients s @ [p] \<or> clients s' = clients s)"
proof -
  let ?A = "set (clients s)" and ?s1 = "upd_proc p (reset_proc q) s"
  have new: "p \<notin> ?A" "\<And>k i. (p, i) \<notin> set (held (cstate s k))" using p by (auto simp: new_client_def)
  have pi: "pinv None (procs s) (cstate s)" "kinv (cstate s) (ks s) (sched_allowed_cores s)"
    using pol_sched [OF ok] by (simp_all add: sched_inv_def)
  have "sched_inv (upd_proc p (no_threads q) s)"
  proof -
    have "pinv None ((procs s)(p := no_threads q)) (cstate s)"
    proof (rule pinvI)
      show "proc_ok (((procs s)(p := no_threads q)) r) \<and>
          int (active_thread_count (((procs s)(p := no_threads q)) r)) \<le> p_ref (((procs s)(p := no_threads q)) r)" for r
        using pinvD(1,2) [OF pi(1), of r] q(1) by (simp add: no_threads_def proc_ok_def)
    qed (use pinvD(3-5) [OF pi(1)] new in \<open>auto simp: no_threads_def split: if_splits\<close>)
    then show ?thesis using pi(2) by (simp add: sched_inv_def)
  qed
  then have "sched_inv ?s1" using reset_proc_inv [where p = p and s = "upd_proc p q s"] by simp
  from pol_new [OF ok new(1) this] have ok1: "pol_ok ?A {} ?s1" .
  moreover have sl: "0 < slack (procs ?s1 p)" using q(1) reset_proc_ok(2,3) [of q] by simp
  moreover have "adm (procs ?s1 p)" using adm_cfg [of "reset_proc q" q] reset_proc_ok(4) [of q] q(2) by simp
  ultimately obtain r s2 where s2: "op_attach ops p ?s1 = Some (r, s2)" "pol_ok (if r = Ok then insert p ?A else ?A) {} s2"
    "clients s2 = clients s" "procs s2 = procs ?s1"
    using attach [OF ok1 new(1)] by auto
  have at: "sched_attach_proc ops p (upd_proc p q s) = Some (r, s2)"
    using s2(1) by (simp add: sched_attach_proc_def reset_proc_def Let_def)
  show ?thesis
  proof (cases "r = Ok")
    case True
    let ?s3 = "upd_proc p ((procs s2 p)\<lparr>kill := False\<rparr>) s2"
    have "pol_ok (insert p ?A) {} ?s3" by (rule pol_upd) (use s2(2) True in \<open>simp_all add: same_threads_def\<close>)
    from pol_clients [OF this, where cl = "clients s @ [p]" and R = "released s2"] at True s2(3) show ?thesis
      by (simp add: dp_clients_add_client_def)
  next
    case False
    let ?s3 = "upd_proc p ((procs s2 p)\<lparr>attach_fail := True\<rparr>) s2"
    have ok3: "pol_ok ?A {} ?s3" by (rule pol_upd) (use s2(2) False in \<open>simp_all add: same_threads_def\<close>)
    have "0 < slack (procs ?s3 p)" using sl s2(4) by simp
    from pol_put [OF ok3 new(1) this] at False s2(3) show ?thesis by (simp add: dp_clients_add_client_def)
  qed
qed

lemma remove_client_ok:
  assumes ok: "pol_ok (set (clients s)) {} s" and d: "distinct (clients s)"
  shows "\<exists>s'. dp_clients_remove_client ops p s = Some s' \<and> pol_ok (set (clients s')) {} s' \<and> distinct (clients s') \<and>
    set (clients s') = set (clients s) - {p}"
proof (cases "p \<in> set (clients s)")
  case False
  then have "length (takeWhile (\<lambda>c. c \<noteq> p) (clients s)) = length (clients s)"
    by (subst takeWhile_eq_all_conv [THEN iffD2]) auto
  with False show ?thesis using ok d by (simp add: dp_clients_remove_client_def Let_def)
next
  case True
  let ?i = "length (takeWhile (\<lambda>c. c \<noteq> p) (clients s))" and ?cl = "swap_out p (clients s)"
  note sw = swap_out [OF d True]
  let ?s1 = "s\<lparr>clients := ?cl\<rparr>" and ?A = "set (clients s)"
  let ?s2 = "upd_proc p ((procs ?s1 p)\<lparr>kill := True\<rparr>) ?s1"
  have "pol_ok ?A {} (s\<lparr>clients := ?cl, released := released s\<rparr>)" by (rule pol_clients [OF ok])
  moreover have "s\<lparr>clients := ?cl, released := released s\<rparr> = ?s1" by (cases s) simp
  ultimately have "pol_ok ?A {} ?s1" by simp
  then have ok2: "pol_ok ?A {} ?s2" by (rule pol_upd) (simp add: same_threads_def)
  obtain s3 where s3: "op_detach ops p ?s2 = Some s3" "pol_ok (?A - {p}) {} s3" "clients s3 = clients ?s2" "procs s3 = procs ?s2"
    using detach [OF ok2 True] by auto
  have "0 < slack (procs s3 p)" using pol_refs [OF ok2 True] s3(4) by simp
  from pol_put [OF s3(2) _ this] s3(1,3) sw show ?thesis
    by (simp add: dp_clients_remove_client_def sched_detach_proc_def swap_out_def Let_def)
qed

lemma ks_ok:
  assumes "pol_ok A {} s" "kinv (cstate s) k (sched_allowed_cores s)"
  shows "pol_ok A {} (s\<lparr>ks := k\<rparr>)"
  by (rule pol_ignore [OF assms(1)]) (use assms(2) pol_sched [OF assms(1)] in \<open>simp_all add: sched_inv_def core_frame_def\<close>)

lemma io_step_ok:
  assumes st: "io_step nc ops adm s s'" and ok: "pol_ok (set (clients s)) {} s" "distinct (clients s)"
  shows "pol_ok (set (clients s')) {} s' \<and> distinct (clients s')"
  using st
proof cases
  case (io_poll lock tsc start_tsc cyc sent)
  then show ?thesis using poll_ok [OF ok(1), of lock tsc start_tsc cyc] ok(2) by auto
next
  case (io_add p q reg)
  obtain s1 where s1: "dp_clients_add_client ops (unat p) (upd_proc (unat p) q s) = Some s1" "pol_ok (set (clients s1)) {} s1"
    "clients s1 = clients s @ [unat p] \<or> clients s1 = clients s" using add_client_ok [OF ok(1) io_add(1,2,3)] by blast
  obtain k where k: "set_all_ops reg (sched_cores_tbl s1) (ks s1) = Some k" "kinv (cstate s1) k (sched_allowed_cores s1)"
    using set_all_ops_ok [of reg, OF io_add(4)] pol_sched [OF s1(2)] unfolding sched_inv_def by blast
  have "distinct (clients s1)" using s1(3) ok(2) io_add(1) by (auto simp: new_client_def)
  moreover have "s' = s1\<lparr>ks := k\<rparr>" using io_add(5) s1(1) k(1) by (simp add: control_cmd_def)
  ultimately show ?thesis using ks_ok [OF s1(2) k(2)] by simp
next
  case (io_remove reg p)
  then have "dp_clients_remove_client ops (unat p) s = Some s'"
    by (simp add: control_cmd_def DATAPLANE_ADD_CLIENT_def DATAPLANE_REMOVE_CLIENT_def)
  then show ?thesis using remove_client_ok [OF ok, of "unat p"] by (elim exE conjE) simp
next
  case (io_core k c)
  have "kinv (cstate s) ((ks s)\<lparr>cs_map := (cs_map (ks s))(k := c)\<rparr>) (sched_allowed_cores s)"
    using core_writes_inv [OF _ io_core(2)] pol_sched [OF ok(1)] by (simp add: sched_inv_def)
  from ks_ok [OF ok(1) this] show ?thesis using io_core(1) ok(2) by simp
next
  case (io_runtime p q)
  then show ?thesis using pol_upd [OF ok(1) runtime_writes_same] ok(2) by simp
qed

lemma io_reach_ok:
  assumes "io_reach nc ops adm s0 s" "pol_ok (set (clients s0)) {} s0" "distinct (clients s0)"
  shows "pol_ok (set (clients s)) {} s \<and> distinct (clients s)"
  using assms(1)
proof induction
  case io_start
  with assms show ?case by simp
next
  case (io_next s s')
  then show ?case using io_step_ok by blast
qed

end

end
