(* ===== verification/Simple_Policy.thy ===== *)
theory Simple_Policy
  imports Core_Ledger Iok_Policy
begin

text \<open>
  The scheduling policy \<^verbatim>\<open>iokernel/simple.c\<close>: which core a congested process gets and which process
  gets a core that went idle. It interprets the contract of a policy, so the main loop of the
  scheduler process with this policy never fails and keeps the books right; a process loses a core
  to another only when it has more than its guarantee. \<open>nc\<close> is \<^verbatim>\<open>NCPU\<close>; an index at or above it is
  \<open>None\<close>. \<open>keep\<close> says whether the build defines \<^verbatim>\<open>SERVER_KEEP_STEAL\<close>.
\<close>

section \<open>State and operations\<close>

record simple_data = pol_data +
  qdelay_tsc :: u64

record simple_sys = "unit simple_data_ext pol_sys" +
  is_server :: bool

definition simple_attach :: "bool \<Rightarrow> u64 \<Rightarrow> nat \<Rightarrow> simple_sys \<Rightarrow> (ret \<times> simple_sys) option" where
  "simple_attach mem cycles_per_us p s =
     (if \<not> mem then Some (Err ENOMEM, s)
      else let cfg = sched_cfg (procs s p)
           in Some (Ok, s\<lparr>pdata := (pdata s)(p :=
                \<lparr>is_congested = False, waking = False, qdelay_us = cfg_qdelay_us cfg, threads_guaranteed = sint (guaranteed_cores cfg),
                 threads_max = sint (max_cores cfg), threads_active = 0, qdelay_tsc = cfg_qdelay_us cfg * cycles_per_us\<rparr>)\<rparr>))"

definition simple_run_kthread_on_core ::
  "nat \<Rightarrow> nat \<Rightarrow> nat \<Rightarrow> ('d, 'z) pol_sys_scheme \<Rightarrow> (ret \<times> ('d, 'z) pol_sys_scheme) option" where
  "simple_run_kthread_on_core nc p core s =
     (if sched_threads_avail p s = 0 then Some (Err EBUSY, s)
      else do {
        (r, s) \<leftarrow> sched_run_on_core nc p core s;
        if r \<noteq> Ok then Some (r, s)
        else do {
          let s = simple_cleanup_core core s;
          let s = s\<lparr>cores := (cores s)(core := Some p), idle_cores := bitmap_clear (idle_cores s) core\<rparr>;
          let d = pdata s p;
          Some (Ok, s\<lparr>pdata := (pdata s)(p := d\<lparr>threads_active := threads_active d + 1, waking := True\<rparr>)\<rparr>)
        }
      })"

text \<open>The first loop: a core whose sibling runs the process already.\<close>

fun sibling_scan :: "nat \<Rightarrow> ('d, 'z) pol_sys_scheme \<Rightarrow> nat \<Rightarrow> nat list \<Rightarrow> nat option option" where
  "sibling_scan nc s p [] = Some None"
| "sibling_scan nc s p (core # cs) =
     (if cores s core \<noteq> Some p then sibling_scan nc s p cs
      else do {
        sib \<leftarrow> core_at nc (sched_siblings s core);
        if can_take s p sib \<and> bitmap_test (sched_allowed_cores s) sib then Some (Some sib) else sibling_scan nc s p cs
      })"

text \<open>The second loop: a core an idle thread of the process ran on, or the sibling of it.\<close>

fun previous_scan :: "nat \<Rightarrow> ('d, 'z) pol_sys_scheme \<Rightarrow> nat \<Rightarrow> nat list \<Rightarrow> nat option option" where
  "previous_scan nc s p [] = Some None"
| "previous_scan nc s p (i # is) =
     (let core = th_core (threads (procs s p) i)
      in if nc \<le> core then Some None
         else if can_take s p core then Some (Some core)
         else do {
           sib \<leftarrow> core_at nc (sched_siblings s core);
           if can_take s p sib \<and> bitmap_test (sched_allowed_cores s) sib then Some (Some sib) else previous_scan nc s p is
         })"

definition simple_choose_core :: "nat \<Rightarrow> nat \<Rightarrow> ('d, 'z) pol_sys_scheme \<Rightarrow> nat option" where
  "simple_choose_core nc p s =
     do {
       sib \<leftarrow> sibling_scan nc s p (sched_cores_tbl s);
       case sib of Some c \<Rightarrow> Some c | None \<Rightarrow> do {
         prev \<leftarrow> previous_scan nc s p (idle_threads (procs s p));
         case prev of Some c \<Rightarrow> Some c | None \<Rightarrow> do {
           let c = bitmap_find_next_set (idle_cores s) nc 0;
           if c \<noteq> nc then Some c
           else case find (preemptible_core s p) (sched_cores_tbl s) of Some c \<Rightarrow> Some c | None \<Rightarrow> Some nc
         }
       }
     }"

definition simple_add_kthread ::
  "nat \<Rightarrow> nat \<Rightarrow> ('d, 'z) pol_sys_scheme \<Rightarrow> (ret \<times> ('d, 'z) pol_sys_scheme) option" where
  "simple_add_kthread nc p s =
     (if threads_max (pdata s p) \<le> threads_active (pdata s p) then Some (Err ENOENT, s)
      else do {
        core \<leftarrow> simple_choose_core nc p s;
        if core = nc then Some (Err ENOENT, s) else simple_run_kthread_on_core nc p core s
      })"

definition simple_notify_core_needed ::
  "nat \<Rightarrow> nat \<Rightarrow> ('d, 'z) pol_sys_scheme \<Rightarrow> (ret \<times> ('d, 'z) pol_sys_scheme) option" where
  "simple_notify_core_needed nc p s = simple_add_kthread nc p s"

definition set_proc_to_steal :: "bool \<Rightarrow> nat \<Rightarrow> bool \<Rightarrow> simple_sys \<Rightarrow> simple_sys" where
  "set_proc_to_steal keep p steal s =
     (let b = (if keep \<and> is_server s then True else steal)
      in fold (\<lambda>i s. let core = th_core (threads (procs s p) i)
                     in if core \<noteq> UINT_MAX then s\<lparr>ks := ksched_set_to_steal core b (ks s)\<rparr> else s)
           [0..<thread_count (procs s p)] s)"

definition simple_notify_congested ::
  "nat \<Rightarrow> bool \<Rightarrow> nat \<Rightarrow> bool \<Rightarrow> u64 \<Rightarrow> bool \<Rightarrow> simple_sys \<Rightarrow> simple_sys option" where
  "simple_notify_congested nc keep p busy delay parked_thread_delay s =
     (let d = pdata s p;
          congested = (if qdelay_us d = 0 then busy else qdelay_us d \<le> delay) \<or> parked_thread_delay;
          s = set_proc_to_steal keep p congested s
      in if waking (pdata s p) then Some (s\<lparr>pdata := (pdata s)(p := (pdata s p)\<lparr>waking := False\<rparr>)\<rparr>)
         else if \<not> congested then Some (simple_unmark_congested p s)
         else if is_congested (pdata s p) then Some s
         else do {
           (r, s) \<leftarrow> simple_add_kthread nc p s;
           if r = Ok then Some s else Some (simple_mark_congested p s)
         })"

definition eligible :: "('d, 'z) pol_sys_scheme \<Rightarrow> nat \<Rightarrow> bool" where
  "eligible s p \<longleftrightarrow> is_congested (pdata s p) \<and> sched_threads_avail p s \<noteq> 0"

definition simple_choose_kthread :: "nat \<Rightarrow> nat \<Rightarrow> ('d, 'z) pol_sys_scheme \<Rightarrow> nat option option" where
  "simple_choose_kthread nc core s =
     do {
       sib \<leftarrow> core_at nc (sched_siblings s core);
       case find (eligible s) (local_procs s core sib) of
         Some p \<Rightarrow> Some (Some p)
       | None \<Rightarrow> Some (find (\<lambda>p. sched_threads_avail p s \<noteq> 0) (congested_procs s))
     }"

definition poll_core :: "nat \<Rightarrow> nat \<Rightarrow> ('d, 'z) pol_sys_scheme \<Rightarrow> ('d, 'z) pol_sys_scheme option" where
  "poll_core nc core s =
     do {
       let s = (case cores s core of None \<Rightarrow> s | Some p \<Rightarrow> simple_unmark_congested p s);
       let s = simple_cleanup_core core s;
       sd \<leftarrow> simple_choose_kthread nc core s;
       case sd of
         None \<Rightarrow> Some (s\<lparr>idle_cores := bitmap_set (idle_cores s) core\<rparr>)
       | Some p \<Rightarrow> do {
           (r, s) \<leftarrow> simple_run_kthread_on_core nc p core s;
           if r \<noteq> Ok then Some (simple_mark_congested p (s\<lparr>idle_cores := bitmap_set (idle_cores s) core\<rparr>)) else Some s
         }
     }"

definition simple_sched_poll ::
  "nat \<Rightarrow> u64 \<Rightarrow> nat \<Rightarrow> bitmap \<Rightarrow> ('d, 'z) pol_sys_scheme \<Rightarrow> ('d, 'z) pol_sys_scheme option" where
  "simple_sched_poll nc now idle_cnt idle s =
     (if idle_cnt = 0 then Some s else over_clients (poll_core nc) (positions_set idle nc 0) s)"

definition simple_ops :: "nat \<Rightarrow> bool \<Rightarrow> bool \<Rightarrow> u64 \<Rightarrow> simple_sys sched_ops" where
  "simple_ops nc keep mem cycles_per_us =
     \<lparr>op_attach = simple_attach mem cycles_per_us, op_detach = simple_detach nc, notify_congested = simple_notify_congested nc keep,
      notify_core_needed = simple_notify_core_needed nc, op_sched_poll = simple_sched_poll nc\<rparr>"

text \<open>\<open>name\<close> is the value of \<^verbatim>\<open>VESSEL_NAME\<close>; another name aborts.\<close>

definition simple_init :: "nat \<Rightarrow> string option \<Rightarrow> simple_sys \<Rightarrow> simple_sys option" where
  "simple_init nc name s =
     (let s' = s\<lparr>idle_cores := bitmap_or (idle_cores s) (idle_cores s) (sched_allowed_cores s) nc\<rparr>
      in if name = Some ''server'' then Some (s'\<lparr>is_server := True\<rparr>)
         else if name = Some ''client'' then Some (s'\<lparr>is_server := False\<rparr>)
         else None)"

section \<open>Choosing\<close>

lemma sibling_scan_ok:
  assumes "base_ok nc A s" "\<forall>c \<in> set cs. c < nc"
  shows "\<exists>r. sibling_scan nc s p cs = Some r \<and> (\<forall>c. r = Some c \<longrightarrow> c < nc \<and> can_take s p c)"
  using assms(2) by (induction cs) (use assms(1) in \<open>auto simp: base_ok_def core_at_def\<close>)

lemma previous_scan_ok:
  assumes "base_ok nc A s"
  shows "\<exists>r. previous_scan nc s p is = Some r \<and> (\<forall>c. r = Some c \<longrightarrow> c < nc \<and> can_take s p c)"
  by (induction "is") (use assms in \<open>auto simp: base_ok_def core_at_def Let_def\<close>)

lemma simple_choose_core_ok:
  assumes ok: "ledger_ok nc A I s"
  shows "\<exists>c. simple_choose_core nc p s = Some c \<and> (c \<noteq> nc \<longrightarrow> c < nc \<and> can_take s p c) \<and>
    (c = nc \<longrightarrow> (\<forall>k < nc. \<not> bitmap_test (idle_cores s) k) \<and> (\<forall>k \<in> set (sched_cores_tbl s). \<not> preemptible_core s p k))"
proof -
  have base: "base_ok nc A s" "\<forall>c \<in> set (sched_cores_tbl s). c < nc" using ok by (auto simp: ledger_ok_def base_ok_def)
  obtain r where r: "sibling_scan nc s p (sched_cores_tbl s) = Some r" "\<And>c. r = Some c \<Longrightarrow> c < nc \<and> can_take s p c"
    using sibling_scan_ok [OF base] by blast
  obtain q where q: "previous_scan nc s p (idle_threads (procs s p)) = Some q" "\<And>c. q = Some c \<Longrightarrow> c < nc \<and> can_take s p c"
    using previous_scan_ok [OF base(1)] by blast
  let ?f = "find (preemptible_core s p) (sched_cores_tbl s)"
  have f: "\<And>c. ?f = Some c \<Longrightarrow> c < nc \<and> can_take s p c" "?f = None \<Longrightarrow> \<forall>k \<in> set (sched_cores_tbl s). \<not> preemptible_core s p k"
    using base(2) preemptible_can_take by (auto simp: find_Some_iff find_None_iff)
  let ?i = "bitmap_find_next_set (idle_cores s) nc 0"
  have i: "?i = nc \<and> (\<forall>k < nc. \<not> bitmap_test (idle_cores s) k) \<or> ?i < nc \<and> can_take s p ?i"
    by (rule first_idle [OF ok])
  show ?thesis
    using r q f i by (cases r; cases q; cases ?f) (auto simp: simple_choose_core_def Let_def)
qed

section \<open>Keeping the books\<close>

text \<open>What a call that gives \<open>core\<close> to \<open>p\<close> does to everybody's count.\<close>

definition moved :: "nat \<Rightarrow> nat \<Rightarrow> ('d, 'z) pol_sys_scheme \<Rightarrow> ('d, 'z) pol_sys_scheme \<Rightarrow> bool" where
  "moved p core s s' \<longleftrightarrow> cores s' = (cores s)(core := Some p) \<and>
     (\<forall>q. threads_active (pdata s' q) = threads_active (pdata s q) + (if q = p then 1 else 0) - (if cores s core = Some q then 1 else 0)) \<and>
     (\<forall>q. threads_guaranteed (pdata s' q) = threads_guaranteed (pdata s q) \<and> threads_max (pdata s' q) = threads_max (pdata s q)) \<and>
     congested_procs s' = congested_procs s \<and> sched_siblings s' = sched_siblings s \<and> sched_cores_tbl s' = sched_cores_tbl s \<and> clients s' = clients s"

lemma run_moves:
  assumes "core_frame s s1"
    "s' = (let s = simple_cleanup_core core s1; s = s\<lparr>cores := (cores s)(core := Some p), idle_cores := bitmap_clear (idle_cores s) core\<rparr>
      in s\<lparr>pdata := (pdata s)(p := (pdata s p)\<lparr>threads_active := threads_active (pdata s p) + 1, waking := True\<rparr>)\<rparr>)"
  shows "moved p core s s'"
proof -
  have "pdata s1 = pdata s" "cores s1 = cores s" "congested_procs s1 = congested_procs s"
    using assms(1) by (cases s, cases s1, simp add: core_frame_def)+
  with assms show ?thesis
    by (auto simp: moved_def simple_cleanup_core_def core_frame_def Let_def split: option.splits)
qed

lemma simple_run_ok:
  assumes ok: "ledger_ok nc A I s" and p: "p \<in> A"
  shows "\<exists>r s'. simple_run_kthread_on_core nc p core s = Some (r, s') \<and> ledger_ok nc A (if r = Ok then I - {core} else I) s' \<and>
    (r = Ok \<longrightarrow> core < nc \<and> moved p core s s') \<and>
    (r \<noteq> Ok \<longrightarrow> s' = s \<and> (sched_threads_avail p s = 0 \<or> nc \<le> core \<or> \<not> bitmap_test (sched_allowed_cores s) core))"
proof -
  obtain r s1 where r: "sched_run_on_core nc p core s = Some (r, s1)" "core_frame s s1"
    "r = Ok \<Longrightarrow> core < nc \<and> ledger_ok nc A (insert core I) s1 \<and> (\<exists>i. sched_get_thread_on_core core s1 = Some (p, i))"
    "r \<noteq> Ok \<Longrightarrow> s1 = s \<and> (sched_threads_avail p s = 0 \<or> nc \<le> core \<or> \<not> bitmap_test (sched_allowed_cores s) core)"
    using place_ok [OF ok, of p core] by blast
  consider "sched_threads_avail p s = 0" | "sched_threads_avail p s \<noteq> 0" "r \<noteq> Ok" | "sched_threads_avail p s \<noteq> 0" "r = Ok" by blast
  then show ?thesis
  proof cases
    case 3
    obtain i where i: "sched_get_thread_on_core core s1 = Some (p, i)" "core < nc" "ledger_ok nc A (insert core I) s1" using r(3) 3 by blast
    note cl = ledger_cleanup [OF i(3), of core]
    let ?s = "simple_cleanup_core core s1"
    let ?d = "(pdata ?s p)\<lparr>threads_active := threads_active (pdata ?s p) + 1, waking := True\<rparr>"
    have g: "sched_get_thread_on_core core ?s = Some (p, i)" using i(1) by (simp add: simple_cleanup_core_def Let_def split: option.splits)
    have "ledger_ok nc A (I - {core}) (assign_core p core ?d ?s)"
      using ledger_assign [OF cl(1,2) i(2) p g, of ?d] by simp
    moreover have "simple_run_kthread_on_core nc p core s = Some (Ok, assign_core p core ?d ?s)"
      using 3 r(1) by (simp add: simple_run_kthread_on_core_def assign_core_def Let_def)
    moreover have "moved p core s (assign_core p core ?d ?s)"
      by (rule run_moves [OF r(2)]) (simp add: assign_core_def Let_def)
    ultimately show ?thesis using i(2) by simp
  qed (use r ok in \<open>simp_all add: simple_run_kthread_on_core_def\<close>)
qed

text \<open>Giving a process one more core.\<close>

lemma simple_add_ok:
  assumes ok: "ledger_ok nc A {} s" and p: "p \<in> A"
  shows "\<exists>r s'. simple_add_kthread nc p s = Some (r, s') \<and> ledger_ok nc A {} s' \<and> clients s' = clients s \<and>
    (r = Ok \<longrightarrow> threads_active (pdata s p) < threads_max (pdata s p) \<and> (\<exists>core < nc. can_take s p core \<and> moved p core s s')) \<and>
    (r \<noteq> Ok \<longrightarrow> s' = s)"
proof -
  obtain c where c: "simple_choose_core nc p s = Some c" "c \<noteq> nc \<longrightarrow> c < nc \<and> can_take s p c"
    using simple_choose_core_ok [OF ok] by blast
  obtain r s' where r: "simple_run_kthread_on_core nc p c s = Some (r, s')" "ledger_ok nc A {} s'"
    "r = Ok \<longrightarrow> c < nc \<and> moved p c s s'" "r \<noteq> Ok \<longrightarrow> s' = s"
    using simple_run_ok [OF ok p, of c] by (simp only: empty_Diff if_cancel) blast
  have "clients s' = clients s" using r(3,4) by (cases "r = Ok") (auto simp: moved_def)
  with c r show ?thesis using ok
    by (cases "threads_max (pdata s p) \<le> threads_active (pdata s p)"; cases "c = nc") (auto simp: simple_add_kthread_def)
qed

lemma steal_shape:
  "\<exists>k. set_proc_to_steal keep p b s = s\<lparr>ks := k\<rparr> \<and> ksched_gens k = ksched_gens (ks s) \<and> cede_op k = cede_op (ks s) \<and>
    (\<forall>c. gen (cs_map k c) = gen (cs_map (ks s) c) \<and> last_gen (cs_map k c) = last_gen (cs_map (ks s) c) \<and>
       next_tid (cs_map k c) = next_tid (cs_map (ks s) c))"
proof -
  let ?f = "\<lambda>v i s. let core = th_core (threads (procs s p) i) in
      if core \<noteq> UINT_MAX then s\<lparr>ks := ksched_set_to_steal core v (ks s)\<rparr> else s"
  have "\<exists>k. fold (?f v) is s = s\<lparr>ks := k\<rparr> \<and> ksched_gens k = ksched_gens (ks s) \<and> cede_op k = cede_op (ks s) \<and>
    (\<forall>c. gen (cs_map k c) = gen (cs_map (ks s) c) \<and> last_gen (cs_map k c) = last_gen (cs_map (ks s) c) \<and>
       next_tid (cs_map k c) = next_tid (cs_map (ks s) c))" for v "is" s
  proof (induction "is" arbitrary: s)
    case Nil
    show ?case by (rule exI [of _ "ks s"]) (cases s, simp)
  next
    case (Cons i "is")
    show ?case
    proof (cases "th_core (threads (procs s p) i) = UINT_MAX")
      case True
      then show ?thesis using Cons [of s] by (simp add: Let_def)
    next
      case False
      let ?k = "ksched_set_to_steal (th_core (threads (procs s p) i)) v (ks s)"
      obtain k where k: "fold (?f v) is (s\<lparr>ks := ?k\<rparr>) = s\<lparr>ks := ?k\<rparr>\<lparr>ks := k\<rparr>" "ksched_gens k = ksched_gens ?k" "cede_op k = cede_op ?k"
        "\<forall>c. gen (cs_map k c) = gen (cs_map ?k c) \<and> last_gen (cs_map k c) = last_gen (cs_map ?k c) \<and> next_tid (cs_map k c) = next_tid (cs_map ?k c)"
        using Cons [of "s\<lparr>ks := ?k\<rparr>"] by auto
      have "fold (?f v) (i # is) s = s\<lparr>ks := k\<rparr>" using False k(1) by (simp add: Let_def)
      then show ?thesis using k(2-4) by (intro exI [of _ k]) (auto simp: ksched_set_to_steal_def)
    qed
  qed
  from this [of "if keep \<and> is_server s then True else b" "[0..<thread_count (procs s p)]" s] show ?thesis
    by (simp only: set_proc_to_steal_def Let_def)
qed

lemma steal_ok:
  assumes ok: "ledger_ok nc A {} s"
  shows "ledger_ok nc A {} (set_proc_to_steal keep p b s)" "pdata (set_proc_to_steal keep p b s) = pdata s"
    "clients (set_proc_to_steal keep p b s) = clients s" "cores (set_proc_to_steal keep p b s) = cores s"
proof -
  obtain k where k: "set_proc_to_steal keep p b s = s\<lparr>ks := k\<rparr>" "ksched_gens k = ksched_gens (ks s)" "cede_op k = cede_op (ks s)"
    "\<And>c. gen (cs_map k c) = gen (cs_map (ks s) c) \<and> last_gen (cs_map k c) = last_gen (cs_map (ks s) c)"
    using steal_shape [of keep p b s] by blast
  have "sched_inv s" using ok by (simp add: ledger_ok_def base_ok_def)
  then have "sched_inv (s\<lparr>ks := k\<rparr>)" using k(2-4) by (simp add: sched_inv_def kinv_def gens_ok_def ksched_poll_run_done_def)
  then show "ledger_ok nc A {} (set_proc_to_steal keep p b s)"
    unfolding k(1) by (rule ledger_frame [OF ok]) (simp_all add: core_frame_def sched_get_thread_on_core_def)
  show "pdata (set_proc_to_steal keep p b s) = pdata s" "clients (set_proc_to_steal keep p b s) = clients s"
    "cores (set_proc_to_steal keep p b s) = cores s" by (simp_all add: k(1))
qed

text \<open>
  A report of congestion: no count changes, or \<open>p\<close> is below its maximum and gets a core it can take.
\<close>

lemma simple_notify_ok:
  assumes ok: "ledger_ok nc A {} s" and p: "p \<in> A"
  shows "\<exists>s'. simple_notify_congested nc keep p busy delay parked s = Some s' \<and> ledger_ok nc A {} s' \<and> clients s' = clients s \<and>
    ((\<forall>q. threads_active (pdata s' q) = threads_active (pdata s q)) \<or>
     threads_active (pdata s p) < threads_max (pdata s p) \<and>
       (\<exists>core < nc. can_take s p core \<and>
         (\<forall>q. threads_active (pdata s' q) = threads_active (pdata s q) + (if q = p then 1 else 0) - (if cores s core = Some q then 1 else 0))))"
proof -
  define c where "c \<longleftrightarrow> (if qdelay_us (pdata s p) = 0 then busy else qdelay_us (pdata s p) \<le> delay) \<or> parked"
  define s1 where "s1 = set_proc_to_steal keep p c s"
  note s1 = steal_ok [OF ok, of keep p c, folded s1_def]
  obtain r s2 where r: "simple_add_kthread nc p s1 = Some (r, s2)" "ledger_ok nc A {} s2" "clients s2 = clients s1"
    "r = Ok \<longrightarrow> threads_active (pdata s1 p) < threads_max (pdata s1 p) \<and> (\<exists>core < nc. can_take s1 p core \<and> moved p core s1 s2)"
    "r \<noteq> Ok \<longrightarrow> s2 = s1" using simple_add_ok [OF s1(1) p] by blast
  have eq: "simple_notify_congested nc keep p busy delay parked s =
      (if waking (pdata s1 p) then Some (s1\<lparr>pdata := (pdata s1)(p := (pdata s1 p)\<lparr>waking := False\<rparr>)\<rparr>)
       else if \<not> c then Some (simple_unmark_congested p s1)
       else if is_congested (pdata s1 p) then Some s1
       else if r = Ok then Some s2 else Some (simple_mark_congested p s2))"
    by (simp only: simple_notify_congested_def Let_def r(1) bind.bind_lunit prod.case flip: c_def s1_def)
  have m: "can_take s1 p core = can_take s p core" for core by (simp add: can_take_def s1 split: option.split)
  consider "waking (pdata s1 p)" | "\<not> waking (pdata s1 p)" "\<not> c" | "\<not> waking (pdata s1 p)" "c" "is_congested (pdata s1 p)"
    | "\<not> waking (pdata s1 p)" "c" "\<not> is_congested (pdata s1 p)" "r = Ok" | "\<not> waking (pdata s1 p)" "c" "\<not> is_congested (pdata s1 p)" "r \<noteq> Ok"
    by blast
  then show ?thesis
  proof cases
    case 1
    have "ledger_ok nc A {} (s1\<lparr>pdata := (pdata s1)(p := (pdata s1 p)\<lparr>waking := False\<rparr>)\<rparr>)" by (rule ledger_data [OF s1(1)]) simp
    then show ?thesis using 1 s1(2,3) by (simp add: eq)
  next
    case 2
    then show ?thesis using ledger_unmark [OF s1(1), of p] s1(2,3) by (simp add: eq)
  next
    case 3
    then show ?thesis using s1 by (simp add: eq)
  next
    case 4
    then show ?thesis using r(2-4) s1(2-4) by (auto simp: eq moved_def m)
  next
    case 5
    then show ?thesis using ledger_mark [OF r(2) p] r(3,5) s1(2,3) by (auto simp: eq simple_mark_congested_def)
  qed
qed

lemma choose_kthread_ok:
  assumes ok: "ledger_ok nc A I s" and core: "core < nc"
  shows "\<exists>r. simple_choose_kthread nc core s = Some r \<and> (\<forall>p. r = Some p \<longrightarrow> p \<in> A \<and> sched_threads_avail p s \<noteq> 0) \<and>
    (r = None \<longrightarrow> (\<forall>p \<in> set (congested_procs s). sched_threads_avail p s = 0))"
proof -
  have base: "base_ok nc A s" using ok by (simp add: ledger_ok_def)
  let ?sib = "sched_siblings s core"
  have sib: "?sib < nc" using base core by (simp add: base_ok_def)
  have "set (local_procs s core ?sib) \<subseteq> A" by (rule local_procs_known [OF ok core sib])
  moreover have "set (congested_procs s) \<subseteq> A" using ok by (auto simp: ledger_ok_def waiting_ok_def)
  ultimately show ?thesis using sibling_ok [OF base core]
    by (auto simp: simple_choose_kthread_def eligible_def find_None_iff find_Some_iff dest: nth_mem split: option.splits)
qed

text \<open>A core that went idle: it is handed to a waiting process, or nobody can use it.\<close>

lemma poll_core_ok:
  assumes ok: "ledger_ok nc A I s" and core: "core < nc"
  shows "\<exists>s'. poll_core nc core s = Some s' \<and> ledger_ok nc A (I - {core}) s' \<and> clients s' = clients s \<and>
    (bitmap_test (sched_allowed_cores s) core \<longrightarrow>
      cores s' core \<noteq> None \<or> (\<forall>p \<in> set (congested_procs s'). sched_threads_avail p s' = 0))"
proof -
  define s1 where "s1 = (case cores s core of None \<Rightarrow> s | Some p \<Rightarrow> simple_unmark_congested p s)"
  define s2 where "s2 = simple_cleanup_core core s1"
  have "ledger_ok nc A I s1" "clients s1 = clients s" "sched_allowed_cores s1 = sched_allowed_cores s" 
    using ok ledger_unmark by (auto simp: s1_def split: option.splits)
  then have ok2: "ledger_ok nc A (I - {core}) s2" "cores s2 core = None" "clients s2 = clients s" "sched_allowed_cores s2 = sched_allowed_cores s"
    using ledger_cleanup [of nc A I s1 core] by (auto simp: s2_def simple_cleanup_core_def Let_def split: option.splits)
  obtain r where r: "simple_choose_kthread nc core s2 = Some r" "\<And>p. r = Some p \<Longrightarrow> p \<in> A"
    "\<And>p. r = Some p \<Longrightarrow> sched_threads_avail p s2 \<noteq> 0" "r = None \<Longrightarrow> \<forall>p \<in> set (congested_procs s2). sched_threads_avail p s2 = 0"
    using choose_kthread_ok [OF ok2(1) core] by blast
  have eq: "poll_core nc core s = (case r of None \<Rightarrow> Some (s2\<lparr>idle_cores := bitmap_set (idle_cores s2) core\<rparr>)
      | Some p \<Rightarrow> do { (r, s) \<leftarrow> simple_run_kthread_on_core nc p core s2;
          if r \<noteq> Ok then Some (simple_mark_congested p (s\<lparr>idle_cores := bitmap_set (idle_cores s) core\<rparr>)) else Some s })"
    by (simp only: poll_core_def Let_def r(1) bind.bind_lunit flip: s1_def s2_def)
  note idle = ledger_idle [OF ok2(1,2)]
  show ?thesis
  proof (cases r)
    case None
    then show ?thesis using idle ok2(3) r(4) by (simp add: eq sched_threads_avail_def)
  next
    case (Some p)
    obtain r' s3 where r': "simple_run_kthread_on_core nc p core s2 = Some (r', s3)"
      "ledger_ok nc A (if r' = Ok then I - {core} - {core} else I - {core}) s3"
      "r' = Ok \<longrightarrow> moved p core s2 s3"
      "r' \<noteq> Ok \<longrightarrow> s3 = s2 \<and> (sched_threads_avail p s2 = 0 \<or> nc \<le> core \<or> \<not> bitmap_test (sched_allowed_cores s2) core)"
      using simple_run_ok [OF ok2(1) r(2) [OF Some], of core] by blast
    show ?thesis
    proof (cases "r' = Ok")
      case True
      then show ?thesis using r' ok2(3) Some by (simp add: eq moved_def)
    next
      case False
      then have "\<not> bitmap_test (sched_allowed_cores s) core" using r'(4) r(3) [OF Some] core ok2(4) by simp
      then show ?thesis using False r' ok2(3) Some ledger_mark [OF idle r(2) [OF Some]] by (simp add: eq simple_mark_congested_def)
    qed
  qed
qed

lemma poll_cores_ok:
  assumes "ledger_ok nc A I s" "\<forall>c \<in> set cs. c < nc" "I \<subseteq> set cs"
  shows "\<exists>s'. over_clients (poll_core nc) cs s = Some s' \<and> ledger_ok nc A {} s' \<and> clients s' = clients s"
  using assms
proof (induction cs arbitrary: I s)
  case (Cons c cs)
  obtain s1 where s1: "poll_core nc c s = Some s1" "ledger_ok nc A (I - {c}) s1" "clients s1 = clients s"
    using poll_core_ok [OF Cons(2), of c] Cons(3) by auto
  with Cons(1) [OF s1(2)] Cons(3,4) show ?case by auto
qed simp

lemma simple_poll_ok:
  assumes ok: "ledger_ok nc A {k. bitmap_test idle k} s" and cnt: "cnt = 0 \<longrightarrow> (\<forall>k. \<not> bitmap_test idle k)"
    and tbl: "\<forall>k. bitmap_test idle k \<longrightarrow> k \<in> set (sched_cores_tbl s)"
  shows "\<exists>s'. simple_sched_poll nc now cnt idle s = Some s' \<and> ledger_ok nc A {} s' \<and> clients s' = clients s"
proof (cases "cnt = 0")
  case True
  then show ?thesis using ok cnt by (simp add: simple_sched_poll_def)
next
  case False
  have "k < nc" if "bitmap_test idle k" for k using ok tbl that by (auto simp: ledger_ok_def base_ok_def)
  with poll_cores_ok [OF ok, of "positions_set idle nc 0"] False show ?thesis
    by (auto simp: simple_sched_poll_def positions_set_eq)
qed

interpretation simple: sched_policy nc "simple_ops nc keep mem cyc" "\<lambda>_. True" "ledger_ok nc"
  for nc :: nat and keep mem :: bool and cyc :: u64
proof unfold_locales
  fix A I :: "nat set" and s s' :: simple_sys
  show "ledger_ok nc A I s \<Longrightarrow> sched_inv s \<and> (\<forall>c \<in> set (sched_cores_tbl s). bitmap_test (sched_allowed_cores s) c)"
    by (simp add: ledger_ok_def base_ok_def)
  show "ledger_ok nc A I s \<Longrightarrow> p \<in> A \<Longrightarrow> 0 < slack (procs s p)" for p by (simp add: ledger_ok_def base_ok_def)
  show "ledger_ok nc A I s \<Longrightarrow> p \<notin> A \<Longrightarrow> sched_inv (upd_proc p q s) \<Longrightarrow> ledger_ok nc A I (upd_proc p q s)" for p q
    by (rule ledger_new)
  show "ledger_ok nc A I s \<Longrightarrow> ledger_ok nc A I (s\<lparr>clients := cl, released := R\<rparr>)" for cl R by (rule ledger_clients)
  show "ledger_ok nc A {} s \<Longrightarrow> p \<in> A \<Longrightarrow>
      \<exists>s'. notify_congested (simple_ops nc keep mem cyc) p b d k s = Some s' \<and> ledger_ok nc A {} s' \<and> clients s' = clients s" for p b d k
    using simple_notify_ok [of nc A s p keep b d k] by (auto simp: simple_ops_def)
  show "ledger_ok nc A {} s \<Longrightarrow> p \<in> A \<Longrightarrow>
      \<exists>r s'. notify_core_needed (simple_ops nc keep mem cyc) p s = Some (r, s') \<and> ledger_ok nc A {} s' \<and> clients s' = clients s" for p
    using simple_add_ok [of nc A s p] by (auto simp: simple_ops_def simple_notify_core_needed_def)
  show "ledger_ok nc A {} s \<Longrightarrow> p \<in> A \<Longrightarrow> \<exists>s'. op_detach (simple_ops nc keep mem cyc) p s = Some s' \<and>
      ledger_ok nc (A - {p}) {} s' \<and> clients s' = clients s \<and> procs s' = procs s" for p
    using ledger_detach [of nc A "{}" s p] by (simp add: simple_ops_def)
  show "ledger_ok nc A {} s \<Longrightarrow> p \<notin> A \<Longrightarrow> 0 < slack (procs s p) \<Longrightarrow> \<exists>r s'. op_attach (simple_ops nc keep mem cyc) p s = Some (r, s') \<and>
      ledger_ok nc (if r = Ok then insert p A else A) {} s' \<and> clients s' = clients s \<and> procs s' = procs s" for p
    by (cases mem) (simp_all add: simple_ops_def simple_attach_def Let_def ledger_attach)
qed (auto simp: simple_ops_def intro: ledger_frame simple_poll_ok)

text \<open>The example state with the data of this policy.\<close>

definition demo_simple :: simple_sys where
  "demo_simple = demo_ledger (\<lambda>_. \<lparr>is_congested = False, waking = False, qdelay_us = 10, threads_guaranteed = 1,
     threads_max = 2, threads_active = 1, qdelay_tsc = 10\<rparr>) (simple_sys.fields True)"

lemma demo_simple_sched: "sched_inv demo_simple"
  unfolding demo_simple_def by (rule demo_ledger_sched)

lemma demo_simple_ok: "ledger_ok 4 (set (clients demo_simple)) {} demo_simple"
  unfolding demo_simple_def by (rule demo_ledger_ok) simp_all

section \<open>The policy in the main loop\<close>

text \<open>A start without clients gives right books, unless the name of the instance is neither of the two.\<close>

lemma simple_init_ok:
  assumes "base_ok nc {} s" "cores s = (\<lambda>_. None)" "hist s = (\<lambda>_. replicate NHIST None)" "congested_procs s = []"
  shows "simple_init nc name s = None \<longleftrightarrow> name \<noteq> Some ''server'' \<and> name \<noteq> Some ''client''"
    "simple_init nc name s = Some s' \<Longrightarrow> ledger_ok nc {} {} s'"
  using assms by (auto simp: simple_init_def Let_def ledger_ok_def base_ok_def sched_inv_def owners_ok_def waiting_ok_def hist_ok_def agrees_def
    split: if_splits)



text \<open>
  C24: no idle core is wasted: once an idle core has been handled, it has an owner, or no process
  that waits for cores has a kthread to run on it.
\<close>

theorem idle_core_used:
  assumes ok: "ledger_ok nc A I s" and core: "core \<in> set (sched_cores_tbl s)" and st: "poll_core nc core s = Some s'"
  shows "cores s' core \<noteq> None \<or> (\<forall>p \<in> set (congested_procs s'). sched_threads_avail p s' = 0)"
proof -
  have "core < nc" "bitmap_test (sched_allowed_cores s) core" using ok core by (auto simp: ledger_ok_def base_ok_def)
  with poll_core_ok [OF ok, of core] st show ?thesis by auto
qed

section \<open>Witnesses\<close>


text \<open>A second process takes the free core, not the one process 0 is guaranteed.\<close>

definition demo_two :: simple_sys where
  "demo_two = (demo_simple\<lparr>pdata := (pdata demo_simple)(1 := (pdata demo_simple 1)\<lparr>threads_active := 0, is_congested := False\<rparr>)\<rparr>)
     \<lparr>clients := [0, 1], released := []\<rparr>"

lemma demo_two_ok: "ledger_ok 4 {1, 0} {} demo_two"
proof -
  have "ledger_ok 4 {0} {} demo_simple" using demo_simple_ok by (simp add: demo_simple_def demo_ledger_def)
  then have "ledger_ok 4 (insert 1 {0}) {} (demo_simple\<lparr>pdata := (pdata demo_simple)(1 := (pdata demo_simple 1)\<lparr>threads_active := 0, is_congested := False\<rparr>)\<rparr>)"
    by (rule ledger_attach) (simp_all add: demo_simple_def demo_ledger_def demo_parked_def demo_proc_def)
  then show ?thesis unfolding demo_two_def by (rule ledger_clients)
qed


text \<open>Process 1 waits for a core when core 3 goes idle.\<close>

theorem idle_core_used_witness:
  "\<exists>s'. poll_core 4 3 (simple_mark_congested 1 demo_two) = Some s' \<and>
    (cores s' 3 \<noteq> None \<or> \<not> (1 \<in> set (congested_procs s') \<and> sched_threads_avail 1 s' \<noteq> 0))"
proof -
  have ok: "ledger_ok 4 {1, 0} {} (simple_mark_congested 1 demo_two)" by (rule ledger_mark [OF demo_two_ok]) simp
  have core: "3 \<in> set (sched_cores_tbl (simple_mark_congested 1 demo_two))"
    by (simp add: simple_mark_congested_def demo_two_def demo_simple_def demo_ledger_def)
  obtain s' where s': "poll_core 4 3 (simple_mark_congested 1 demo_two) = Some s'" using poll_core_ok [OF ok, of 3] by auto
  from idle_core_used [OF ok core s'] s' show ?thesis by blast
qed

end
