(* ===== verification/Numa_Policy.thy ===== *)
theory Numa_Policy
  imports Core_Ledger Iok_Policy
begin

text \<open>
  The scheduling policy \<^verbatim>\<open>iokernel/numa.c\<close>: as the simple policy, but a process prefers the cores of
  its socket and the cores it used recently. Its bookkeeping is that of \<open>Core_Ledger\<close>, and it
  interprets the same contract of a policy. \<open>nn\<close> is \<^verbatim>\<open>NNUMA\<close>, the number of entries of
  \<^verbatim>\<open>socket_state\<close>; an index at or above \<open>nc\<close> or \<open>nn\<close> is \<open>None\<close>.
\<close>

section \<open>State and operations\<close>

record numa_data = pol_data +
  preferred_sock :: nat
  recent_cores :: "nat list"

type_synonym numa_sys = "unit numa_data_ext pol_sys"

definition NRECENT :: nat where "NRECENT = 4"

definition numa_proc_is_preemptible :: "numa_data \<Rightarrow> numa_data \<Rightarrow> bool" where
  "numa_proc_is_preemptible cursd nextsd \<longleftrightarrow>
     threads_guaranteed cursd < threads_active cursd \<and> threads_active nextsd < threads_guaranteed nextsd"

definition numa_cleanup_core :: "nat \<Rightarrow> numa_sys \<Rightarrow> numa_sys" where
  "numa_cleanup_core core s =
     (case cores s core of
        None \<Rightarrow> s
      | Some p \<Rightarrow>
          let d = pdata s p;
              d = d\<lparr>threads_active := threads_active d - 1\<rparr>;
              s = s\<lparr>cores := (cores s)(core := None)\<rparr>;
              s = s\<lparr>hist := (hist s)(core := Some p # take (NHIST - 1) (hist s core))\<rparr>
          in s\<lparr>pdata := (pdata s)(p := d\<lparr>recent_cores := core # take (NRECENT - 1) (recent_cores d)\<rparr>)\<rparr>)"

definition numa_mark_congested :: "nat \<Rightarrow> numa_sys \<Rightarrow> numa_sys" where
  "numa_mark_congested p s =
     (if is_congested (pdata s p) then s
      else s\<lparr>pdata := (pdata s)(p := (pdata s p)\<lparr>is_congested := True\<rparr>), congested_procs := p # congested_procs s\<rparr>)"

definition numa_unmark_congested :: "nat \<Rightarrow> numa_sys \<Rightarrow> numa_sys" where
  "numa_unmark_congested p s =
     (if \<not> is_congested (pdata s p) then s
      else s\<lparr>pdata := (pdata s)(p := (pdata s p)\<lparr>is_congested := False\<rparr>), congested_procs := remove1 p (congested_procs s)\<rparr>)"

definition numa_attach :: "bool \<Rightarrow> nat \<Rightarrow> numa_sys \<Rightarrow> (ret \<times> numa_sys) option" where
  "numa_attach mem p s =
     (if \<not> mem then Some (Err ENOMEM, s)
      else let cfg = sched_cfg (procs s p);
               first = (case sched_cores_tbl s of [] \<Rightarrow> 0 | c # _ \<Rightarrow> c)
           in Some (Ok, s\<lparr>pdata := (pdata s)(p :=
                \<lparr>is_congested = False, waking = False, qdelay_us = cfg_qdelay_us cfg, threads_guaranteed = sint (guaranteed_cores cfg),
                 threads_max = sint (max_cores cfg), threads_active = 0, preferred_sock = unat (preferred_socket cfg),
                 recent_cores = replicate NRECENT first\<rparr>)\<rparr>))"

definition numa_detach :: "nat \<Rightarrow> nat \<Rightarrow> numa_sys \<Rightarrow> numa_sys option" where
  "numa_detach nc p s =
     (let s = numa_unmark_congested p s
      in Some (s\<lparr>cores := \<lambda>i. if i < nc \<and> cores s i = Some p then None else cores s i,
                 hist := \<lambda>i. if i < nc then map (\<lambda>h. if h = Some p then None else h) (hist s i) else hist s i\<rparr>))"

definition numa_run_kthread_on_core :: "nat \<Rightarrow> nat \<Rightarrow> nat \<Rightarrow> numa_sys \<Rightarrow> (ret \<times> numa_sys) option" where
  "numa_run_kthread_on_core nc p core s =
     (if sched_threads_avail p s = 0 then Some (Err EBUSY, s)
      else do {
        (r, s) \<leftarrow> sched_run_on_core nc p core s;
        if r \<noteq> Ok then Some (r, s)
        else do {
          let s = numa_cleanup_core core s;
          let s = s\<lparr>cores := (cores s)(core := Some p), idle_cores := bitmap_clear (idle_cores s) core\<rparr>;
          let d = pdata s p;
          Some (Ok, s\<lparr>pdata := (pdata s)(p := d\<lparr>threads_active := threads_active d + 1\<rparr>)\<rparr>)
        }
      })"

definition numa_can_take :: "numa_sys \<Rightarrow> nat \<Rightarrow> nat \<Rightarrow> bool" where
  "numa_can_take s p core \<longleftrightarrow> cores s core \<noteq> Some p \<and>
     (case cores s core of None \<Rightarrow> True | Some q \<Rightarrow> numa_proc_is_preemptible (pdata s q) (pdata s p))"

text \<open>The cores a process used recently and their siblings, inside a subset of the cores.\<close>

fun recent_scan :: "nat \<Rightarrow> numa_sys \<Rightarrow> nat \<Rightarrow> bitmap \<Rightarrow> nat list \<Rightarrow> nat option option" where
  "recent_scan nc s p sub [] = Some None"
| "recent_scan nc s p sub (c # cs) =
     do {
       core \<leftarrow> core_at nc c;
       if \<not> bitmap_test sub core then recent_scan nc s p sub cs
       else if numa_can_take s p core then Some (Some core)
       else do {
         sib \<leftarrow> core_at nc (sched_siblings s core);
         if \<not> bitmap_test sub sib then recent_scan nc s p sub cs
         else if numa_can_take s p sib then Some (Some sib) else recent_scan nc s p sub cs
       }
     }"

definition numa_preemptible_core :: "numa_sys \<Rightarrow> nat \<Rightarrow> nat \<Rightarrow> bool" where
  "numa_preemptible_core s p core \<longleftrightarrow> cores s core \<noteq> Some p \<and>
     (case cores s core of None \<Rightarrow> False | Some q \<Rightarrow> numa_proc_is_preemptible (pdata s q) (pdata s p))"

definition numa_choose_core_in_subset :: "nat \<Rightarrow> nat \<Rightarrow> bitmap \<Rightarrow> numa_sys \<Rightarrow> nat option" where
  "numa_choose_core_in_subset nc p sub s =
     do {
       r \<leftarrow> recent_scan nc s p sub (recent_cores (pdata s p));
       case r of Some c \<Rightarrow> Some c | None \<Rightarrow> do {
         let c = bitmap_find_next_set (bitmap_and (\<lambda>_. 0) (idle_cores s) sub nc) nc 0;
         if c \<noteq> nc then Some c
         else case find (numa_preemptible_core s p) (positions_set sub nc 0) of Some c \<Rightarrow> Some c | None \<Rightarrow> Some nc
       }
     }"

fun numa_sibling_scan :: "nat \<Rightarrow> numa_sys \<Rightarrow> nat \<Rightarrow> nat list \<Rightarrow> nat option option" where
  "numa_sibling_scan nc s p [] = Some None"
| "numa_sibling_scan nc s p (core # cs) =
     (if cores s core \<noteq> Some p then numa_sibling_scan nc s p cs
      else do {
        sib \<leftarrow> core_at nc (sched_siblings s core);
        if numa_can_take s p sib then Some (Some sib) else numa_sibling_scan nc s p cs
      })"

text \<open>\<open>nodes\<close> is \<^verbatim>\<open>numa_count\<close>.\<close>

definition numa_choose_core :: "nat \<Rightarrow> nat \<Rightarrow> nat \<Rightarrow> bool \<Rightarrow> nat \<Rightarrow> numa_sys \<Rightarrow> nat option" where
  "numa_choose_core nn nc nodes noht p s =
     do {
       sib \<leftarrow> (if \<not> noht then numa_sibling_scan nc s p (sched_cores_tbl s) else Some None);
       case sib of Some c \<Rightarrow> Some c | None \<Rightarrow> do {
         sock \<leftarrow> (if preferred_sock (pdata s p) < nn then Some (preferred_sock (pdata s p)) else None);
         c \<leftarrow> numa_choose_core_in_subset nc p (bitmap_and (\<lambda>_. 0) (sched_allowed_cores s) (socket_cores s sock) nc) s;
         if c \<noteq> nc then Some c
         else if 1 < nodes then numa_choose_core_in_subset nc p (sched_allowed_cores s) s
         else Some nc
       }
     }"

definition numa_add_kthread :: "nat \<Rightarrow> nat \<Rightarrow> nat \<Rightarrow> bool \<Rightarrow> nat \<Rightarrow> numa_sys \<Rightarrow> (ret \<times> numa_sys) option" where
  "numa_add_kthread nn nc nodes noht p s =
     (if threads_max (pdata s p) \<le> threads_active (pdata s p) then Some (Err ENOENT, s)
      else do {
        core \<leftarrow> numa_choose_core nn nc nodes noht p s;
        if core = nc then Some (Err ENOENT, s) else numa_run_kthread_on_core nc p core s
      })"

definition numa_notify_core_needed :: "nat \<Rightarrow> nat \<Rightarrow> nat \<Rightarrow> bool \<Rightarrow> nat \<Rightarrow> numa_sys \<Rightarrow> (ret \<times> numa_sys) option" where
  "numa_notify_core_needed nn nc nodes noht p s = numa_add_kthread nn nc nodes noht p s"

definition numa_notify_congested :: "nat \<Rightarrow> nat \<Rightarrow> nat \<Rightarrow> bool \<Rightarrow> nat \<Rightarrow> bool \<Rightarrow> u64 \<Rightarrow> bool \<Rightarrow> numa_sys \<Rightarrow> numa_sys option" where
  "numa_notify_congested nn nc nodes noht p busy delay parked_thread_delay s =
     (let d = pdata s p;
          congested = (if qdelay_us d = 0 then busy else qdelay_us d \<le> delay) \<or> parked_thread_delay
      in if waking d then Some (s\<lparr>pdata := (pdata s)(p := d\<lparr>waking := False\<rparr>)\<rparr>)
         else if \<not> congested then Some (numa_unmark_congested p s)
         else if is_congested d then Some s
         else do {
           (r, s) \<leftarrow> numa_add_kthread nn nc nodes noht p s;
           if r = Ok then Some s else Some (numa_mark_congested p s)
         })"

definition numa_choose_kthread :: "nat \<Rightarrow> nat \<Rightarrow> numa_sys \<Rightarrow> nat option option" where
  "numa_choose_kthread nc core s =
     do {
       sib \<leftarrow> core_at nc (sched_siblings s core);
       case find (\<lambda>p. is_congested (pdata s p)) (local_procs s core sib) of
         Some p \<Rightarrow> Some (Some p)
       | None \<Rightarrow> Some (case congested_procs s of [] \<Rightarrow> None | p # _ \<Rightarrow> Some p)
     }"

definition numa_poll_core :: "nat \<Rightarrow> nat \<Rightarrow> numa_sys \<Rightarrow> numa_sys option" where
  "numa_poll_core nc core s =
     do {
       let s = (case cores s core of None \<Rightarrow> s | Some p \<Rightarrow> numa_unmark_congested p s);
       let s = numa_cleanup_core core s;
       sd \<leftarrow> numa_choose_kthread nc core s;
       case sd of
         None \<Rightarrow> Some (s\<lparr>idle_cores := bitmap_set (idle_cores s) core\<rparr>)
       | Some p \<Rightarrow> do {
           (r, s) \<leftarrow> numa_run_kthread_on_core nc p core s;
           if r \<noteq> Ok then Some (numa_mark_congested p (s\<lparr>idle_cores := bitmap_set (idle_cores s) core\<rparr>)) else Some s
         }
     }"

definition numa_sched_poll :: "nat \<Rightarrow> u64 \<Rightarrow> nat \<Rightarrow> bitmap \<Rightarrow> numa_sys \<Rightarrow> numa_sys option" where
  "numa_sched_poll nc now idle_cnt idle s =
     (if idle_cnt = 0 then Some s else over_clients (numa_poll_core nc) (positions_set idle nc 0) s)"

definition numa_ops :: "nat \<Rightarrow> nat \<Rightarrow> nat \<Rightarrow> bool \<Rightarrow> bool \<Rightarrow> numa_sys sched_ops" where
  "numa_ops nn nc nodes noht mem =
     \<lparr>op_attach = numa_attach mem, op_detach = numa_detach nc, notify_congested = numa_notify_congested nn nc nodes noht,
      notify_core_needed = numa_notify_core_needed nn nc nodes noht, op_sched_poll = numa_sched_poll nc\<rparr>"

definition numa_init :: "nat \<Rightarrow> numa_sys \<Rightarrow> numa_sys" where
  "numa_init nc s = s\<lparr>idle_cores := bitmap_or (idle_cores s) (idle_cores s) (sched_allowed_cores s) nc\<rparr>"

section \<open>The shared bookkeeping\<close>

lemma numa_shared [simp]:
  "numa_proc_is_preemptible = simple_proc_is_preemptible" "numa_can_take = can_take" "numa_preemptible_core = preemptible_core"
  "numa_mark_congested = simple_mark_congested" "numa_unmark_congested = simple_unmark_congested" "numa_detach = simple_detach"
proof -
  show p: "numa_proc_is_preemptible = simple_proc_is_preemptible"
    by (intro ext) (simp add: numa_proc_is_preemptible_def simple_proc_is_preemptible_def)
  show "numa_can_take = can_take" "numa_preemptible_core = preemptible_core"
    by (intro ext; simp add: numa_can_take_def can_take_def numa_preemptible_core_def preemptible_core_def p split: option.split)+
  show m: "numa_mark_congested = simple_mark_congested" "numa_unmark_congested = simple_unmark_congested"
    by (intro ext; simp add: numa_mark_congested_def simple_mark_congested_def numa_unmark_congested_def simple_unmark_congested_def)+
  show "numa_detach = simple_detach" by (intro ext) (simp add: numa_detach_def simple_detach_def m)
qed

text \<open>The cores a process remembers exist, and so does its socket.\<close>

definition places_ok :: "nat \<Rightarrow> nat \<Rightarrow> numa_data \<Rightarrow> bool" where
  "places_ok nn nc d \<longleftrightarrow> preferred_sock d < nn \<and> (\<forall>c \<in> set (recent_cores d). c < nc)"

definition numa_ok :: "nat \<Rightarrow> nat \<Rightarrow> nat set \<Rightarrow> nat set \<Rightarrow> numa_sys \<Rightarrow> bool" where
  "numa_ok nn nc A I s \<longleftrightarrow> 0 < nc \<and> ledger_ok nc A I s \<and> (\<forall>p \<in> A. places_ok nn nc (pdata s p))"

lemma numa_places:
  assumes "numa_ok nn nc A I s" "ledger_ok nc A' I' s'" "A' \<subseteq> A"
    "\<And>p. p \<in> A' \<Longrightarrow> preferred_sock (pdata s' p) = preferred_sock (pdata s p) \<and> recent_cores (pdata s' p) = recent_cores (pdata s p)"
  shows "numa_ok nn nc A' I' s'"
  using assms by (auto simp: numa_ok_def places_ok_def)

lemma numa_cleanup:
  assumes ok: "numa_ok nn nc A I s" and core: "core < nc"
  shows "numa_ok nn nc A (I - {core}) (numa_cleanup_core core s)" "cores (numa_cleanup_core core s) core = None"
    "sched_get_thread_on_core k (numa_cleanup_core core s) = sched_get_thread_on_core k s"
    "clients (numa_cleanup_core core s) = clients s"
proof -
  show "cores (numa_cleanup_core core s) core = None" "clients (numa_cleanup_core core s) = clients s"
    "sched_get_thread_on_core k (numa_cleanup_core core s) = sched_get_thread_on_core k s"
    by (simp_all add: numa_cleanup_core_def Let_def split: option.splits)
  show "numa_ok nn nc A (I - {core}) (numa_cleanup_core core s)"
  proof (cases "cores s core")
    case None
    then show ?thesis using ok ledger_cleanup [of nc A I s core] by (simp add: numa_ok_def numa_cleanup_core_def simple_cleanup_core_def)
  next
    case (Some p)
    let ?s = "simple_cleanup_core core s"
    let ?D = "(pdata ?s)(p := (pdata ?s p)\<lparr>recent_cores := core # take (NRECENT - 1) (recent_cores (pdata s p))\<rparr>)"
    have "ledger_ok nc A (I - {core}) (?s\<lparr>pdata := ?D\<rparr>)"
      by (rule ledger_data [OF ledger_cleanup(1)]) (use ok in \<open>simp_all add: numa_ok_def\<close>)
    moreover have "numa_cleanup_core core s = ?s\<lparr>pdata := ?D\<rparr>"
      using Some by (simp add: numa_cleanup_core_def simple_cleanup_core_def Let_def)
    moreover have "places_ok nn nc (?D q)" if "q \<in> A" for q
      using ok that core Some by (auto simp: numa_ok_def places_ok_def simple_cleanup_core_def Let_def dest: in_set_takeD)
    ultimately show ?thesis using ok by (simp add: numa_ok_def)
  qed
qed

lemma numa_run_ok:
  assumes ok: "numa_ok nn nc A I s" and p: "p \<in> A"
  shows "\<exists>r s'. numa_run_kthread_on_core nc p core s = Some (r, s') \<and> numa_ok nn nc A (if r = Ok then I - {core} else I) s' \<and>
    clients s' = clients s \<and> (r \<noteq> Ok \<longrightarrow> s' = s)"
proof -
  have lo: "ledger_ok nc A I s" using ok by (simp add: numa_ok_def)
  obtain r s1 where r: "sched_run_on_core nc p core s = Some (r, s1)" "core_frame s s1"
    "r = Ok \<Longrightarrow> core < nc \<and> ledger_ok nc A (insert core I) s1 \<and> (\<exists>i. sched_get_thread_on_core core s1 = Some (p, i))" "r \<noteq> Ok \<Longrightarrow> s1 = s"
    using place_ok [OF lo, of p core] by blast
  consider "sched_threads_avail p s = 0" | "sched_threads_avail p s \<noteq> 0" "r \<noteq> Ok" | "sched_threads_avail p s \<noteq> 0" "r = Ok" by blast
  then show ?thesis
  proof cases
    case 3
    obtain i where i: "sched_get_thread_on_core core s1 = Some (p, i)" "core < nc" "ledger_ok nc A (insert core I) s1" using r(3) 3 by blast
    have "pdata s1 = pdata s" using r(2) by (cases s, cases s1) (simp add: core_frame_def)
    then have ok1: "numa_ok nn nc A (insert core I) s1" using ok i(3) by (simp add: numa_ok_def)
    note cl = numa_cleanup [OF ok1 i(2)]
    let ?s = "numa_cleanup_core core s1"
    let ?d = "(pdata ?s p)\<lparr>threads_active := threads_active (pdata ?s p) + 1\<rparr>"
    have g: "sched_get_thread_on_core core ?s = Some (p, i)" using i(1) cl(3) by simp
    have lo2: "ledger_ok nc A (I - {core}) ?s" using cl(1) by (simp add: numa_ok_def)
    have "numa_ok nn nc A (I - {core}) (assign_core p core ?d ?s)"
    proof (rule numa_places)
      show "numa_ok nn nc A (insert core I - {core}) ?s" by (rule cl(1))
      show "ledger_ok nc A (I - {core}) (assign_core p core ?d ?s)" by (rule ledger_assign [OF lo2 cl(2) i(2) p g]) simp_all
    qed (simp_all add: assign_core_def)
    moreover have "numa_run_kthread_on_core nc p core s = Some (Ok, assign_core p core ?d ?s)"
      using 3 r(1) by (simp add: numa_run_kthread_on_core_def assign_core_def Let_def)
    ultimately show ?thesis using cl(4) r(2) by (simp add: assign_core_def core_frame_def)
  qed (use r ok in \<open>simp_all add: numa_run_kthread_on_core_def\<close>)
qed

section \<open>Choosing a core\<close>

lemma recent_scan_ok:
  assumes base: "base_ok nc A s" and cs: "\<forall>c \<in> set cs. c < nc"
  shows "\<exists>r. recent_scan nc s p sub cs = Some r \<and> (\<forall>c. r = Some c \<longrightarrow> c < nc \<and> can_take s p c)"
  using cs by (induction cs) (use base in \<open>auto simp: base_ok_def core_at_def\<close>)

lemma numa_sibling_scan_ok:
  assumes "base_ok nc A s" "\<forall>c \<in> set cs. c < nc"
  shows "\<exists>r. numa_sibling_scan nc s p cs = Some r \<and> (\<forall>c. r = Some c \<longrightarrow> c < nc \<and> can_take s p c)"
  using assms(2) by (induction cs) (use assms(1) in \<open>auto simp: base_ok_def core_at_def\<close>)

lemma numa_subset_ok:
  assumes ok: "numa_ok nn nc A I s" and p: "p \<in> A"
  shows "\<exists>c. numa_choose_core_in_subset nc p sub s = Some c \<and> (c \<noteq> nc \<longrightarrow> c < nc \<and> can_take s p c)"
proof -
  have lo: "ledger_ok nc A I s" "base_ok nc A s" "\<forall>c \<in> set (recent_cores (pdata s p)). c < nc"
    using ok p by (auto simp: numa_ok_def places_ok_def ledger_ok_def)
  obtain r where r: "recent_scan nc s p sub (recent_cores (pdata s p)) = Some r" "\<And>c. r = Some c \<Longrightarrow> c < nc \<and> can_take s p c"
    using recent_scan_ok [OF lo(2,3)] by blast
  let ?i = "bitmap_find_next_set (bitmap_and (\<lambda>_. 0) (idle_cores s) sub nc) nc 0"
  have i: "?i = nc \<or> ?i < nc \<and> can_take s p ?i"
    using first_idle [OF lo(1), of "bitmap_and (\<lambda>_. 0) (idle_cores s) sub nc" p] by auto
  let ?f = "find (preemptible_core s p) (positions_set sub nc 0)"
  have f: "\<And>c. ?f = Some c \<Longrightarrow> c < nc \<and> can_take s p c"
    using preemptible_can_take by (auto simp: find_Some_iff positions_set_eq dest!: nth_mem)
  show ?thesis using r i f
    by (cases r; cases ?f) (auto simp: numa_choose_core_in_subset_def Let_def)
qed

lemma numa_choose_core_ok:
  assumes ok: "numa_ok nn nc A I s" and p: "p \<in> A"
  shows "\<exists>c. numa_choose_core nn nc nodes noht p s = Some c \<and> (c \<noteq> nc \<longrightarrow> c < nc \<and> can_take s p c)"
proof -
  have base: "base_ok nc A s" "\<forall>c \<in> set (sched_cores_tbl s). c < nc" "preferred_sock (pdata s p) < nn"
    using ok p by (auto simp: numa_ok_def places_ok_def ledger_ok_def base_ok_def)
  have "\<exists>r. (if \<not> noht then numa_sibling_scan nc s p (sched_cores_tbl s) else Some None) = Some r \<and>
      (\<forall>c. r = Some c \<longrightarrow> c < nc \<and> can_take s p c)"
    using numa_sibling_scan_ok [OF base(1,2)] by auto
  then obtain r where r: "(if \<not> noht then numa_sibling_scan nc s p (sched_cores_tbl s) else Some None) = Some r"
    "\<And>c. r = Some c \<Longrightarrow> c < nc \<and> can_take s p c" by blast
  obtain a where a: "numa_choose_core_in_subset nc p
      (bitmap_and (\<lambda>_. 0) (sched_allowed_cores s) (socket_cores s (preferred_sock (pdata s p))) nc) s = Some a"
    "a \<noteq> nc \<Longrightarrow> a < nc \<and> can_take s p a" using numa_subset_ok [OF ok p] by blast
  obtain b where b: "numa_choose_core_in_subset nc p (sched_allowed_cores s) s = Some b" "b \<noteq> nc \<Longrightarrow> b < nc \<and> can_take s p b"
    using numa_subset_ok [OF ok p] by blast
  have "numa_choose_core nn nc nodes noht p s =
      (case r of Some c \<Rightarrow> Some c | None \<Rightarrow> if a \<noteq> nc then Some a else if 1 < nodes then Some b else Some nc)"
    using base(3) by (simp add: numa_choose_core_def r(1) a(1) b(1) split: option.split)
  with r(2) a(2) b(2) show ?thesis by (cases r) auto
qed

lemma numa_add_ok:
  assumes ok: "numa_ok nn nc A {} s" and p: "p \<in> A"
  shows "\<exists>r s'. numa_add_kthread nn nc nodes noht p s = Some (r, s') \<and> numa_ok nn nc A {} s' \<and> clients s' = clients s"
proof -
  obtain c where c: "numa_choose_core nn nc nodes noht p s = Some c" using numa_choose_core_ok [OF ok p] by blast
  obtain r s' where "numa_run_kthread_on_core nc p c s = Some (r, s')" "numa_ok nn nc A {} s'" "clients s' = clients s"
    using numa_run_ok [OF ok p, of c] by (simp only: empty_Diff if_cancel) blast
  with c ok show ?thesis
    by (cases "threads_max (pdata s p) \<le> threads_active (pdata s p)"; cases "c = nc") (auto simp: numa_add_kthread_def)
qed

lemma numa_mark:
  assumes "numa_ok nn nc A I s"
  shows "p \<in> A \<Longrightarrow> numa_ok nn nc A I (simple_mark_congested p s)" "numa_ok nn nc A I (simple_unmark_congested p s)"
proof -
  have lo: "ledger_ok nc A I s" using assms by (simp add: numa_ok_def)
  show "p \<in> A \<Longrightarrow> numa_ok nn nc A I (simple_mark_congested p s)"
    by (rule numa_places [OF assms ledger_mark [OF lo]]) (auto simp: simple_mark_congested_def)
  show "numa_ok nn nc A I (simple_unmark_congested p s)"
    by (rule numa_places [OF assms ledger_unmark [OF lo]]) (auto simp: simple_unmark_congested_def)
qed

lemma mark_clients [simp]: "clients (simple_mark_congested p s) = clients s"
  by (simp add: simple_mark_congested_def)

lemma numa_notify_ok:
  assumes ok: "numa_ok nn nc A {} s" and p: "p \<in> A"
  shows "\<exists>s'. numa_notify_congested nn nc nodes noht p busy delay parked s = Some s' \<and> numa_ok nn nc A {} s' \<and> clients s' = clients s"
proof -
  obtain r s2 where r: "numa_add_kthread nn nc nodes noht p s = Some (r, s2)" "numa_ok nn nc A {} s2" "clients s2 = clients s"
    using numa_add_ok [OF ok p] by blast
  define c where "c \<longleftrightarrow> (if qdelay_us (pdata s p) = 0 then busy else qdelay_us (pdata s p) \<le> delay) \<or> parked"
  let ?w = "s\<lparr>pdata := (pdata s)(p := (pdata s p)\<lparr>waking := False\<rparr>)\<rparr>"
  have eq: "numa_notify_congested nn nc nodes noht p busy delay parked s =
      (if waking (pdata s p) then Some ?w else if \<not> c then Some (simple_unmark_congested p s)
       else if is_congested (pdata s p) then Some s else if r = Ok then Some s2 else Some (simple_mark_congested p s2))"
    by (simp only: numa_notify_congested_def Let_def r(1) bind.bind_lunit prod.case numa_shared flip: c_def)
  have "ledger_ok nc A {} ?w" by (rule ledger_data) (use ok in \<open>simp_all add: numa_ok_def\<close>)
  then have "numa_ok nn nc A {} ?w" by (rule numa_places [OF ok]) simp_all
  then show ?thesis unfolding eq using r numa_mark(2) [OF ok, of p] numa_mark(1) [OF r(2) p] ok by simp
qed

section \<open>Cores that go idle\<close>

lemma numa_choose_kthread_ok:
  assumes ok: "ledger_ok nc A I s" and core: "core < nc"
  shows "\<exists>r. numa_choose_kthread nc core s = Some r \<and> (\<forall>p. r = Some p \<longrightarrow> p \<in> A)"
proof -
  have base: "base_ok nc A s" using ok by (simp add: ledger_ok_def)
  have "sched_siblings s core < nc" using base core by (simp add: base_ok_def)
  then have "set (local_procs s core (sched_siblings s core)) \<subseteq> A" by (rule local_procs_known [OF ok core])
  moreover have "set (congested_procs s) \<subseteq> A" using ok by (auto simp: ledger_ok_def waiting_ok_def)
  ultimately show ?thesis using sibling_ok [OF base core]
    by (auto simp: numa_choose_kthread_def find_Some_iff dest: nth_mem split: option.splits list.splits)
qed

lemma numa_poll_core_ok:
  assumes ok: "numa_ok nn nc A I s" and core: "core < nc"
  shows "\<exists>s'. numa_poll_core nc core s = Some s' \<and> numa_ok nn nc A (I - {core}) s' \<and> clients s' = clients s"
proof -
  define s1 where "s1 = (case cores s core of None \<Rightarrow> s | Some p \<Rightarrow> numa_unmark_congested p s)"
  define s2 where "s2 = numa_cleanup_core core s1"
  have "numa_ok nn nc A I s1" "clients s1 = clients s" using ok numa_mark(2) by (auto simp: s1_def split: option.splits)
  then have ok2: "numa_ok nn nc A (I - {core}) s2" "cores s2 core = None" "clients s2 = clients s"
    using numa_cleanup [of nn nc A I s1 core] core by (simp_all add: s2_def)
  have lo: "ledger_ok nc A (I - {core}) s2" using ok2(1) by (simp add: numa_ok_def)
  obtain r where r: "numa_choose_kthread nc core s2 = Some r" "\<And>p. r = Some p \<Longrightarrow> p \<in> A" using numa_choose_kthread_ok [OF lo core] by blast
  let ?i = "s2\<lparr>idle_cores := bitmap_set (idle_cores s2) core\<rparr>"
  have idle: "numa_ok nn nc A (I - {core}) ?i" by (rule numa_places [OF ok2(1) ledger_idle [OF lo ok2(2)]]) simp_all
  have eq: "numa_poll_core nc core s = (case r of None \<Rightarrow> Some ?i
      | Some p \<Rightarrow> do { (r, s) \<leftarrow> numa_run_kthread_on_core nc p core s2;
          if r \<noteq> Ok then Some (numa_mark_congested p (s\<lparr>idle_cores := bitmap_set (idle_cores s) core\<rparr>)) else Some s })"
    by (simp only: numa_poll_core_def Let_def r(1) bind.bind_lunit flip: s1_def s2_def)
  show ?thesis
  proof (cases r)
    case None
    then show ?thesis using idle ok2(3) by (simp add: eq)
  next
    case (Some p)
    obtain r' s3 where r': "numa_run_kthread_on_core nc p core s2 = Some (r', s3)" "numa_ok nn nc A (I - {core}) s3"
      "clients s3 = clients s2" "r' \<noteq> Ok \<longrightarrow> s3 = s2"
      using numa_run_ok [OF ok2(1) r(2) [OF Some], of core] by (simp only: Diff_idemp if_cancel) blast
    show ?thesis
    proof (cases "r' = Ok")
      case True
      then show ?thesis using r' ok2(3) Some by (simp add: eq)
    next
      case False
      then show ?thesis using r' ok2(3) Some numa_mark(1) [OF idle r(2) [OF Some]] by (simp add: eq)
    qed
  qed
qed

lemma numa_poll_cores_ok:
  assumes "numa_ok nn nc A I s" "\<forall>c \<in> set cs. c < nc" "I \<subseteq> set cs"
  shows "\<exists>s'. over_clients (numa_poll_core nc) cs s = Some s' \<and> numa_ok nn nc A {} s' \<and> clients s' = clients s"
  using assms
proof (induction cs arbitrary: I s)
  case (Cons c cs)
  obtain s1 where s1: "numa_poll_core nc c s = Some s1" "numa_ok nn nc A (I - {c}) s1" "clients s1 = clients s"
    using numa_poll_core_ok [OF Cons(2), of c] Cons(3) by auto
  with Cons(1) [OF s1(2)] Cons(3,4) show ?case by auto
qed simp

lemma numa_poll_ok:
  assumes ok: "numa_ok nn nc A {k. bitmap_test idle k} s" and cnt: "cnt = 0 \<longrightarrow> (\<forall>k. \<not> bitmap_test idle k)"
    and tbl: "\<forall>k. bitmap_test idle k \<longrightarrow> k \<in> set (sched_cores_tbl s)"
  shows "\<exists>s'. numa_sched_poll nc now cnt idle s = Some s' \<and> numa_ok nn nc A {} s' \<and> clients s' = clients s"
proof (cases "cnt = 0")
  case True
  then show ?thesis using ok cnt by (simp add: numa_sched_poll_def)
next
  case False
  have "k < nc" if "bitmap_test idle k" for k using ok tbl that by (auto simp: numa_ok_def ledger_ok_def base_ok_def)
  with numa_poll_cores_ok [OF ok, of "positions_set idle nc 0"] False show ?thesis
    by (auto simp: numa_sched_poll_def positions_set_eq)
qed

section \<open>The policy in the main loop\<close>

lemma numa_attach_ok:
  assumes ok: "numa_ok nn nc A {} s" and p: "p \<notin> A" "0 < slack (procs s p)" and sock: "unat (preferred_socket (sched_cfg (procs s p))) < nn"
  shows "\<exists>r s'. numa_attach mem p s = Some (r, s') \<and> numa_ok nn nc (if r = Ok then insert p A else A) {} s' \<and>
    clients s' = clients s \<and> procs s' = procs s"
proof (cases mem)
  case True
  define d where "d = \<lparr>is_congested = False, waking = False, qdelay_us = cfg_qdelay_us (sched_cfg (procs s p)),
    threads_guaranteed = sint (guaranteed_cores (sched_cfg (procs s p))), threads_max = sint (max_cores (sched_cfg (procs s p))),
    threads_active = 0, preferred_sock = unat (preferred_socket (sched_cfg (procs s p))),
    recent_cores = replicate NRECENT (case sched_cores_tbl s of [] \<Rightarrow> 0 | c # _ \<Rightarrow> c)\<rparr>"
  have lo: "ledger_ok nc A {} s" "\<forall>c \<in> set (sched_cores_tbl s). c < nc" "0 < nc"
    using ok by (auto simp: numa_ok_def ledger_ok_def base_ok_def)
  have "ledger_ok nc (insert p A) {} (s\<lparr>pdata := (pdata s)(p := d)\<rparr>)" by (rule ledger_attach [OF lo(1) p]) (simp_all add: d_def)
  moreover have "places_ok nn nc d" using lo(2,3) sock by (auto simp: d_def places_ok_def split: list.splits)
  ultimately have "numa_ok nn nc (insert p A) {} (s\<lparr>pdata := (pdata s)(p := d)\<rparr>)" using ok by (auto simp: numa_ok_def)
  with True show ?thesis by (simp add: numa_attach_def Let_def flip: d_def)
qed (use ok in \<open>simp add: numa_attach_def\<close>)

lemma numa_detach_ok:
  assumes ok: "numa_ok nn nc A {} s"
  shows "\<exists>s'. numa_detach nc p s = Some s' \<and> numa_ok nn nc (A - {p}) {} s' \<and> clients s' = clients s \<and> procs s' = procs s"
proof -
  obtain s' where s': "simple_detach nc p s = Some s'" "ledger_ok nc (A - {p}) {} s'" "clients s' = clients s" "procs s' = procs s"
    using ledger_detach [of nc A "{}" s p] ok by (auto simp: numa_ok_def)
  have "numa_ok nn nc (A - {p}) {} s'"
    by (rule numa_places [OF ok s'(2)]) (use s'(1) in \<open>auto simp: simple_detach_def simple_unmark_congested_def Let_def\<close>)
  with s' show ?thesis by simp
qed

lemma numa_frame:
  assumes "numa_ok nn nc A I s" "sched_inv s'" "core_frame s s'" "I \<subseteq> I'"
    "\<And>k. k \<notin> I' \<Longrightarrow> sched_get_thread_on_core k s' = sched_get_thread_on_core k s"
  shows "numa_ok nn nc A I' s'"
proof -
  have "ledger_ok nc A I' s'" using assms by (auto simp: numa_ok_def intro: ledger_frame)
  moreover have "pdata s' = pdata s" using assms(3) by (cases s, cases s', simp add: core_frame_def)
  ultimately show ?thesis using assms(1) by (simp add: numa_ok_def)
qed

interpretation numa: sched_policy nc "numa_ops nn nc nodes noht mem" "\<lambda>q. unat (preferred_socket (sched_cfg q)) < nn" "numa_ok nn nc"
  for nn nc nodes :: nat and noht mem :: bool
proof unfold_locales
  fix A I :: "nat set" and s :: numa_sys
  show "numa_ok nn nc A I s \<Longrightarrow> sched_inv s \<and> (\<forall>c \<in> set (sched_cores_tbl s). bitmap_test (sched_allowed_cores s) c)"
    by (simp add: numa_ok_def ledger_ok_def base_ok_def)
  show "numa_ok nn nc A I s \<Longrightarrow> p \<in> A \<Longrightarrow> 0 < slack (procs s p)" for p by (simp add: numa_ok_def ledger_ok_def base_ok_def)
  show "numa_ok nn nc A I s \<Longrightarrow> p \<notin> A \<Longrightarrow> sched_inv (upd_proc p q s) \<Longrightarrow> numa_ok nn nc A I (upd_proc p q s)" for p q
    by (simp add: numa_ok_def ledger_new)
  show "numa_ok nn nc A I s \<Longrightarrow> numa_ok nn nc A I (s\<lparr>clients := cl, released := R\<rparr>)" for cl R by (simp add: numa_ok_def ledger_clients)
  show "numa_ok nn nc A {} s \<Longrightarrow> p \<notin> A \<Longrightarrow> 0 < slack (procs s p) \<Longrightarrow> unat (preferred_socket (sched_cfg (procs s p))) < nn \<Longrightarrow>
      \<exists>r s'. op_attach (numa_ops nn nc nodes noht mem) p s = Some (r, s') \<and> numa_ok nn nc (if r = Ok then insert p A else A) {} s' \<and>
        clients s' = clients s \<and> procs s' = procs s" for p
    unfolding numa_ops_def sched_ops.simps by (rule numa_attach_ok)
  show "numa_ok nn nc A {} s \<Longrightarrow> p \<in> A \<Longrightarrow> \<exists>s'. op_detach (numa_ops nn nc nodes noht mem) p s = Some s' \<and>
      numa_ok nn nc (A - {p}) {} s' \<and> clients s' = clients s \<and> procs s' = procs s" for p
    unfolding numa_ops_def sched_ops.simps by (rule numa_detach_ok)
  show "numa_ok nn nc A {} s \<Longrightarrow> p \<in> A \<Longrightarrow> \<exists>r s'. notify_core_needed (numa_ops nn nc nodes noht mem) p s = Some (r, s') \<and>
      numa_ok nn nc A {} s' \<and> clients s' = clients s" for p
    unfolding numa_ops_def sched_ops.simps numa_notify_core_needed_def by (rule numa_add_ok)
qed (simp_all add: numa_ops_def numa_poll_ok numa_notify_ok, rule numa_frame)

text \<open>The start of the policy frees the allowed cores and keeps the books.\<close>

lemma numa_init_ok:
  assumes "base_ok nc {} s" "cores s = (\<lambda>_. None)" "hist s = (\<lambda>_. replicate NHIST None)" "congested_procs s = []" "0 < nc"
  shows "numa_ok nn nc {} {} (numa_init nc s)"
  using assms by (auto simp: numa_init_def numa_ok_def ledger_ok_def base_ok_def sched_inv_def owners_ok_def waiting_ok_def hist_ok_def agrees_def)


definition demo_numa :: numa_sys where
  "demo_numa = demo_ledger (\<lambda>_. \<lparr>is_congested = False, waking = False, qdelay_us = 10, threads_guaranteed = 1,
     threads_max = 2, threads_active = 1, preferred_sock = 0, recent_cores = [3, 3, 2, 2]\<rparr>) ()"


end
