(* ===== verification/Runq.thy ===== *)
theory Runq
  imports Iok_Delay "HOL-Library.Multiset"
begin

text \<open>
  The run queue of a kthread (\<^verbatim>\<open>runtime/sched.c\<close>, \<^verbatim>\<open>struct kthread\<close> of \<^verbatim>\<open>runtime/defs.h\<close>): a ring of
  user threads with 32-bit positions that wrap, and a list of the threads that did not fit. The
  counters and the age of the oldest thread are also published in \<^verbatim>\<open>q_ptrs\<close>, which the scheduler
  process reads. Threads are named by numbers; \<open>my_self\<close>, \<open>last_tsc\<close> and \<open>last_watchdog_tsc\<close> are the
  thread-local variables of the kthread. The statistics counters are not modelled.
\<close>

section \<open>State\<close>

record uth =
  th_ready :: bool
  th_running :: bool
  hard :: bool
  main_thread :: bool
  last_cpu :: nat
  run_start_tsc :: u64
  ready_tsc :: u64

record rt_q_ptrs = q_ptrs +
  qp_rcu_gen :: u64
  qp_run_start_tsc :: u64

datatype softirq = SI_iokernel | SI_directpath | SI_cxltp | SI_timer | SI_storage

record rkt =
  k_rq_head :: u32
  k_rq_tail :: u32
  rq_slots :: "nat \<Rightarrow> nat"
  rq_overflow :: "nat list"
  k_parked :: bool
  k_qp :: rt_q_ptrs
  k_rcu_gen :: u32
  curr_cpu :: nat
  si_busy :: "softirq \<Rightarrow> bool"
  si_thread :: "softirq \<Rightarrow> nat"
  k_qdelay :: u64
  my_self :: "nat option"
  last_tsc :: u64
  last_watchdog_tsc :: u64

definition RUNTIME_RQ_SIZE :: nat where "RUNTIME_RQ_SIZE = 32"

definition slot :: "u32 \<Rightarrow> nat" where
  "slot i = unat i mod RUNTIME_RQ_SIZE"

abbreviation ring_len :: "rkt \<Rightarrow> nat" where
  "ring_len k \<equiv> unat (k_rq_head k - k_rq_tail k)"

section \<open>Operations on one queue\<close>

text \<open>Store at the head, as in \<^verbatim>\<open>drain_overflow\<close>, \<^verbatim>\<open>merge_runqueues\<close> and \<^verbatim>\<open>thread_ready_locked\<close>.\<close>

definition ring_put :: "nat \<Rightarrow> rkt \<Rightarrow> rkt" where
  "ring_put th k = k\<lparr>rq_slots := (rq_slots k)(slot (k_rq_head k) := th), k_rq_head := k_rq_head k + 1\<rparr>"

function drain_overflow :: "rkt \<Rightarrow> rkt" where
  "drain_overflow k =
     (if ring_len k < RUNTIME_RQ_SIZE
      then (case rq_overflow k of [] \<Rightarrow> k | th # ov \<Rightarrow> drain_overflow (ring_put th (k\<lparr>rq_overflow := ov\<rparr>)))
      else k)"
  by pat_completeness auto
termination by (relation "measure (\<lambda>k. length (rq_overflow k))") (auto simp: ring_put_def)

declare drain_overflow.simps [simp del]

definition update_oldest_tsc :: "(nat \<Rightarrow> uth) \<Rightarrow> rkt \<Rightarrow> rkt" where
  "update_oldest_tsc ths k =
     (if k_rq_head k \<noteq> k_rq_tail k
      then k\<lparr>k_qp := (k_qp k)\<lparr>oldest_tsc := ready_tsc (ths (rq_slots k (slot (k_rq_tail k))))\<rparr>\<rparr>
      else k)"

text \<open>The loop of \<^verbatim>\<open>drain_threads\<close>: the threads taken, the tail and the overflow list after it.\<close>

fun drain_loop :: "nat \<Rightarrow> u32 \<Rightarrow> u32 \<Rightarrow> (nat \<Rightarrow> nat) \<Rightarrow> nat list \<Rightarrow> nat list \<times> u32 \<times> nat list" where
  "drain_loop 0 h t sl ov = ([], t, ov)"
| "drain_loop (Suc n) h t sl ov =
     (if wraps_lt t h
      then let (l, t', ov') = drain_loop n h (t + 1) sl ov in (sl (slot t) # l, t', ov')
      else case ov of
          [] \<Rightarrow> ([], t, [])
        | th # ov \<Rightarrow> let (l, t', ov') = drain_loop n h t sl ov in (th # l, t', ov'))"

definition drain_threads :: "rkt \<Rightarrow> u32 \<Rightarrow> bool \<Rightarrow> nat list \<times> rkt" where
  "drain_threads k nr update_tail =
     (let (l, t, ov) = drain_loop (unat nr) (k_rq_head k) (k_rq_tail k) (rq_slots k) (rq_overflow k);
          k = k\<lparr>rq_overflow := ov\<rparr>
      in (l, if update_tail
             then k\<lparr>k_rq_tail := t, k_qp := (k_qp k)\<lparr>rq_tail := rq_tail (k_qp k) + of_nat (length l)\<rparr>\<rparr>
             else k))"

text \<open>The merge of two queues sorted by the time they became ready; no thread left is a NULL dereference.\<close>

fun merge_loop :: "(nat \<Rightarrow> uth) \<Rightarrow> nat \<Rightarrow> nat list \<Rightarrow> nat list \<Rightarrow> rkt \<Rightarrow> rkt option" where
  "merge_loop ths 0 ls rs k = Some k"
| "merge_loop ths (Suc n) ls rs k =
     (let put = (\<lambda>th. if RUNTIME_RQ_SIZE \<le> ring_len k then k\<lparr>rq_overflow := rq_overflow k @ [th]\<rparr> else ring_put th k)
      in case rs of
          [] \<Rightarrow> (case ls of [] \<Rightarrow> None | l # ls' \<Rightarrow> merge_loop ths n ls' rs (put l))
        | r # rs' \<Rightarrow>
            (case ls of
               [] \<Rightarrow> merge_loop ths n ls rs' (put r)
             | l # ls' \<Rightarrow>
                 if ready_tsc (ths r) < ready_tsc (ths l) then merge_loop ths n ls rs' (put r)
                 else merge_loop ths n ls' rs (put l)))"

definition merge_runqueues :: "(nat \<Rightarrow> uth) \<Rightarrow> rkt \<Rightarrow> u32 \<Rightarrow> rkt \<Rightarrow> u32 \<Rightarrow> (rkt \<times> rkt) option" where
  "merge_runqueues ths l lsize r rsize =
     do {
       let (r_ths, r) = drain_threads r rsize True;
       let r = update_oldest_tsc ths r;
       let (l_ths, l) = drain_threads l lsize False;
       let l = l\<lparr>k_rq_head := 0, k_rq_tail := 0\<rparr>;
       l \<leftarrow> merge_loop ths (length l_ths + length r_ths) l_ths r_ths l;
       let l = l\<lparr>k_qp := (k_qp l)\<lparr>rq_head := rq_head (k_qp l) + of_nat (length r_ths)\<rparr>\<rparr>;
       Some (update_oldest_tsc ths l, r)
     }"

text \<open>The next thread: the end of \<^verbatim>\<open>schedule\<close> and the fast path of \<^verbatim>\<open>enter_schedule\<close>.\<close>

definition rq_pop :: "(nat \<Rightarrow> uth) \<Rightarrow> rkt \<Rightarrow> nat \<times> rkt" where
  "rq_pop ths k =
     (let th = rq_slots k (slot (k_rq_tail k));
          k = k\<lparr>k_rq_tail := k_rq_tail k + 1\<rparr>;
          k = k\<lparr>k_qp := (k_qp k)\<lparr>rq_tail := rq_tail (k_qp k) + 1\<rparr>\<rparr>;
          k = (if rq_overflow k \<noteq> [] then drain_overflow k else k)
      in (th, update_oldest_tsc ths k))"

text \<open>At the tail, with the kthread's lock.\<close>

definition rq_ready_locked :: "(nat \<Rightarrow> uth) \<Rightarrow> nat \<Rightarrow> rkt \<Rightarrow> rkt" where
  "rq_ready_locked ths th k =
     (if RUNTIME_RQ_SIZE \<le> ring_len k
      then k\<lparr>rq_overflow := rq_overflow k @ [th], k_qp := (k_qp k)\<lparr>rq_head := rq_head (k_qp k) + 1\<rparr>\<rparr>
      else let k = ring_put th k;
               k = (if k_rq_head k - k_rq_tail k = 1
                    then k\<lparr>k_qp := (k_qp k)\<lparr>oldest_tsc := ready_tsc (ths th)\<rparr>\<rparr> else k)
           in k\<lparr>k_qp := (k_qp k)\<lparr>rq_head := rq_head (k_qp k) + 1\<rparr>\<rparr>)"

text \<open>
  At the tail, without the lock: the thread is stored and then counted. \<open>t\<close> is the tail it read, which
  thieves may have moved since; the result says whether the thread went into the ring.
\<close>

definition rq_publish :: "nat \<Rightarrow> u32 \<Rightarrow> rkt \<Rightarrow> bool \<times> rkt" where
  "rq_publish th t k =
     (if RUNTIME_RQ_SIZE \<le> unat (k_rq_head k - t) then (False, k\<lparr>rq_overflow := rq_overflow k @ [th]\<rparr>)
      else (True, ring_put th k))"

definition rq_count :: "(nat \<Rightarrow> uth) \<Rightarrow> nat \<Rightarrow> bool \<Rightarrow> rkt \<Rightarrow> rkt" where
  "rq_count ths th in_ring k =
     (let k = (if in_ring \<and> k_rq_head k - k_rq_tail k = 1
               then k\<lparr>k_qp := (k_qp k)\<lparr>oldest_tsc := ready_tsc (ths th)\<rparr>\<rparr> else k)
      in k\<lparr>k_qp := (k_qp k)\<lparr>rq_head := rq_head (k_qp k) + 1\<rparr>\<rparr>)"

text \<open>At the head: the newest thread of a full ring moves to the front of the overflow list.\<close>

definition ring_cut_in :: "nat \<Rightarrow> rkt \<Rightarrow> rkt" where
  "ring_cut_in th k =
     (let k = k\<lparr>k_rq_tail := k_rq_tail k - 1\<rparr>;
          oldest = rq_slots k (slot (k_rq_tail k));
          k = k\<lparr>rq_slots := (rq_slots k)(slot (k_rq_tail k) := th)\<rparr>
      in if RUNTIME_RQ_SIZE < ring_len k
         then k\<lparr>rq_overflow := oldest # rq_overflow k, k_rq_head := k_rq_head k - 1\<rparr>
         else k)"

section \<open>The queue as a list\<close>

definition ring_at :: "(nat \<Rightarrow> nat) \<Rightarrow> u32 \<Rightarrow> nat \<Rightarrow> nat list" where
  "ring_at sl t n = map (\<lambda>i. sl (slot (t + of_nat i))) [0..<n]"

definition runq :: "rkt \<Rightarrow> nat list" where
  "runq k = ring_at (rq_slots k) (k_rq_tail k) (ring_len k) @ rq_overflow k"

text \<open>The ring is not overfull, and the published counters count all threads but \<open>d\<close>.\<close>

definition rq_ok :: "nat \<Rightarrow> rkt \<Rightarrow> bool" where
  "rq_ok d k \<longleftrightarrow> ring_len k \<le> RUNTIME_RQ_SIZE \<and> d \<le> length (runq k) \<and>
     rq_head (k_qp k) - rq_tail (k_qp k) + of_nat d = of_nat (length (runq k))"

text \<open>No thread waits outside a ring that has room.\<close>

definition packed :: "rkt \<Rightarrow> bool" where
  "packed k \<longleftrightarrow> (rq_overflow k \<noteq> [] \<longrightarrow> ring_len k = RUNTIME_RQ_SIZE)"

lemma length_ring_at [simp]: "length (ring_at sl t n) = n"
  by (simp add: ring_at_def)

lemma ring_at_0 [simp]: "ring_at sl t 0 = []"
  by (simp add: ring_at_def)

lemma slot_add: "slot (t + of_nat i) = (unat t + i) mod 32"
proof -
  have "unat (t + of_nat i) = (unat t + i) mod 4294967296"
    by (simp add: unat_word_ariths unat_of_nat mod_add_right_eq)
  then show ?thesis by (simp add: slot_def RUNTIME_RQ_SIZE_def mod_mod_cancel)
qed

lemma rq_slot_inj:
  assumes "slot (t + of_nat i) = slot (t + of_nat j)" "i < 32" "j < 32"
  shows "i = j"
proof -
  have m: "(unat t + i) mod 32 = (unat t + j) mod 32" using assms(1) by (simp add: slot_add)
  have "32 dvd i - j" if "j \<le> i" using m that by (simp add: mod_eq_dvd_iff_nat)
  moreover have "32 dvd j - i" if "i \<le> j" using m [symmetric] that by (simp add: mod_eq_dvd_iff_nat)
  ultimately show ?thesis using assms(2,3) by (cases "j \<le> i") (auto dest: dvd_imp_le)
qed

lemma ring_at_Suc: "ring_at sl t (Suc n) = ring_at sl t n @ [sl (slot (t + of_nat n))]"
  by (simp add: ring_at_def)

lemma ring_at_Cons: "ring_at sl t (Suc n) = sl (slot t) # ring_at sl (t + 1) n"
proof -
  have "[0..<Suc n] = 0 # map Suc [0..<n]" by (simp add: upt_conv_Cons map_Suc_upt del: upt_Suc)
  then show ?thesis by (simp add: ring_at_def comp_def ac_simps del: upt_Suc)
qed

lemma ring_at_upd:
  assumes "\<And>i. i < n \<Longrightarrow> slot (t + of_nat i) \<noteq> j"
  shows "ring_at (sl(j := th)) t n = ring_at sl t n"
  using assms by (auto simp: ring_at_def)

lemma ring_at_snoc:
  assumes "n < 32"
  shows "ring_at (sl(slot (t + of_nat n) := th)) t (Suc n) = ring_at sl t n @ [th]"
  unfolding ring_at_Suc by (subst ring_at_upd) (use assms rq_slot_inj in \<open>fastforce+\<close>)

lemma ring_at_cut:
  assumes "n < 32"
  shows "ring_at (sl(slot (t - 1) := th)) (t - 1) (Suc n) = th # ring_at sl t n"
proof -
  have "slot (t + of_nat i) \<noteq> slot (t - 1)" if "i < n" for i
    using rq_slot_inj [of "t - 1" "Suc i" 0] assms that by (auto simp: ac_simps)
  then show ?thesis unfolding ring_at_Cons by (simp add: ring_at_upd)
qed

section \<open>Each operation on the list\<close>

lemma word_Suc_diff:
  fixes h t :: u32
  assumes "unat (h - t) < 32"
  shows "unat (h + 1 - t) = Suc (unat (h - t))" "unat (h - (t - 1)) = Suc (unat (h - t))"
proof -
  have eq: "h + 1 - t = (h - t) + 1" "h - (t - 1) = (h - t) + 1" by (simp_all add: algebra_simps)
  have "unat ((h - t) + 1) = Suc (unat (h - t))" using assms by (subst unat_word_ariths) simp
  then show "unat (h + 1 - t) = Suc (unat (h - t))" "unat (h - (t - 1)) = Suc (unat (h - t))" by (simp_all only: eq)
qed

lemma ring_put_runq:
  assumes "ring_len k < 32"
  shows "ring_len (ring_put th k) = Suc (ring_len k)" "rq_overflow (ring_put th k) = rq_overflow k" "k_qp (ring_put th k) = k_qp k"
    "runq (ring_put th k) = ring_at (rq_slots k) (k_rq_tail k) (ring_len k) @ th # rq_overflow k"
proof -
  show l: "ring_len (ring_put th k) = Suc (ring_len k)" using word_Suc_diff(1) [OF assms] by (simp add: ring_put_def)
  have "k_rq_head k = k_rq_tail k + of_nat (ring_len k)" by simp
  with ring_at_snoc [OF assms, of "rq_slots k" "k_rq_tail k" th] l
  show "runq (ring_put th k) = ring_at (rq_slots k) (k_rq_tail k) (ring_len k) @ th # rq_overflow k"
    by (simp add: runq_def ring_put_def)
qed (simp_all add: ring_put_def)

lemma runq_qp: "runq (k\<lparr>k_qp := q\<rparr>) = runq k"
  by (simp add: runq_def)

lemma oldest_runq [simp]:
  "runq (update_oldest_tsc ths k) = runq k" "k_rq_head (update_oldest_tsc ths k) = k_rq_head k" "k_rq_tail (update_oldest_tsc ths k) = k_rq_tail k"
  "rq_overflow (update_oldest_tsc ths k) = rq_overflow k"
  "rq_head (k_qp (update_oldest_tsc ths k)) = rq_head (k_qp k)" "rq_tail (k_qp (update_oldest_tsc ths k)) = rq_tail (k_qp k)"
  by (simp_all add: update_oldest_tsc_def runq_def)

lemma drain_overflow_runq:
  assumes "ring_len k \<le> 32"
  shows "runq (drain_overflow k) = runq k \<and> packed (drain_overflow k) \<and> ring_len (drain_overflow k) \<le> 32 \<and>
    ring_len k \<le> ring_len (drain_overflow k) \<and> k_qp (drain_overflow k) = k_qp k"
  using assms
proof (induction k rule: drain_overflow.induct)
  case (1 k)
  show ?case
  proof (cases "ring_len k < 32 \<and> rq_overflow k \<noteq> []")
    case False
    then have "drain_overflow k = k" by (subst drain_overflow.simps) (auto simp: RUNTIME_RQ_SIZE_def split: list.split)
    with False 1(2) show ?thesis by (auto simp: packed_def RUNTIME_RQ_SIZE_def)
  next
    case True
    then obtain th ov where ov: "rq_overflow k = th # ov" by (auto simp: neq_Nil_conv)
    let ?k = "k\<lparr>rq_overflow := ov\<rparr>"
    have r: "ring_len (ring_put th ?k) = Suc (ring_len k)" "runq (ring_put th ?k) = runq k" "k_qp (ring_put th ?k) = k_qp k"
      using ring_put_runq [of ?k th] True ov by (simp_all add: runq_def)
    have "drain_overflow k = drain_overflow (ring_put th ?k)"
      using True ov by (subst drain_overflow.simps) (simp add: RUNTIME_RQ_SIZE_def)
    with 1(1) [OF _ ov] r True show ?thesis by (simp add: RUNTIME_RQ_SIZE_def)
  qed
qed

lemma word_pred_diff:
  fixes h t :: u32
  assumes "h \<noteq> t"
  shows "unat (h - t) = Suc (unat (h - (t + 1)))"
proof -
  have "unat (h - t) \<noteq> 0" using assms by (simp add: unat_eq_0)
  then have "unat ((h - t) - 1) = unat (h - t) - 1" by (subst unat_minus_one) (auto simp: assms)
  moreover have "(h - t) - 1 = h - (t + 1)" by (simp add: algebra_simps)
  ultimately show ?thesis using \<open>unat (h - t) \<noteq> 0\<close> by simp
qed

lemma rq_pop_runq:
  assumes "rq_ok 0 k" "0 < ring_len k" "rq_pop ths k = (th, k')"
  shows "runq k = th # runq k' \<and> rq_ok 0 k' \<and> packed k'"
proof -
  define k1 where "k1 = k\<lparr>k_rq_tail := k_rq_tail k + 1, k_qp := (k_qp k)\<lparr>rq_tail := rq_tail (k_qp k) + 1\<rparr>\<rparr>"
  define k2 where "k2 = (if rq_overflow k1 \<noteq> [] then drain_overflow k1 else k1)"
  have l: "ring_len k = Suc (ring_len k1)" using word_pred_diff [of "k_rq_head k" "k_rq_tail k"] assms(2) by (cases "k_rq_head k = k_rq_tail k") (simp_all add: k1_def)
  have k': "th = rq_slots k (slot (k_rq_tail k))" "k' = update_oldest_tsc ths k2"
    using assms(3) by (auto simp: rq_pop_def Let_def k1_def k2_def)
  have r: "runq k = rq_slots k (slot (k_rq_tail k)) # runq k1" unfolding runq_def l ring_at_Cons by (simp add: k1_def)
  have k2: "runq k2 = runq k1" "packed k2" "ring_len k2 \<le> 32" "k_qp k2 = k_qp k1"
    using drain_overflow_runq [of k1] assms(1) l by (auto simp: k2_def rq_ok_def RUNTIME_RQ_SIZE_def packed_def)
  have "rq_head (k_qp k1) - rq_tail (k_qp k1) = rq_head (k_qp k) - rq_tail (k_qp k) - 1" by (simp add: k1_def algebra_simps)
  also have "\<dots> = of_nat (length (runq k1))" using assms(1) r by (simp add: rq_ok_def)
  finally show ?thesis using k' r k2 by (simp add: rq_ok_def packed_def RUNTIME_RQ_SIZE_def)
qed

text \<open>A stale tail is behind the real one.\<close>

lemma rq_publish_runq:
  assumes "rq_ok d k" "ring_len k \<le> unat (k_rq_head k - t)" "rq_publish th t k = (b, k')"
  shows "mset (runq k') = add_mset th (mset (runq k))" "rq_ok (Suc d) k'" "k_qp k' = k_qp k"
    "packed k \<Longrightarrow> t = k_rq_tail k \<Longrightarrow> runq k' = runq k @ [th] \<and> packed k'"
proof -
  consider "32 \<le> unat (k_rq_head k - t)" "k' = k\<lparr>rq_overflow := rq_overflow k @ [th]\<rparr>" | "ring_len k < 32" "k' = ring_put th k"
    using assms by (auto simp: rq_publish_def RUNTIME_RQ_SIZE_def split: if_splits)
  note c = this
  have m: "mset (runq k') = add_mset th (mset (runq k)) \<and> ring_len k' \<le> 32 \<and> k_qp k' = k_qp k \<and>
    (packed k \<longrightarrow> t = k_rq_tail k \<longrightarrow> runq k' = runq k @ [th] \<and> packed k')"
  proof (cases rule: c)
    case 1
    then show ?thesis using assms(1) by (auto simp: runq_def rq_ok_def packed_def RUNTIME_RQ_SIZE_def)
  next
    case 2
    with ring_put_runq [OF 2(1), of th] show ?thesis by (auto simp: runq_def packed_def RUNTIME_RQ_SIZE_def)
  qed
  then show "mset (runq k') = add_mset th (mset (runq k))" "k_qp k' = k_qp k"
    "packed k \<Longrightarrow> t = k_rq_tail k \<Longrightarrow> runq k' = runq k @ [th] \<and> packed k'" by simp_all
  from m have "length (runq k') = Suc (length (runq k))" by (metis size_mset size_add_mset)
  with m assms(1) show "rq_ok (Suc d) k'" by (simp add: rq_ok_def RUNTIME_RQ_SIZE_def algebra_simps)
qed

lemma rq_count_runq:
  "runq (rq_count ths th b k) = runq k" "rq_ok (Suc d) k \<Longrightarrow> rq_ok d (rq_count ths th b k)"
  "packed (rq_count ths th b k) = packed k" "ring_len (rq_count ths th b k) = ring_len k"
proof -
  let ?q = "(if b \<and> k_rq_head k - k_rq_tail k = 1 then (k_qp k)\<lparr>oldest_tsc := ready_tsc (ths th)\<rparr> else k_qp k)\<lparr>rq_head := rq_head (k_qp k) + 1\<rparr>"
  have k: "rq_count ths th b k = k\<lparr>k_qp := ?q\<rparr>" by (simp add: rq_count_def Let_def)
  show "runq (rq_count ths th b k) = runq k" "packed (rq_count ths th b k) = packed k" "ring_len (rq_count ths th b k) = ring_len k"
    unfolding k by (simp_all add: runq_qp packed_def)
  show "rq_ok (Suc d) k \<Longrightarrow> rq_ok d (rq_count ths th b k)" unfolding k by (simp add: rq_ok_def runq_qp algebra_simps)
qed

lemma rq_ready_locked_eq:
  "rq_ready_locked ths th k = (let (b, k') = rq_publish th (k_rq_tail k) k in rq_count ths th b k')"
  by (simp add: rq_ready_locked_def rq_publish_def rq_count_def Let_def)

lemma cut_in_runq:
  assumes "ring_len k \<le> 32"
  shows "runq (ring_cut_in th k) = th # runq k \<and> ring_len (ring_cut_in th k) \<le> 32 \<and> 0 < ring_len (ring_cut_in th k) \<and> k_qp (ring_cut_in th k) = k_qp k \<and>
    (packed k \<longrightarrow> packed (ring_cut_in th k))"
proof (cases "ring_len k < 32")
  case True
  with word_Suc_diff(2) [OF True] show ?thesis
    by (simp add: ring_cut_in_def Let_def RUNTIME_RQ_SIZE_def runq_def ring_at_cut packed_def)
next
  case False
  with assms have f: "ring_len k = Suc 31" by simp
  have "k_rq_head k - (k_rq_tail k - 1) = (k_rq_head k - k_rq_tail k) + 1" by (simp add: algebra_simps)
  moreover have "of_nat (ring_len k) = k_rq_head k - k_rq_tail k" by simp
  then have "k_rq_head k - k_rq_tail k = 32" unfolding f by simp
  ultimately have h: "k_rq_head k - (k_rq_tail k - 1) = 33" "k_rq_head k - k_rq_tail k = 32" "k_rq_head k - 1 - (k_rq_tail k - 1) = 32" by simp_all
  have "k_rq_tail k - 1 = k_rq_tail k + of_nat 31 - of_nat 32" by simp
  then have s: "slot (k_rq_tail k - 1) = slot (k_rq_tail k + of_nat 31)" using slot_add [of "k_rq_tail k - 1" 32] slot_add [of "k_rq_tail k - 1" 0] by (simp add: add.commute)
  have "unat (k_rq_head k - (k_rq_tail k - 1)) = 33" unfolding h(1) by simp
  then show ?thesis
    using ring_at_cut [of 31 "rq_slots k" "k_rq_tail k" th] ring_at_Suc [of "rq_slots k" "k_rq_tail k" 31] h(2,3) s
    by (simp add: ring_cut_in_def Let_def RUNTIME_RQ_SIZE_def runq_def packed_def)
qed

lemma packed_ring: "packed k \<Longrightarrow> runq k \<noteq> [] \<Longrightarrow> 0 < ring_len k"
  by (cases "ring_len k") (auto simp: packed_def runq_def RUNTIME_RQ_SIZE_def)

section \<open>Stealing\<close>

lemma wraps_lt_ring:
  fixes h t :: u32
  assumes "unat (h - t) \<le> 32"
  shows "wraps_lt t h \<longleftrightarrow> h \<noteq> t"
proof (cases "h = t")
  case False
  define m where "m = unat (h - t)"
  have "m \<noteq> 0" "m \<le> 32" using False assms by (simp_all add: unat_eq_0 m_def)
  have "t - h = - (h - t)" by simp
  also have "\<dots> = word_of_int (- int m)" by (simp add: m_def)
  finally have "sint (t - h) = signed_take_bit 31 (- int m)" by (simp only: sint_sbintrunc') simp
  also have "\<dots> = - int m" using \<open>m \<le> 32\<close> by (simp add: signed_take_bit_int_eq_self)
  finally show ?thesis using \<open>m \<noteq> 0\<close> False by (simp add: wraps_lt_def)
qed (simp add: wraps_lt_def)

lemma drain_loop_take:
  assumes "unat (h - t) \<le> 32"
  shows "drain_loop n h t sl ov =
    (take n (ring_at sl t (unat (h - t)) @ ov), t + of_nat (min n (unat (h - t))), drop (n - unat (h - t)) ov)"
  using assms
proof (induction n arbitrary: t ov)
  case (Suc n)
  show ?case
  proof (cases "h = t")
    case True
    then show ?thesis using Suc(1) [of t "tl ov"] by (cases ov) (simp_all add: wraps_lt_def)
  next
    case False
    note l = word_pred_diff [OF False]
    have "unat (h - (t + 1)) \<le> 32" using Suc(2) l by simp
    from Suc(1) [OF this, of ov] show ?thesis
      using wraps_lt_ring [OF Suc(2)] False unfolding l ring_at_Cons by (simp add: algebra_simps)
  qed
qed simp

lemma ring_at_drop: "j \<le> m \<Longrightarrow> ring_at sl (t + of_nat j) (m - j) = drop j (ring_at sl t m)"
  by (intro nth_equalityI) (simp_all add: ring_at_def ac_simps nth_append less_diff_conv)

lemma word_diff_of_nat:
  fixes h t :: u32
  assumes "j \<le> unat (h - t)"
  shows "unat (h - (t + of_nat j)) = unat (h - t) - j"
proof -
  have "(h - t) - of_nat j = h - (t + of_nat j)" by (simp add: algebra_simps)
  moreover have j: "unat (of_nat j :: u32) = j"
    using assms unsigned_less [of "h - t", where 'a = nat] by (simp add: unat_of_nat)
  moreover have "unat ((h - t) - of_nat j) = unat (h - t) - unat (of_nat j :: u32)"
    using assms j by (subst unat_sub) (simp_all add: word_le_nat_alt)
  ultimately show ?thesis by metis
qed

lemma drain_threads_runq:
  assumes "rq_ok d k" "drain_threads k nr u = (l, k')"
  shows "l = take (unat nr) (runq k)" "u \<Longrightarrow> runq k' = drop (unat nr) (runq k) \<and> (d + unat nr \<le> length (runq k) \<longrightarrow> rq_ok d k')"
    "rq_overflow k' = drop (unat nr - ring_len k) (rq_overflow k)"
    "\<not> u \<Longrightarrow> k_qp k' = k_qp k" "k_rq_head k' = k_rq_head k \<and> ring_len k' \<le> ring_len k"
proof -
  let ?m = "ring_len k" and ?n = "unat nr"
  let ?j = "min ?n ?m"
  have m: "?m \<le> 32" using assms(1) by (simp add: rq_ok_def RUNTIME_RQ_SIZE_def)
  have l: "l = take ?n (runq k)" and k': "k' = (if u then k\<lparr>rq_overflow := drop (?n - ?m) (rq_overflow k), k_rq_tail := k_rq_tail k + of_nat ?j,
      k_qp := (k_qp k)\<lparr>rq_tail := rq_tail (k_qp k) + of_nat (length l)\<rparr>\<rparr> else k\<lparr>rq_overflow := drop (?n - ?m) (rq_overflow k)\<rparr>)"
    using assms(2) drain_loop_take [OF m] by (auto simp: drain_threads_def runq_def Let_def)
  show "l = take ?n (runq k)" "rq_overflow k' = drop (?n - ?m) (rq_overflow k)" "\<not> u \<Longrightarrow> k_qp k' = k_qp k" using l k' by auto
  show "k_rq_head k' = k_rq_head k \<and> ring_len k' \<le> ring_len k"
    using k' word_diff_of_nat [of ?j "k_rq_head k" "k_rq_tail k"] by (cases u) simp_all
  show "runq k' = drop ?n (runq k) \<and> (d + ?n \<le> length (runq k) \<longrightarrow> rq_ok d k')" if u
  proof -
    have r: "ring_len k' = ?m - ?j" using k' that word_diff_of_nat [of ?j "k_rq_head k" "k_rq_tail k"] by simp
    have q: "runq k' = drop ?n (runq k)"
      using k' that r ring_at_drop [of ?j ?m "rq_slots k" "k_rq_tail k"] by (simp add: runq_def) (cases "?n \<le> ?m"; simp)
    have "length (runq k') + length l = length (runq k)" using q l by simp
    then have "(of_nat (length (runq k)) :: u32) - of_nat (length l) = of_nat (length (runq k'))" by (metis add_diff_cancel_right' of_nat_add)
    then have "rq_head (k_qp k) - (rq_tail (k_qp k) + of_nat (length l)) + of_nat d = of_nat (length (runq k'))"
      using assms(1) by (simp add: rq_ok_def algebra_simps)
    with k' that r m q show ?thesis by (auto simp: rq_ok_def RUNTIME_RQ_SIZE_def)
  qed
qed

text \<open>The order of a merge by the time of readiness; the second list goes first only when it is older.\<close>

fun merge_by :: "('a \<Rightarrow> 'b::linorder) \<Rightarrow> 'a list \<Rightarrow> 'a list \<Rightarrow> 'a list" where
  "merge_by f [] rs = rs"
| "merge_by f ls [] = ls"
| "merge_by f (l # ls) (r # rs) = (if f r < f l then r # merge_by f (l # ls) rs else l # merge_by f ls (r # rs))"

lemma merge_by_Nil2 [simp]: "merge_by f ls [] = ls"
  by (cases ls) simp_all

lemma mset_merge_by [simp]: "mset (merge_by f ls rs) = mset ls + mset rs"
  by (induction f ls rs rule: merge_by.induct) auto

lemma set_merge_by [simp]: "set (merge_by f ls rs) = set ls \<union> set rs"
  by (metis mset_merge_by set_mset_mset set_mset_union)

lemma sorted_merge_by: "sorted (map f ls) \<Longrightarrow> sorted (map f rs) \<Longrightarrow> sorted (map f (merge_by f ls rs))"
  by (induction f ls rs rule: merge_by.induct) (auto intro: less_imp_le order_trans)

definition rq_put :: "nat \<Rightarrow> rkt \<Rightarrow> rkt" where
  "rq_put th k = (if RUNTIME_RQ_SIZE \<le> ring_len k then k\<lparr>rq_overflow := rq_overflow k @ [th]\<rparr> else ring_put th k)"

lemma rq_put_runq:
  assumes "ring_len k \<le> 32"
  shows "ring_len (rq_put th k) \<le> 32 \<and> mset (runq (rq_put th k)) = add_mset th (mset (runq k)) \<and> k_qp (rq_put th k) = k_qp k \<and>
    (packed k \<longrightarrow> runq (rq_put th k) = runq k @ [th] \<and> packed (rq_put th k))"
proof (cases "ring_len k < 32")
  case True
  with ring_put_runq [OF True, of th] show ?thesis by (auto simp: rq_put_def RUNTIME_RQ_SIZE_def packed_def runq_def)
qed (use assms in \<open>simp add: rq_put_def RUNTIME_RQ_SIZE_def packed_def runq_def\<close>)

lemma merge_loop_runq:
  assumes "ring_len k \<le> 32"
  shows "\<exists>k'. merge_loop ths (length ls + length rs) ls rs k = Some k' \<and> ring_len k' \<le> 32 \<and> k_qp k' = k_qp k \<and>
    mset (runq k') = mset (runq k) + mset ls + mset rs \<and>
    (packed k \<longrightarrow> packed k' \<and> runq k' = runq k @ merge_by (\<lambda>th. ready_tsc (ths th)) ls rs)"
  using assms
proof (induction "\<lambda>th. ready_tsc (ths th)" ls rs arbitrary: k rule: merge_by.induct)
  case (1 rs)
  show ?case using 1
  proof (induction rs arbitrary: k)
    case (Cons r rs)
    from rq_put_runq [OF Cons(2), of r] Cons(1) [of "rq_put r k"] show ?case by (fastforce simp: rq_put_def)
  qed simp
next
  case (2 l ls)
  show ?case using 2
  proof (induction ls arbitrary: l k)
    case Nil
    from rq_put_runq [OF Nil, of l] show ?case by (auto simp: rq_put_def)
  next
    case (Cons l' ls)
    from rq_put_runq [OF Cons(2), of l] Cons(1) [of "rq_put l k" l'] show ?case by (fastforce simp: rq_put_def)
  qed
next
  case (3 l ls r rs)
  show ?case
  proof (cases "ready_tsc (ths r) < ready_tsc (ths l)")
    case True
    from rq_put_runq [OF 3(3), of r] 3(1) [OF True, of "rq_put r k"] True show ?thesis by (fastforce simp: rq_put_def)
  next
    case False
    from rq_put_runq [OF 3(3), of l] 3(2) [OF False, of "rq_put l k"] False show ?thesis by (fastforce simp: rq_put_def)
  qed
qed

lemma merge_runqueues_runq:
  assumes l: "rq_ok 0 l" "ring_len l = 0" and r: "rq_ok d r" "d + unat n \<le> length (runq r)"
  shows "\<exists>l' r'. merge_runqueues ths l m r n = Some (l', r') \<and> rq_ok 0 l' \<and> rq_ok d r' \<and>
    runq r' = drop (unat n) (runq r) \<and> mset (runq l') = mset (runq l) + mset (take (unat n) (runq r)) \<and>
    (rq_overflow l = [] \<longrightarrow> packed l' \<and> runq l' = take (unat n) (runq r)) \<and>
    k_rq_head r' = k_rq_head r \<and> ring_len r' \<le> ring_len r"
proof -
  obtain rs r1 where dr: "drain_threads r n True = (rs, r1)" by fastforce
  obtain ls l1 where dl: "drain_threads l m False = (ls, l1)" by fastforce
  note R = drain_threads_runq [OF r(1) dr] and L = drain_threads_runq [OF l(1) dl]
  have ovl: "runq l = rq_overflow l" using l(2) by (simp add: runq_def)
  define l2 where "l2 = l1\<lparr>k_rq_head := 0, k_rq_tail := 0\<rparr>"
  have l2: "ring_len l2 = 0" "runq l2 = rq_overflow l1" "k_qp l2 = k_qp l" "packed l2 \<longleftrightarrow> rq_overflow l1 = []"
    using L(4) by (simp_all add: l2_def runq_def packed_def RUNTIME_RQ_SIZE_def)
  have split: "rq_overflow l = ls @ rq_overflow l1" using L(1,3) l(2) ovl by simp
  obtain l3 where l3: "merge_loop ths (length ls + length rs) ls rs l2 = Some l3" "ring_len l3 \<le> 32" "k_qp l3 = k_qp l"
    "mset (runq l3) = mset (runq l2) + mset ls + mset rs"
    "packed l2 \<Longrightarrow> packed l3 \<and> runq l3 = runq l2 @ merge_by (\<lambda>th. ready_tsc (ths th)) ls rs"
    using merge_loop_runq [of l2 ths ls rs] l2(1,3) by auto
  let ?l4 = "l3\<lparr>k_qp := (k_qp l3)\<lparr>rq_head := rq_head (k_qp l3) + of_nat (length rs)\<rparr>\<rparr>"
  have "merge_runqueues ths l m r n = Some (update_oldest_tsc ths ?l4, update_oldest_tsc ths r1)"
    using l3(1) by (simp add: merge_runqueues_def dr dl l2_def)
  moreover have "length (runq l3) = length (runq l) + length rs"
    using l3(4) l2(2) split ovl by (metis add.commute add.left_commute length_append size_mset size_union)
  then have "rq_ok 0 (update_oldest_tsc ths ?l4)" using l(1) l3(2,3) by (simp add: rq_ok_def RUNTIME_RQ_SIZE_def runq_qp algebra_simps)
  moreover have "rq_ok d (update_oldest_tsc ths r1)" using R(2) r(2) by (simp add: rq_ok_def)
  moreover have "mset (runq l3) = mset (runq l) + mset rs" using l3(4) l2(2) split ovl by simp
  moreover have "rq_overflow l = [] \<Longrightarrow> packed l3 \<and> runq l3 = rs" using l3(5) l2 split by simp
  ultimately show ?thesis using R(1,2,5) by (auto simp: runq_qp packed_def)
qed

end
