(* ===== verification/Uthread.thy ===== *)
theory Uthread
  imports Runq
begin

text \<open>
  The scheduler of user threads (\<^verbatim>\<open>runtime/sched.c\<close>, with the softirqs of \<^verbatim>\<open>runtime/softirq.c\<close>): waking
  and parking threads, stealing, and switching between threads, first as functions on the state of
  the runtime, then as a step relation in which the kthreads interleave. The parts of the code that
  hold a kthread's lock are one step; waking a thread does not, and is three. What the code reads of
  its surroundings (the clock, pending work, the outcome of a try-lock, the requests of the scheduler
  process) is the record \<open>sched_env\<close>. The build has no \<^verbatim>\<open>GC\<close> and no \<^verbatim>\<open>CALADAN\<close>. Saving and restoring of
  registers, statistics and the count of disabled preemption are not modelled.
\<close>

section \<open>State\<close>

record rt =
  uths :: "nat \<Rightarrow> uth"
  kts :: "nat \<Rightarrow> rkt"
  nrks :: nat

definition upd_k :: "nat \<Rightarrow> (rkt \<Rightarrow> rkt) \<Rightarrow> 'a rt_scheme \<Rightarrow> 'a rt_scheme" where
  "upd_k k f s = s\<lparr>kts := (kts s)(k := f (kts s k))\<rparr>"

definition upd_th :: "nat \<Rightarrow> (uth \<Rightarrow> uth) \<Rightarrow> 'a rt_scheme \<Rightarrow> 'a rt_scheme" where
  "upd_th th f s = s\<lparr>uths := (uths s)(th := f (uths s th))\<rparr>"

record sched_env =
  e_now :: u64
  e_end :: u64
  e_pend :: "nat \<Rightarrow> nat \<Rightarrow> softirq \<Rightarrow> bool"
  e_stale :: "nat \<Rightarrow> bool"
  e_lock :: "nat \<Rightarrow> bool"
  e_start :: nat
  e_recent :: "nat option"
  e_to_steal :: bool
  e_is_server :: bool
  e_avg_delay :: u64
  e_yield_req :: nat
  e_disable_watchdog :: bool
  e_cycles_per_us :: u64

section \<open>Making a thread ready\<close>

definition thread_ready_prepare :: "nat \<Rightarrow> u64 \<Rightarrow> 'a rt_scheme \<Rightarrow> 'a rt_scheme option" where
  "thread_ready_prepare th now s =
     (if th_ready (uths s th) then None
      else Some (upd_th th (\<lambda>t. t\<lparr>th_ready := True, ready_tsc := now\<rparr>) s))"

definition thread_ready_locked :: "nat \<Rightarrow> nat \<Rightarrow> u64 \<Rightarrow> 'a rt_scheme \<Rightarrow> 'a rt_scheme option" where
  "thread_ready_locked me th now s =
     do {
       s \<leftarrow> thread_ready_prepare th now s;
       Some (upd_k me (rq_ready_locked (uths s) th) s)
     }"

definition thread_ready_head_locked :: "nat \<Rightarrow> nat \<Rightarrow> u64 \<Rightarrow> 'a rt_scheme \<Rightarrow> 'a rt_scheme option" where
  "thread_ready_head_locked me th now s =
     do {
       s \<leftarrow> thread_ready_prepare th now s;
       let k = kts s me;
       let s = (if k_rq_head k \<noteq> k_rq_tail k
                then upd_th th (\<lambda>t. t\<lparr>ready_tsc := ready_tsc (uths s (rq_slots k (slot (k_rq_tail k))))\<rparr>) s else s);
       let s = upd_k me (ring_cut_in th) s;
       Some (upd_k me (\<lambda>k. k\<lparr>k_qp := (k_qp k)\<lparr>oldest_tsc := ready_tsc (uths s th), rq_head := rq_head (k_qp k) + 1\<rparr>\<rparr>) s)
     }"

definition thread_ready_head :: "nat \<Rightarrow> nat \<Rightarrow> u64 \<Rightarrow> 'a rt_scheme \<Rightarrow> 'a rt_scheme option" where
  "thread_ready_head me th now s =
     do {
       s \<leftarrow> thread_ready_prepare th now s;
       let k = kts s me;
       let s = (if k_rq_head k \<noteq> k_rq_tail k
                then upd_th th (\<lambda>t. t\<lparr>ready_tsc := ready_tsc (uths s (rq_slots k (slot (k_rq_tail k))))\<rparr>) s else s);
       let s = upd_k me (ring_cut_in th) s;
       Some (upd_k me (\<lambda>k. k\<lparr>k_qp := (k_qp k)\<lparr>oldest_tsc := ready_tsc (uths s th), rq_head := rq_head (k_qp k) + 1\<rparr>\<rparr>) s)
     }"

text \<open>The three parts of \<^verbatim>\<open>thread_ready\<close> and, when nothing comes between, the whole.\<close>

definition thread_ready_begin :: "nat \<Rightarrow> nat \<Rightarrow> u64 \<Rightarrow> 'a rt_scheme \<Rightarrow> (u32 \<times> 'a rt_scheme) option" where
  "thread_ready_begin me th now s =
     do {
       s \<leftarrow> thread_ready_prepare th now s;
       Some (k_rq_tail (kts s me), s)
     }"

definition thread_ready_publish :: "nat \<Rightarrow> nat \<Rightarrow> u32 \<Rightarrow> 'a rt_scheme \<Rightarrow> bool \<times> 'a rt_scheme" where
  "thread_ready_publish me th t s =
     (let (b, k) = rq_publish th t (kts s me) in (b, upd_k me (\<lambda>_. k) s))"

definition thread_ready_count :: "nat \<Rightarrow> nat \<Rightarrow> bool \<Rightarrow> 'a rt_scheme \<Rightarrow> 'a rt_scheme" where
  "thread_ready_count me th b s = upd_k me (rq_count (uths s) th b) s"

definition thread_ready :: "nat \<Rightarrow> nat \<Rightarrow> u64 \<Rightarrow> 'a rt_scheme \<Rightarrow> 'a rt_scheme option" where
  "thread_ready me th now s =
     do {
       (t, s) \<leftarrow> thread_ready_begin me th now s;
       let (b, s) = thread_ready_publish me th t s;
       Some (thread_ready_count me th b s)
     }"

section \<open>Softirqs\<close>

text \<open>\<open>pend\<close> says for which sources work is pending at kthread \<open>k\<close>; \<open>me\<close> runs the threads that handle it.\<close>

fun softirq_each :: "softirq list \<Rightarrow> (softirq \<Rightarrow> bool) \<Rightarrow> nat \<Rightarrow> nat \<Rightarrow> u64 \<Rightarrow> 'a rt_scheme \<Rightarrow> (bool \<times> 'a rt_scheme) option" where
  "softirq_each [] pend k me now s = Some (False, s)"
| "softirq_each (i # is) pend k me now s =
     (if \<not> si_busy (kts s k) i \<and> pend i
      then do {
        let s = upd_k k (\<lambda>x. x\<lparr>si_busy := (si_busy x)(i := True)\<rparr>) s;
        s \<leftarrow> thread_ready_head_locked me (si_thread (kts s k) i) now s;
        (_, s) \<leftarrow> softirq_each is pend k me now s;
        Some (True, s)
      }
      else softirq_each is pend k me now s)"

definition softirq_pending :: "(softirq \<Rightarrow> bool) \<Rightarrow> bool" where
  "softirq_pending pend \<longleftrightarrow> pend SI_iokernel \<or> pend SI_directpath \<or> pend SI_cxltp \<or> pend SI_storage \<or> pend SI_timer"

definition softirq_sched :: "(softirq \<Rightarrow> bool) \<Rightarrow> nat \<Rightarrow> u64 \<Rightarrow> 'a rt_scheme \<Rightarrow> (bool \<times> 'a rt_scheme) option" where
  "softirq_sched pend k now s = softirq_each [SI_iokernel, SI_directpath, SI_cxltp, SI_timer, SI_storage] pend k k now s"

definition softirq_steal :: "(softirq \<Rightarrow> bool) \<Rightarrow> nat \<Rightarrow> nat \<Rightarrow> u64 \<Rightarrow> 'a rt_scheme \<Rightarrow> (bool \<times> 'a rt_scheme) option" where
  "softirq_steal pend k me now s = softirq_each [SI_iokernel, SI_directpath, SI_cxltp, SI_timer, SI_storage] pend k me now s"

definition softirq_run :: "(softirq \<Rightarrow> bool) \<Rightarrow> nat \<Rightarrow> u64 \<Rightarrow> 'a rt_scheme \<Rightarrow> (bool \<times> 'a rt_scheme) option" where
  "softirq_run pend k now s =
     (if \<not> softirq_pending pend then Some (False, s)
      else softirq_each [SI_iokernel, SI_directpath, SI_cxltp, SI_timer] pend k k now s)"

section \<open>Stealing\<close>

definition work_available :: "rkt \<Rightarrow> (softirq \<Rightarrow> bool) \<Rightarrow> bool" where
  "work_available k pend \<longleftrightarrow> k_rq_tail k \<noteq> k_rq_head k \<or> softirq_pending pend"

text \<open>
  \<open>st\<close> numbers the place in \<^verbatim>\<open>schedule\<close>. The check for work is made without the lock, so the queue may
  have changed since (\<open>e_stale\<close>).
\<close>

definition steal_work :: "nat \<Rightarrow> nat \<Rightarrow> nat \<Rightarrow> sched_env \<Rightarrow> 'a rt_scheme \<Rightarrow> (bool \<times> 'a rt_scheme) option" where
  "steal_work st me r env s =
     (if \<not> (work_available (kts s r) (e_pend env st r) \<or> e_stale env r) then Some (False, s)
      else if \<not> e_lock env r then Some (False, s)
      else do {
        let lsize = rq_head (k_qp (kts s me)) - rq_tail (k_qp (kts s me));
        let rsize = rq_head (k_qp (kts s r)) - rq_tail (k_qp (kts s r));
        let num_to_steal = (if lsize < rsize then min ((rsize - lsize + 2 - 1) div 2) (of_nat RUNTIME_RQ_SIZE) else 0);
        if num_to_steal \<noteq> 0
        then do {
          (l, r') \<leftarrow> merge_runqueues (uths s) (kts s me) lsize (kts s r) num_to_steal;
          Some (True, upd_k me (\<lambda>_. l) (upd_k r (\<lambda>_. r') s))
        }
        else softirq_steal (e_pend env st r) r me (e_now env) s
      })"

text \<open>Kthreads to steal from, in order; the kthread itself is skipped.\<close>

fun steal_from :: "nat \<Rightarrow> nat \<Rightarrow> sched_env \<Rightarrow> nat list \<Rightarrow> 'a rt_scheme \<Rightarrow> (bool \<times> 'a rt_scheme) option" where
  "steal_from st me env [] s = Some (False, s)"
| "steal_from st me env (r # rs) s =
     (if r = me then steal_from st me env rs s
      else do {
        (found, s) \<leftarrow> steal_work st me r env s;
        if found then Some (True, s) else steal_from st me env rs s
      })"

fun max_qdelay :: "(nat \<Rightarrow> rkt) \<Rightarrow> nat list \<Rightarrow> u64 \<Rightarrow> nat option \<Rightarrow> nat option" where
  "max_qdelay ks [] m i = i"
| "max_qdelay ks (j # js) m i =
     (if m < k_qdelay (ks j) then max_qdelay ks js (k_qdelay (ks j)) (Some j) else max_qdelay ks js m i)"

definition get_max_qdelay_id :: "nat \<Rightarrow> u64 \<Rightarrow> 'a rt_scheme \<Rightarrow> nat option \<times> 'a rt_scheme" where
  "get_max_qdelay_id start cycles_per_us s =
     (let id = max_qdelay (kts s) (map (\<lambda>i. (start + i) mod nrks s) [0..<nrks s]) (1 * cycles_per_us) None
      in (id, case id of None \<Rightarrow> s | Some i \<Rightarrow> upd_k i (\<lambda>k. k\<lparr>k_qdelay := 0\<rparr>) s))"

text \<open>The loop over the most delayed kthreads: \<open>n\<close> rounds are left; it returns the counter \<^verbatim>\<open>checked\<close> too.\<close>

fun steal_delayed :: "nat \<Rightarrow> nat \<Rightarrow> sched_env \<Rightarrow> nat \<Rightarrow> 'a rt_scheme \<Rightarrow> (bool \<times> nat \<times> 'a rt_scheme) option" where
  "steal_delayed 0 me env checked s = Some (False, checked + 1, s)"
| "steal_delayed (Suc n) me env checked s =
     do {
       let (id, s) = get_max_qdelay_id (e_start env) (e_cycles_per_us env) s;
       case id of
         None \<Rightarrow> Some (False, checked + 1, s)
       | Some r \<Rightarrow> do {
           (found, s) \<leftarrow> (if r \<noteq> me then steal_work 2 me r env s else Some (False, s));
           if found then Some (True, checked + 1, s) else steal_delayed n me env (checked + 1) s
         }
     }"

definition yield_requested :: "nat \<Rightarrow> sched_env \<Rightarrow> bool" where
  "yield_requested me env \<longleftrightarrow> e_avg_delay env \<le> 2 * e_cycles_per_us env \<and> e_yield_req env = me"

section \<open>The scheduler\<close>

definition RUNTIME_WATCHDOG_US :: u64 where "RUNTIME_WATCHDOG_US = 50"

text \<open>The scheduler is off the stack of the thread it was called from.\<close>

definition schedule_leave :: "nat \<Rightarrow> 'a rt_scheme \<Rightarrow> 'a rt_scheme" where
  "schedule_leave me s =
     (case my_self (kts s me) of
        None \<Rightarrow> s
      | Some th \<Rightarrow> upd_k me (\<lambda>k. k\<lparr>my_self := None\<rparr>) (upd_th th (\<lambda>t. t\<lparr>th_running := False\<rparr>) s))"

text \<open>From the entry to the label \<^verbatim>\<open>again\<close>; the result says whether there is a thread to run.\<close>

definition schedule_top :: "nat \<Rightarrow> sched_env \<Rightarrow> 'a rt_scheme \<Rightarrow> (bool \<times> 'a rt_scheme) option" where
  "schedule_top me env s =
     do {
       let s = schedule_leave me s;
       let s = upd_k me (\<lambda>k. k\<lparr>k_qp := (k_qp k)\<lparr>qp_run_start_tsc := - 1, qp_rcu_gen := qp_rcu_gen (k_qp k) + 1\<rparr>,
                 k_rcu_gen := k_rcu_gen k + 1\<rparr>) s;
       let watchdog = \<not> e_disable_watchdog env \<and>
             e_cycles_per_us env * RUNTIME_WATCHDOG_US \<le> e_now env - last_watchdog_tsc (kts s me);
       (work, s) \<leftarrow> (if watchdog
                     then softirq_sched (e_pend env 0 me) me (e_now env) (upd_k me (\<lambda>k. k\<lparr>last_watchdog_tsc := e_now env\<rparr>) s)
                     else Some (False, s));
       if work then Some (True, s)
       else do {
         let s = upd_k me (\<lambda>k. if rq_overflow k \<noteq> [] then drain_overflow k else k) s;
         if k_rq_head (kts s me) \<noteq> k_rq_tail (kts s me) then Some (True, s)
         else Some (False, upd_k me (\<lambda>k. k\<lparr>k_rq_head := 0, k_rq_tail := 0\<rparr>) s)
       }
     }"

text \<open>From the label \<^verbatim>\<open>again\<close> to \<^verbatim>\<open>park\<close> or \<^verbatim>\<open>done\<close>.\<close>

definition schedule_again :: "nat \<Rightarrow> sched_env \<Rightarrow> 'a rt_scheme \<Rightarrow> (bool \<times> 'a rt_scheme) option" where
  "schedule_again me env s =
     do {
       (work, s) \<leftarrow> softirq_sched (e_pend env 1 me) me (e_now env) s;
       if work then Some (True, s)
       else if e_is_server env then
         (if yield_requested me env then Some (False, s)
          else do {
            (found, checked, s) \<leftarrow> steal_delayed (nrks s) me env 0 s;
            if found then Some (True, s)
            else do {
              (found, s) \<leftarrow> steal_from 3 me env (map (\<lambda>c. (e_start env + c) mod nrks s) [checked..<nrks s]) s;
              if found then Some (True, s) else softirq_sched (e_pend env 4 me) me (e_now env) s
            }
          })
       else if e_to_steal env then
         do {
           (found, s) \<leftarrow> steal_from 2 me env (case e_recent env of None \<Rightarrow> [] | Some r \<Rightarrow> [r]) s;
           if found then Some (True, s)
           else steal_from 3 me env (map (\<lambda>i. (e_start env + i) mod nrks s) [0..<nrks s]) s
         }
       else Some (False, s)
     }"

text \<open>The first part of \<^verbatim>\<open>jmp_thread\<close>: the thread is claimed.\<close>

definition claim_thread :: "nat \<Rightarrow> nat \<Rightarrow> 'a rt_scheme \<Rightarrow> 'a rt_scheme" where
  "claim_thread me th s = upd_th th (\<lambda>t. t\<lparr>th_ready := False\<rparr>) (upd_k me (\<lambda>k. k\<lparr>my_self := Some th\<rparr>) s)"

text \<open>The label \<^verbatim>\<open>done\<close>.\<close>

definition schedule_done :: "nat \<Rightarrow> sched_env \<Rightarrow> 'a rt_scheme \<Rightarrow> nat \<times> 'a rt_scheme" where
  "schedule_done me env s =
     (let (th, k) = rq_pop (uths s) (kts s me);
          s = upd_k me (\<lambda>_. k\<lparr>last_tsc := e_end env\<rparr>) s;
          s = upd_th th (\<lambda>t. t\<lparr>run_start_tsc := min (e_end env) (run_start_tsc t)\<rparr>) s;
          s = upd_k me (\<lambda>k. k\<lparr>k_qp := (k_qp k)\<lparr>qp_run_start_tsc := run_start_tsc (uths s th), qp_rcu_gen := qp_rcu_gen (k_qp k) + 1\<rparr>,
                k_rcu_gen := k_rcu_gen k + 1\<rparr>) s
      in (th, claim_thread me th s))"

text \<open>The thread to switch to, or \<open>None\<close> when the kthread parks.\<close>

definition schedule_end :: "nat \<Rightarrow> sched_env \<Rightarrow> bool \<times> 'a rt_scheme \<Rightarrow> nat option \<times> 'a rt_scheme" where
  "schedule_end me env = (\<lambda>(work, s).
     if work then (let (th, s) = schedule_done me env s in (Some th, s))
     else (None, upd_k me (\<lambda>k. k\<lparr>k_parked := True\<rparr>) s))"

definition schedule :: "nat \<Rightarrow> sched_env \<Rightarrow> 'a rt_scheme \<Rightarrow> (nat option \<times> 'a rt_scheme) option" where
  "schedule me env s =
     do {
       (work, s) \<leftarrow> schedule_top me env s;
       (work, s) \<leftarrow> (if work then Some (True, s) else schedule_again me env s);
       Some (schedule_end me env (work, s))
     }"

text \<open>When the kthread gets a core again.\<close>

definition schedule_resume :: "nat \<Rightarrow> sched_env \<Rightarrow> 'a rt_scheme \<Rightarrow> (nat option \<times> 'a rt_scheme) option" where
  "schedule_resume me env s =
     do {
       (work, s) \<leftarrow> schedule_again me env (upd_k me (\<lambda>k. k\<lparr>k_parked := False\<rparr>) s);
       Some (schedule_end me env (work, s))
     }"

text \<open>How \<^verbatim>\<open>enter_schedule\<close> leaves a thread: to itself, directly to another one, or through the scheduler.\<close>

datatype leave = Same | Direct nat | Sched "nat option"

definition enter_schedule :: "nat \<Rightarrow> nat \<Rightarrow> u64 \<Rightarrow> sched_env \<Rightarrow> 'a rt_scheme \<Rightarrow> (leave \<times> 'a rt_scheme) option" where
  "enter_schedule me cur now env s =
     (let s = upd_th cur (\<lambda>t. t\<lparr>run_start_tsc := - 1, last_cpu := curr_cpu (kts s me)\<rparr>) s;
          k = kts s me
      in if k_rq_head k = k_rq_tail k \<or>
            \<not> e_disable_watchdog env \<and> e_cycles_per_us env * RUNTIME_WATCHDOG_US < now - last_watchdog_tsc k
         then do {
           (r, s) \<leftarrow> schedule me env s;
           Some (Sched r, s)
         }
         else
           let s = upd_k me (\<lambda>k. k\<lparr>last_tsc := now\<rparr>) s;
               (th, k) = rq_pop (uths s) (kts s me);
               s = upd_k me (\<lambda>_. k) s;
               s = upd_th th (\<lambda>t. t\<lparr>run_start_tsc := min now (run_start_tsc t)\<rparr>) s;
               s = upd_k me (\<lambda>k. k\<lparr>k_qp := (k_qp k)\<lparr>qp_run_start_tsc := run_start_tsc (uths s th), qp_rcu_gen := qp_rcu_gen (k_qp k) + 2\<rparr>,
                     k_rcu_gen := k_rcu_gen k + 2\<rparr>) s
           in if th = cur then Some (Same, upd_th th (\<lambda>t. t\<lparr>th_ready := False\<rparr>) s)
              else Some (Direct th, claim_thread me th s))"

text \<open>The second part of \<^verbatim>\<open>jmp_thread\<close> and \<^verbatim>\<open>jmp_thread_direct\<close>, once the thread is off its old stack.\<close>

definition start_thread :: "nat \<Rightarrow> 'a rt_scheme \<Rightarrow> 'a rt_scheme" where
  "start_thread th s = upd_th th (\<lambda>t. t\<lparr>th_running := True, hard := False\<rparr>) s"

text \<open>The end of \<^verbatim>\<open>__jmp_thread_direct\<close>: the old thread's registers are saved.\<close>

definition release_stack :: "nat \<Rightarrow> 'a rt_scheme \<Rightarrow> 'a rt_scheme" where
  "release_stack th s = upd_th th (\<lambda>t. t\<lparr>th_running := False\<rparr>) s"

section \<open>Giving the core back, and the life of a thread\<close>

definition thread_finish_cede :: "nat \<Rightarrow> nat \<Rightarrow> 'a rt_scheme \<Rightarrow> 'a rt_scheme" where
  "thread_finish_cede me th s =
     (let s = upd_th th (\<lambda>t. t\<lparr>th_running := False, th_ready := True, last_cpu := curr_cpu (kts s me)\<rparr>) s;
          s = upd_k me (\<lambda>k. k\<lparr>my_self := None,
                k_qp := (k_qp k)\<lparr>qp_run_start_tsc := - 1, oldest_tsc := ready_tsc (uths s th), rq_head := rq_head (k_qp k) + 1\<rparr>\<rparr>) s;
          s = upd_k me (ring_cut_in th) s
      in upd_k me (\<lambda>k. k\<lparr>k_rcu_gen := k_rcu_gen k + 1, k_qp := (k_qp k)\<lparr>qp_rcu_gen := qp_rcu_gen (k_qp k) + 1\<rparr>, k_parked := True\<rparr>) s)"

definition thread_after_cede :: "nat \<Rightarrow> sched_env \<Rightarrow> u64 \<Rightarrow> 'a rt_scheme \<Rightarrow> (nat option \<times> 'a rt_scheme) option" where
  "thread_after_cede me env now s =
     schedule me env (upd_k me (\<lambda>k. k\<lparr>last_tsc := now, k_rcu_gen := k_rcu_gen k + 1,
       k_qp := (k_qp k)\<lparr>qp_rcu_gen := qp_rcu_gen (k_qp k) + 1\<rparr>, k_parked := False\<rparr>) s)"

definition thread_cede_hard :: "nat \<Rightarrow> nat \<Rightarrow> 'a rt_scheme \<Rightarrow> 'a rt_scheme" where
  "thread_cede_hard me th s = thread_finish_cede me th (upd_th th (\<lambda>t. t\<lparr>hard := True\<rparr>) s)"

text \<open>A new thread, once the allocator has given memory for it and its stack.\<close>

definition thread_create :: "nat \<Rightarrow> nat \<Rightarrow> 'a rt_scheme \<Rightarrow> 'a rt_scheme" where
  "thread_create me th s =
     upd_th th (\<lambda>t. t\<lparr>last_cpu := curr_cpu (kts s me), main_thread := False, th_ready := False, th_running := False,
       run_start_tsc := - 1, hard := False\<rparr>) s"

definition thread_spawn :: "nat \<Rightarrow> nat \<Rightarrow> u64 \<Rightarrow> 'a rt_scheme \<Rightarrow> 'a rt_scheme option" where
  "thread_spawn me th now s = thread_ready me th now (thread_create me th s)"

definition thread_spawn_main :: "nat \<Rightarrow> nat \<Rightarrow> u64 \<Rightarrow> 'a rt_scheme \<Rightarrow> 'a rt_scheme option" where
  "thread_spawn_main me th now s = thread_ready me th now (upd_th th (\<lambda>t. t\<lparr>main_thread := True\<rparr>) (thread_create me th s))"

text \<open>The end of a thread other than the main one, whose end is the end of the program.\<close>

definition thread_finish_exit :: "nat \<Rightarrow> sched_env \<Rightarrow> 'a rt_scheme \<Rightarrow> (nat option \<times> 'a rt_scheme) option" where
  "thread_finish_exit me env s = schedule me env (upd_k me (\<lambda>k. k\<lparr>my_self := None\<rparr>) s)"

definition schedule_start :: "nat \<Rightarrow> sched_env \<Rightarrow> u64 \<Rightarrow> 'a rt_scheme \<Rightarrow> (nat option \<times> 'a rt_scheme) option" where
  "schedule_start me env now s =
     schedule me env (upd_k me (\<lambda>k. k\<lparr>last_tsc := now, k_rcu_gen := 1, k_parked := False,
       k_qp := (k_qp k)\<lparr>oldest_tsc := (if oldest_tsc (k_qp k) = 0 then - 1 else oldest_tsc (k_qp k)), qp_rcu_gen := 1\<rparr>\<rparr>) s)"

section \<open>Interleaving\<close>

text \<open>
  Where a kthread is. \<open>K_thread th\<close>: it runs the code of \<open>th\<close>; \<open>K_wake\<close>: \<open>th\<close> has taken threads off a
  list and wakes them one by one; \<open>K_push\<close> and \<open>K_count\<close>: inside \<^verbatim>\<open>thread_ready\<close>, before and after the
  thread is stored (a thread that yields pushes itself); \<open>K_leave\<close>: the thread has given up its turn but
  is still on its stack; \<open>K_switch\<close>: it waits for the next thread to be off its old stack; \<open>K_save\<close>: the
  next thread is claimed, the old one is being saved; \<open>K_jump\<close>: as \<open>K_switch\<close>, from the scheduler's
  own stack.
\<close>

datatype kpc = K_start | K_thread nat | K_wake nat "nat list" | K_push nat nat u32 "nat list" | K_count nat nat bool "nat list"
  | K_leave nat | K_switch nat nat | K_save nat nat | K_sched | K_jump nat | K_idle | K_ceded

record rsys = rt +
  pc :: "nat \<Rightarrow> kpc"
  waitq :: "nat \<Rightarrow> nat list"
  alive :: "nat set"

datatype action = Wait nat | Take nat nat | Soft_wait nat softirq | Wake u64 | Wake_head u64 | Publish | Count | Yield u64
  | Softirq "softirq \<Rightarrow> bool" u64 | Leave u64 sched_env | Claim | Release | Resume sched_env
  | Cede bool | Uncede u64 sched_env | Spawn nat | Exit sched_env | Boot u64 sched_env

definition env_ok :: "sched_env \<Rightarrow> 'a rt_scheme \<Rightarrow> bool" where
  "env_ok env s \<longleftrightarrow> (case e_recent env of None \<Rightarrow> True | Some r \<Rightarrow> r < nrks s)"

definition set_pc :: "nat \<Rightarrow> kpc \<Rightarrow> rsys \<Rightarrow> rsys" where
  "set_pc me p s = s\<lparr>pc := (pc s)(me := p)\<rparr>"

text \<open>After the scheduler: it waits for the thread to be off its stack, or parks.\<close>

definition sched_pc :: "nat \<Rightarrow> nat option \<times> rsys \<Rightarrow> rsys" where
  "sched_pc me = (\<lambda>(r, s). set_pc me (case r of None \<Rightarrow> K_idle | Some th \<Rightarrow> K_jump th) s)"

definition sched_call :: "nat \<Rightarrow> sched_env \<Rightarrow> (rsys \<Rightarrow> (nat option \<times> rsys) option) \<Rightarrow> rsys \<Rightarrow> rsys option" where
  "sched_call me env f s = (if env_ok env s then do { r \<leftarrow> f (set_pc me K_sched s); Some (sched_pc me r) } else Some s)"

text \<open>
  A new kthread, with the threads that will serve its softirqs; and the runtime when the kthreads start
  to schedule: the first one has made the main thread and those of the late initialisers ready.
\<close>

definition allock :: "(softirq \<Rightarrow> nat) \<Rightarrow> rkt" where
  "allock si = \<lparr>k_rq_head = 0, k_rq_tail = 0, rq_slots = (\<lambda>_. 0), rq_overflow = [], k_parked = False,
     k_qp = \<lparr>rq_head = 0, rq_tail = 0, oldest_tsc = 0, qp_rcu_gen = 0, qp_run_start_tsc = 0\<rparr>, k_rcu_gen = 0, curr_cpu = 0,
     si_busy = (\<lambda>_. False), si_thread = si, k_qdelay = 0, my_self = None, last_tsc = 0, last_watchdog_tsc = 0\<rparr>"

definition kthreads_init :: "nat \<Rightarrow> (nat \<Rightarrow> softirq \<Rightarrow> nat) \<Rightarrow> (nat \<Rightarrow> uth) \<Rightarrow> rsys" where
  "kthreads_init n si ths = \<lparr>uths = (\<lambda>th. (ths th)\<lparr>th_ready := False, th_running := False\<rparr>), kts = (\<lambda>k. allock (si k)), nrks = n,
     pc = (\<lambda>_. K_start), waitq = (\<lambda>_. []), alive = set (concat (map (\<lambda>k. map (si k) [SI_iokernel, SI_directpath, SI_cxltp, SI_timer, SI_storage]) [0..<n]))\<rparr>"

primrec spawn_late :: "nat list \<Rightarrow> u64 \<Rightarrow> rsys \<Rightarrow> rsys option" where
  "spawn_late [] now s = Some s"
| "spawn_late (x # xs) now s = do { s \<leftarrow> thread_spawn 0 x now (s\<lparr>alive := insert x (alive s)\<rparr>); spawn_late xs now s }"

definition runtime_init :: "nat \<Rightarrow> (nat \<Rightarrow> softirq \<Rightarrow> nat) \<Rightarrow> (nat \<Rightarrow> uth) \<Rightarrow> nat \<Rightarrow> nat list \<Rightarrow> u64 \<Rightarrow> rsys option" where
  "runtime_init n si ths main late now =
     do {
       s \<leftarrow> thread_spawn_main 0 main now ((kthreads_init n si ths)\<lparr>alive := insert main (alive (kthreads_init n si ths))\<rparr>);
       spawn_late late now s
     }"

text \<open>
  One action of kthread \<open>me\<close>. An action that does not fit the place where the kthread is does nothing,
  and neither does a kthread that waits for a thread to be off its stack; \<open>None\<close> is a failed \<^verbatim>\<open>BUG_ON\<close>
  or an invalid access. \<open>Wait w\<close> and \<open>Take w n\<close> stand for the code that puts the thread on a list
  of waiters and parks, and for the code that takes threads off such a list and wakes them.
\<close>

definition exec :: "nat \<Rightarrow> action \<Rightarrow> rsys \<Rightarrow> rsys option" where
  "exec me a s = (case a of
     Wait w \<Rightarrow> (case pc s me of K_thread th \<Rightarrow> Some (set_pc me (K_leave th) (s\<lparr>waitq := (waitq s)(w := waitq s w @ [th])\<rparr>)) | _ \<Rightarrow> Some s)
   | Take w n \<Rightarrow> (case pc s me of
        K_thread th \<Rightarrow> Some (set_pc me (K_wake th (take n (waitq s w))) (s\<lparr>waitq := (waitq s)(w := drop n (waitq s w))\<rparr>)) | _ \<Rightarrow> Some s)
   | Soft_wait j i \<Rightarrow> (case pc s me of
        K_thread th \<Rightarrow> if j < nrks s \<and> si_thread (kts s j) i = th \<and> si_busy (kts s j) i
          then Some (set_pc me (K_leave th) (upd_k j (\<lambda>k. k\<lparr>si_busy := (si_busy k)(i := False)\<rparr>) s)) else Some s | _ \<Rightarrow> Some s)
   | Wake now \<Rightarrow> (case pc s me of
        K_wake th (x # xs) \<Rightarrow> do { (t, s) \<leftarrow> thread_ready_begin me x now s; Some (set_pc me (K_push th x t xs) s) }
      | K_wake th [] \<Rightarrow> Some (set_pc me (K_thread th) s) | _ \<Rightarrow> Some s)
   | Wake_head now \<Rightarrow> (case pc s me of
        K_wake th (x # xs) \<Rightarrow> do { s \<leftarrow> thread_ready_head me x now s; Some (set_pc me (K_wake th xs) s) } | _ \<Rightarrow> Some s)
   | Publish \<Rightarrow> (case pc s me of
        K_push th x t xs \<Rightarrow> (let (b, s) = thread_ready_publish me x t s in Some (set_pc me (K_count th x b xs) s)) | _ \<Rightarrow> Some s)
   | Count \<Rightarrow> (case pc s me of
        K_count th x b xs \<Rightarrow> Some (set_pc me (if x = th then K_leave th else K_wake th xs) (thread_ready_count me x b s)) | _ \<Rightarrow> Some s)
   | Yield now \<Rightarrow> (case pc s me of
        K_thread th \<Rightarrow> do {
          (t, s) \<leftarrow> thread_ready_begin me th now (upd_th th (\<lambda>t. t\<lparr>th_ready := False\<rparr>) s);
          Some (set_pc me (K_push th th t []) s) } | _ \<Rightarrow> Some s)
   | Softirq pend now \<Rightarrow> (case pc s me of K_thread th \<Rightarrow> do { (_, s) \<leftarrow> softirq_run pend me now s; Some s } | _ \<Rightarrow> Some s)
   | Leave now env \<Rightarrow> (case pc s me of
        K_leave th \<Rightarrow> if env_ok env s
          then do {
            (l, s) \<leftarrow> enter_schedule me th now env (set_pc me K_sched s);
            Some (case l of Same \<Rightarrow> set_pc me (K_thread th) s | Direct x \<Rightarrow> set_pc me (K_switch th x) s | Sched r \<Rightarrow> sched_pc me (r, s)) }
          else Some s | _ \<Rightarrow> Some s)
   | Claim \<Rightarrow> (case pc s me of
        K_switch old x \<Rightarrow> if th_running (uths s x) then Some s else Some (set_pc me (K_save old x) (start_thread x s))
      | K_jump x \<Rightarrow> if th_running (uths s x) then Some s else Some (set_pc me (K_thread x) (start_thread x s)) | _ \<Rightarrow> Some s)
   | Release \<Rightarrow> (case pc s me of K_save old x \<Rightarrow> Some (set_pc me (K_thread x) (release_stack old s)) | _ \<Rightarrow> Some s)
   | Resume env \<Rightarrow> (case pc s me of
        K_idle \<Rightarrow> sched_call me env (schedule_resume me env) s | _ \<Rightarrow> Some s)
   | Cede h \<Rightarrow> (case pc s me of
        K_thread th \<Rightarrow> Some (set_pc me K_ceded (if h then thread_cede_hard me th s else thread_finish_cede me th s)) | _ \<Rightarrow> Some s)
   | Uncede now env \<Rightarrow> (case pc s me of
        K_ceded \<Rightarrow> sched_call me env (thread_after_cede me env now) s | _ \<Rightarrow> Some s)
   | Spawn x \<Rightarrow> (case pc s me of
        K_thread th \<Rightarrow> if x \<in> alive s then Some s
          else Some (set_pc me (K_wake th [x]) ((thread_create me x s)\<lparr>alive := insert x (alive s)\<rparr>)) | _ \<Rightarrow> Some s)
   | Exit env \<Rightarrow> (case pc s me of
        K_thread th \<Rightarrow> if main_thread (uths s th) then Some s
          else sched_call me env (\<lambda>s. thread_finish_exit me env (s\<lparr>alive := alive s - {th}\<rparr>)) s | _ \<Rightarrow> Some s)
   | Boot now env \<Rightarrow> (case pc s me of
        K_start \<Rightarrow> sched_call me env (schedule_start me env now) s | _ \<Rightarrow> Some s))"

inductive rt_reach :: "rsys \<Rightarrow> rsys \<Rightarrow> bool" where
  rt_refl: "rt_reach s s"
| rt_step: "rt_reach s0 s \<Longrightarrow> me < nrks s \<Longrightarrow> exec me a s = Some s' \<Longrightarrow> rt_reach s0 s'"

end
