(* ===== verification/Uthread_Inv.thy ===== *)
theory Uthread_Inv
  imports Uthread
begin

text \<open>
  What the scheduler of user threads keeps, whatever the kthreads do in whatever order: every live
  thread is in exactly one place (running, in one run queue, on one list of waiters, or in the hands of
  one kthread), its flags say where it is, no two kthreads are on one stack, and kthreads that wait for
  each other's stacks never wait in a circle.
\<close>

section \<open>Places\<close>

text \<open>
  A thread that has given up its turn (\<open>K_leave\<close>) is not the kthread's any more: it is on a list of
  waiters, or some kthread has it already.
\<close>

primrec pc_own :: "kpc \<Rightarrow> nat list" where
  "pc_own K_start = []"
| "pc_own (K_thread th) = [th]"
| "pc_own (K_wake th xs) = th # xs"
| "pc_own (K_push th x t xs) = (if x = th then [] else [th]) @ x # xs"
| "pc_own (K_count th x b xs) = (if x = th then [] else [th]) @ xs"
| "pc_own (K_leave th) = []"
| "pc_own (K_switch old x) = [x]"
| "pc_own (K_save old x) = [x]"
| "pc_own K_sched = []"
| "pc_own (K_jump x) = [x]"
| "pc_own K_idle = []"
| "pc_own K_ceded = []"

text \<open>The threads whose stacks the kthread is on.\<close>

primrec pc_stack :: "kpc \<Rightarrow> nat list" where
  "pc_stack K_start = []"
| "pc_stack (K_thread th) = [th]"
| "pc_stack (K_wake th xs) = [th]"
| "pc_stack (K_push th x t xs) = [th]"
| "pc_stack (K_count th x b xs) = [th]"
| "pc_stack (K_leave th) = [th]"
| "pc_stack (K_switch old x) = [old]"
| "pc_stack (K_save old x) = [old, x]"
| "pc_stack K_sched = []"
| "pc_stack (K_jump x) = []"
| "pc_stack K_idle = []"
| "pc_stack K_ceded = []"

text \<open>The thread that the kthread is leaving.\<close>

primrec pc_left :: "kpc \<Rightarrow> nat option" where
  "pc_left K_start = None"
| "pc_left (K_thread th) = None"
| "pc_left (K_wake th xs) = None"
| "pc_left (K_push th x t xs) = (if x = th then Some th else None)"
| "pc_left (K_count th x b xs) = (if x = th then Some th else None)"
| "pc_left (K_leave th) = Some th"
| "pc_left (K_switch old x) = Some old"
| "pc_left (K_save old x) = Some old"
| "pc_left K_sched = None"
| "pc_left (K_jump x) = None"
| "pc_left K_idle = None"
| "pc_left K_ceded = None"

text \<open>The value of \<^verbatim>\<open>__self\<close>.\<close>

primrec pc_self :: "kpc \<Rightarrow> nat option" where
  "pc_self K_start = None"
| "pc_self (K_thread th) = Some th"
| "pc_self (K_wake th xs) = Some th"
| "pc_self (K_push th x t xs) = Some th"
| "pc_self (K_count th x b xs) = Some th"
| "pc_self (K_leave th) = Some th"
| "pc_self (K_switch old x) = Some x"
| "pc_self (K_save old x) = Some x"
| "pc_self K_sched = None"
| "pc_self (K_jump x) = Some x"
| "pc_self K_idle = None"
| "pc_self K_ceded = None"

text \<open>A thread that is marked ready but not stored yet, and threads stored but not counted.\<close>

definition pc_ready :: "kpc \<Rightarrow> nat option" where
  "pc_ready p = (case p of K_push th x t xs \<Rightarrow> Some x | _ \<Rightarrow> None)"

definition pc_debt :: "kpc \<Rightarrow> nat" where
  "pc_debt p = (case p of K_count th x b xs \<Rightarrow> 1 | _ \<Rightarrow> 0)"

definition si_idle :: "rkt \<Rightarrow> nat list" where
  "si_idle k = map (si_thread k) (filter (\<lambda>i. \<not> si_busy k i) [SI_iokernel, SI_directpath, SI_cxltp, SI_timer, SI_storage])"

text \<open>Kthread \<open>k\<close> is place \<open>Inl k\<close>, the list of waiters \<open>w\<close> is place \<open>Inr w\<close>.\<close>

definition place :: "rsys \<Rightarrow> nat + nat \<Rightarrow> nat multiset" where
  "place s x = (case x of
     Inl k \<Rightarrow> if k < nrks s then mset (runq (kts s k)) + mset (si_idle (kts s k)) + mset (pc_own (pc s k)) else {#}
   | Inr w \<Rightarrow> mset (waitq s w))"

definition uniq :: "('p \<Rightarrow> 'a multiset) \<Rightarrow> bool" where
  "uniq M \<longleftrightarrow> (\<forall>x a. count (M x) a \<le> 1) \<and> (\<forall>x y a. a \<in># M x \<longrightarrow> a \<in># M y \<longrightarrow> x = y)"

definition placed :: "rsys \<Rightarrow> bool" where
  "placed s \<longleftrightarrow> uniq (place s) \<and> (\<forall>th. th \<in> alive s \<longleftrightarrow> (\<exists>x. th \<in># place s x))"

lemma uniqD: "uniq M \<Longrightarrow> a \<in># M x \<Longrightarrow> a \<in># M y \<Longrightarrow> x = y"
  by (simp add: uniq_def)

lemma uniq_count: "uniq M \<Longrightarrow> count (M x) a \<le> 1"
  by (simp add: uniq_def)

lemma placed_same:
  assumes "placed s" "\<And>x. place s' x = place s x" "alive s' = alive s"
  shows "placed s'"
  using assms by (auto simp: placed_def uniq_def)

lemma placed_move:
  assumes p: "placed s" and "x \<noteq> y" and x: "place s x = place s' x + N" and y: "place s' y = place s y + N"
    and z: "\<And>z. z \<noteq> x \<Longrightarrow> z \<noteq> y \<Longrightarrow> place s' z = place s z" and al: "alive s' = alive s"
  shows "placed s'"
proof -
  have u: "uniq (place s)" using p by (simp add: placed_def)
  have N: "a \<notin># place s y" "a \<notin># place s' x" "count N a \<le> 1" if "a \<in># N" for a
  proof -
    show "a \<notin># place s y" using uniqD [OF u, of a x y] that x \<open>x \<noteq> y\<close> by auto
    have "count (place s' x) a + count N a \<le> 1" using uniq_count [OF u, of x a] x by simp
    moreover have "count N a \<ge> 1" using that by (simp add: Suc_le_eq)
    ultimately have "count (place s' x) a = 0" "count N a \<le> 1" by linarith+
    then show "a \<notin># place s' x" "count N a \<le> 1" by (simp_all add: not_in_iff)
  qed
  have loc: "a \<in># place s' z \<longleftrightarrow> (if a \<in># N then z = y else a \<in># place s z)" for a z
  proof (cases "a \<in># N")
    case True
    then show ?thesis using N [OF True] x y z [of z] uniqD [OF u, of a x z] by (cases "z = y"; cases "z = x") auto
  next
    case False
    then show ?thesis using x y z [of z] by (cases "z = y"; cases "z = x") auto
  qed
  have "count (place s' z) a \<le> 1" for a z
  proof (cases "z = y")
    case True
    then show ?thesis using y uniq_count [OF u, of y a] N [of a] by (cases "a \<in># N") (auto simp: not_in_iff)
  next
    case False
    then show ?thesis using x z [of z] uniq_count [OF u, of z a] by (cases "z = x") (auto intro: order_trans [rotated])
  qed
  moreover have "z = z'" if "a \<in># place s' z" "a \<in># place s' z'" for a z z'
    using that uniqD [OF u, of a z z'] by (auto simp: loc split: if_splits)
  ultimately have "uniq (place s')" by (simp add: uniq_def)
  moreover have "a \<in> alive s \<longleftrightarrow> (\<exists>z. a \<in># place s' z)" for a
  proof -
    have "a \<in># N \<Longrightarrow> a \<in># place s x" using x by simp
    then show ?thesis using p by (cases "a \<in># N") (simp_all add: placed_def loc, blast)
  qed
  ultimately show ?thesis using al by (simp add: placed_def)
qed

lemma placed_add:
  assumes p: "placed s" and a: "a \<notin> alive s" and x: "place s' x = add_mset a (place s x)"
    and z: "\<And>z. z \<noteq> x \<Longrightarrow> place s' z = place s z" and al: "alive s' = insert a (alive s)"
  shows "placed s'"
proof -
  have u: "uniq (place s)" and n: "\<And>z. a \<notin># place s z" using p a by (auto simp: placed_def)
  have loc: "b \<in># place s' z \<longleftrightarrow> (if b = a then z = x else b \<in># place s z)" for b z
    using x z [of z] n by (cases "z = x") auto
  have "count (place s' z) b \<le> 1" for b z
    using x z [of z] uniq_count [OF u, of z b] n [of z] by (cases "z = x") (auto simp: not_in_iff)
  moreover have "z = z'" if "b \<in># place s' z" "b \<in># place s' z'" for b z z'
    using that uniqD [OF u, of b z z'] by (auto simp: loc split: if_splits)
  ultimately have "uniq (place s')" by (simp add: uniq_def)
  then show ?thesis using p al by (auto simp: placed_def loc)
qed

lemma placed_del:
  assumes p: "placed s" and x: "place s x = add_mset a (place s' x)"
    and z: "\<And>z. z \<noteq> x \<Longrightarrow> place s' z = place s z" and al: "alive s' = alive s - {a}"
  shows "placed s'"
proof -
  have u: "uniq (place s)" using p by (simp add: placed_def)
  have a: "a \<notin># place s' x" using uniq_count [OF u, of x a] x by (simp add: not_in_iff)
  have az: "a \<notin># place s z" if "z \<noteq> x" for z using uniqD [OF u, of a x z] x that by auto
  have loc: "b \<in># place s' z \<longleftrightarrow> b \<noteq> a \<and> b \<in># place s z" for b z
    using x z [of z] a az [of z] by (cases "z = x") auto
  have "count (place s' z) b \<le> 1" for b z
    using x z [of z] uniq_count [OF u, of z b] by (cases "z = x") (auto split: if_splits)
  then have "uniq (place s')" using u unfolding uniq_def loc by blast
  then show ?thesis using p al by (auto simp: placed_def loc)
qed

section \<open>The invariant\<close>

definition rdy :: "rsys \<Rightarrow> nat \<Rightarrow> bool" where
  "rdy s th \<longleftrightarrow> (\<exists>k < nrks s. th \<in> set (runq (kts s k)) \<or> pc_ready (pc s k) = Some th)"

definition ready_ok :: "rsys \<Rightarrow> bool" where
  "ready_ok s \<longleftrightarrow> (\<forall>th \<in> alive s. th_ready (uths s th) \<longleftrightarrow> rdy s th)"

definition running_ok :: "rsys \<Rightarrow> bool" where
  "running_ok s \<longleftrightarrow>
     (\<forall>th \<in> alive s. th_running (uths s th) \<longleftrightarrow> (\<exists>k < nrks s. th \<in> set (pc_stack (pc s k)))) \<and>
     (\<forall>k < nrks s. set (pc_stack (pc s k)) \<subseteq> alive s) \<and>
     (\<forall>j < nrks s. \<forall>k < nrks s. \<forall>th. th \<in> set (pc_stack (pc s j)) \<longrightarrow> th \<in> set (pc_stack (pc s k)) \<longrightarrow> j = k)"

definition pc_ok :: "kpc \<Rightarrow> rkt \<Rightarrow> bool" where
  "pc_ok p k \<longleftrightarrow> (case p of
     K_push th x t xs \<Rightarrow> ring_len k \<le> unat (k_rq_head k - t) \<and> (x = th \<longrightarrow> xs = [])
   | K_count th x b xs \<Rightarrow> x = th \<longrightarrow> xs = []
   | K_switch old x \<Rightarrow> old \<noteq> x
   | K_save old x \<Rightarrow> old \<noteq> x
   | K_idle \<Rightarrow> runq k = []
   | _ \<Rightarrow> True)"

definition rqs_ok :: "rsys \<Rightarrow> bool" where
  "rqs_ok s \<longleftrightarrow> (\<forall>k < nrks s. rq_ok (pc_debt (pc s k)) (kts s k) \<and> pc_ok (pc s k) (kts s k) \<and>
     my_self (kts s k) = pc_self (pc s k))"

text \<open>Kthread \<open>j\<close> has a thread that kthread \<open>k\<close> is still leaving.\<close>

definition waits :: "rsys \<Rightarrow> nat rel" where
  "waits s = {(j, k). j < nrks s \<and> k < nrks s \<and> j \<noteq> k \<and>
     (\<exists>th. pc_left (pc s k) = Some th \<and> (th \<in> set (runq (kts s j)) \<or> th \<in> set (pc_own (pc s j))))}"

definition rt_inv :: "rsys \<Rightarrow> bool" where
  "rt_inv s \<longleftrightarrow> placed s \<and> ready_ok s \<and> running_ok s \<and> rqs_ok s \<and> acyclic (waits s)"

text \<open>New edges leave only a kthread that no other waits for.\<close>

lemma acyclic_source:
  assumes "acyclic W" "\<And>j k. (j, k) \<in> W' \<Longrightarrow> (j, k) \<in> W \<or> j = m" "\<And>j. (j, m) \<notin> W'"
  shows "acyclic W'"
proof -
  have "x = m \<or> (x, y) \<in> W\<^sup>+" if "(x, y) \<in> W'\<^sup>+" for x y
    using that
  proof (induction rule: trancl_induct)
    case (base y)
    then show ?case using assms(2) by blast
  next
    case (step y z)
    have "y \<noteq> m" using step(1) assms(3) by (metis tranclE)
    then show ?case using step assms(2) [of y z] by (auto intro: trancl_into_trancl)
  qed
  moreover have "(m, m) \<notin> W'\<^sup>+" using assms(3) by (metis tranclE)
  ultimately show ?thesis using assms(1) unfolding acyclic_def by metis
qed

text \<open>A thread is in one place only.\<close>

lemma placed_at:
  assumes "placed s" "k < nrks s" "j < nrks s"
    "th \<in> set (runq (kts s k)) \<or> th \<in> set (si_idle (kts s k)) \<or> th \<in> set (pc_own (pc s k))"
    "th \<in> set (runq (kts s j)) \<or> th \<in> set (si_idle (kts s j)) \<or> th \<in> set (pc_own (pc s j))"
  shows "j = k"
proof -
  have "th \<in># place s (Inl k)" "th \<in># place s (Inl j)" using assms(2-5) by (auto simp: place_def)
  with assms(1) show ?thesis using uniqD [of "place s" th "Inl k" "Inl j"] by (simp add: placed_def)
qed

lemma placed_alive:
  assumes "placed s" "k < nrks s" "th \<in> set (runq (kts s k)) \<or> th \<in> set (si_idle (kts s k)) \<or> th \<in> set (pc_own (pc s k))"
  shows "th \<in> alive s"
proof -
  have "th \<in># place s (Inl k)" using assms(2,3) by (auto simp: place_def)
  with assms(1) show ?thesis by (auto simp: placed_def)
qed

lemma placed_once:
  assumes "placed s" "k < nrks s"
  shows "distinct (runq (kts s k) @ si_idle (kts s k) @ pc_own (pc s k))"
proof -
  have "count (mset (runq (kts s k) @ si_idle (kts s k) @ pc_own (pc s k))) a \<le> 1" for a
    using uniq_count [of "place s" "Inl k" a] assms by (simp add: placed_def place_def add.assoc)
  then show ?thesis unfolding distinct_count_atmost_1 by (metis count_greater_eq_one_iff count_inI le_antisym set_mset_mset)
qed

section \<open>Steps of one kthread\<close>

lemma upd_simps [simp]:
  "kts (upd_k k f s) = (kts s)(k := f (kts s k))" "uths (upd_k k f s) = uths s" "nrks (upd_k k f s) = nrks s"
  "rt.more (upd_k k f s) = rt.more s"
  "kts (upd_th th g s) = kts s" "uths (upd_th th g s) = (uths s)(th := g (uths s th))" "nrks (upd_th th g s) = nrks s"
  "rt.more (upd_th th g s) = rt.more s"
  by (simp_all add: upd_k_def upd_th_def)

lemma upd_rsys [simp]:
  "pc (upd_k k f s) = pc s" "waitq (upd_k k f s) = waitq s" "alive (upd_k k f s) = alive s"
  "pc (upd_th th g s) = pc s" "waitq (upd_th th g s) = waitq s" "alive (upd_th th g s) = alive s"
  by (simp_all add: upd_k_def upd_th_def)

lemma set_pc_simps [simp]:
  "pc (set_pc me p s) = (pc s)(me := p)" "kts (set_pc me p s) = kts s" "uths (set_pc me p s) = uths s" "nrks (set_pc me p s) = nrks s"
  "waitq (set_pc me p s) = waitq s" "alive (set_pc me p s) = alive s"
  by (simp_all add: set_pc_def)

text \<open>The threads that a kthread's own ready ones are.\<close>

definition own_rdy :: "rkt \<Rightarrow> kpc \<Rightarrow> nat set" where
  "own_rdy k p = set (runq k) \<union> set_option (pc_ready p)"

lemma pc_ready_own: "pc_ready p = Some th \<Longrightarrow> th \<in> set (pc_own p)"
  by (cases p) (auto simp: pc_ready_def)

lemma ready_local:
  assumes ok: "ready_ok s" "placed s" "me < nrks s" and n: "nrks s' = nrks s" "alive s' \<subseteq> alive s"
    and others: "\<And>k. k < nrks s \<Longrightarrow> k \<noteq> me \<Longrightarrow> runq (kts s' k) = runq (kts s k) \<and> pc s' k = pc s k"
    and flags: "\<And>th. th \<in> alive s' \<Longrightarrow> th_ready (uths s' th) \<longleftrightarrow>
      th \<in> own_rdy (kts s' me) (pc s' me) \<or> th_ready (uths s th) \<and> th \<notin> own_rdy (kts s me) (pc s me)"
  shows "ready_ok s'"
  unfolding ready_ok_def
proof
  fix th assume th: "th \<in> alive s'"
  then have r: "th_ready (uths s th) \<longleftrightarrow> rdy s th" using ok(1) n(2) by (auto simp: ready_ok_def)
  let ?o = "\<exists>k < nrks s. k \<noteq> me \<and> (th \<in> set (runq (kts s k)) \<or> pc_ready (pc s k) = Some th)"
  have "rdy s th \<longleftrightarrow> th \<in> own_rdy (kts s me) (pc s me) \<or> ?o" using ok(3) by (auto simp: rdy_def own_rdy_def)
  moreover have "rdy s' th \<longleftrightarrow> th \<in> own_rdy (kts s' me) (pc s' me) \<or> ?o"
    unfolding rdy_def own_rdy_def n(1) using ok(3) others by (metis Un_iff elem_set)
  moreover have "\<not> ?o" if "th \<in> own_rdy (kts s me) (pc s me)"
    using that placed_at [OF ok(2,3), of _ th] pc_ready_own by (fastforce simp: own_rdy_def)
  ultimately show "th_ready (uths s' th) \<longleftrightarrow> rdy s' th" using flags [OF th] r by blast
qed

lemma running_local:
  assumes ok: "running_ok s" "me < nrks s" and n: "nrks s' = nrks s"
    and al: "\<And>th. th \<in> alive s' \<Longrightarrow> th \<notin> alive s \<Longrightarrow> \<not> th_running (uths s' th)"
      "\<And>th. th \<in> alive s \<Longrightarrow> th \<notin> alive s' \<Longrightarrow> th \<in> set (pc_stack (pc s me))"
    and others: "\<And>k. k < nrks s \<Longrightarrow> k \<noteq> me \<Longrightarrow> pc s' k = pc s k"
    and sub: "\<And>th. th \<in> set (pc_stack (pc s' me)) \<Longrightarrow> th \<in> alive s \<and> th \<in> alive s' \<and> (th \<in> set (pc_stack (pc s me)) \<or> \<not> th_running (uths s th))"
    and flags: "\<And>th. th \<in> alive s \<Longrightarrow> th \<in> alive s' \<Longrightarrow> th_running (uths s' th) \<longleftrightarrow>
      th \<in> set (pc_stack (pc s' me)) \<or> th_running (uths s th) \<and> th \<notin> set (pc_stack (pc s me))"
  shows "running_ok s'"
proof -
  let ?S = "\<lambda>k. set (pc_stack (pc s k))"
  have run: "\<And>th. th \<in> alive s \<Longrightarrow> th_running (uths s th) \<longleftrightarrow> (\<exists>k < nrks s. th \<in> ?S k)" and st: "\<And>k. k < nrks s \<Longrightarrow> ?S k \<subseteq> alive s"
    and dis: "\<And>j k th. j < nrks s \<Longrightarrow> k < nrks s \<Longrightarrow> th \<in> ?S j \<Longrightarrow> th \<in> ?S k \<Longrightarrow> j = k"
    using ok(1) unfolding running_ok_def by blast+
  have keep: "th \<in> alive s'" if "k < nrks s" "k \<noteq> me" "th \<in> ?S k" for k th
    using al(2) [of th] dis [of k me th] st [of k] that ok(2) by blast
  have new: "th \<notin> ?S k" if "th \<in> set (pc_stack (pc s' me))" "k < nrks s" "k \<noteq> me" for k th
    using sub [OF that(1)] dis [of k me th] run [of th] that ok(2) by blast
  have "th_running (uths s' th) \<longleftrightarrow> (\<exists>k < nrks s. th \<in> set (pc_stack (pc s' k)))" if th: "th \<in> alive s'" for th
  proof (cases "th \<in> alive s")
    case True
    have "(\<exists>k < nrks s. th \<in> set (pc_stack (pc s' k))) \<longleftrightarrow> th \<in> set (pc_stack (pc s' me)) \<or> (\<exists>k < nrks s. k \<noteq> me \<and> th \<in> ?S k)"
      using others ok(2) by metis
    moreover have "(\<exists>k < nrks s. k \<noteq> me \<and> th \<in> ?S k) \<longleftrightarrow> th_running (uths s th) \<and> th \<notin> ?S me"
      using run [OF True] dis [of _ me th] ok(2) by blast
    ultimately show ?thesis using flags [OF True th] by blast
  next
    case False
    then show ?thesis using al(1) [OF th] others sub st by (metis subsetD)
  qed
  moreover have "set (pc_stack (pc s' k)) \<subseteq> alive s'" if "k < nrks s" for k
    using sub others [OF that] keep [OF that] by (cases "k = me") auto
  moreover have "j = k" if "j < nrks s" "k < nrks s" "th \<in> set (pc_stack (pc s' j))" "th \<in> set (pc_stack (pc s' k))" for j k th
    using that others [of j] others [of k] dis [of j k th] new [of th j] new [of th k] by (cases "j = me"; cases "k = me") auto
  ultimately show ?thesis unfolding running_ok_def n by blast
qed

lemma waits_local:
  assumes ok: "acyclic (waits s)" "me < nrks s" and n: "nrks s' = nrks s" and p: "placed s'"
    and others: "\<And>k. k < nrks s \<Longrightarrow> k \<noteq> me \<Longrightarrow> set (runq (kts s' k)) \<subseteq> set (runq (kts s k)) \<and> pc s' k = pc s k"
    and me: "pc_left (pc s' me) = None \<or>
      (pc_left (pc s' me) = pc_left (pc s me) \<or> set_option (pc_left (pc s' me)) \<inter> {th. \<exists>k < nrks s. k \<noteq> me \<and> (th \<in> set (runq (kts s' k)) \<or> th \<in> set (pc_own (pc s' k)))} = {}) \<and>
      set (runq (kts s' me)) \<union> set (pc_own (pc s' me)) \<subseteq> set (runq (kts s me)) \<union> set (pc_own (pc s me))"
  shows "acyclic (waits s')"
proof (cases "pc_left (pc s' me) = None")
  case True
  show ?thesis
  proof (rule acyclic_source [OF ok(1), where m = me])
    show "(j, k) \<in> waits s \<or> j = me" if "(j, k) \<in> waits s'" for j k
      using that n others [of j] others [of k] True by (cases "k = me"; cases "j = me") (auto simp: waits_def)
    show "(j, me) \<notin> waits s'" for j using True by (simp add: waits_def)
  qed
next
  case False
  with me have m: "pc_left (pc s' me) = pc_left (pc s me) \<or> set_option (pc_left (pc s' me)) \<inter> {th. \<exists>k < nrks s. k \<noteq> me \<and> (th \<in> set (runq (kts s' k)) \<or> th \<in> set (pc_own (pc s' k)))} = {}"
    "set (runq (kts s' me)) \<union> set (pc_own (pc s' me)) \<subseteq> set (runq (kts s me)) \<union> set (pc_own (pc s me))" by blast+
  have "(j, k) \<in> waits s" if w: "(j, k) \<in> waits s'" for j k
  proof -
    obtain th where th: "j < nrks s" "k < nrks s" "j \<noteq> k" "pc_left (pc s' k) = Some th"
      "th \<in> set (runq (kts s' j)) \<or> th \<in> set (pc_own (pc s' j))" using w n by (auto simp: waits_def)
    then have "pc_left (pc s k) = Some th" using th m(1) others [of k] by (cases "k = me") auto
    moreover have "th \<in> set (runq (kts s j)) \<or> th \<in> set (pc_own (pc s j))" using th m(2) others [of j] by (cases "j = me") auto
    ultimately show ?thesis using th by (auto simp: waits_def)
  qed
  then have "waits s' \<subseteq> waits s" by auto
  then show ?thesis by (rule acyclic_subset [OF ok(1)])
qed

lemma inv_local:
  assumes inv: "rt_inv s" and me: "me < nrks s" and fr: "nrks s' = nrks s" "alive s' = alive s" "waitq s' = waitq s"
    and others: "\<And>k. k \<noteq> me \<Longrightarrow> kts s' k = kts s k \<and> pc s' k = pc s k"
    and pl: "mset (runq (kts s' me)) + mset (si_idle (kts s' me)) + mset (pc_own (pc s' me)) =
      mset (runq (kts s me)) + mset (si_idle (kts s me)) + mset (pc_own (pc s me))"
    and rd: "\<And>th. th \<in> alive s \<Longrightarrow> th_ready (uths s' th) \<longleftrightarrow>
      th \<in> own_rdy (kts s' me) (pc s' me) \<or> th_ready (uths s th) \<and> th \<notin> own_rdy (kts s me) (pc s me)"
    and sub: "\<And>th. th \<in> set (pc_stack (pc s' me)) \<Longrightarrow> th \<in> alive s \<and> (th \<in> set (pc_stack (pc s me)) \<or> \<not> th_running (uths s th))"
    and rn: "\<And>th. th \<in> alive s \<Longrightarrow> th_running (uths s' th) \<longleftrightarrow>
      th \<in> set (pc_stack (pc s' me)) \<or> th_running (uths s th) \<and> th \<notin> set (pc_stack (pc s me))"
    and q: "rq_ok (pc_debt (pc s' me)) (kts s' me)" "pc_ok (pc s' me) (kts s' me)" "my_self (kts s' me) = pc_self (pc s' me)"
    and lf: "pc_left (pc s' me) = None \<or>
      (pc_left (pc s' me) = pc_left (pc s me) \<or> set_option (pc_left (pc s' me)) \<subseteq> set (pc_own (pc s' me))) \<and>
      set (runq (kts s' me)) \<union> set (pc_own (pc s' me)) \<subseteq> set (runq (kts s me)) \<union> set (pc_own (pc s me))"
  shows "rt_inv s'"
proof -
  have i: "placed s" "ready_ok s" "running_ok s" "rqs_ok s" "acyclic (waits s)" using inv by (simp_all add: rt_inv_def)
  have "place s' x = place s x" for x
    using pl me fr others by (cases x) (auto simp: place_def split: if_splits, metis)
  then have p: "placed s'" using placed_same [OF i(1)] fr by blast
  have "ready_ok s'" by (rule ready_local [OF i(2,1) me fr(1)]) (use others fr rd in auto)
  moreover have "running_ok s'" by (rule running_local [OF i(3) me fr(1)]) (use others fr sub rn in auto)
  moreover have "rqs_ok s'" unfolding rqs_ok_def fr(1)
    using i(4) others q by (metis rqs_ok_def)
  moreover have "set_option (pc_left (pc s' me)) \<inter> {th. \<exists>k < nrks s. k \<noteq> me \<and> (th \<in> set (runq (kts s' k)) \<or> th \<in> set (pc_own (pc s' k)))} = {}"
    if "set_option (pc_left (pc s' me)) \<subseteq> set (pc_own (pc s' me))"
  proof -
    have "k = me" if "th \<in> set (pc_own (pc s' me))" "k < nrks s" "th \<in> set (runq (kts s' k)) \<or> th \<in> set (pc_own (pc s' k))" for th k
      using placed_at [OF p, of me k th] that me fr(1) by auto
    with that show ?thesis by blast
  qed
  then have "acyclic (waits s')" by (intro waits_local [OF i(5) me fr(1) p]) (use others lf in auto)
  ultimately show ?thesis using p by (simp add: rt_inv_def)
qed

lemma invD:
  assumes "rt_inv s" "k < nrks s"
  shows "rq_ok (pc_debt (pc s k)) (kts s k)" "pc_ok (pc s k) (kts s k)" "my_self (kts s k) = pc_self (pc s k)"
    "set (pc_stack (pc s k)) \<subseteq> alive s" "set (pc_own (pc s k)) \<subseteq> alive s" "set (runq (kts s k)) \<subseteq> alive s"
    "distinct (runq (kts s k) @ si_idle (kts s k) @ pc_own (pc s k))"
    "\<And>th. th \<in> set (pc_stack (pc s k)) \<Longrightarrow> th_running (uths s th)"
    "\<And>th. th \<in> own_rdy (kts s k) (pc s k) \<Longrightarrow> th_ready (uths s th)"
proof -
  have i: "placed s" "ready_ok s" "running_ok s" "rqs_ok s" using assms by (simp_all add: rt_inv_def)
  show "rq_ok (pc_debt (pc s k)) (kts s k)" "pc_ok (pc s k) (kts s k)" "my_self (kts s k) = pc_self (pc s k)"
    using i(4) assms(2) by (simp_all add: rqs_ok_def)
  show st: "set (pc_stack (pc s k)) \<subseteq> alive s" using i(3) assms(2) by (simp add: running_ok_def)
  show own: "set (pc_own (pc s k)) \<subseteq> alive s" "set (runq (kts s k)) \<subseteq> alive s" using placed_alive [OF i(1) assms(2)] by auto
  show "distinct (runq (kts s k) @ si_idle (kts s k) @ pc_own (pc s k))" by (rule placed_once [OF i(1) assms(2)])
  show "th_running (uths s th)" if "th \<in> set (pc_stack (pc s k))" for th
    using i(3) st assms(2) that unfolding running_ok_def by blast
  show "th_ready (uths s th)" if "th \<in> own_rdy (kts s k) (pc s k)" for th
    using i(2) own assms(2) that pc_ready_own unfolding ready_ok_def rdy_def own_rdy_def by fastforce
qed

lemma not_ready:
  assumes inv: "rt_inv s" and k: "k < nrks s" and x: "x \<in> set (si_idle (kts s k)) \<or> x \<in> set (pc_own (pc s k))" "pc_ready (pc s k) \<noteq> Some x"
  shows "\<not> th_ready (uths s x)" "x \<in> alive s" "x \<notin> set (runq (kts s k))"
proof -
  have i: "placed s" "ready_ok s" using inv by (simp_all add: rt_inv_def)
  show al: "x \<in> alive s" using placed_alive [OF i(1) k] x by auto
  show r: "x \<notin> set (runq (kts s k))" using placed_once [OF i(1) k] x by auto
  have "\<not> rdy s x"
    using placed_at [OF i(1) k, of _ x] x r pc_ready_own unfolding rdy_def by blast
  with i(2) al show "\<not> th_ready (uths s x)" by (simp add: ready_ok_def)
qed

text \<open>The queue operations leave the rest of a kthread alone.\<close>

definition krest :: "rkt \<Rightarrow> (softirq \<Rightarrow> bool) \<times> (softirq \<Rightarrow> nat) \<times> nat option \<times> u32" where
  "krest k = (si_busy k, si_thread k, my_self k, k_rcu_gen k)"

lemma krest_idle: "krest k' = krest k \<Longrightarrow> si_idle k' = si_idle k \<and> my_self k' = my_self k"
  by (simp add: krest_def si_idle_def)

lemma drain_rest: "krest (drain_overflow k) = krest k"
proof (induction k rule: drain_overflow.induct)
  case (1 k)
  show ?case
  proof (cases "ring_len k < RUNTIME_RQ_SIZE \<and> rq_overflow k \<noteq> []")
    case True
    then obtain th ov where ov: "rq_overflow k = th # ov" by (auto simp: neq_Nil_conv)
    have "drain_overflow k = drain_overflow (ring_put th (k\<lparr>rq_overflow := ov\<rparr>))" using True ov by (subst drain_overflow.simps) simp
    with 1 [OF _ ov] True show ?thesis by (simp add: ring_put_def krest_def)
  next
    case False
    then have "drain_overflow k = k" by (subst drain_overflow.simps) (auto split: list.split)
    then show ?thesis by simp
  qed
qed

lemma oldest_rest: "krest (update_oldest_tsc ths k) = krest k"
  by (simp add: update_oldest_tsc_def krest_def)

lemma queue_krest:
  "krest (ring_put th k) = krest k" "krest (rq_count ths th b k) = krest k" "krest (ring_cut_in th k) = krest k"
  "krest (snd (rq_publish th t k)) = krest k" "krest (snd (rq_pop ths k)) = krest k"
proof -
  show "krest (snd (rq_pop ths k)) = krest k"
    by (simp add: rq_pop_def Let_def oldest_rest drain_rest) (simp add: krest_def)
qed (simp_all add: ring_put_def rq_count_def ring_cut_in_def rq_publish_def krest_def Let_def)

lemmas queue_rest [simp] = queue_krest [THEN krest_idle, THEN conjunct1] queue_krest [THEN krest_idle, THEN conjunct2]
  oldest_rest [THEN krest_idle, THEN conjunct1] oldest_rest [THEN krest_idle, THEN conjunct2]
  drain_rest [THEN krest_idle, THEN conjunct1] drain_rest [THEN krest_idle, THEN conjunct2]

section \<open>Waking a thread\<close>

lemma pc_simps [simp]:
  "pc_ready K_start = None" "pc_ready (K_thread th) = None" "pc_ready (K_wake th xs) = None" "pc_ready (K_push th x t xs) = Some x"
  "pc_ready (K_count th x b xs) = None" "pc_ready (K_leave th) = None" "pc_ready (K_switch old x) = None" "pc_ready (K_save old x) = None"
  "pc_ready K_sched = None" "pc_ready (K_jump x) = None" "pc_ready K_idle = None" "pc_ready K_ceded = None"
  "pc_debt K_start = 0" "pc_debt (K_thread th) = 0" "pc_debt (K_wake th xs) = 0" "pc_debt (K_push th x t xs) = 0"
  "pc_debt (K_count th x b xs) = Suc 0" "pc_debt (K_leave th) = 0" "pc_debt (K_switch old x) = 0" "pc_debt (K_save old x) = 0"
  "pc_debt K_sched = 0" "pc_debt (K_jump x) = 0" "pc_debt K_idle = 0" "pc_debt K_ceded = 0"
  "pc_ok K_start k" "pc_ok (K_thread th) k" "pc_ok (K_wake th xs) k" "pc_ok (K_leave th) k" "pc_ok (K_switch old x) k \<longleftrightarrow> old \<noteq> x" "pc_ok (K_save old x) k \<longleftrightarrow> old \<noteq> x"
  "pc_ok K_sched k" "pc_ok (K_jump x) k" "pc_ok K_ceded k" "pc_ok K_idle k \<longleftrightarrow> runq k = []"
  "pc_ok (K_push th x t xs) k \<longleftrightarrow> ring_len k \<le> unat (k_rq_head k - t) \<and> (x = th \<longrightarrow> xs = [])"
  "pc_ok (K_count th x b xs) k \<longleftrightarrow> (x = th \<longrightarrow> xs = [])"
  by (simp_all add: pc_ready_def pc_debt_def pc_ok_def)

lemma wake_end_inv:
  assumes inv: "rt_inv s" and me: "me < nrks s" and p: "pc s me = K_wake th []"
  shows "rt_inv (set_pc me (K_thread th) s)"
  by (rule inv_local [OF inv me]) (use invD [OF inv me] p in \<open>auto simp: own_rdy_def\<close>)

lemma wake_begin_inv:
  assumes inv: "rt_inv s" and me: "me < nrks s" and p: "pc s me = K_wake th (x # xs)"
  shows "\<exists>t s'. thread_ready_begin me x now s = Some (t, s') \<and> rt_inv (set_pc me (K_push th x t xs) s')"
proof -
  have x: "\<not> th_ready (uths s x)" "x \<in> alive s" "x \<notin> set (runq (kts s me))" using not_ready [OF inv me, of x] p by simp_all
  have "x \<noteq> th" using invD(7) [OF inv me] p by auto
  let ?s = "upd_th x (\<lambda>t. t\<lparr>th_ready := True, ready_tsc := now\<rparr>) s"
  have "rt_inv (set_pc me (K_push th x (k_rq_tail (kts s me)) xs) ?s)"
    by (rule inv_local [OF inv me]) (use invD [OF inv me] p \<open>x \<noteq> th\<close> x in \<open>auto simp: own_rdy_def\<close>)
  then show ?thesis using x by (simp add: thread_ready_begin_def thread_ready_prepare_def)
qed

lemma yield_begin_inv:
  assumes inv: "rt_inv s" and me: "me < nrks s" and p: "pc s me = K_thread th"
  shows "\<exists>t s'. thread_ready_begin me th now (upd_th th (\<lambda>t. t\<lparr>th_ready := False\<rparr>) s) = Some (t, s') \<and> rt_inv (set_pc me (K_push th th t []) s')"
proof -
  have x: "\<not> th_ready (uths s th)" "th \<in> alive s" "th \<notin> set (runq (kts s me))" using not_ready [OF inv me, of th] p by simp_all
  let ?s = "upd_th th (\<lambda>t. t\<lparr>th_ready := True, ready_tsc := now\<rparr>) (upd_th th (\<lambda>t. t\<lparr>th_ready := False\<rparr>) s)"
  have "rt_inv (set_pc me (K_push th th (k_rq_tail (kts s me)) []) ?s)"
    by (rule inv_local [OF inv me]) (use invD [OF inv me] p x in \<open>auto simp: own_rdy_def\<close>)
  then show ?thesis by (simp add: thread_ready_begin_def thread_ready_prepare_def)
qed

lemma publish_inv:
  assumes inv: "rt_inv s" and me: "me < nrks s" and p: "pc s me = K_push th x t xs" and e: "thread_ready_publish me x t s = (b, s')"
  shows "rt_inv (set_pc me (K_count th x b xs) s')"
proof -
  obtain k where k: "rq_publish x t (kts s me) = (b, k)" "s' = upd_k me (\<lambda>_. k) s" using e by (auto simp: thread_ready_publish_def split: prod.splits)
  have rest: "si_idle k = si_idle (kts s me)" "my_self k = my_self (kts s me)" using queue_rest(4,9) [of x t "kts s me"] k(1) by simp_all
  have q: "mset (runq k) = add_mset x (mset (runq (kts s me)))" "rq_ok (Suc 0) k"
    using rq_publish_runq [OF _ _ k(1)] invD(1,2) [OF inv me] p by simp_all
  have r: "set (runq k) = insert x (set (runq (kts s me)))" using q(1) by (metis set_mset_add_mset_insert set_mset_mset)
  show ?thesis
    by (rule inv_local [OF inv me]) (use invD [OF inv me] p k(2) q r rest in \<open>auto simp: own_rdy_def\<close>)
qed

lemma count_inv:
  assumes inv: "rt_inv s" and me: "me < nrks s" and p: "pc s me = K_count th x b xs"
  shows "rt_inv (set_pc me (if x = th then K_leave th else K_wake th xs) (thread_ready_count me x b s))"
proof -
  let ?k = "rq_count (uths s) x b (kts s me)"
  have q: "runq ?k = runq (kts s me)" "rq_ok 0 ?k" using rq_count_runq invD(1) [OF inv me] p by simp_all
  show ?thesis
    by (rule inv_local [OF inv me]) (use invD [OF inv me] p q in \<open>auto simp: own_rdy_def thread_ready_count_def split: if_splits\<close>)
qed

text \<open>At the head of the queue.\<close>

lemma ready_head_shape:
  assumes "\<not> th_ready (uths s x)" "rq_ok d (kts s me)"
  shows "\<exists>s'. thread_ready_head_locked me x now s = Some s' \<and> nrks s' = nrks s \<and> rt.more s' = rt.more s \<and>
    (\<forall>k. k \<noteq> me \<longrightarrow> kts s' k = kts s k) \<and> runq (kts s' me) = x # runq (kts s me) \<and> rq_ok d (kts s' me) \<and> 0 < ring_len (kts s' me) \<and>
    krest (kts s' me) = krest (kts s me) \<and> (packed (kts s me) \<longrightarrow> packed (kts s' me)) \<and>
    (\<forall>th. th_ready (uths s' th) = (th = x \<or> th_ready (uths s th)) \<and> th_running (uths s' th) = th_running (uths s th))"
proof -
  have r: "ring_len (kts s me) \<le> 32" using assms(2) by (simp add: rq_ok_def RUNTIME_RQ_SIZE_def)
  note c = cut_in_runq [OF r, of x]
  let ?k = "ring_cut_in x (kts s me)"
  have "rq_ok d (?k\<lparr>k_qp := (k_qp ?k)\<lparr>oldest_tsc := o', rq_head := rq_head (k_qp ?k) + 1\<rparr>\<rparr>)" for o'
    using c assms(2) by (simp add: rq_ok_def RUNTIME_RQ_SIZE_def runq_qp algebra_simps)
  moreover have "krest (?k\<lparr>k_qp := q\<rparr>) = krest (kts s me)" for q using queue_krest(3) [of x "kts s me"] by (simp add: krest_def)
  moreover have "packed (?k\<lparr>k_qp := q\<rparr>) = packed ?k" for q by (simp add: packed_def)
  ultimately show ?thesis using assms(1) c by (simp add: thread_ready_head_locked_def thread_ready_prepare_def Let_def runq_qp)
qed

lemma ready_head_eq: "thread_ready_head me x now s = thread_ready_head_locked me x now s"
  by (simp add: thread_ready_head_def thread_ready_head_locked_def)

lemma rsys_more:
  assumes "rt.more s' = rt.more s"
  shows "pc s' = pc s" "waitq s' = waitq s" "alive s' = alive s"
  using assms by (cases s; cases s'; simp)+

lemma wake_head_inv:
  assumes inv: "rt_inv s" and me: "me < nrks s" and p: "pc s me = K_wake th (x # xs)"
  shows "\<exists>s'. thread_ready_head me x now s = Some s' \<and> rt_inv (set_pc me (K_wake th xs) s') \<and> nrks s' = nrks s \<and> pc s' = pc s"
proof -
  have x: "\<not> th_ready (uths s x)" "x \<in> alive s" "x \<notin> set (runq (kts s me))" using not_ready [OF inv me, of x] p by simp_all
  have "rq_ok 0 (kts s me)" using invD(1) [OF inv me] p by simp
  from ready_head_shape [OF x(1) this, of now] obtain s' where s': "thread_ready_head_locked me x now s = Some s'" "nrks s' = nrks s" "rt.more s' = rt.more s"
    "\<And>k. k \<noteq> me \<Longrightarrow> kts s' k = kts s k" "runq (kts s' me) = x # runq (kts s me)" "rq_ok 0 (kts s' me)" "krest (kts s' me) = krest (kts s me)"
    "\<And>th. th_ready (uths s' th) = (th = x \<or> th_ready (uths s th))" "\<And>th. th_running (uths s' th) = th_running (uths s th)" by blast
  note rest = krest_idle [OF s'(7)] rsys_more [OF s'(3)]
  have "rt_inv (set_pc me (K_wake th xs) s')"
    by (rule inv_local [OF inv me]) (use invD [OF inv me] p x s'(2,4,5,6,8,9) rest in \<open>auto simp: own_rdy_def\<close>)
  with s'(1,2) rest show ?thesis by (simp add: ready_head_eq)
qed

section \<open>Softirqs\<close>

lemma si_idle_busy:
  assumes "\<not> si_busy k i"
  shows "mset (si_idle k) = add_mset (si_thread k i) (mset (si_idle (k\<lparr>si_busy := (si_busy k)(i := True)\<rparr>)))"
  using assms by (cases i) (simp_all add: si_idle_def)

lemma si_busy_frame [simp]:
  "runq (k\<lparr>si_busy := b\<rparr>) = runq k" "rq_ok d (k\<lparr>si_busy := b\<rparr>) = rq_ok d k" "pc_ok p (k\<lparr>si_busy := b\<rparr>) = pc_ok p k"
  "own_rdy (k\<lparr>si_busy := b\<rparr>) p = own_rdy k p"
proof -
  show r: "runq (k\<lparr>si_busy := b\<rparr>) = runq k" by (simp add: runq_def)
  show "rq_ok d (k\<lparr>si_busy := b\<rparr>) = rq_ok d k" "own_rdy (k\<lparr>si_busy := b\<rparr>) p = own_rdy k p" by (simp_all add: rq_ok_def own_rdy_def r)
  show "pc_ok p (k\<lparr>si_busy := b\<rparr>) = pc_ok p k" by (cases p) (simp_all add: r)
qed

definition in_turn :: "kpc \<Rightarrow> bool" where
  "in_turn p \<longleftrightarrow> p = K_sched \<or> (\<exists>th. p = K_thread th)"

lemma in_turn_simps [simp]: "in_turn p \<Longrightarrow> pc_left p = None" "in_turn p \<Longrightarrow> pc_ready p = None" "in_turn p \<Longrightarrow> pc_debt p = 0" "in_turn p \<Longrightarrow> pc_ok p k"
  by (auto simp: in_turn_def)

lemma softirq_one_inv:
  assumes inv: "rt_inv s" and me: "me < nrks s" "in_turn (pc s me)" and k: "k < nrks s" "\<not> si_busy (kts s k) i"
  shows "\<exists>s'. thread_ready_head_locked me (si_thread (kts s k) i) now (upd_k k (\<lambda>x. x\<lparr>si_busy := (si_busy x)(i := True)\<rparr>) s) = Some s' \<and>
    rt_inv s' \<and> nrks s' = nrks s \<and> rt.more s' = rt.more s \<and> 0 < ring_len (kts s' me)"
proof -
  define s1 where "s1 = upd_k k (\<lambda>x. x\<lparr>si_busy := (si_busy x)(i := True)\<rparr>) s"
  define x where "x = si_thread (kts s k) i"
  have b: "mset (si_idle (kts s k)) = add_mset x (mset (si_idle (kts s1 k)))" using si_idle_busy [OF k(2)] by (simp add: s1_def x_def)
  have "x \<in> set (si_idle (kts s k))" using b by (metis set_mset_mset union_single_eq_member)
  then have x: "\<not> th_ready (uths s x)" "x \<in> alive s"
    using not_ready(1,2) [OF inv k(1), of x] invD(7) [OF inv k(1)] pc_ready_own [of "pc s k" x] by auto
  have "\<not> th_ready (uths s1 x)" "rq_ok 0 (kts s1 me)" using x invD(1) [OF inv me(1)] me(2) by (auto simp: s1_def)
  from ready_head_shape [OF this, of now] obtain s' where s': "thread_ready_head_locked me x now s1 = Some s'" "nrks s' = nrks s" "rt.more s' = rt.more s"
    "\<And>k. k \<noteq> me \<Longrightarrow> kts s' k = kts s1 k" "runq (kts s' me) = x # runq (kts s me)" "rq_ok 0 (kts s' me)" "krest (kts s' me) = krest (kts s1 me)"
    "\<And>th. th_ready (uths s' th) = (th = x \<or> th_ready (uths s th))" "\<And>th. th_running (uths s' th) = th_running (uths s th)"
    "0 < ring_len (kts s' me)"
    by (auto simp: s1_def)
  note rest = krest_idle [OF s'(7)] rsys_more [OF s'(3)]
  have i: "placed s" "ready_ok s" "running_ok s" "rqs_ok s" "acyclic (waits s)" using inv by (simp_all add: rt_inv_def)
  have p: "placed s'"
  proof (cases "k = me")
    case True
    then have "place s' z = place s z" for z using s' rest b me(1) by (cases z; cases "z = Inl me") (auto simp: place_def s1_def)
    then show ?thesis using placed_same [OF i(1)] rest by blast
  next
    case False
    have 1: "kts s' k = kts s1 k" "\<And>j. j \<noteq> me \<Longrightarrow> j \<noteq> k \<Longrightarrow> kts s' j = kts s j" using False s'(4) by (simp_all add: s1_def)
    show ?thesis
    proof (rule placed_move [OF i(1), of "Inl k" "Inl me" _ "{#x#}"])
      show "place s' z = place s z" if "z \<noteq> Inl k" "z \<noteq> Inl me" for z using that 1(2) s'(2) rest by (cases z) (auto simp: place_def)
    qed (use False 1(1) s'(2,5) rest b me(1) k(1) in \<open>auto simp: place_def s1_def\<close>)
  qed
  have oth: "runq (kts s' j) = runq (kts s j)" "pc s' j = pc s j" if "j \<noteq> me" for j using s'(4) [OF that] rest by (simp_all add: s1_def)
  have "ready_ok s'" by (rule ready_local [OF i(2,1) me(1) s'(2)]) (use invD(9) [OF inv me(1)] oth rest s'(5,8) me x in \<open>auto simp: own_rdy_def\<close>)
  moreover have "running_ok s'" by (rule running_local [OF i(3) me(1) s'(2)]) (use oth rest s'(9) invD(4,8) [OF inv me(1)] in auto)
  moreover have "rqs_ok s'" unfolding rqs_ok_def s'(2)
  proof (intro allI impI)
    fix j assume "j < nrks s"
    with invD [OF inv this] s'(4) [of j] s'(6) rest me show "rq_ok (pc_debt (pc s' j)) (kts s' j) \<and> pc_ok (pc s' j) (kts s' j) \<and> my_self (kts s' j) = pc_self (pc s' j)"
      by (cases "j = me") (auto simp: s1_def)
  qed
  moreover have "acyclic (waits s')" by (rule waits_local [OF i(5) me(1) s'(2) p]) (use oth rest me in auto)
  ultimately have "rt_inv s'" using p by (simp add: rt_inv_def)
  with s' show ?thesis by (auto simp: s1_def x_def)
qed

lemma softirq_each_inv:
  assumes "rt_inv s" "me < nrks s" "in_turn (pc s me)" "k < nrks s"
  shows "\<exists>b s'. softirq_each is pend k me now s = Some (b, s') \<and> rt_inv s' \<and> nrks s' = nrks s \<and> rt.more s' = rt.more s \<and>
    (b \<longrightarrow> 0 < ring_len (kts s' me)) \<and> (\<not> b \<longrightarrow> s' = s)"
  using assms
proof (induction "is" arbitrary: s)
  case (Cons i "is")
  show ?case
  proof (cases "\<not> si_busy (kts s k) i \<and> pend i")
    case True
    from softirq_one_inv [OF Cons(2-5)] True obtain s1 where s1:
      "thread_ready_head_locked me (si_thread (kts s k) i) now (upd_k k (\<lambda>x. x\<lparr>si_busy := (si_busy x)(i := True)\<rparr>) s) = Some s1"
      "rt_inv s1" "nrks s1 = nrks s" "rt.more s1 = rt.more s" "0 < ring_len (kts s1 me)" by blast
    from Cons(1) [OF s1(2)] Cons(3-5) s1 obtain b s' where s':
      "softirq_each is pend k me now s1 = Some (b, s')" "rt_inv s'" "nrks s' = nrks s" "rt.more s' = rt.more s" "0 < ring_len (kts s' me)"
      using rsys_more [OF s1(4)] by auto
    with True s1(1) show ?thesis by auto
  next
    case False
    with Cons(1) [OF Cons(2-5)] show ?thesis by auto
  qed
qed auto

section \<open>Stealing\<close>

lemma half_bound:
  fixes r l :: u32
  assumes "l < r"
  shows "unat (min ((r - l + 2 - 1) div 2) 32) \<le> unat r"
proof -
  define m where "m = unat (r - l)"
  have m: "m \<le> unat r" using assms by (simp add: m_def unat_sub less_imp_le)
  have eq: "r - l + 2 - 1 = r - l + 1" by simp
  have "unat ((r - l + 2 - 1) div 2) = unat (r - l + 1) div 2" unfolding eq unat_div by simp
  moreover have "unat (r - l + 1) \<le> m + 1" by (simp add: m_def unat_word_ariths mod_less_eq_dividend)
  moreover have "r - l \<noteq> 0" using assms by auto
  then have "0 < m" by (simp add: m_def unat_gt_0)
  ultimately have "unat ((r - l + 2 - 1) div 2) \<le> unat r" using m by linarith
  moreover have "unat (min a b) \<le> unat a" for a b :: u32 by (simp add: min_def word_le_nat_alt)
  ultimately show ?thesis using order_trans by blast
qed

lemma merge_krest:
  assumes "merge_runqueues ths l m r n = Some (l', r')"
  shows "krest l' = krest l \<and> krest r' = krest r"
proof -
  have d: "krest (snd (drain_threads k n u)) = krest k" for k n u by (auto simp: drain_threads_def krest_def Let_def split: prod.splits)
  have m: "merge_loop ths j ls rs k = Some k' \<Longrightarrow> krest k' = krest k" for j ls rs k k'
  proof (induction j arbitrary: ls rs k)
    case (Suc j)
    have "krest (k\<lparr>rq_overflow := x\<rparr>) = krest k" for x by (simp add: krest_def)
    with Suc(2) show ?case by (auto simp: Let_def queue_krest split: list.splits if_splits dest!: Suc(1))
  qed simp
  obtain rs r1 ls l1 where dr: "drain_threads r n True = (rs, r1)" "drain_threads l m False = (ls, l1)" by fastforce
  have "krest r1 = krest r" "krest l1 = krest l" using d [of r n True] d [of l m False] dr by simp_all
  then show ?thesis using assms dr m oldest_rest by (auto simp: merge_runqueues_def Option.bind_eq_Some_conv krest_def)
qed

text \<open>Half of the other kthread's threads move to a kthread that has none.\<close>

lemma merge_inv:
  assumes inv: "rt_inv s" and me: "me < nrks s" "pc s me = K_sched" "runq (kts s me) = []" and r: "r < nrks s" "r \<noteq> me"
    and n: "0 < unat n" "pc_debt (pc s r) + unat n \<le> length (runq (kts s r))"
  shows "\<exists>l' r'. merge_runqueues (uths s) (kts s me) m (kts s r) n = Some (l', r') \<and> 0 < ring_len l' \<and>
    rt_inv (upd_k me (\<lambda>_. l') (upd_k r (\<lambda>_. r') s))"
proof -
  have e: "ring_len (kts s me) = 0" "rq_overflow (kts s me) = []" using me(3) by (auto simp: runq_def ring_at_def)
  have q: "rq_ok 0 (kts s me)" "rq_ok (pc_debt (pc s r)) (kts s r)" using invD(1) [OF inv me(1)] invD(1) [OF inv r(1)] me(2) by simp_all
  let ?M = "take (unat n) (runq (kts s r))" and ?D = "drop (unat n) (runq (kts s r))"
  obtain l' r' where m: "merge_runqueues (uths s) (kts s me) m (kts s r) n = Some (l', r')" "rq_ok 0 l'" "rq_ok (pc_debt (pc s r)) r'"
    "runq r' = ?D" "packed l'" "runq l' = ?M" "k_rq_head r' = k_rq_head (kts s r)" "ring_len r' \<le> ring_len (kts s r)"
    using merge_runqueues_runq [OF q(1) e(1) q(2) n(2), of "uths s" m] e(2) by blast
  have kr: "si_idle l' = si_idle (kts s me)" "my_self l' = my_self (kts s me)" "si_idle r' = si_idle (kts s r)" "my_self r' = my_self (kts s r)"
    using merge_krest [OF m(1)] krest_idle by blast+
  let ?s = "upd_k me (\<lambda>_. l') (upd_k r (\<lambda>_. r') s)"
  have i: "placed s" "ready_ok s" "running_ok s" "rqs_ok s" "acyclic (waits s)" using inv by (simp_all add: rt_inv_def)
  have sp: "mset (runq (kts s r)) = mset ?D + mset ?M" by (metis append_take_drop_id mset_append union_commute)
  have p: "placed ?s"
  proof (rule placed_move [OF i(1), of "Inl r" "Inl me" _ "mset ?M"])
    show "place ?s z = place s z" if "z \<noteq> Inl r" "z \<noteq> Inl me" for z using that by (cases z) (auto simp: place_def)
    show "place s (Inl r) = place ?s (Inl r) + mset ?M" using r kr m(4) sp by (simp add: place_def)
    show "place ?s (Inl me) = place s (Inl me) + mset ?M" using r me kr m(6) by (simp add: place_def)
  qed (use r in simp_all)
  have "rdy ?s th \<longleftrightarrow> rdy s th" for th
  proof -
    have "set (runq (kts s r)) = set ?M \<union> set ?D" by (metis append_take_drop_id set_append)
    then have "(\<exists>k < nrks s. th \<in> set (runq (kts ?s k))) \<longleftrightarrow> (\<exists>k < nrks s. th \<in> set (runq (kts s k)))"
      using r me m(4,6) by (metis (no_types, lifting) Un_iff empty_iff fun_upd_apply list.set(1) upd_simps(1))
    then show ?thesis by (auto simp: rdy_def)
  qed
  then have "ready_ok ?s" using i(2) by (simp add: ready_ok_def)
  moreover have "running_ok ?s" using i(3) by (simp add: running_ok_def)
  moreover have "rqs_ok ?s"
  proof -
    have "pc_ok (pc s r) r'" using invD(2) [OF inv r(1)] m(4,7,8) by (cases "pc s r") (auto intro: order_trans)
    then show ?thesis using i(4) m(2,3) kr me(2) r(2) by (auto simp: rqs_ok_def)
  qed
  moreover have "acyclic (waits ?s)"
  proof (rule waits_local [OF i(5) me(1) _ p])
    show "set (runq (kts ?s k)) \<subseteq> set (runq (kts s k)) \<and> pc ?s k = pc s k" if "k \<noteq> me" for k
      using that m(4) set_drop_subset [of "unat n" "runq (kts s r)"] by (cases "k = r") simp_all
  qed (use me(2) in simp_all)
  ultimately have "rt_inv ?s" using p by (simp add: rt_inv_def)
  moreover have "?M \<noteq> []" using n by auto
  then have "0 < ring_len l'" using packed_ring [OF m(5)] m(6) by simp
  ultimately show ?thesis using m(1) by blast
qed

lemma inv_cosmetic:
  assumes inv: "rt_inv s" and k: "k < nrks s" and fr: "nrks s' = nrks s" "rt.more s' = rt.more s" "\<And>j. j \<noteq> k \<Longrightarrow> kts s' j = kts s j"
    and f: "\<And>th. th_ready (uths s' th) = th_ready (uths s th) \<and> th_running (uths s' th) = th_running (uths s th)"
    and kk: "runq (kts s' k) = runq (kts s k)" "krest (kts s' k) = krest (kts s k)" "rq_ok (pc_debt (pc s k)) (kts s' k)" "pc_ok (pc s k) (kts s' k)"
  shows "rt_inv s'"
proof -
  note r = rsys_more [OF fr(2)] krest_idle [OF kk(2)]
  have "own_rdy (kts s' k) (pc s' k) = own_rdy (kts s k) (pc s k)" using kk(1) r by (simp add: own_rdy_def)
  then show ?thesis
    by (intro inv_local [OF inv k]) (use invD [OF inv k] fr f kk r in auto)
qed

lemma steal_work_inv:
  assumes inv: "rt_inv s" and me: "me < nrks s" "pc s me = K_sched" "runq (kts s me) = []" and r: "r < nrks s" "r \<noteq> me"
  shows "\<exists>b s'. steal_work st me r env s = Some (b, s') \<and> rt_inv s' \<and> nrks s' = nrks s \<and> rt.more s' = rt.more s \<and>
    (b \<longrightarrow> 0 < ring_len (kts s' me)) \<and> (\<not> b \<longrightarrow> s' = s)"
proof -
  define lsize where "lsize = rq_head (k_qp (kts s me)) - rq_tail (k_qp (kts s me))"
  define rsize where "rsize = rq_head (k_qp (kts s r)) - rq_tail (k_qp (kts s r))"
  define num where "num = (if lsize < rsize then min ((rsize - lsize + 2 - 1) div 2) 32 else 0)"
  let ?d = "pc_debt (pc s r)" and ?n = "length (runq (kts s r))"
  have q: "rsize + of_nat ?d = of_nat ?n" "?d \<le> ?n" using invD(1) [OF inv r(1)] by (simp_all add: rq_ok_def rsize_def)
  then have "rsize = of_nat (?n - ?d)" by (metis add_diff_cancel_right' of_nat_diff)
  then have "unat rsize \<le> ?n - ?d" by (simp add: unat_of_nat mod_less_eq_dividend)
  moreover have "unat num \<le> unat rsize" using half_bound [of lsize rsize] by (simp add: num_def)
  ultimately have n: "?d + unat num \<le> ?n" using q(2) by linarith
  obtain b s1 where sq: "softirq_steal (e_pend env st r) r me (e_now env) s = Some (b, s1)" "rt_inv s1" "nrks s1 = nrks s"
    "rt.more s1 = rt.more s" "b \<longrightarrow> 0 < ring_len (kts s1 me)" "\<not> b \<longrightarrow> s1 = s"
    using softirq_each_inv [OF inv me(1) _ r(1)] me(2) unfolding softirq_steal_def by (metis in_turn_def)
  have eq: "steal_work st me r env s =
      (if \<not> (work_available (kts s r) (e_pend env st r) \<or> e_stale env r) then Some (False, s) else if \<not> e_lock env r then Some (False, s)
       else if num \<noteq> 0 then do { (l, r') \<leftarrow> merge_runqueues (uths s) (kts s me) lsize (kts s r) num;
              Some (True, upd_k me (\<lambda>_. l) (upd_k r (\<lambda>_. r') s)) }
       else Some (b, s1))"
    by (simp only: steal_work_def Let_def sq(1) RUNTIME_RQ_SIZE_def of_nat_numeral flip: lsize_def rsize_def num_def)
  show ?thesis
  proof (cases "num = 0")
    case True
    then show ?thesis using eq sq inv by auto
  next
    case False
    then have "0 < unat num" by (simp add: unat_gt_0)
    from merge_inv [OF inv me r this n, of lsize] False show ?thesis using inv by (auto simp: eq)
  qed
qed

text \<open>The kthread has found work, or still has none.\<close>

definition searched :: "nat \<Rightarrow> rsys \<Rightarrow> bool \<Rightarrow> rsys \<Rightarrow> bool" where
  "searched me s b s' \<longleftrightarrow> rt_inv s' \<and> nrks s' = nrks s \<and> rt.more s' = rt.more s \<and>
     (if b then 0 < ring_len (kts s' me) else runq (kts s' me) = [])"

lemma searched_trans: "searched me s b s1 \<Longrightarrow> searched me s1 c s2 \<Longrightarrow> searched me s c s2"
  by (simp add: searched_def)

lemma searchedD:
  assumes "searched me s False s'" "me < nrks s" "pc s me = K_sched"
  shows "rt_inv s'" "me < nrks s'" "pc s' me = K_sched" "runq (kts s' me) = []" "nrks s' = nrks s"
  using assms rsys_more(1) [of s' s] by (simp_all add: searched_def)

lemma softirq_sched_inv:
  assumes "rt_inv s" "me < nrks s" "pc s me = K_sched" "runq (kts s me) = []"
  shows "\<exists>b s'. softirq_sched pend me now s = Some (b, s') \<and> searched me s b s'"
  using softirq_each_inv [OF assms(1,2) _ assms(2)] assms unfolding softirq_sched_def searched_def by (metis in_turn_def)

lemma steal_from_inv:
  assumes "rt_inv s" "me < nrks s" "pc s me = K_sched" "runq (kts s me) = []" "\<forall>r \<in> set rs. r < nrks s"
  shows "\<exists>b s'. steal_from st me env rs s = Some (b, s') \<and> searched me s b s'"
  using assms
proof (induction rs)
  case Nil
  then have "searched me s False s" by (simp add: searched_def)
  then show ?case by fastforce
next
  case (Cons r rs)
  show ?case
  proof (cases "r = me")
    case True
    then show ?thesis using Cons by simp
  next
    case False
    obtain b s1 where s1: "steal_work st me r env s = Some (b, s1)" "rt_inv s1" "nrks s1 = nrks s" "rt.more s1 = rt.more s"
      "b \<longrightarrow> 0 < ring_len (kts s1 me)" "\<not> b \<longrightarrow> s1 = s"
      using steal_work_inv [OF Cons(2-5), of r st env] Cons(6) False by auto
    show ?thesis
    proof (cases b)
      case True
      then show ?thesis using s1 False by (auto simp: searched_def)
    next
      case b: False
      then show ?thesis using s1 False Cons by auto
    qed
  qed
qed

lemma max_qdelay_mem: "max_qdelay ks js m i = Some r \<Longrightarrow> r \<in> set js \<or> i = Some r"
  by (induction js arbitrary: m i) (auto split: if_splits)

lemma get_max_qdelay_inv:
  assumes inv: "rt_inv s" and me: "me < nrks s" "pc s me = K_sched" "runq (kts s me) = []" and g: "get_max_qdelay_id start cyc s = (i, s')"
  shows "searched me s False s'" "i = Some r \<Longrightarrow> r < nrks s"
proof -
  have lt: "r < nrks s" if "i = Some r" for r
    using g that me(1) by (auto simp: get_max_qdelay_id_def Let_def dest!: max_qdelay_mem)
  then show "i = Some r \<Longrightarrow> r < nrks s" .
  have q: "runq (k\<lparr>k_qdelay := 0\<rparr>) = runq k" "krest (k\<lparr>k_qdelay := 0\<rparr>) = krest k" "rq_ok d (k\<lparr>k_qdelay := 0\<rparr>) = rq_ok d k"
    "pc_ok p (k\<lparr>k_qdelay := 0\<rparr>) = pc_ok p k" for k d p
    by (cases p; simp add: runq_def krest_def rq_ok_def)+
  have "rt_inv s'"
  proof (cases i)
    case (Some j)
    then have s': "s' = upd_k j (\<lambda>k. k\<lparr>k_qdelay := 0\<rparr>) s" using g by (auto simp: get_max_qdelay_id_def Let_def split: option.splits)
    show ?thesis by (rule inv_cosmetic [OF inv lt [OF Some]]) (use s' q invD(1,2) [OF inv lt [OF Some]] in auto)
  qed (use inv g in \<open>auto simp: get_max_qdelay_id_def Let_def\<close>)
  then show "searched me s False s'" using g me q(1) by (auto simp: searched_def get_max_qdelay_id_def Let_def split: option.splits)
qed

lemma steal_delayed_inv:
  assumes "rt_inv s" "me < nrks s" "pc s me = K_sched" "runq (kts s me) = []"
  shows "\<exists>b c s'. steal_delayed n me env checked s = Some (b, c, s') \<and> searched me s b s'"
  using assms
proof (induction n arbitrary: s checked)
  case 0
  then have "searched me s False s" by (simp add: searched_def)
  then show ?case by fastforce
next
  case (Suc n)
  obtain i s1 where g: "get_max_qdelay_id (e_start env) (e_cycles_per_us env) s = (i, s1)" by fastforce
  note s1 = get_max_qdelay_inv [OF Suc(2-5) g]
  note D = searchedD [OF s1(1) Suc(3,4)]
  show ?case
  proof (cases i)
    case None
    then show ?thesis using g s1(1) by auto
  next
    case (Some r)
    have "\<exists>b s2. (if r \<noteq> me then steal_work 2 me r env s1 else Some (False, s1)) = Some (b, s2) \<and> searched me s1 b s2"
    proof (cases "r = me")
      case True
      have "searched me s1 False s1" using D by (simp add: searched_def)
      with True show ?thesis by auto
    next
      case False
      obtain b s2 where "steal_work 2 me r env s1 = Some (b, s2)" "rt_inv s2" "nrks s2 = nrks s1" "rt.more s2 = rt.more s1"
        "b \<longrightarrow> 0 < ring_len (kts s2 me)" "\<not> b \<longrightarrow> s2 = s1"
        using steal_work_inv [OF D(1-4), of r 2 env] s1(2) [OF Some] D(5) False by auto
      then show ?thesis using False D(4) by (intro exI [of _ b] exI [of _ s2]) (auto simp: searched_def)
    qed
    then obtain b s2 where s2: "(if r \<noteq> me then steal_work 2 me r env s1 else Some (False, s1)) = Some (b, s2)" "searched me s1 b s2" by blast
    have tr: "searched me s b s2" by (rule searched_trans [OF s1(1) s2(2)])
    show ?thesis
    proof (cases b)
      case True
      then show ?thesis using g Some s2(1) tr by (auto simp del: not_not)
    next
      case False
      note E = searchedD [OF _ Suc(3,4), of s2]
      have "searched me s False s2" using tr False by simp
      from Suc(1) [OF E(1-4) [OF this], of "checked + 1"] obtain b' c s' where "steal_delayed n me env (checked + 1) s2 = Some (b', c, s')" "searched me s2 b' s'" by blast
      then show ?thesis using g Some s2(1) False searched_trans [OF tr] by (auto simp: False)
    qed
  qed
qed

section \<open>The scheduler\<close>

text \<open>The fields of a kthread that the invariant is about.\<close>

definition qpart :: "rkt \<Rightarrow> (u32 \<times> u32 \<times> (nat \<Rightarrow> nat) \<times> nat list) \<times> u32 \<times> u32 \<times> (softirq \<Rightarrow> bool) \<times> (softirq \<Rightarrow> nat)" where
  "qpart k = ((k_rq_head k, k_rq_tail k, rq_slots k, rq_overflow k), rq_head (k_qp k), rq_tail (k_qp k), si_busy k, si_thread k)"

lemma qpart_eq:
  assumes "qpart k' = qpart k"
  shows "runq k' = runq k" "si_idle k' = si_idle k" "rq_ok d k' = rq_ok d k" "pc_ok p k' = pc_ok p k"
    "k_rq_head k' = k_rq_head k" "k_rq_tail k' = k_rq_tail k" "own_rdy k' p = own_rdy k p"
proof -
  show r: "runq k' = runq k" and h: "k_rq_head k' = k_rq_head k" "k_rq_tail k' = k_rq_tail k"
    using assms by (simp_all add: qpart_def runq_def)
  show "si_idle k' = si_idle k" "rq_ok d k' = rq_ok d k" "own_rdy k' p = own_rdy k p"
    using assms r by (simp_all add: qpart_def si_idle_def rq_ok_def own_rdy_def)
  show "pc_ok p k' = pc_ok p k" using r h by (cases p) simp_all
qed

lemma inv_self:
  assumes inv: "rt_inv s" and k: "k < nrks s" and f: "qpart (f (kts s k)) = qpart (kts s k)" "my_self (f (kts s k)) = my_self (kts s k)"
  shows "rt_inv (upd_k k f s)"
  by (rule inv_local [OF inv k]) (use invD [OF inv k] qpart_eq [OF f(1)] f(2) in \<open>auto simp: own_rdy_def\<close>)

lemma env_ok_nrks: "nrks s' = nrks s \<Longrightarrow> env_ok env s' = env_ok env s"
  by (simp add: env_ok_def split: option.split)

lemma schedule_top_inv:
  assumes inv: "rt_inv (schedule_leave me s)" and me: "me < nrks s" "pc s me = K_sched"
  shows "\<exists>b s'. schedule_top me env s = Some (b, s') \<and> searched me s b s'"
proof -
  define s1 where "s1 = upd_k me (\<lambda>k. k\<lparr>k_qp := (k_qp k)\<lparr>qp_run_start_tsc := - 1, qp_rcu_gen := qp_rcu_gen (k_qp k) + 1\<rparr>,
      k_rcu_gen := k_rcu_gen k + 1\<rparr>) (schedule_leave me s)"
  define wd where "wd \<longleftrightarrow> \<not> e_disable_watchdog env \<and> e_cycles_per_us env * RUNTIME_WATCHDOG_US \<le> e_now env - last_watchdog_tsc (kts s1 me)"
  let ?sq = "if wd then softirq_sched (e_pend env 0 me) me (e_now env) (upd_k me (\<lambda>k. k\<lparr>last_watchdog_tsc := e_now env\<rparr>) s1) else Some (False, s1)"
  have fr: "nrks s1 = nrks s" "rt.more s1 = rt.more s" by (simp_all add: s1_def schedule_leave_def split: option.split)
  have n: "me < nrks (schedule_leave me s)" using me(1) by (simp add: schedule_leave_def split: option.split)
  have 1: "rt_inv s1" unfolding s1_def by (rule inv_self [OF inv n]) (simp_all add: qpart_def)
  have 2: "rt_inv (upd_k me (\<lambda>k. k\<lparr>last_watchdog_tsc := e_now env\<rparr>) s1)"
    by (rule inv_self [OF 1]) (use me fr in \<open>simp_all add: qpart_def\<close>)
  have "\<exists>b s2. ?sq = Some (b, s2) \<and> rt_inv s2 \<and> nrks s2 = nrks s \<and> rt.more s2 = rt.more s \<and> (b \<longrightarrow> 0 < ring_len (kts s2 me))"
  proof (cases wd)
    case True
    have m: "me < nrks (upd_k me (\<lambda>k. k\<lparr>last_watchdog_tsc := e_now env\<rparr>) s1)" "in_turn (pc (upd_k me (\<lambda>k. k\<lparr>last_watchdog_tsc := e_now env\<rparr>) s1) me)"
      using me fr rsys_more(1) [OF fr(2)] by (simp_all add: in_turn_def)
    obtain b s2 where "softirq_sched (e_pend env 0 me) me (e_now env) (upd_k me (\<lambda>k. k\<lparr>last_watchdog_tsc := e_now env\<rparr>) s1) = Some (b, s2)"
      "rt_inv s2" "nrks s2 = nrks s1" "rt.more s2 = rt.more s1" "b \<longrightarrow> 0 < ring_len (kts s2 me)"
      using softirq_each_inv [OF 2 m m(1)] unfolding softirq_sched_def upd_simps by blast
    with True fr show ?thesis by simp
  next
    case False
    with 1 fr show ?thesis by auto
  qed
  then obtain b s2 where s2: "?sq = Some (b, s2)" "rt_inv s2" "nrks s2 = nrks s" "rt.more s2 = rt.more s" "b \<longrightarrow> 0 < ring_len (kts s2 me)" by blast
  define dr where "dr = (\<lambda>k. if rq_overflow k \<noteq> [] then drain_overflow k else k)"
  define s3 where "s3 = upd_k me dr s2"
  have eq: "schedule_top me env s = (if b then Some (True, s2) else if k_rq_head (kts s3 me) \<noteq> k_rq_tail (kts s3 me) then Some (True, s3)
      else Some (False, upd_k me (\<lambda>k. k\<lparr>k_rq_head := 0, k_rq_tail := 0\<rparr>) s3))"
    unfolding schedule_top_def Let_def s1_def [symmetric] wd_def [symmetric] s2(1) by (simp add: s3_def dr_def)
  have pc2: "pc s2 me = K_sched" using rsys_more(1) [OF s2(4)] me(2) by simp
  have q: "rq_ok 0 (kts s2 me)" using invD(1) [OF s2(2)] me s2(3) pc2 by fastforce
  then have d: "runq (dr (kts s2 me)) = runq (kts s2 me)" "packed (dr (kts s2 me))" "rq_ok 0 (dr (kts s2 me))" "krest (dr (kts s2 me)) = krest (kts s2 me)"
    using drain_overflow_runq [of "kts s2 me"] by (auto simp: rq_ok_def RUNTIME_RQ_SIZE_def packed_def drain_rest dr_def)
  have 3: "rt_inv s3" by (rule inv_cosmetic [OF s2(2), of me]) (use me s2(3) pc2 d in \<open>simp_all add: s3_def\<close>)
  show ?thesis
  proof (cases "b \<or> k_rq_head (kts s3 me) \<noteq> k_rq_tail (kts s3 me)")
    case True
    have "k_rq_head k \<noteq> k_rq_tail k \<Longrightarrow> 0 < ring_len k" for k by (simp add: unat_gt_0)
    with True show ?thesis using eq s2 3 by (auto simp: searched_def s3_def)
  next
    case False
    let ?k = "kts s3 me"
    have e: "runq ?k = []" using packed_ring [OF d(2)] False by (auto simp: s3_def)
    then have o: "rq_overflow ?k = []" by (simp add: runq_def)
    have "rt_inv (upd_k me (\<lambda>k. k\<lparr>k_rq_head := 0, k_rq_tail := 0\<rparr>) s3)"
      by (rule inv_cosmetic [OF 3, of me]) (use me s2(3) pc2 e o d(3) in \<open>simp_all add: s3_def runq_def krest_def rq_ok_def\<close>)
    then show ?thesis using eq False s2(3,4) o by (auto simp: searched_def s3_def runq_def)
  qed
qed

lemma schedule_again_inv:
  assumes "rt_inv s" "me < nrks s" "pc s me = K_sched" "runq (kts s me) = []" "env_ok env s"
  shows "\<exists>b s'. schedule_again me env s = Some (b, s') \<and> searched me s b s'"
proof -
  obtain b s1 where s1: "softirq_sched (e_pend env 1 me) me (e_now env) s = Some (b, s1)" "searched me s b s1"
    using softirq_sched_inv [OF assms(1-4)] by blast
  have 0: "0 < nrks s" using assms(2) by simp
  show ?thesis
  proof (cases b)
    case True
    then show ?thesis using s1 by (auto simp: schedule_again_def)
  next
    case False
    with s1(2) have t1: "searched me s False s1" by simp
    note D = searchedD [OF t1 assms(2,3)]
    obtain b2 c s2 where s2: "steal_delayed (nrks s1) me env 0 s1 = Some (b2, c, s2)" "searched me s1 b2 s2"
      using steal_delayed_inv [OF D(1-4)] by blast
    obtain b3 s3 where s3: "steal_from 2 me env (case e_recent env of None \<Rightarrow> [] | Some r \<Rightarrow> [r]) s1 = Some (b3, s3)" "searched me s1 b3 s3"
      using steal_from_inv [OF D(1-4), of "case e_recent env of None \<Rightarrow> [] | Some r \<Rightarrow> [r]" 2 env] assms(5) D(5)
      by (auto simp: env_ok_def split: option.splits)
    have rest: "\<exists>b' s'. steal_from 3 me env (map (\<lambda>i. (e_start env + i) mod nrks u) [i..<nrks u]) u = Some (b', s') \<and> searched me s b' s'"
      if "searched me s1 False u" for u i
    proof -
      note U = searchedD [OF that D(2,3)]
      have "\<forall>r \<in> set (map (\<lambda>i. (e_start env + i) mod nrks u) [i..<nrks u]). r < nrks u" using U(2) by auto
      from steal_from_inv [OF U(1-4) this] show ?thesis using searched_trans [OF t1 searched_trans [OF that]] by blast
    qed
    have irq: "\<exists>b' s'. softirq_sched (e_pend env 4 me) me (e_now env) u = Some (b', s') \<and> searched me s b' s'" if "searched me s False u" for u
      using softirq_sched_inv [OF searchedD(1-4) [OF that assms(2,3)]] searched_trans [OF that] by blast
    have server: "\<exists>b' s'. (if b2 then Some (True, s2) else do { (found, s) \<leftarrow> steal_from 3 me env (map (\<lambda>i. (e_start env + i) mod nrks s2) [c..<nrks s2]) s2;
        if found then Some (True, s) else softirq_sched (e_pend env 4 me) me (e_now env) s }) = Some (b', s') \<and> searched me s b' s'"
    proof (cases b2)
      case True
      then show ?thesis using searched_trans [OF t1 s2(2)] by auto
    next
      case False
      then obtain b4 s4 where "steal_from 3 me env (map (\<lambda>i. (e_start env + i) mod nrks s2) [c..<nrks s2]) s2 = Some (b4, s4)" "searched me s b4 s4"
        using rest [of s2 c] s2(2) by auto
      then show ?thesis using False irq [of s4] by (cases b4) auto
    qed
    have batch: "\<exists>b' s'. (if b3 then Some (True, s3) else steal_from 3 me env (map (\<lambda>i. (e_start env + i) mod nrks s3) [0..<nrks s3]) s3) = Some (b', s') \<and> searched me s b' s'"
      using rest [of s3 0] searched_trans [OF t1 s3(2)] s3(2) by (cases b3) auto
    have "schedule_again me env s =
        (if e_is_server env then (if yield_requested me env then Some (False, s1)
           else if b2 then Some (True, s2) else do { (found, s) \<leftarrow> steal_from 3 me env (map (\<lambda>i. (e_start env + i) mod nrks s2) [c..<nrks s2]) s2;
             if found then Some (True, s) else softirq_sched (e_pend env 4 me) me (e_now env) s })
         else if e_to_steal env
         then if b3 then Some (True, s3) else steal_from 3 me env (map (\<lambda>i. (e_start env + i) mod nrks s3) [0..<nrks s3]) s3
         else Some (False, s1))"
      by (simp only: schedule_again_def s1(1) s2(1) s3(1) bind.bind_lunit prod.case False if_False)
    then show ?thesis using server batch t1 by (cases "e_is_server env"; cases "yield_requested me env"; cases "e_to_steal env") auto
  qed
qed

text \<open>The head of the queue becomes the thread of the kthread.\<close>

lemma pop_inv:
  assumes inv: "rt_inv s" and me: "me < nrks s" and fr: "nrks s' = nrks s" "alive s' = alive s" "waitq s' = waitq s"
    and others: "\<And>k. k \<noteq> me \<Longrightarrow> kts s' k = kts s k \<and> pc s' k = pc s k"
    and q: "runq (kts s me) = th # runq (kts s' me)" "rq_ok 0 (kts s' me)" "si_idle (kts s' me) = si_idle (kts s me)" "my_self (kts s' me) = pc_self (pc s' me)"
    and f: "\<And>x. th_ready (uths s' x) \<longleftrightarrow> x \<noteq> th \<and> th_ready (uths s x)" "\<And>x. th_running (uths s' x) = th_running (uths s x)"
    and p: "pc s me = K_sched \<and> pc s' me = K_jump th \<or> (\<exists>cur. pc s me = K_leave cur \<and> (cur \<noteq> th \<and> pc s' me = K_switch cur th \<or> cur = th \<and> pc s' me = K_thread th))"
  shows "rt_inv s'"
proof (rule inv_local [OF inv me fr others])
  have th: "th \<notin> set (runq (kts s' me))" using invD(7) [OF inv me] q(1) by auto
  show "th_ready (uths s' x) \<longleftrightarrow> x \<in> own_rdy (kts s' me) (pc s' me) \<or> th_ready (uths s x) \<and> x \<notin> own_rdy (kts s me) (pc s me)" for x
    using f(1) [of x] th q(1) invD(9) [OF inv me, of x] p by (auto simp: own_rdy_def)
qed (use q p f invD(4,8) [OF inv me] in auto)

lemma pop_fields:
  assumes "rq_ok 0 k" "0 < ring_len k" "rq_pop ths k = (th, k')" "qpart k'' = qpart k'"
  shows "runq k = th # runq k''" "rq_ok 0 k''" "si_idle k'' = si_idle k"
  using rq_pop_runq [OF assms(1-3)] qpart_eq [OF assms(4)] queue_rest(5) [of ths k] assms(3) by simp_all

lemma schedule_done_inv:
  assumes inv: "rt_inv s" and me: "me < nrks s" "pc s me = K_sched" and r: "0 < ring_len (kts s me)" and d: "schedule_done me env s = (th, s')"
  shows "rt_inv (set_pc me (K_jump th) s')"
proof -
  obtain th' k where k: "rq_pop (uths s) (kts s me) = (th', k)" by fastforce
  have [simp]: "th' = th" using d k by (simp add: schedule_done_def Let_def)
  have "rq_ok 0 (kts s me)" using invD(1) [OF inv me(1)] me(2) by simp
  note pf = pop_fields [OF this r k]
  have "qpart (kts s' me) = qpart k" using d k by (auto simp: schedule_done_def claim_thread_def Let_def qpart_def)
  note pf = pf [OF this]
  show ?thesis
    by (rule pop_inv [OF inv me(1), where th = th]) (use d k pf me in \<open>auto simp: schedule_done_def claim_thread_def Let_def split: if_splits\<close>)
qed

lemma schedule_end_inv:
  assumes s: "searched me s b s1" and me: "me < nrks s" "pc s me = K_sched"
  shows "rt_inv (sched_pc me (schedule_end me env (b, s1))) \<and> nrks (sched_pc me (schedule_end me env (b, s1))) = nrks s \<and>
    (\<forall>j. j \<noteq> me \<longrightarrow> pc (sched_pc me (schedule_end me env (b, s1))) j = pc s j)"
proof -
  have p1: "pc s1 me = K_sched" "me < nrks s1" "rt_inv s1" "nrks s1 = nrks s" "pc s1 = pc s" using s me rsys_more(1) [of s1 s] by (simp_all add: searched_def)
  show ?thesis
  proof (cases b)
    case True
    obtain th s2 where d: "schedule_done me env s1 = (th, s2)" by fastforce
    have "0 < ring_len (kts s1 me)" using s True by (simp add: searched_def)
    from schedule_done_inv [OF p1(3,2,1) this d] True d p1(4,5) show ?thesis
      by (auto simp: schedule_end_def sched_pc_def schedule_done_def claim_thread_def Let_def split: prod.splits)
  next
    case False
    let ?s = "set_pc me K_idle (upd_k me (\<lambda>k. k\<lparr>k_parked := True\<rparr>) s1)"
    have q: "qpart (k\<lparr>k_parked := True\<rparr>) = qpart k" for k by (simp add: qpart_def)
    have "runq (kts s1 me) = []" using s False by (simp add: searched_def)
    then have "rt_inv ?s"
      by (intro inv_local [OF p1(3,2)]) (use p1 invD [OF p1(3,2)] qpart_eq [OF q] in \<open>auto simp: own_rdy_def\<close>)
    with False p1(4,5) show ?thesis by (simp add: schedule_end_def sched_pc_def)
  qed
qed

text \<open>A call of the scheduler ends, with a thread to run or a parked kthread.\<close>

definition call_inv :: "nat \<Rightarrow> rsys \<Rightarrow> (nat option \<times> rsys) option \<Rightarrow> bool" where
  "call_inv me s x \<longleftrightarrow> (\<exists>r. x = Some r \<and> rt_inv (sched_pc me r) \<and> nrks (sched_pc me r) = nrks s \<and> (\<forall>j. j \<noteq> me \<longrightarrow> pc (sched_pc me r) j = pc s j))"

lemma schedule_inv:
  assumes inv: "rt_inv (schedule_leave me s)" and me: "me < nrks s" "pc s me = K_sched" and e: "env_ok env s"
  shows "call_inv me s (schedule me env s)"
proof -
  obtain b s1 where s1: "schedule_top me env s = Some (b, s1)" "searched me s b s1" using schedule_top_inv [OF inv me] by blast
  have "\<exists>b' s2. (if b then Some (True, s1) else schedule_again me env s1) = Some (b', s2) \<and> searched me s b' s2"
  proof (cases b)
    case False
    then have t: "searched me s False s1" using s1(2) by simp
    note D = searchedD [OF t me]
    have "env_ok env s1" using e env_ok_nrks [OF D(5)] by simp
    from schedule_again_inv [OF D(1-4) this] False show ?thesis using searched_trans [OF t] by auto
  qed (use s1 in auto)
  then obtain b' s2 where "(if b then Some (True, s1) else schedule_again me env s1) = Some (b', s2)" "searched me s b' s2" by blast
  then show ?thesis using schedule_end_inv [OF _ me, of b' s2 env] s1(1) by (simp add: schedule_def call_inv_def)
qed

lemma resume_inv:
  assumes inv: "rt_inv s" and me: "me < nrks s" "pc s me = K_sched" "runq (kts s me) = []" and e: "env_ok env s"
  shows "call_inv me s (schedule_resume me env s)"
proof -
  let ?s = "upd_k me (\<lambda>k. k\<lparr>k_parked := False\<rparr>) s"
  have "rt_inv ?s" by (rule inv_self [OF inv me(1)]) (simp_all add: qpart_def)
  then obtain b s1 where "schedule_again me env ?s = Some (b, s1)" "searched me ?s b s1"
    using schedule_again_inv [of ?s me env] me e env_ok_nrks [of ?s s env] by (auto simp: runq_def)
  with schedule_end_inv [of me ?s b s1 env] me show ?thesis by (simp add: schedule_resume_def call_inv_def)
qed

section \<open>The actions\<close>

definition step_kept :: "nat \<Rightarrow> rsys \<Rightarrow> rsys option \<Rightarrow> bool" where
  "step_kept me s x \<longleftrightarrow> (\<exists>s'. x = Some s' \<and> rt_inv s' \<and> nrks s' = nrks s \<and> (\<forall>j. j \<noteq> me \<longrightarrow> pc s' j = pc s j))"

lemma step_keptI [intro]: "rt_inv s' \<Longrightarrow> nrks s' = nrks s \<Longrightarrow> (\<And>j. j \<noteq> me \<Longrightarrow> pc s' j = pc s j) \<Longrightarrow> step_kept me s (Some s')"
  by (simp add: step_kept_def)

lemma sched_call_kept:
  assumes inv: "rt_inv s" and f: "env_ok env s \<Longrightarrow> call_inv me s (f (set_pc me K_sched s))"
  shows "step_kept me s (sched_call me env f s)"
  using assms by (auto simp: sched_call_def call_inv_def step_kept_def)

lemma call_inv_nrks: "nrks s' = nrks s \<Longrightarrow> (\<And>j. j \<noteq> me \<Longrightarrow> pc s' j = pc s j) \<Longrightarrow> call_inv me s' x = call_inv me s x"
  by (simp add: call_inv_def)

lemma wait_inv:
  assumes inv: "rt_inv s" and me: "me < nrks s" and p: "pc s me = K_thread th"
  shows "rt_inv (set_pc me (K_leave th) (s\<lparr>waitq := (waitq s)(w := waitq s w @ [th])\<rparr>))" (is "rt_inv ?s")
proof -
  have i: "placed s" "ready_ok s" "running_ok s" "rqs_ok s" "acyclic (waits s)" using inv by (simp_all add: rt_inv_def)
  have pl: "placed ?s"
  proof (rule placed_move [OF i(1), of "Inl me" "Inr w" _ "{#th#}"])
    show "place ?s z = place s z" if "z \<noteq> Inl me" "z \<noteq> Inr w" for z using that by (cases z) (auto simp: place_def)
  qed (use me p in \<open>simp_all add: place_def\<close>)
  have no: "k = me" if "k < nrks s" "th \<in> set (runq (kts s k)) \<or> th \<in> set (pc_own (pc s k))" for k
    using placed_at [OF i(1) me that(1), of th] that p by auto
  have "ready_ok ?s" by (rule ready_local [OF i(2,1) me]) (use p invD(9) [OF inv me] in \<open>auto simp: own_rdy_def\<close>)
  moreover have "running_ok ?s" by (rule running_local [OF i(3) me]) (use p invD(4,8) [OF inv me] in auto)
  moreover have "rqs_ok ?s" using i(4) p by (auto simp: rqs_ok_def)
  moreover have "set_option (pc_left (pc ?s me)) \<inter> {x. \<exists>k < nrks s. k \<noteq> me \<and> (x \<in> set (runq (kts ?s k)) \<or> x \<in> set (pc_own (pc ?s k)))} = {}"
    using no by fastforce
  then have "acyclic (waits ?s)" by (intro waits_local [OF i(5) me _ pl]) (use p in \<open>simp_all add: subset_insertI\<close>)
  ultimately show ?thesis using pl by (simp add: rt_inv_def)
qed

lemma take_inv:
  assumes inv: "rt_inv s" and me: "me < nrks s" and p: "pc s me = K_thread th"
  shows "rt_inv (set_pc me (K_wake th (take n (waitq s w))) (s\<lparr>waitq := (waitq s)(w := drop n (waitq s w))\<rparr>))" (is "rt_inv ?s")
proof -
  have i: "placed s" "ready_ok s" "running_ok s" "rqs_ok s" "acyclic (waits s)" using inv by (simp_all add: rt_inv_def)
  have sp: "mset (waitq s w) = mset (drop n (waitq s w)) + mset (take n (waitq s w))" by (metis append_take_drop_id mset_append union_commute)
  have pl: "placed ?s"
  proof (rule placed_move [OF i(1), of "Inr w" "Inl me" _ "mset (take n (waitq s w))"])
    show "place ?s z = place s z" if "z \<noteq> Inr w" "z \<noteq> Inl me" for z using that by (cases z) (auto simp: place_def)
  qed (use me p sp in \<open>simp_all add: place_def\<close>)
  have "ready_ok ?s" by (rule ready_local [OF i(2,1) me]) (use p invD(9) [OF inv me] in \<open>auto simp: own_rdy_def\<close>)
  moreover have "running_ok ?s" by (rule running_local [OF i(3) me]) (use p invD(4,8) [OF inv me] in auto)
  moreover have "rqs_ok ?s" using i(4) p by (auto simp: rqs_ok_def)
  moreover have "acyclic (waits ?s)" by (rule waits_local [OF i(5) me _ pl]) (use p in auto)
  ultimately show ?thesis using pl by (simp add: rt_inv_def)
qed

lemma si_idle_free:
  assumes "si_busy k i"
  shows "mset (si_idle (k\<lparr>si_busy := (si_busy k)(i := False)\<rparr>)) = add_mset (si_thread k i) (mset (si_idle k))"
  using assms by (cases i) (simp_all add: si_idle_def)

lemma soft_wait_inv:
  assumes inv: "rt_inv s" and me: "me < nrks s" and p: "pc s me = K_thread th" and j: "j < nrks s" "si_thread (kts s j) i = th" "si_busy (kts s j) i"
  shows "rt_inv (set_pc me (K_leave th) (upd_k j (\<lambda>k. k\<lparr>si_busy := (si_busy k)(i := False)\<rparr>) s))" (is "rt_inv ?s")
proof -
  have i: "placed s" "ready_ok s" "running_ok s" "rqs_ok s" "acyclic (waits s)" using inv by (simp_all add: rt_inv_def)
  note f = si_idle_free [OF j(3), unfolded j(2)]
  have pl: "placed ?s"
  proof (cases "j = me")
    case True
    then have "place ?s z = place s z" for z using f p by (cases z) (auto simp: place_def)
    then show ?thesis using placed_same [OF i(1)] by simp
  next
    case False
    show ?thesis
    proof (rule placed_move [OF i(1), of "Inl me" "Inl j" _ "{#th#}"])
      show "place ?s z = place s z" if "z \<noteq> Inl me" "z \<noteq> Inl j" for z using that by (cases z) (auto simp: place_def)
    qed (use me p j f False in \<open>simp_all add: place_def\<close>)
  qed
  have no: "k = me" if "k < nrks s" "th \<in> set (runq (kts s k)) \<or> th \<in> set (pc_own (pc s k))" for k
    using placed_at [OF i(1) me that(1), of th] that p by auto
  have oth: "runq (kts ?s k) = runq (kts s k)" for k by simp
  have "ready_ok ?s" by (rule ready_local [OF i(2,1) me]) (use p oth invD(9) [OF inv me] in \<open>auto simp: own_rdy_def\<close>)
  moreover have "running_ok ?s" by (rule running_local [OF i(3) me]) (use p invD(4,8) [OF inv me] in auto)
  moreover have "rqs_ok ?s" using i(4) p by (auto simp: rqs_ok_def)
  moreover have "set_option (pc_left (pc ?s me)) \<inter> {x. \<exists>k < nrks s. k \<noteq> me \<and> (x \<in> set (runq (kts ?s k)) \<or> x \<in> set (pc_own (pc ?s k)))} = {}"
    unfolding oth using no by fastforce
  then have "acyclic (waits ?s)" by (intro waits_local [OF i(5) me _ pl]) (unfold oth, use p in \<open>simp_all add: subset_insertI\<close>)
  ultimately show ?thesis using pl by (simp add: rt_inv_def)
qed

lemma claim_inv:
  assumes inv: "rt_inv s" and me: "me < nrks s" and p: "pc s me = K_switch old x \<and> p' = K_save old x \<or> pc s me = K_jump x \<and> p' = K_thread x"
    and r: "\<not> th_running (uths s x)"
  shows "rt_inv (set_pc me p' (start_thread x s))"
proof -
  show ?thesis
    by (rule inv_local [OF inv me]) (use invD [OF inv me] p r in \<open>auto simp: own_rdy_def start_thread_def split: if_splits\<close>)
qed

lemma release_inv:
  assumes inv: "rt_inv s" and me: "me < nrks s" and p: "pc s me = K_save old x"
  shows "rt_inv (set_pc me (K_thread x) (release_stack old s))"
  by (rule inv_local [OF inv me]) (use invD [OF inv me] p in \<open>auto simp: own_rdy_def release_stack_def split: if_splits\<close>)

lemma cede_inv:
  assumes inv: "rt_inv s" and me: "me < nrks s" and p: "pc s me = K_thread th"
  shows "rt_inv (set_pc me K_ceded (thread_finish_cede me th s))" "rt_inv (set_pc me K_ceded (thread_cede_hard me th s))"
proof -
  have fin: "rt_inv (set_pc me K_ceded (thread_finish_cede me th s))" if inv: "rt_inv s" and me: "me < nrks s" and p: "pc s me = K_thread th" for s
  proof -
    let ?s = "thread_finish_cede me th s" and ?k = "kts s me"
    have q: "rq_ok 0 ?k" using invD(1) [OF inv me] p by simp
    then have "ring_len ?k \<le> 32" by (simp add: rq_ok_def RUNTIME_RQ_SIZE_def)
    define k1 where "k1 = ?k\<lparr>my_self := None, k_qp := (k_qp ?k)\<lparr>qp_run_start_tsc := - 1,
      oldest_tsc := ready_tsc (uths s th), rq_head := rq_head (k_qp ?k) + 1\<rparr>\<rparr>"
    have k1: "ring_len k1 \<le> 32" "runq k1 = runq ?k" "si_idle k1 = si_idle ?k" "my_self k1 = None" "rq_head (k_qp k1) = rq_head (k_qp ?k) + 1" "rq_tail (k_qp k1) = rq_tail (k_qp ?k)"
      using q by (simp_all add: k1_def runq_def si_idle_def rq_ok_def RUNTIME_RQ_SIZE_def)
    note c = cut_in_runq [OF k1(1), of th]
    have ok: "rq_ok 0 (ring_cut_in th k1)" using c q k1 by (simp add: rq_ok_def RUNTIME_RQ_SIZE_def algebra_simps)
    have e: "qpart (kts ?s me) = qpart (ring_cut_in th k1)" "my_self (kts ?s me) = None"
      using k1(4) by (simp_all add: thread_finish_cede_def Let_def k1_def qpart_def)
    have r: "runq (kts ?s me) = th # runq ?k" "si_idle (kts ?s me) = si_idle ?k" "rq_ok 0 (kts ?s me)"
      using qpart_eq [OF e(1)] c k1 ok by simp_all
    have s: "th_ready (uths ?s x) \<longleftrightarrow> x = th \<or> th_ready (uths s x)" "th_running (uths ?s x) \<longleftrightarrow> x \<noteq> th \<and> th_running (uths s x)"
      "nrks ?s = nrks s" "alive ?s = alive s" "waitq ?s = waitq s" "pc ?s = pc s" "k \<noteq> me \<Longrightarrow> kts ?s k = kts s k" for x k
      by (simp_all add: thread_finish_cede_def Let_def)
    show ?thesis
      by (rule inv_local [OF inv me]) (use invD [OF inv me] p e(2) r s in \<open>auto simp: own_rdy_def\<close>)
  qed
  then show "rt_inv (set_pc me K_ceded (thread_finish_cede me th s))" using assms by blast
  have "rt_inv (upd_th th (\<lambda>t. t\<lparr>hard := True\<rparr>) s)"
    by (rule inv_cosmetic [OF inv me]) (use invD [OF inv me] in auto)
  from fin [OF this] me p show "rt_inv (set_pc me K_ceded (thread_cede_hard me th s))" by (simp add: thread_cede_hard_def)
qed

lemma spawn_inv:
  assumes inv: "rt_inv s" and me: "me < nrks s" and p: "pc s me = K_thread th" and x: "x \<notin> alive s"
  shows "rt_inv (set_pc me (K_wake th [x]) ((thread_create me x s)\<lparr>alive := insert x (alive s)\<rparr>))" (is "rt_inv ?s")
proof -
  have i: "placed s" "ready_ok s" "running_ok s" "rqs_ok s" "acyclic (waits s)" using inv by (simp_all add: rt_inv_def)
  have pl: "placed ?s"
  proof (rule placed_add [OF i(1) x, of _ "Inl me"])
    show "place ?s z = place s z" if "z \<noteq> Inl me" for z using that by (cases z) (auto simp: place_def thread_create_def)
  qed (use me p in \<open>simp_all add: place_def thread_create_def\<close>)
  have "rdy ?s y \<longleftrightarrow> rdy s y" for y
    using p by (auto simp: rdy_def thread_create_def)
  moreover have "\<not> rdy s x" using x invD(5,6) [OF inv] pc_ready_own unfolding rdy_def by blast
  ultimately have "ready_ok ?s" using i(2) by (auto simp: ready_ok_def thread_create_def)
  moreover have "running_ok ?s"
    by (rule running_local [OF i(3) me]) (use p invD(4,8) [OF inv me] x in \<open>auto simp: thread_create_def split: if_splits\<close>)
  moreover have "rqs_ok ?s" using i(4) p by (auto simp: rqs_ok_def thread_create_def)
  moreover have "acyclic (waits ?s)" by (rule waits_local [OF i(5) me _ pl]) (use p in \<open>auto simp: thread_create_def\<close>)
  ultimately show ?thesis using pl by (simp add: rt_inv_def)
qed

lemma exit_inv:
  assumes inv: "rt_inv s" and me: "me < nrks s" and p: "pc s me = K_thread th" and e: "env_ok env s"
  shows "call_inv me s (thread_finish_exit me env ((set_pc me K_sched s)\<lparr>alive := alive (set_pc me K_sched s) - {th}\<rparr>))"
proof -
  let ?s = "upd_k me (\<lambda>k. k\<lparr>my_self := None\<rparr>) ((set_pc me K_sched s)\<lparr>alive := alive (set_pc me K_sched s) - {th}\<rparr>)"
  have i: "placed s" "ready_ok s" "running_ok s" "rqs_ok s" "acyclic (waits s)" using inv by (simp_all add: rt_inv_def)
  have q: "qpart (k\<lparr>my_self := None\<rparr>) = qpart k" for k by (simp add: qpart_def)
  note f = qpart_eq [OF q]
  have pl: "placed ?s"
  proof (rule placed_del [OF i(1), of "Inl me" th])
    show "place ?s z = place s z" if "z \<noteq> Inl me" for z using that by (cases z) (auto simp: place_def)
  qed (use me p f in \<open>simp_all add: place_def\<close>)
  have "ready_ok ?s" by (rule ready_local [OF i(2,1) me]) (use p invD(9) [OF inv me] f in \<open>auto simp: own_rdy_def\<close>)
  moreover have "running_ok ?s" by (rule running_local [OF i(3) me]) (use p invD(4,8) [OF inv me] in auto)
  moreover have "rqs_ok ?s" using i(4) p f by (auto simp: rqs_ok_def)
  moreover have "acyclic (waits ?s)" by (rule waits_local [OF i(5) me _ pl]) (use p f in auto)
  ultimately have "rt_inv ?s" using pl by (simp add: rt_inv_def)
  moreover have "schedule_leave me ?s = ?s" by (simp add: schedule_leave_def)
  ultimately have "call_inv me ?s (schedule me env ?s)"
    using schedule_inv [of me ?s env] me e env_ok_nrks [of ?s s env] by simp
  then show ?thesis using call_inv_nrks [of ?s s] by (simp add: thread_finish_exit_def)
qed

text \<open>A kthread that was on no thread's stack calls the scheduler.\<close>

lemma fresh_inv:
  assumes inv: "rt_inv s" and me: "me < nrks s" and p: "pc s me = K_start \<or> pc s me = K_ceded \<or> pc s me = K_idle"
  shows "rt_inv (set_pc me K_sched s)" "my_self (kts s me) = None"
proof -
  show "rt_inv (set_pc me K_sched s)" by (rule inv_local [OF inv me]) (use invD [OF inv me] p in \<open>auto simp: own_rdy_def\<close>)
  show "my_self (kts s me) = None" using invD(3) [OF inv me] p by auto
qed

lemma fresh_schedule:
  assumes inv: "rt_inv s" and me: "me < nrks s" and p: "pc s me = K_start \<or> pc s me = K_ceded \<or> pc s me = K_idle" and e: "env_ok env s"
    and f: "\<And>k. qpart (f k) = qpart k \<and> my_self (f k) = my_self k"
  shows "call_inv me s (schedule me env (upd_k me f (set_pc me K_sched s)))"
proof -
  let ?s = "upd_k me f (set_pc me K_sched s)"
  have "rt_inv ?s" by (rule inv_self [OF fresh_inv(1) [OF inv me p]]) (use me f in simp_all)
  moreover have "schedule_leave me ?s = ?s" using f fresh_inv(2) [OF inv me p] by (simp add: schedule_leave_def)
  ultimately have "call_inv me ?s (schedule me env ?s)" using schedule_inv [of me ?s env] me e env_ok_nrks [of ?s s env] by simp
  then show ?thesis using call_inv_nrks [of ?s s] by simp
qed

lemma leave_sched_inv:
  assumes inv: "rt_inv s" and me: "me < nrks s" and p: "pc s me = K_leave cur"
  shows "rt_inv (schedule_leave me (upd_th cur (\<lambda>t. t\<lparr>run_start_tsc := - 1, last_cpu := c\<rparr>) (set_pc me K_sched s)))"
proof -
  have q: "qpart (k\<lparr>my_self := None\<rparr>) = qpart k" for k by (simp add: qpart_def)
  have "my_self (kts s me) = Some cur" using invD(3) [OF inv me] p by simp
  then have "schedule_leave me (upd_th cur (\<lambda>t. t\<lparr>run_start_tsc := - 1, last_cpu := c\<rparr>) (set_pc me K_sched s)) =
      upd_k me (\<lambda>k. k\<lparr>my_self := None\<rparr>) (upd_th cur (\<lambda>t. t\<lparr>th_running := False\<rparr>) (upd_th cur (\<lambda>t. t\<lparr>run_start_tsc := - 1, last_cpu := c\<rparr>) (set_pc me K_sched s)))"
    by (simp add: schedule_leave_def)
  moreover have "rt_inv \<dots>"
    by (rule inv_local [OF inv me]) (use invD [OF inv me] p qpart_eq [OF q] in \<open>auto simp: own_rdy_def\<close>)
  ultimately show ?thesis by simp
qed

definition leave_pc :: "nat \<Rightarrow> nat \<Rightarrow> leave \<times> rsys \<Rightarrow> rsys" where
  "leave_pc me th = (\<lambda>(l, s). case l of Same \<Rightarrow> set_pc me (K_thread th) s | Direct x \<Rightarrow> set_pc me (K_switch th x) s | Sched r \<Rightarrow> sched_pc me (r, s))"

lemma leave_direct_inv:
  assumes inv: "rt_inv s" and me: "me < nrks s" and p: "pc s me = K_leave cur" and ne: "k_rq_head (kts s me) \<noteq> k_rq_tail (kts s me)"
    and w: "\<not> (\<not> e_disable_watchdog env \<and> e_cycles_per_us env * RUNTIME_WATCHDOG_US < now - last_watchdog_tsc (kts s me))"
  shows "\<exists>r. enter_schedule me cur now env (set_pc me K_sched s) = Some r \<and> rt_inv (leave_pc me cur r) \<and> nrks (leave_pc me cur r) = nrks s \<and>
    (\<forall>j. j \<noteq> me \<longrightarrow> pc (leave_pc me cur r) j = pc s j)"
proof -
  define ths where "ths = (uths s)(cur := (uths s cur)\<lparr>run_start_tsc := - 1, last_cpu := curr_cpu (kts s me)\<rparr>)"
  define k0 where "k0 = (kts s me)\<lparr>last_tsc := now\<rparr>"
  obtain th k where k: "rq_pop ths k0 = (th, k)" by fastforce
  have q0: "qpart k0 = qpart (kts s me)" "my_self k0 = my_self (kts s me)" by (simp_all add: k0_def qpart_def)
  have ok: "rq_ok 0 k0" "0 < ring_len k0" using invD(1) [OF inv me] p ne qpart_eq [OF q0(1)] by (simp_all add: unat_gt_0)
  have ms: "my_self k = Some cur" using queue_rest(10) [of ths k0] k invD(3) [OF inv me] p q0(2) by simp
  let ?r = "enter_schedule me cur now env (set_pc me K_sched s)"
  let ?t = "upd_k me (\<lambda>k. k\<lparr>k_qp := (k_qp k)\<lparr>qp_run_start_tsc := min now (run_start_tsc (ths th)), qp_rcu_gen := qp_rcu_gen (k_qp k) + 2\<rparr>, k_rcu_gen := k_rcu_gen k + 2\<rparr>)
    (upd_th th (\<lambda>t. t\<lparr>run_start_tsc := min now (run_start_tsc t)\<rparr>) (upd_k me (\<lambda>_. k) (upd_k me (\<lambda>k. k\<lparr>last_tsc := now\<rparr>)
      (upd_th cur (\<lambda>t. t\<lparr>run_start_tsc := - 1, last_cpu := curr_cpu (kts s me)\<rparr>) (set_pc me K_sched s)))))"
  have eq: "?r = Some (if th = cur then (Same, upd_th th (\<lambda>t. t\<lparr>th_ready := False\<rparr>) ?t) else (Direct th, claim_thread me th ?t))"
    using ne w k unfolding enter_schedule_def by (auto simp: Let_def simp flip: ths_def k0_def)
  have kt: "qpart (kts ?t me) = qpart k" "my_self (kts ?t me) = Some cur" using ms by (simp_all add: qpart_def)
  have ut: "th_ready (uths ?t x) = th_ready (uths s x)" "th_running (uths ?t x) = th_running (uths s x)" for x by simp_all
  have fr: "nrks ?t = nrks s" "alive ?t = alive s" "waitq ?t = waitq s" "pc ?t = (pc s)(me := K_sched)" "j \<noteq> me \<Longrightarrow> kts ?t j = kts s j" for j by simp_all
  have pf: "runq (kts s me) = th # runq k'" "rq_ok 0 k'" "si_idle k' = si_idle (kts s me)" if "qpart k' = qpart k" for k'
    using pop_fields [OF ok k that] qpart_eq [OF q0(1)] by simp_all
  show ?thesis
  proof (cases "th = cur")
    case True
    have "rt_inv (set_pc me (K_thread th) (upd_th th (\<lambda>t. t\<lparr>th_ready := False\<rparr>) ?t))"
      by (rule pop_inv [OF inv me, where th = th]) (use p True pf [OF kt(1)] kt(2) fr ut in auto)
    with True eq show ?thesis by (simp add: leave_pc_def)
  next
    case False
    have c: "qpart (kts (claim_thread me th ?t) me) = qpart k" by (simp add: claim_thread_def qpart_def)
    have "rt_inv (set_pc me (K_switch cur th) (claim_thread me th ?t))"
      by (rule pop_inv [OF inv me, where th = th]) (use p False pf [OF c] fr ut in \<open>auto simp: claim_thread_def\<close>)
    with False eq show ?thesis by (simp add: leave_pc_def claim_thread_def)
  qed
qed

lemma leave_inv:
  assumes inv: "rt_inv s" and me: "me < nrks s" and p: "pc s me = K_leave cur" and e: "env_ok env s"
  shows "\<exists>r. enter_schedule me cur now env (set_pc me K_sched s) = Some r \<and> rt_inv (leave_pc me cur r) \<and> nrks (leave_pc me cur r) = nrks s \<and>
    (\<forall>j. j \<noteq> me \<longrightarrow> pc (leave_pc me cur r) j = pc s j)"
proof (cases "k_rq_head (kts s me) = k_rq_tail (kts s me) \<or>
    \<not> e_disable_watchdog env \<and> e_cycles_per_us env * RUNTIME_WATCHDOG_US < now - last_watchdog_tsc (kts s me)")
  case True
  let ?s = "upd_th cur (\<lambda>t. t\<lparr>run_start_tsc := - 1, last_cpu := curr_cpu (kts s me)\<rparr>) (set_pc me K_sched s)"
  have "call_inv me ?s (schedule me env ?s)"
    using schedule_inv [OF leave_sched_inv [OF inv me p], where env = env] me e env_ok_nrks [of ?s s env] by simp
  then obtain r where "schedule me env ?s = Some r" "rt_inv (sched_pc me r)" "nrks (sched_pc me r) = nrks s" "\<And>j. j \<noteq> me \<Longrightarrow> pc (sched_pc me r) j = pc s j"
    by (auto simp: call_inv_def)
  with True show ?thesis by (auto simp: enter_schedule_def Let_def leave_pc_def split: prod.splits)
next
  case False
  with leave_direct_inv [OF inv me p] show ?thesis by blast
qed

theorem exec_inv:
  assumes inv: "rt_inv s" and me: "me < nrks s"
  shows "step_kept me s (exec me a s)"
proof (cases a)
  case (Leave now env)
  show ?thesis
  proof (cases "pc s me")
    case (K_leave th)
    have eq: "exec me a s = (if env_ok env s then do { r \<leftarrow> enter_schedule me th now env (set_pc me K_sched s); Some (leave_pc me th r) } else Some s)"
      by (simp add: exec_def Leave K_leave leave_pc_def case_prod_unfold)
    then show ?thesis using leave_inv [OF inv me K_leave, of env now] inv by (auto simp: step_kept_def)
  qed (use Leave inv in \<open>auto simp: exec_def\<close>)
next
  case (Exit env)
  show ?thesis
  proof (cases "pc s me")
    case (K_thread th)
    from exit_inv [OF inv me this, of env] show ?thesis
      using sched_call_kept [OF inv, of env me "\<lambda>s. thread_finish_exit me env (s\<lparr>alive := alive s - {th}\<rparr>)"] inv
      by (auto simp: exec_def Exit K_thread simp del: set_pc_simps)
  qed (use Exit inv in \<open>auto simp: exec_def\<close>)
next
  case (Resume env)
  have "call_inv me s (schedule_resume me env (set_pc me K_sched s))" if "pc s me = K_idle" "env_ok env s"
    using resume_inv [OF fresh_inv(1) [OF inv me], of me env] that me invD(2) [OF inv me] env_ok_nrks [of "set_pc me K_sched s" s env]
      call_inv_nrks [of "set_pc me K_sched s" s me] by simp
  then show ?thesis using Resume sched_call_kept [OF inv, of env me "schedule_resume me env"] inv by (cases "pc s me") (auto simp: exec_def)
next
  case (Uncede now env)
  have "call_inv me s (thread_after_cede me env now (set_pc me K_sched s))" if "pc s me = K_ceded" "env_ok env s"
    unfolding thread_after_cede_def by (rule fresh_schedule [OF inv me]) (use that in \<open>simp_all add: qpart_def\<close>)
  then show ?thesis using Uncede sched_call_kept [OF inv, of env me "thread_after_cede me env now"] inv by (cases "pc s me") (auto simp: exec_def)
next
  case (Boot now env)
  have "call_inv me s (schedule_start me env now (set_pc me K_sched s))" if "pc s me = K_start" "env_ok env s"
    unfolding schedule_start_def by (rule fresh_schedule [OF inv me]) (use that in \<open>simp_all add: qpart_def\<close>)
  then show ?thesis using Boot sched_call_kept [OF inv, of env me "schedule_start me env now"] inv by (cases "pc s me") (auto simp: exec_def)
next
  case (Wake now)
  show ?thesis
  proof (cases "pc s me")
    case (K_wake th xs)
    then show ?thesis using Wake wake_begin_inv [OF inv me, of th _ _ now] wake_end_inv [OF inv me, of th]
      by (cases xs) (auto simp: exec_def step_kept_def thread_ready_begin_def thread_ready_prepare_def split: if_splits)
  qed (use Wake inv in \<open>auto simp: exec_def\<close>)
next
  case (Wake_head now)
  show ?thesis
  proof (cases "pc s me")
    case (K_wake th xs)
    show ?thesis
    proof (cases xs)
      case (Cons x ys)
      then obtain s' where "thread_ready_head me x now s = Some s'" "rt_inv (set_pc me (K_wake th ys) s')" "nrks s' = nrks s" "pc s' = pc s"
        using wake_head_inv [OF inv me, of th x ys now] K_wake by (auto simp: ready_head_eq)
      then show ?thesis using Wake_head K_wake Cons by (auto simp: exec_def)
    qed (use Wake_head K_wake inv in \<open>auto simp: exec_def\<close>)
  qed (use Wake_head inv in \<open>auto simp: exec_def\<close>)
next
  case Publish
  then show ?thesis using publish_inv [OF inv me] inv
    by (cases "pc s me") (auto simp: exec_def thread_ready_publish_def split: prod.splits)
next
  case Count
  then show ?thesis using count_inv [OF inv me] inv by (cases "pc s me") (auto simp: exec_def thread_ready_count_def split: if_splits)
next
  case (Yield now)
  then show ?thesis using yield_begin_inv [OF inv me, of _ now] inv
    by (cases "pc s me") (auto simp: exec_def step_kept_def thread_ready_begin_def thread_ready_prepare_def)
next
  case (Softirq pend now)
  show ?thesis
  proof (cases "pc s me")
    case (K_thread th)
    then have "in_turn (pc s me)" by (simp add: in_turn_def)
    then obtain b s' where "softirq_run pend me now s = Some (b, s')" "rt_inv s'" "nrks s' = nrks s" "rt.more s' = rt.more s"
      using softirq_each_inv [OF inv me _ me] inv unfolding softirq_run_def by (metis (full_types))
    then show ?thesis using rsys_more(1) [of s' s] by (auto simp: exec_def Softirq K_thread)
  qed (use Softirq inv in \<open>auto simp: exec_def\<close>)
next
  case (Wait w)
  then show ?thesis using wait_inv [OF inv me] inv by (cases "pc s me") (auto simp: exec_def)
next
  case (Take w n)
  then show ?thesis using take_inv [OF inv me] inv by (cases "pc s me") (auto simp: exec_def)
next
  case (Soft_wait j i)
  then show ?thesis using soft_wait_inv [OF inv me] inv by (cases "pc s me") (auto simp: exec_def)
next
  case Claim
  then show ?thesis using claim_inv [OF inv me] inv by (cases "pc s me") (auto simp: exec_def start_thread_def)
next
  case Release
  then show ?thesis using release_inv [OF inv me] inv by (cases "pc s me") (auto simp: exec_def release_stack_def)
next
  case (Cede h)
  then show ?thesis using cede_inv [OF inv me] inv
    by (cases "pc s me") (auto simp: exec_def thread_cede_hard_def thread_finish_cede_def Let_def)
next
  case (Spawn x)
  then show ?thesis using spawn_inv [OF inv me] inv by (cases "pc s me") (auto simp: exec_def thread_create_def)
qed

lemma reach_inv: "rt_reach s0 s \<Longrightarrow> rt_inv s0 \<Longrightarrow> rt_inv s \<and> nrks s = nrks s0"
proof (induction rule: rt_reach.induct)
  case (rt_step s0 s me a s')
  then show ?case using exec_inv [of s me a] by (auto simp: step_kept_def)
qed simp

section \<open>The first state\<close>

text \<open>No two softirqs of the kthreads share a thread.\<close>

definition softirqs_apart :: "nat \<Rightarrow> (nat \<Rightarrow> softirq \<Rightarrow> nat) \<Rightarrow> bool" where
  "softirqs_apart n si \<longleftrightarrow> (\<forall>k < n. \<forall>j < n. \<forall>i i'. si k i = si j i' \<longrightarrow> k = j \<and> i = i')"

lemma si_all: "set [SI_iokernel, SI_directpath, SI_cxltp, SI_timer, SI_storage] = UNIV"
  by (auto intro: softirq.exhaust)

lemma kthreads_init_alive: "alive (kthreads_init n si ths) = {si k i |k i. k < n}"
proof -
  have "alive (kthreads_init n si ths) = (\<Union>k \<in> {..<n}. si k ` set [SI_iokernel, SI_directpath, SI_cxltp, SI_timer, SI_storage])"
    by (auto simp: kthreads_init_def)
  then show ?thesis unfolding si_all by auto
qed

lemma kthreads_init_inv:
  assumes si: "softirqs_apart n si"
  shows "rt_inv (kthreads_init n si ths)" (is "rt_inv ?s")
proof -
  have r: "runq (kts ?s k) = []" for k by (simp add: kthreads_init_def allock_def runq_def)
  have idle: "si_idle (kts ?s k) = map (si k) [SI_iokernel, SI_directpath, SI_cxltp, SI_timer, SI_storage]" for k
    by (simp add: kthreads_init_def allock_def si_idle_def)
  have f: "pc ?s = (\<lambda>_. K_start)" "nrks ?s = n" "waitq ?s = (\<lambda>_. [])" "alive ?s = {si k i |k i. k < n}" "\<not> th_ready (uths ?s th)" "\<not> th_running (uths ?s th)" for th
    unfolding kthreads_init_alive by (simp_all add: kthreads_init_def)
  have p: "place ?s (Inl k) = (if k < n then mset (si_idle (kts ?s k)) else {#})" "place ?s (Inr w) = {#}" for k w
    by (simp_all add: place_def f r)
  have mem: "th \<in># place ?s (Inl k) \<longleftrightarrow> k < n \<and> (\<exists>i. th = si k i)" for th k
  proof -
    have "set (si_idle (kts ?s k)) = range (si k)" unfolding idle set_map si_all ..
    then show ?thesis unfolding p by auto
  qed
  have "distinct (si_idle (kts ?s k))" if "k < n" for k
  proof -
    have "inj (si k)" using si that by (auto simp: softirqs_apart_def inj_def)
    then show ?thesis unfolding idle by (simp add: inj_eq)
  qed
  then have "count (place ?s x) a \<le> 1" for x a
    by (cases x) (auto simp: p distinct_count_atmost_1)
  moreover have "x = y" if "a \<in># place ?s x" "a \<in># place ?s y" for a x y
    using that si mem p by (cases x; cases y) (auto simp: softirqs_apart_def)
  moreover have "th \<in> alive ?s \<longleftrightarrow> (\<exists>x. th \<in># place ?s x)" for th
  proof
    assume "\<exists>x. th \<in># place ?s x"
    then obtain x where "th \<in># place ?s x" ..
    then show "th \<in> alive ?s" using mem p by (cases x) (auto simp: f)
  qed (use mem in \<open>auto simp: f\<close>)
  ultimately have "placed ?s" by (simp add: placed_def uniq_def)
  moreover have "ready_ok ?s" by (simp add: ready_ok_def rdy_def r f)
  moreover have "running_ok ?s" by (simp add: running_ok_def f)
  moreover have "rqs_ok ?s" using r by (simp add: rqs_ok_def f rq_ok_def) (simp add: kthreads_init_def allock_def)
  moreover have "acyclic (waits ?s)" by (simp add: waits_def f acyclic_def)
  ultimately show ?thesis by (simp add: rt_inv_def)
qed

lemma boot_ready_inv:
  assumes inv: "rt_inv s" and z: "0 < nrks s" "pc s 0 = K_start" and x: "x \<notin> alive s" "\<not> th_ready u" "\<not> th_running u"
    and u: "uths t = (uths s)(x := u)" "kts t = kts s" "nrks t = nrks s" "pc t = pc s" "waitq t = waitq s" "alive t = insert x (alive s)"
  shows "\<exists>s'. thread_ready 0 x now t = Some s' \<and> rt_inv s' \<and> nrks s' = nrks s \<and> pc s' = pc s \<and> alive s' = insert x (alive s)"
proof -
  have i: "placed s" "ready_ok s" "running_ok s" "rqs_ok s" "acyclic (waits s)" using inv by (simp_all add: rt_inv_def)
  let ?k = "kts s 0"
  have q: "rq_ok 0 ?k" "my_self ?k = None" using invD(1,3) [OF inv z(1)] z(2) by simp_all
  obtain b k where pb: "rq_publish x (k_rq_tail ?k) ?k = (b, k)" by fastforce
  define u' where "u' = uths (upd_th x (\<lambda>t. t\<lparr>th_ready := True, ready_tsc := now\<rparr>) t)"
  define k' where "k' = rq_count u' x b k"
  define s' where "s' = upd_k 0 (\<lambda>_. k') (upd_th x (\<lambda>t. t\<lparr>th_ready := True, ready_tsc := now\<rparr>) t)"
  have pq: "mset (runq k) = add_mset x (mset (runq ?k))" "rq_ok (Suc 0) k" using rq_publish_runq [OF q(1) _ pb] by simp_all
  have kq: "mset (runq k') = add_mset x (mset (runq ?k))" "rq_ok 0 k'" "si_idle k' = si_idle ?k" "my_self k' = None"
    using pq rq_count_runq(1,2) queue_rest(4,9) [of x "k_rq_tail ?k" ?k] pb q(2) by (simp_all add: k'_def)
  have rs: "set (runq k') = insert x (set (runq ?k))" using kq(1) by (metis set_mset_add_mset_insert set_mset_mset)
  have eq: "thread_ready 0 x now t = Some s'"
    using x(2) u pb by (simp add: thread_ready_def thread_ready_begin_def thread_ready_prepare_def thread_ready_publish_def thread_ready_count_def
        s'_def k'_def u'_def upd_k_def upd_th_def)
  have fr: "nrks s' = nrks s" "pc s' = pc s" "waitq s' = waitq s" "alive s' = insert x (alive s)" "kts s' = (kts s)(0 := k')"
    "th \<noteq> x \<Longrightarrow> uths s' th = uths s th" "th_ready (uths s' x)" "\<not> th_running (uths s' x)" for th
    using u x by (simp_all add: s'_def)
  have pl: "placed s'"
  proof (rule placed_add [OF i(1) x(1), of _ "Inl 0"])
    show "place s' y = place s y" if "y \<noteq> Inl 0" for y using that fr by (cases y) (auto simp: place_def)
  qed (use z fr kq in \<open>simp_all add: place_def\<close>)
  have "th \<in> set (runq (kts s' k)) \<longleftrightarrow> th \<in> set (runq (kts s k)) \<or> k = 0 \<and> th = x" for th k using rs fr(5) by (cases "k = 0") auto
  then have "rdy s' th \<longleftrightarrow> th = x \<or> rdy s th" for th unfolding rdy_def fr(1,2) using z(1) by blast
  then have "ready_ok s'" unfolding ready_ok_def using i(2) fr(4,6,7) by (metis insert_iff ready_ok_def)
  moreover have same: "uths s' th = uths s th" if "th \<in> alive s" for th using fr(6) x(1) that by metis
  have "running_ok s'" by (rule running_local [OF i(3) z(1)]) (use z fr same in auto)
  moreover have "rqs_ok s'" using i(4) z kq fr(1,2,5) by (auto simp: rqs_ok_def)
  moreover have "acyclic (waits s')" by (rule waits_local [OF i(5) z(1) _ pl]) (use z fr in auto)
  ultimately show ?thesis using eq pl fr by (auto simp: rt_inv_def)
qed

lemma spawn_late_inv:
  assumes "rt_inv s" "0 < nrks s" "pc s 0 = K_start" "distinct xs" "set xs \<inter> alive s = {}"
  shows "\<exists>s'. spawn_late xs now s = Some s' \<and> rt_inv s' \<and> nrks s' = nrks s \<and> pc s' = pc s \<and> alive s' = set xs \<union> alive s"
  using assms
proof (induction xs arbitrary: s)
  case (Cons x xs)
  let ?t = "thread_create 0 x (s\<lparr>alive := insert x (alive s)\<rparr>)"
  obtain s1 where s1: "thread_spawn 0 x now (s\<lparr>alive := insert x (alive s)\<rparr>) = Some s1" "rt_inv s1" "nrks s1 = nrks s" "pc s1 = pc s" "alive s1 = insert x (alive s)"
    using boot_ready_inv [OF Cons(2-4), of x "uths ?t x" ?t now] Cons(6) by (auto simp: thread_spawn_def thread_create_def)
  then show ?case using Cons(1) [of s1] Cons(3-6) by auto
qed simp

lemma runtime_init_inv:
  assumes "softirqs_apart n si" "0 < n" "distinct (main # late)" "\<forall>k < n. \<forall>i. si k i \<notin> set (main # late)"
  shows "\<exists>s. runtime_init n si ths main late now = Some s \<and> rt_inv s \<and> nrks s = n \<and> alive s = set (main # late) \<union> {si k i |k i. k < n}"
proof -
  let ?z = "kthreads_init n si ths"
  let ?t = "upd_th main (\<lambda>t. t\<lparr>main_thread := True\<rparr>) (thread_create 0 main (?z\<lparr>alive := insert main (alive ?z)\<rparr>))"
  have z: "nrks ?z = n" "pc ?z = (\<lambda>_. K_start)" "alive ?z = {si k i |k i. k < n}" unfolding kthreads_init_alive by (simp_all add: kthreads_init_def)
  have m: "main \<notin> alive ?z" using assms(4) z by auto
  obtain s1 where s1: "thread_spawn_main 0 main now (?z\<lparr>alive := insert main (alive ?z)\<rparr>) = Some s1" "rt_inv s1" "nrks s1 = n" "pc s1 = pc ?z" "alive s1 = insert main (alive ?z)"
    using boot_ready_inv [OF kthreads_init_inv [OF assms(1)] _ _ m, of "uths ?t main" ?t now] assms(2) z by (auto simp: thread_spawn_main_def thread_create_def)
  obtain s where "spawn_late late now s1 = Some s" "rt_inv s" "nrks s = n" "alive s = set late \<union> alive s1"
  proof -
    have "set late \<inter> alive s1 = {}" using s1(5) z(3) assms(3,4) by auto
    from spawn_late_inv [OF s1(2) _ _ _ this, of now] that show ?thesis using s1 z assms by auto
  qed
  with s1 z show ?thesis by (auto simp: runtime_init_def)
qed

end
