(* ===== verification/Uthread_Correct.thy ===== *)
theory Uthread_Correct
  imports Uthread_Inv
begin

text \<open>
  What the scheduler of user threads promises, from the first state on: no thread is lost, duplicated or
  run twice, no check of the code fails, a kthread that waits for a thread to be off its stack goes on,
  and the scheduler process sees in the published counters what the run queues hold.
\<close>

section \<open>Kthreads that wait\<close>

text \<open>A kthread that has the next thread, but must wait until that is off its old stack.\<close>

definition next_th :: "kpc \<Rightarrow> nat option" where
  "next_th p = (case p of K_switch old x \<Rightarrow> Some x | K_jump x \<Rightarrow> Some x | _ \<Rightarrow> None)"

definition blocked :: "rsys \<Rightarrow> nat \<Rightarrow> bool" where
  "blocked s j \<longleftrightarrow> (case next_th (pc s j) of None \<Rightarrow> False | Some x \<Rightarrow> th_running (uths s x))"

lemma blocked_waits:
  assumes inv: "rt_inv s" and j: "j < nrks s" "blocked s j"
  shows "\<exists>k. (j, k) \<in> waits s"
proof -
  obtain x where x: "next_th (pc s j) = Some x" "th_running (uths s x)" using j(2) by (auto simp: blocked_def split: option.splits)
  have i: "placed s" "running_ok s" using inv by (simp_all add: rt_inv_def)
  have own: "x \<in> set (pc_own (pc s j))" "x \<notin> set (pc_stack (pc s j))" using x(1) invD(2) [OF inv j(1)] by (auto simp: next_th_def split: kpc.splits)
  then have "x \<in> alive s" using invD(5) [OF inv j(1)] by auto
  with i(2) x(2) obtain k where k: "k < nrks s" "x \<in> set (pc_stack (pc s k))" by (auto simp: running_ok_def)
  then have "k \<noteq> j" using own by auto
  then have "x \<notin> set (pc_own (pc s k))" using placed_at [OF i(1) j(1) k(1), of x] own by auto
  then have "pc_left (pc s k) = Some x" using k(2) by (cases "pc s k") (auto split: if_splits)
  then have "(j, k) \<in> waits s" using own k j(1) \<open>k \<noteq> j\<close> by (auto simp: waits_def)
  then show ?thesis ..
qed

lemma waits_wf: "rt_inv s \<Longrightarrow> wf ((waits s)\<inverse>)"
  by (rule finite_acyclic_wf_converse [OF finite_subset [of _ "{..<nrks s} \<times> {..<nrks s}"]]) (auto simp: waits_def rt_inv_def)

text \<open>At the end of the chain of kthreads that wait for each other is one that goes on.\<close>

lemma chain_end:
  assumes inv: "rt_inv s" and j: "j < nrks s" "blocked s j"
  shows "\<exists>k < nrks s. k \<noteq> j \<and> \<not> blocked s k \<and> pc_left (pc s k) \<noteq> None"
proof -
  have "j < nrks s \<Longrightarrow> blocked s j \<Longrightarrow> \<exists>k. (j, k) \<in> (waits s)\<^sup>+ \<and> \<not> blocked s k" for j
    using waits_wf [OF inv]
  proof (induction j rule: wf_induct_rule)
    case (less j)
    obtain k where k: "(j, k) \<in> waits s" using blocked_waits [OF inv less(2,3)] by blast
    then have "k < nrks s" by (simp add: waits_def)
    with less(1) [of k] k show ?case by (cases "blocked s k") (auto intro: trancl_into_trancl2)
  qed
  then obtain k where k: "(j, k) \<in> (waits s)\<^sup>+" "\<not> blocked s k" using j by blast
  then have "k \<noteq> j" using inv by (auto simp: rt_inv_def acyclic_def)
  moreover obtain i where "(i, k) \<in> waits s" using k(1) by (meson tranclE)
  then have "k < nrks s" "pc_left (pc s k) \<noteq> None" by (auto simp: waits_def)
  ultimately show ?thesis using k(2) by blast
qed

text \<open>How many steps a kthread is away from leaving its thread's stack.\<close>

primrec pc_rank :: "kpc \<Rightarrow> nat" where
  "pc_rank K_start = 0"
| "pc_rank (K_thread th) = 0"
| "pc_rank (K_wake th xs) = 0"
| "pc_rank (K_push th x t xs) = (if x = th then 5 else 0)"
| "pc_rank (K_count th x b xs) = (if x = th then 4 else 0)"
| "pc_rank (K_leave th) = 3"
| "pc_rank (K_switch old x) = 2"
| "pc_rank (K_save old x) = 1"
| "pc_rank K_sched = 0"
| "pc_rank (K_jump x) = 0"
| "pc_rank K_idle = 0"
| "pc_rank K_ceded = 0"

definition calm_env :: sched_env where
  "calm_env = \<lparr>e_now = 0, e_end = 0, e_pend = (\<lambda>_ _ _. False), e_stale = (\<lambda>_. False), e_lock = (\<lambda>_. False), e_start = 0, e_recent = None,
     e_to_steal = False, e_is_server = False, e_avg_delay = 0, e_yield_req = 0, e_disable_watchdog = True, e_cycles_per_us = 1\<rparr>"

lemma leave_rank: "pc_rank (pc (leave_pc me th r) me) < 3"
  by (auto simp: leave_pc_def sched_pc_def split: prod.split leave.split option.split)

lemma rank_step:
  assumes inv: "rt_inv s" and k: "k < nrks s" "\<not> blocked s k" "pc_left (pc s k) \<noteq> None"
  shows "\<exists>a s'. exec k a s = Some s' \<and> pc_rank (pc s' k) < pc_rank (pc s k)"
proof (cases "pc s k")
  case (K_leave th)
  have "env_ok calm_env s" by (simp add: env_ok_def calm_env_def)
  with leave_inv [OF inv k(1) K_leave this, of 0] obtain r where "enter_schedule k th 0 calm_env (set_pc k K_sched s) = Some r" by blast
  then have "exec k (Leave 0 calm_env) s = Some (leave_pc k th r)"
    using \<open>env_ok calm_env s\<close> by (simp add: exec_def K_leave leave_pc_def case_prod_unfold)
  then show ?thesis using leave_rank [of k th r] K_leave by auto
next
  case (K_push th x t xs)
  obtain b s1 where "thread_ready_publish k x t s = (b, s1)" by fastforce
  with K_push have "exec k Publish s = Some (set_pc k (K_count th x b xs) s1)" by (simp add: exec_def)
  then show ?thesis using K_push k(3) by (intro exI [of _ Publish]) (auto split: if_splits)
next
  case (K_count th x b xs)
  then show ?thesis using k(3) by (intro exI [of _ Count]) (auto simp: exec_def split: if_splits)
next
  case (K_switch old x)
  then have "\<not> th_running (uths s x)" using k(2) by (simp add: blocked_def next_th_def)
  then show ?thesis using K_switch by (intro exI [of _ Claim]) (simp add: exec_def)
next
  case (K_save old x)
  then show ?thesis by (intro exI [of _ Release]) (simp add: exec_def)
qed (use k(3) in simp_all)

text \<open>Steps of the other kthreads.\<close>

inductive others_reach :: "nat \<Rightarrow> rsys \<Rightarrow> rsys \<Rightarrow> bool" where
  or_refl: "others_reach j s s"
| or_step: "k < nrks s \<Longrightarrow> k \<noteq> j \<Longrightarrow> exec k a s = Some s1 \<Longrightarrow> others_reach j s1 s2 \<Longrightarrow> others_reach j s s2"

lemma blocked_ends:
  assumes "rt_inv s" "j < nrks s"
  shows "\<exists>s'. others_reach j s s' \<and> pc s' j = pc s j \<and> \<not> blocked s' j"
  using assms
proof (induction "\<Sum>k < nrks s. pc_rank (pc s k)" arbitrary: s rule: less_induct)
  case less
  show ?case
  proof (cases "blocked s j")
    case True
    obtain k where k: "k < nrks s" "k \<noteq> j" "\<not> blocked s k" "pc_left (pc s k) \<noteq> None" using chain_end [OF less(2,3) True] by blast
    obtain a s1 where a: "exec k a s = Some s1" "pc_rank (pc s1 k) < pc_rank (pc s k)" using rank_step [OF less(2) k(1,3,4)] by blast
    have s1: "rt_inv s1" "nrks s1 = nrks s" "\<And>i. i \<noteq> k \<Longrightarrow> pc s1 i = pc s i" using exec_inv [OF less(2) k(1), of a] a(1) by (auto simp: step_kept_def)
    have "(\<Sum>i < nrks s1. pc_rank (pc s1 i)) < (\<Sum>i < nrks s. pc_rank (pc s i))"
      unfolding s1(2)
    proof (rule sum_strict_mono_ex1)
      show "\<forall>i \<in> {..<nrks s}. pc_rank (pc s1 i) \<le> pc_rank (pc s i)" using s1(3) a(2) by (metis less_imp_le order_refl)
      show "\<exists>i \<in> {..<nrks s}. pc_rank (pc s1 i) < pc_rank (pc s i)" using a(2) k(1) by blast
    qed simp
    from less(1) [OF this s1(1)] less(3) s1(2) obtain s' where "others_reach j s1 s'" "pc s' j = pc s1 j" "\<not> blocked s' j" by auto
    then show ?thesis using or_step [OF k(1,2) a(1)] s1(3) k(2) by metis
  next
    case False
    then show ?thesis by (blast intro: or_refl)
  qed
qed

section \<open>From the first state on\<close>

definition booted :: "nat \<Rightarrow> rsys \<Rightarrow> bool" where
  "booted n s0 \<longleftrightarrow> (\<exists>si ths main late now. softirqs_apart n si \<and> 0 < n \<and> distinct (main # late) \<and>
     (\<forall>k < n. \<forall>i. si k i \<notin> set (main # late)) \<and> runtime_init n si ths main late now = Some s0)"

lemma booted_inv: "booted n s0 \<Longrightarrow> rt_inv s0 \<and> nrks s0 = n"
proof -
  assume "booted n s0"
  then obtain si ths main late now where b: "softirqs_apart n si" "0 < n" "distinct (main # late)" "\<forall>k < n. \<forall>i. si k i \<notin> set (main # late)"
    "runtime_init n si ths main late now = Some s0" unfolding booted_def by blast
  from runtime_init_inv [OF b(1-4), of ths now] b(5) show ?thesis by auto
qed

lemma booted_reach: "booted n s0 \<Longrightarrow> rt_reach s0 s \<Longrightarrow> rt_inv s \<and> nrks s = n"
  using booted_inv [of n s0] reach_inv [of s0 s] by simp

text \<open>Two kthreads, a main thread.\<close>

definition demo_si :: "nat \<Rightarrow> softirq \<Rightarrow> nat" where
  "demo_si k i = 10 + 5 * k + (case i of SI_iokernel \<Rightarrow> 0 | SI_directpath \<Rightarrow> 1 | SI_cxltp \<Rightarrow> 2 | SI_timer \<Rightarrow> 3 | SI_storage \<Rightarrow> 4)"

definition demo_uth :: uth where
  "demo_uth = \<lparr>th_ready = False, th_running = False, hard = False, main_thread = False, last_cpu = 0, run_start_tsc = 0, ready_tsc = 0\<rparr>"

definition demo_boot :: rsys where
  "demo_boot = the (runtime_init 2 demo_si (\<lambda>_. demo_uth) 1 [] 5)"

lemma demo_apart: "softirqs_apart 2 demo_si"
proof -
  define f where "f i = (case i of SI_iokernel \<Rightarrow> 0 | SI_directpath \<Rightarrow> 1 | SI_cxltp \<Rightarrow> 2 | SI_timer \<Rightarrow> 3 | SI_storage \<Rightarrow> (4 :: nat))" for i
  have f: "f i < 5" "f i = f j \<Longrightarrow> i = j" for i j by (cases i; cases j; simp add: f_def)+
  have d: "demo_si k i = 10 + 5 * k + f i" for k i by (simp add: demo_si_def f_def)
  have "k = j \<and> i = i'" if "demo_si k i = demo_si j i'" for k j i i'
  proof -
    have e: "5 * k + f i = 5 * j + f i'" using that by (simp add: d)
    then have "(5 * k + f i) div 5 = (5 * j + f i') div 5" by simp
    then have "k = j" using f(1) [of i] f(1) [of i'] by simp
    then show ?thesis using e f(2) by simp
  qed
  then show ?thesis by (simp add: softirqs_apart_def)
qed

lemma demo_booted: "booted 2 demo_boot"
proof -
  have d: "\<forall>k < 2. \<forall>i. demo_si k i \<notin> set [1]" by (simp add: demo_si_def)
  obtain s where "runtime_init 2 demo_si (\<lambda>_. demo_uth) 1 [] 5 = Some s"
    using runtime_init_inv [OF demo_apart _ _ d, of "\<lambda>_. demo_uth" 5] by auto
  then have "runtime_init 2 demo_si (\<lambda>_. demo_uth) 1 [] 5 = Some demo_boot" by (simp add: demo_boot_def)
  then show ?thesis unfolding booted_def using demo_apart d
    by (intro exI [of _ demo_si] exI [of _ "\<lambda>_. demo_uth"] exI [of _ 1] exI [of _ "[]"] exI [of _ 5]) simp
qed

text \<open>
  The main thread starts on the first kthread and yields; before it is off its stack the second kthread
  starts and steals it.
\<close>

primrec exec_all :: "(nat \<times> action) list \<Rightarrow> rsys \<Rightarrow> rsys option" where
  "exec_all [] s = Some s"
| "exec_all (x # xs) s = (if fst x < nrks s then do { s \<leftarrow> exec (fst x) (snd x) s; exec_all xs s } else None)"

lemma exec_all_reach: "exec_all xs s = Some s' \<Longrightarrow> rt_reach s0 s \<Longrightarrow> rt_reach s0 s'"
  by (induction xs arbitrary: s) (auto simp: Option.bind_eq_Some_conv split: if_splits intro: rt_step)

definition demo_run :: "(nat \<times> action) list" where
  "demo_run = [(0, Boot 9 calm_env), (0, Claim), (0, Yield 11), (0, Publish), (0, Count),
     (1, Boot 13 (calm_env\<lparr>e_to_steal := True, e_lock := (\<lambda>_. True)\<rparr>))]"

definition demo_state :: rsys where
  "demo_state = the (exec_all demo_run demo_boot)"

lemmas rt_eval = runtime_init_def kthreads_init_def thread_spawn_main_def thread_create_def thread_ready_def thread_ready_begin_def thread_ready_prepare_def
  thread_ready_publish_def thread_ready_count_def upd_k_def upd_th_def set_pc_def rq_publish_def rq_count_def allock_def ring_put_def RUNTIME_RQ_SIZE_def slot_def Let_def
  exec_def sched_call_def env_ok_def calm_env_def schedule_start_def schedule_def schedule_top_def schedule_leave_def schedule_end_def schedule_done_def
  rq_pop_def update_oldest_tsc_def claim_thread_def sched_pc_def start_thread_def RUNTIME_WATCHDOG_US_def schedule_again_def softirq_sched_def
  softirq_steal_def steal_work_def work_available_def softirq_pending_def merge_runqueues_def drain_threads_def runq_def ring_at_def blocked_def next_th_def

lemma demo_eval: "[0..<2] = [0, 1]" "(2 :: u32) div 2 = 1" "wraps_lt 1 2"
  by (simp add: upt_rec) code_simp+

lemma demo_facts:
  "exec_all demo_run demo_boot \<noteq> None" "pc demo_state 0 = K_leave 1" "pc demo_state 1 = K_jump 1" "runq (kts demo_state 0) = []" "1 \<in> alive demo_state"
  "blocked demo_state 1" "runq (kts demo_boot 0) = [1]" "pc demo_boot 0 = K_start"
  "rq_head (k_qp (kts demo_boot 0)) = 1" "rq_tail (k_qp (kts demo_boot 0)) = 0"
  by (simp_all add: rt_eval demo_eval demo_boot_def demo_run_def demo_state_def demo_uth_def)

lemma demo_reach: "rt_reach demo_boot demo_state"
  using demo_facts(1) exec_all_reach [OF _ rt_refl] by (auto simp: demo_state_def)

text \<open>
  C4: whatever the kthreads of a runtime do, in whatever order (wake, park, yield, steal, switch, cede,
  spawn and end threads), every live thread is in exactly one place, once: in the run queue or the hands
  of one kthread, among its idle softirqs, or on one list of waiters. No thread is lost or duplicated.
\<close>

theorem threads_in_one_place:
  assumes "booted n s0" "rt_reach s0 s" "th \<in> alive s"
  shows "(\<exists>!x. th \<in># place s x) \<and> (\<forall>x. count (place s x) th \<le> 1)"
proof -
  have p: "uniq (place s)" "\<exists>x. th \<in># place s x" using booted_reach [OF assms(1,2)] assms(3) by (auto simp: rt_inv_def placed_def)
  then show ?thesis using uniqD uniq_count by metis
qed

theorem threads_in_one_place_witness: "(\<exists>!x. 1 \<in># place demo_state x) \<and> 1 \<in># place demo_state (Inl 1) \<and> 1 \<notin># place demo_state (Inl 0)"
proof -
  have "nrks demo_state = 2" using booted_reach [OF demo_booted demo_reach] by simp
  then have "1 \<in># place demo_state (Inl 1)" using demo_facts(3) by (simp add: place_def)
  then show ?thesis using threads_in_one_place [OF demo_booted demo_reach demo_facts(5)] by auto
qed



text \<open>
  C8: the flags of a live thread are right and stacks are never shared: it is marked ready exactly when
  it is in a run queue (or about to be stored in one), marked running exactly when a kthread is on its
  stack, and at most one kthread is.
\<close>

theorem one_stack_each:
  assumes "booted n s0" "rt_reach s0 s" "th \<in> alive s"
  shows "(th_ready (uths s th) \<longleftrightarrow> (\<exists>k < n. th \<in> set (runq (kts s k)) \<or> pc_ready (pc s k) = Some th)) \<and>
    (th_running (uths s th) \<longleftrightarrow> (\<exists>k < n. th \<in> set (pc_stack (pc s k)))) \<and>
    (\<forall>j < n. \<forall>k < n. th \<in> set (pc_stack (pc s j)) \<longrightarrow> th \<in> set (pc_stack (pc s k)) \<longrightarrow> j = k)"
proof -
  have "rt_inv s" and n: "nrks s = n" using booted_reach [OF assms(1,2)] by simp_all
  then have "ready_ok s" "running_ok s" by (simp_all add: rt_inv_def)
  then show ?thesis using assms(3) unfolding ready_ok_def rdy_def running_ok_def n by simp
qed

theorem one_stack_each_witness: "th_running (uths demo_state 1) \<and> \<not> th_ready (uths demo_state 1)"
proof -
  have two: "(\<exists>k < 2. P k) \<longleftrightarrow> P 0 \<or> P (1 :: nat)" for P by (auto simp: less_2_cases_iff)
  have "1 \<notin> set (runq (kts demo_state 1))" using booted_reach [OF demo_booted demo_reach] invD(7) [of demo_state 1] demo_facts(3) by auto
  then show ?thesis
    using one_stack_each [OF demo_booted demo_reach demo_facts(5)] unfolding two by (simp add: demo_facts(2,4) demo_facts(3) [simplified])
qed

text \<open>
  C6: a kthread that has claimed a thread whose old stack another kthread is still on does not wait for
  ever: kthreads never wait for each other in a circle, and steps of the others alone lead to a state in
  which it can go on.
\<close>

theorem switch_wait_ends:
  assumes "booted n s0" "rt_reach s0 s" "j < n"
  shows "\<exists>s'. others_reach j s s' \<and> pc s' j = pc s j \<and> \<not> blocked s' j"
  using booted_reach [OF assms(1,2)] blocked_ends [of s j] assms(3) by auto

theorem switch_wait_ends_witness: "blocked demo_state 1 \<and> (\<exists>s'. others_reach 1 demo_state s' \<and> pc s' 1 = K_jump 1 \<and> \<not> blocked s' 1)"
  using switch_wait_ends [OF demo_booted demo_reach, of 1] demo_facts(3,6) by simp



text \<open>
  C26: the scheduler process sees what a parked kthread has. Its measurement of a kthread that is not
  running, taken from the words the runtime published, says that threads are waiting exactly when the
  kthread's run queue is not empty.
\<close>

theorem scheduler_sees_queue:
  assumes "booted n s0" "rt_reach s0 s" "k < n" "pc_debt (pc s k) = 0" "length (runq (kts s k)) < 2 ^ 32"
    and "rq_head (qptrs th) = rq_head (k_qp (kts s k))" "rq_tail (qptrs th) = rq_tail (k_qp (kts s k))" "\<not> th_active th"
  shows "fst (measure_uthread now th) \<longleftrightarrow> runq (kts s k) \<noteq> []"
proof -
  let ?q = "k_qp (kts s k)"
  have "rq_head ?q - rq_tail ?q = of_nat (length (runq (kts s k)))"
    using booted_reach [OF assms(1,2)] invD(1) [of s k] assms(3,4) by (simp add: rq_ok_def)
  moreover have "unat (of_nat (length (runq (kts s k))) :: u32) = length (runq (kts s k))" using assms(5) by (simp add: unat_of_nat)
  ultimately have "unat (rq_head ?q - rq_tail ?q) = length (runq (kts s k))" by simp
  then have "rq_head ?q = rq_tail ?q \<longleftrightarrow> runq (kts s k) = []" by (metis eq_iff_diff_eq_0 length_0_conv unat_eq_0)
  then show ?thesis using assms(6-8) by (simp add: measure_uthread_def standing_def Let_def)
qed

theorem scheduler_sees_queue_witness: "fst (measure_uthread 9 (demo_thread\<lparr>qptrs := \<lparr>rq_head = 1, rq_tail = 0, oldest_tsc = 5\<rparr>\<rparr>))"
  using scheduler_sees_queue [OF demo_booted rt_refl, of 0 "demo_thread\<lparr>qptrs := \<lparr>rq_head = 1, rq_tail = 0, oldest_tsc = 5\<rparr>\<rparr>" 9] demo_facts(7-10)
  by (simp add: demo_thread_def)

section \<open>The run queue is a queue\<close>

text \<open>The operations of one kthread on its own queue, and what they are on a list.\<close>

datatype rq_op = Op_ready nat u64 | Op_head nat u64 | Op_pop

fun list_step :: "rq_op \<Rightarrow> nat list \<Rightarrow> (nat option \<times> nat list) option" where
  "list_step (Op_ready x now) q = (if x \<in> set q then None else Some (None, q @ [x]))"
| "list_step (Op_head x now) q = (if x \<in> set q then None else Some (None, x # q))"
| "list_step Op_pop [] = Some (None, [])"
| "list_step Op_pop (x # q) = Some (Some x, q)"

definition rt_step_q :: "nat \<Rightarrow> rq_op \<Rightarrow> rt \<Rightarrow> (nat option \<times> rt) option" where
  "rt_step_q me a s = (case a of
     Op_ready x now \<Rightarrow> map_option (Pair None) (thread_ready me x now s)
   | Op_head x now \<Rightarrow> map_option (Pair None) (thread_ready_head me x now s)
   | Op_pop \<Rightarrow> if k_rq_head (kts s me) = k_rq_tail (kts s me) then Some (None, s)
       else let (x, k) = rq_pop (uths s) (kts s me) in Some (Some x, claim_thread me x (upd_k me (\<lambda>_. k) s)))"

primrec run_ops :: "('a \<Rightarrow> 's \<Rightarrow> ('r \<times> 's) option) \<Rightarrow> 'a list \<Rightarrow> 's \<Rightarrow> ('r list \<times> 's) option" where
  "run_ops f [] s = Some ([], s)"
| "run_ops f (a # as) s = do { (r, s) \<leftarrow> f a s; (rs, s) \<leftarrow> run_ops f as s; Some (r # rs, s) }"

text \<open>A machine that implements another one, step by step.\<close>

locale implements =
  fixes step :: "'a \<Rightarrow> 's \<Rightarrow> ('r \<times> 's) option" and spec :: "'a \<Rightarrow> 't \<Rightarrow> ('r \<times> 't) option" and ok :: "'s \<Rightarrow> bool" and abs :: "'s \<Rightarrow> 't"
  assumes step_sim: "ok s \<Longrightarrow> (case step a s of None \<Rightarrow> spec a (abs s) = None | Some (r, s') \<Rightarrow> ok s' \<and> spec a (abs s) = Some (r, abs s'))"
begin

lemma run_sim: "ok s \<Longrightarrow> (case run_ops step as s of None \<Rightarrow> run_ops spec as (abs s) = None | Some (rs, s') \<Rightarrow> ok s' \<and> run_ops spec as (abs s) = Some (rs, abs s'))"
proof (induction as arbitrary: s)
  case (Cons a as)
  show ?case
  proof (cases "step a s")
    case None
    then show ?thesis using step_sim [OF Cons(2), of a] by simp
  next
    case (Some p)
    obtain r s1 where p: "p = (r, s1)" by fastforce
    have s1: "ok s1" "spec a (abs s) = Some (r, abs s1)" using step_sim [OF Cons(2), of a] Some p by simp_all
    from Cons(1) [OF s1(1)] show ?thesis using Some p s1(2) by (auto split: option.splits)
  qed
qed simp

end

definition rq_alone :: "nat \<Rightarrow> rt \<Rightarrow> bool" where
  "rq_alone me s \<longleftrightarrow> rq_ok 0 (kts s me) \<and> packed (kts s me) \<and> (\<forall>th. th_ready (uths s th) \<longleftrightarrow> th \<in> set (runq (kts s me))) \<and> distinct (runq (kts s me))"

lemma ready_alone:
  assumes "rq_alone me s"
  shows "th_ready (uths s x) \<Longrightarrow> thread_ready me x now s = None"
    "\<not> th_ready (uths s x) \<Longrightarrow> \<exists>s'. thread_ready me x now s = Some s' \<and> rq_alone me s' \<and> runq (kts s' me) = runq (kts s me) @ [x]"
proof -
  show "thread_ready me x now s = None" if "th_ready (uths s x)"
    using that by (simp add: thread_ready_def thread_ready_begin_def thread_ready_prepare_def)
  assume x: "\<not> th_ready (uths s x)"
  have q: "rq_ok 0 (kts s me)" "packed (kts s me)" "\<And>th. th_ready (uths s th) \<longleftrightarrow> th \<in> set (runq (kts s me))" "distinct (runq (kts s me))"
    using assms by (auto simp: rq_alone_def)
  obtain b k where pb: "rq_publish x (k_rq_tail (kts s me)) (kts s me) = (b, k)" by fastforce
  have k: "rq_ok (Suc 0) k" "runq k = runq (kts s me) @ [x]" "packed k"
    using rq_publish_runq [OF q(1) _ pb] q(2) by simp_all
  let ?s = "upd_th x (\<lambda>t. t\<lparr>th_ready := True, ready_tsc := now\<rparr>) s"
  let ?s' = "upd_k me (\<lambda>_. rq_count (uths ?s) x b k) ?s"
  have eq: "thread_ready me x now s = Some ?s'"
    using x pb by (simp add: thread_ready_def thread_ready_begin_def thread_ready_prepare_def thread_ready_publish_def thread_ready_count_def upd_k_def upd_th_def)
  have "runq (kts ?s' me) = runq (kts s me) @ [x]" "rq_ok 0 (kts ?s' me)" "packed (kts ?s' me)" using k rq_count_runq by simp_all
  moreover have "th_ready (uths ?s' th) \<longleftrightarrow> th = x \<or> th_ready (uths s th)" for th by simp
  ultimately have "rq_alone me ?s'" using q x by (auto simp: rq_alone_def)
  with eq \<open>runq (kts ?s' me) = _\<close> show "\<exists>s'. thread_ready me x now s = Some s' \<and> rq_alone me s' \<and> runq (kts s' me) = runq (kts s me) @ [x]" by blast
qed

lemma head_alone:
  assumes "rq_alone me s"
  shows "th_ready (uths s x) \<Longrightarrow> thread_ready_head me x now s = None"
    "\<not> th_ready (uths s x) \<Longrightarrow> \<exists>s'. thread_ready_head me x now s = Some s' \<and> rq_alone me s' \<and> runq (kts s' me) = x # runq (kts s me)"
proof -
  show "thread_ready_head me x now s = None" if "th_ready (uths s x)"
    using that by (simp add: thread_ready_head_def thread_ready_prepare_def)
  assume x: "\<not> th_ready (uths s x)"
  have q: "rq_ok 0 (kts s me)" "packed (kts s me)" "\<And>th. th_ready (uths s th) \<longleftrightarrow> th \<in> set (runq (kts s me))" "distinct (runq (kts s me))"
    using assms by (auto simp: rq_alone_def)
  from ready_head_shape [OF x q(1), of now] obtain s' where s': "thread_ready_head_locked me x now s = Some s'" "runq (kts s' me) = x # runq (kts s me)" "rq_ok 0 (kts s' me)"
    "\<And>th. th_ready (uths s' th) = (th = x \<or> th_ready (uths s th))" "packed (kts s' me)" using q(2) by blast
  then have "rq_alone me s'" using s' q x by (auto simp: rq_alone_def)
  with s' show "\<exists>s'. thread_ready_head me x now s = Some s' \<and> rq_alone me s' \<and> runq (kts s' me) = x # runq (kts s me)"
    by (auto simp: ready_head_eq)
qed

lemma pop_alone:
  assumes "rq_alone me s" "k_rq_head (kts s me) \<noteq> k_rq_tail (kts s me)" "rq_pop (uths s) (kts s me) = (x, k)"
  shows "rq_alone me (claim_thread me x (upd_k me (\<lambda>_. k) s))" "runq (kts s me) = x # runq (kts (claim_thread me x (upd_k me (\<lambda>_. k) s)) me)"
proof -
  have q: "rq_ok 0 (kts s me)" "packed (kts s me)" "\<And>th. th_ready (uths s th) \<longleftrightarrow> th \<in> set (runq (kts s me))" "distinct (runq (kts s me))"
    using assms(1) by (auto simp: rq_alone_def)
  have "0 < ring_len (kts s me)" using assms(2) by (simp add: unat_gt_0)
  note p = rq_pop_runq [OF q(1) this assms(3)]
  have m: "runq (k\<lparr>my_self := y\<rparr>) = runq k" "rq_ok 0 (k\<lparr>my_self := y\<rparr>) = rq_ok 0 k" "packed (k\<lparr>my_self := y\<rparr>) = packed k" for y
    by (simp_all add: runq_def rq_ok_def packed_def)
  show "runq (kts s me) = x # runq (kts (claim_thread me x (upd_k me (\<lambda>_. k) s)) me)" using p m by (simp add: claim_thread_def)
  have "x \<notin> set (runq k)" using q(4) p by auto
  then show "rq_alone me (claim_thread me x (upd_k me (\<lambda>_. k) s))"
    using p m q by (auto simp: rq_alone_def claim_thread_def)
qed

interpretation run_queue: implements "rt_step_q me" list_step "rq_alone me" "\<lambda>s. runq (kts s me)" for me
proof
  fix s a assume ok: "rq_alone me s"
  have rd: "th_ready (uths s x) \<longleftrightarrow> x \<in> set (runq (kts s me))" for x using ok by (simp add: rq_alone_def)
  show "case rt_step_q me a s of None \<Rightarrow> list_step a (runq (kts s me)) = None
    | Some (r, s') \<Rightarrow> rq_alone me s' \<and> list_step a (runq (kts s me)) = Some (r, runq (kts s' me))"
  proof (cases a)
    case (Op_ready x now)
    then show ?thesis using ready_alone [OF ok, of x now] rd by (cases "th_ready (uths s x)") (auto simp: rt_step_q_def)
  next
    case (Op_head x now)
    then show ?thesis using head_alone [OF ok, of x now] rd by (cases "th_ready (uths s x)") (auto simp: rt_step_q_def)
  next
    case Op_pop
    show ?thesis
    proof (cases "k_rq_head (kts s me) = k_rq_tail (kts s me)")
      case True
      have "runq (kts s me) = []" using packed_ring [of "kts s me"] ok True by (auto simp: rq_alone_def)
      with True Op_pop ok show ?thesis by (simp add: rt_step_q_def)
    next
      case False
      obtain x k where k: "rq_pop (uths s) (kts s me) = (x, k)" by fastforce
      from pop_alone [OF ok False k] False Op_pop k show ?thesis by (simp add: rt_step_q_def)
    qed
  qed
qed

text \<open>
  C16: the run queue, a ring of 32 slots with an overflow list and counters that wrap, is a queue of
  threads: any sequence of waking threads at the back or the front and of taking the next one gives the
  same threads in the same order as on a list, and fails exactly when a thread is made ready twice.
\<close>

theorem run_queue_refines_list:
  assumes "rq_alone me s"
  shows "map_option (\<lambda>(rs, s). (rs, runq (kts s me))) (run_ops (rt_step_q me) as s) = run_ops list_step as (runq (kts s me))"
  using run_queue.run_sim [OF assms, of as] by (auto split: option.splits)

definition demo_rt :: rt where
  "demo_rt = \<lparr>uths = \<lambda>_. demo_uth, kts = \<lambda>k. (allock (demo_si k))\<lparr>k_rq_head := - 1, k_rq_tail := - 1\<rparr>, nrks = 2\<rparr>"

theorem run_queue_refines_list_witness:
  "map_option fst (run_ops (rt_step_q 0) [Op_ready 3 1, Op_ready 4 2, Op_head 5 3, Op_pop, Op_pop, Op_pop, Op_pop] demo_rt) =
     Some [None, None, None, Some 5, Some 3, Some 4, None]"
proof -
  have "rq_alone 0 demo_rt" by (simp add: rq_alone_def demo_rt_def demo_uth_def allock_def runq_def rq_ok_def packed_def)
  from run_queue_refines_list [OF this, of "[Op_ready 3 1, Op_ready 4 2, Op_head 5 3, Op_pop, Op_pop, Op_pop, Op_pop]"]
  show ?thesis by (auto simp: demo_rt_def allock_def runq_def)
qed

end
