(* ===== verification/Rcu.thy ===== *)
theory Rcu
  imports Uthread_Correct
begin

text \<open>
  Read-copy-update (\<^verbatim>\<open>runtime/rcu.c\<close>): objects are freed only when every kthread has left the thread it
  was running. The worker decides this from a counter that the scheduler of each kthread increments
  when it is entered and left. The model joins the worker, which reads one counter per step, to the
  interleaved scheduler of user threads.
\<close>

section \<open>The worker\<close>

text \<open>
  What is called when it is safe: the release of an object, or the waking of a thread that waits in
  \<^verbatim>\<open>synchronize_rcu\<close>. An entry of the list stands for its \<^verbatim>\<open>struct rcu_head\<close>.
\<close>

datatype rcu_cb = Release_obj nat | Wake_thread nat

text \<open>
  \<open>R_top\<close>: at the top of the loop; \<open>R_read\<close>: it has taken the list and reads the counters;
  \<open>R_sleep\<close> and \<open>R_scan\<close>: it waits, and reads them again.
\<close>

datatype rcu_pc = R_top | R_read "rcu_cb list" "u32 list" | R_sleep "rcu_cb list" "u32 list" | R_scan "rcu_cb list" "u32 list" nat

record rcu =
  rcu_head :: "rcu_cb list"
  rcu_at :: rcu_pc
  rcu_called :: "rcu_cb list"

definition rcu_free :: "nat \<Rightarrow> rcu \<Rightarrow> rcu" where
  "rcu_free x r = r\<lparr>rcu_head := Release_obj x # rcu_head r\<rparr>"

text \<open>The thread parks as it releases the lock of the list.\<close>

definition synchronize_rcu :: "nat \<Rightarrow> rcu \<Rightarrow> rcu" where
  "synchronize_rcu th r = r\<lparr>rcu_head := Wake_thread th # rcu_head r\<rparr>"

text \<open>From one access to shared memory to the next; \<open>g\<close> are the counters of the \<open>n\<close> kthreads.\<close>

definition rcu_worker :: "nat \<Rightarrow> nat \<Rightarrow> (nat \<Rightarrow> u32) \<Rightarrow> rcu \<Rightarrow> rcu" where
  "rcu_worker maxks n g r = (case rcu_at r of
     R_top \<Rightarrow> if rcu_head r = [] then r else r\<lparr>rcu_at := R_read (rcu_head r) [], rcu_head := []\<rparr>
   | R_read head seen \<Rightarrow>
       if length seen < n then r\<lparr>rcu_at := R_read head (seen @ [g (length seen)])\<rparr> else r\<lparr>rcu_at := R_sleep head seen\<rparr>
   | R_sleep head seen \<Rightarrow> r\<lparr>rcu_at := R_scan head seen 0\<rparr>
   | R_scan head seen i \<Rightarrow>
       if i < n \<and> \<not> (g i AND 1 = 1 \<and> g i = seen ! i) then r\<lparr>rcu_at := R_scan head seen (i + 1)\<rparr>
       else if i \<noteq> maxks then r\<lparr>rcu_at := R_sleep head seen\<rparr>
       else r\<lparr>rcu_at := R_top, rcu_called := rcu_called r @ head\<rparr>)"

section \<open>The counters\<close>

definition gens :: "'a rt_scheme \<Rightarrow> nat \<Rightarrow> u32" where
  "gens s k = k_rcu_gen (kts s k)"

lemma gens_th [simp]: "gens (upd_th th g s) = gens s"
  by (auto simp: gens_def)

lemma gens_sys [simp]: "gens (set_pc me p y) = gens y" "gens (y\<lparr>waitq := w\<rparr>) = gens y" "gens (y\<lparr>alive := a\<rparr>) = gens y"
  by (auto simp: gens_def set_pc_def)

lemma gens_keep: "k_rcu_gen (f (kts s k)) = k_rcu_gen (kts s k) \<Longrightarrow> gens (upd_k k f s) = gens s"
  by (auto simp: gens_def)

lemma gens_same [simp]: "(\<And>x. k_rcu_gen (f x) = k_rcu_gen x) \<Longrightarrow> gens (upd_k k f s) = gens s"
  by (auto simp: gens_def)

lemma gens_add: "(\<And>x. k_rcu_gen (f x) = k_rcu_gen x + c) \<Longrightarrow> gens (upd_k k f s) = (gens s)(k := gens s k + c)"
  by (auto simp: gens_def)

lemma krest_gen: "krest k' = krest k \<Longrightarrow> k_rcu_gen k' = k_rcu_gen k"
  by (simp add: krest_def)

lemmas queue_gen [simp] = queue_krest [THEN krest_gen] oldest_rest [THEN krest_gen] drain_rest [THEN krest_gen]

lemma prepare_gens: "thread_ready_prepare x now s = Some s' \<Longrightarrow> gens s' = gens s"
  by (auto simp: thread_ready_prepare_def split: if_splits)

lemma ready_head_gens:
  assumes "thread_ready_head_locked me x now s = Some s'"
  shows "gens s' = gens s"
proof -
  obtain s1 where s1: "thread_ready_prepare x now s = Some s1" using assms by (auto simp: thread_ready_head_locked_def Option.bind_eq_Some_conv)
  have "gens s' = gens s1"
    using assms by (cases "k_rq_head (kts s1 me) = k_rq_tail (kts s1 me)") (auto simp: thread_ready_head_locked_def Let_def s1)
  with prepare_gens [OF s1] show ?thesis by simp
qed

lemma softirq_gens: "softirq_each is pend k me now s = Some (b, s') \<Longrightarrow> gens s' = gens s"
proof (induction "is" arbitrary: s b)
  case (Cons i "is")
  show ?case
  proof (cases "\<not> si_busy (kts s k) i \<and> pend i")
    case True
    then obtain s1 c where "thread_ready_head_locked me (si_thread (kts s k) i) now (upd_k k (\<lambda>x. x\<lparr>si_busy := (si_busy x)(i := True)\<rparr>) s) = Some s1"
      "softirq_each is pend k me now s1 = Some (c, s')" using Cons(2) by (auto simp: Let_def Option.bind_eq_Some_conv)
    from ready_head_gens [OF this(1)] Cons(1) [OF this(2)] show ?thesis by simp
  qed (use Cons in auto)
qed simp

lemma softirqs_gens:
  "softirq_sched pend k now s = Some (b, s') \<Longrightarrow> gens s' = gens s"
  "softirq_steal pend k me now s = Some (b, s') \<Longrightarrow> gens s' = gens s"
  "softirq_run pend k now s = Some (b, s') \<Longrightarrow> gens s' = gens s"
  unfolding softirq_sched_def softirq_steal_def softirq_run_def
  by (erule softirq_gens, erule softirq_gens, cases "softirq_pending pend", simp_all only: simp_thms if_True if_False, erule softirq_gens, simp)

lemma merge_gens:
  assumes "merge_runqueues (uths s) (kts s me) m (kts s r) n = Some (l, r')"
  shows "gens (upd_k me (\<lambda>_. l) (upd_k r (\<lambda>_. r') s)) = gens s"
  using krest_gen [OF conjunct1 [OF merge_krest [OF assms]]] krest_gen [OF conjunct2 [OF merge_krest [OF assms]]] by (auto simp: gens_def)

lemma steal_result:
  "(if a then Some (False, s) else if b then Some (False, s) else if c then m \<bind> (\<lambda>(l, r). Some (True, f l r)) else x) = Some (d, s') \<Longrightarrow>
   s' = s \<or> (\<exists>l r. m = Some (l, r) \<and> s' = f l r) \<or> x = Some (d, s')"
  by (auto simp: Option.bind_eq_Some_conv split: if_splits)

lemma steal_gens:
  assumes "steal_work st me r env s = Some (b, s')"
  shows "gens s' = gens s"
proof -
  define lsize where "lsize = rq_head (k_qp (kts s me)) - rq_tail (k_qp (kts s me))"
  define rsize where "rsize = rq_head (k_qp (kts s r)) - rq_tail (k_qp (kts s r))"
  define num where "num = (if lsize < rsize then min ((rsize - lsize + 2 - 1) div 2) (of_nat RUNTIME_RQ_SIZE) else 0)"
  have eq: "steal_work st me r env s =
      (if \<not> (work_available (kts s r) (e_pend env st r) \<or> e_stale env r) then Some (False, s) else if \<not> e_lock env r then Some (False, s)
       else if num \<noteq> 0 then do { (l, r') \<leftarrow> merge_runqueues (uths s) (kts s me) lsize (kts s r) num;
              Some (True, upd_k me (\<lambda>_. l) (upd_k r (\<lambda>_. r') s)) }
       else softirq_steal (e_pend env st r) r me (e_now env) s)"
    by (simp only: steal_work_def Let_def flip: lsize_def rsize_def num_def)
  from steal_result [OF assms [unfolded eq]] show ?thesis
  proof (elim disjE exE conjE)
    fix l r' assume "merge_runqueues (uths s) (kts s me) lsize (kts s r) num = Some (l, r')" "s' = upd_k me (\<lambda>_. l) (upd_k r (\<lambda>_. r') s)"
    then show ?thesis using merge_gens by blast
  next
    assume "softirq_steal (e_pend env st r) r me (e_now env) s = Some (b, s')"
    then show ?thesis by (rule softirqs_gens)
  qed simp
qed

lemma steal_from_gens: "steal_from st me env rs s = Some (b, s') \<Longrightarrow> gens s' = gens s"
proof (induction rs arbitrary: s)
  case (Cons r rs)
  show ?case
  proof (cases "r = me")
    case False
    then obtain c s1 where "steal_work st me r env s = Some (c, s1)" "c \<and> s1 = s' \<or> steal_from st me env rs s1 = Some (b, s')"
      using Cons(2) by (auto simp: Option.bind_eq_Some_conv split: if_splits)
    with Cons(1) steal_gens show ?thesis by metis
  qed (use Cons in simp)
qed simp

lemma max_qdelay_gens: "gens (snd (get_max_qdelay_id st c s)) = gens s"
  by (auto simp: get_max_qdelay_id_def Let_def split: option.splits)

lemma steal_delayed_gens: "steal_delayed n me env c s = Some (b, c', s') \<Longrightarrow> gens s' = gens s"
proof (induction n arbitrary: c s)
  case (Suc n)
  obtain i s1 where i: "get_max_qdelay_id (e_start env) (e_cycles_per_us env) s = (i, s1)" by force
  have g: "gens s1 = gens s" using max_qdelay_gens [of "e_start env" "e_cycles_per_us env" s] i by simp
  show ?case
  proof (cases i)
    case None
    with Suc(2) i g show ?thesis by simp
  next
    case (Some r)
    then obtain d s2 where s2: "(if r \<noteq> me then steal_work 2 me r env s1 else Some (False, s1)) = Some (d, s2)"
      "d \<and> s2 = s' \<or> steal_delayed n me env (c + 1) s2 = Some (b, c', s')"
      using Suc(2) i by (auto simp: Option.bind_eq_Some_conv simp del: if_split split: if_splits)
    have "gens s2 = gens s1" using s2(1) steal_gens by (cases "r = me") auto
    with s2(2) Suc(1) g show ?thesis by metis
  qed
qed simp

section \<open>The scheduler and the counters\<close>

lemma leave_gens: "gens (schedule_leave me s) = gens s"
  by (auto simp: schedule_leave_def split: option.splits)

lemma top_gens:
  assumes "schedule_top me env s = Some (b, s')"
  shows "gens s' = (gens s)(me := gens s me + 1)"
proof -
  define s1 where "s1 = upd_k me (\<lambda>k. k\<lparr>k_qp := (k_qp k)\<lparr>qp_run_start_tsc := - 1, qp_rcu_gen := qp_rcu_gen (k_qp k) + 1\<rparr>,
                 k_rcu_gen := k_rcu_gen k + 1\<rparr>) (schedule_leave me s)"
  define dog where "dog \<longleftrightarrow> \<not> e_disable_watchdog env \<and> e_cycles_per_us env * RUNTIME_WATCHDOG_US \<le> e_now env - last_watchdog_tsc (kts s1 me)"
  define after :: "bool \<times> 'a rt_scheme \<Rightarrow> (bool \<times> 'a rt_scheme) option" where
    "after = (\<lambda>(work, s). if work then Some (True, s)
       else (let s = upd_k me (\<lambda>k. if rq_overflow k \<noteq> [] then drain_overflow k else k) s in
         if k_rq_head (kts s me) \<noteq> k_rq_tail (kts s me) then Some (True, s)
         else Some (False, upd_k me (\<lambda>k. k\<lparr>k_rq_head := 0, k_rq_tail := 0\<rparr>) s)))"
  have eq: "schedule_top me env s = (if dog then softirq_sched (e_pend env 0 me) me (e_now env) (upd_k me (\<lambda>k. k\<lparr>last_watchdog_tsc := e_now env\<rparr>) s1)
                     else Some (False, s1)) \<bind> after"
    unfolding schedule_top_def Let_def after_def dog_def s1_def by (simp only:)
  have one: "gens s1 = (gens s)(me := gens s me + 1)" unfolding s1_def using gens_add [of _ 1 me "schedule_leave me s"] by (simp add: leave_gens)
  obtain c s2 where s2: "(if dog then softirq_sched (e_pend env 0 me) me (e_now env) (upd_k me (\<lambda>k. k\<lparr>last_watchdog_tsc := e_now env\<rparr>) s1)
                     else Some (False, s1)) = Some (c, s2)" "after (c, s2) = Some (b, s')"
    using assms unfolding eq by (auto simp: Option.bind_eq_Some_conv simp del: if_split)
  have "gens s2 = gens s1" using s2(1) by (cases dog) (auto dest!: softirqs_gens)
  moreover have "gens s' = gens s2" using s2(2) by (cases c) (auto simp: after_def Let_def split: if_splits)
  ultimately show ?thesis using one by simp
qed

lemma again_gens:
  assumes "schedule_again me env s = Some (b, s')"
  shows "gens s' = gens s"
proof -
  obtain w s1 where s1: "softirq_sched (e_pend env 1 me) me (e_now env) s = Some (w, s1)"
    using assms by (auto simp: schedule_again_def Option.bind_eq_Some_conv)
  have g: "gens s1 = gens s" by (rule softirqs_gens(1) [OF s1])
  consider "s' = s1" | "e_is_server env" "\<not> w" "\<not> yield_requested me env" | "\<not> e_is_server env" "\<not> w" "e_to_steal env"
    using assms s1 by (auto simp: schedule_again_def split: if_splits)
  then show ?thesis
  proof cases
    case 2
    then obtain f c s2 where s2: "steal_delayed (nrks s1) me env 0 s1 = Some (f, c, s2)"
      using assms s1 by (auto simp: schedule_again_def Option.bind_eq_Some_conv)
    show ?thesis
    proof (cases f)
      case True
      with 2 s1 s2 assms steal_delayed_gens [OF s2] g show ?thesis by (auto simp: schedule_again_def)
    next
      case False
      then obtain f3 s3 where "steal_from 3 me env (map (\<lambda>c. (e_start env + c) mod nrks s2) [c..<nrks s2]) s2 = Some (f3, s3)"
        "s' = s3 \<or> softirq_sched (e_pend env 4 me) me (e_now env) s3 = Some (b, s')"
        using assms s1 s2 2 by (auto simp: schedule_again_def Option.bind_eq_Some_conv split: if_splits)
      with steal_from_gens steal_delayed_gens [OF s2] g show ?thesis by (auto dest!: steal_from_gens softirqs_gens)
    qed
  next
    case 3
    then obtain f s2 where s2: "steal_from 2 me env (case e_recent env of None \<Rightarrow> [] | Some r \<Rightarrow> [r]) s1 = Some (f, s2)"
      "s' = s2 \<or> steal_from 3 me env (map (\<lambda>i. (e_start env + i) mod nrks s2) [0..<nrks s2]) s2 = Some (b, s')"
      using assms s1 by (auto simp: schedule_again_def Option.bind_eq_Some_conv split: if_splits)
    then show ?thesis using steal_from_gens [OF s2(1)] g by (auto dest: steal_from_gens)
  qed (use g in simp)
qed

lemma claim_gens [simp]: "gens (claim_thread me th s) = gens s"
  by (simp add: claim_thread_def)

lemma done_gens: "gens (snd (schedule_done me env s)) = (gens s)(me := gens s me + 1)"
proof -
  obtain th k where p: "rq_pop (uths s) (kts s me) = (th, k)" by force
  then have "k_rcu_gen k = k_rcu_gen (kts s me)" using queue_gen(5) [of "uths s" "kts s me"] by simp
  then have "gens (upd_k me (\<lambda>_. k\<lparr>last_tsc := e_end env\<rparr>) s) = gens s" by (intro gens_keep) simp
  then show ?thesis by (simp add: schedule_done_def p gens_add)
qed

lemma end_gens: "schedule_end me env (w, s) = (r, s') \<Longrightarrow> gens s' = (if r = None then gens s else (gens s)(me := gens s me + 1))"
  using done_gens [of me env s] by (auto simp: schedule_end_def split: if_splits prod.splits)

lemma schedule_gens:
  assumes "schedule me env s = Some (r, s')"
  shows "gens s' = (gens s)(me := gens s me + (if r = None then 1 else 2))"
proof -
  obtain w s1 where s1: "schedule_top me env s = Some (w, s1)" using assms by (auto simp: schedule_def Option.bind_eq_Some_conv)
  obtain w' s2 where s2: "(if w then Some (True, s1) else schedule_again me env s1) = Some (w', s2)" "schedule_end me env (w', s2) = (r, s')"
    using assms s1 by (auto simp: schedule_def Option.bind_eq_Some_conv simp del: if_split)
  have "gens s2 = gens s1" using s2(1) again_gens by (cases w) auto
  then show ?thesis using top_gens [OF s1] end_gens [OF s2(2)] by (cases r) auto
qed

lemma resume_gens:
  assumes "schedule_resume me env s = Some (r, s')"
  shows "gens s' = (gens s)(me := gens s me + (if r = None then 0 else 1))"
proof -
  obtain w s1 where s1: "schedule_again me env (upd_k me (\<lambda>k. k\<lparr>k_parked := False\<rparr>) s) = Some (w, s1)" "schedule_end me env (w, s1) = (r, s')"
    using assms by (auto simp: schedule_resume_def Option.bind_eq_Some_conv)
  show ?thesis using again_gens [OF s1(1)] end_gens [OF s1(2)] by (cases r) auto
qed

lemma enter_gens:
  assumes "enter_schedule me cur now env s = Some (l, s')"
  shows "gens s' = (gens s)(me := gens s me + (if l = Sched None then 1 else 2))"
proof -
  define s1 where "s1 = upd_th cur (\<lambda>t. t\<lparr>run_start_tsc := - 1, last_cpu := curr_cpu (kts s me)\<rparr>) s"
  define slow where "slow \<longleftrightarrow> k_rq_head (kts s1 me) = k_rq_tail (kts s1 me) \<or>
    \<not> e_disable_watchdog env \<and> e_cycles_per_us env * RUNTIME_WATCHDOG_US < now - last_watchdog_tsc (kts s1 me)"
  define s2 where "s2 = upd_k me (\<lambda>k. k\<lparr>last_tsc := now\<rparr>) s1"
  obtain th k where p: "rq_pop (uths s2) (kts s2 me) = (th, k)" by force
  define s3 where "s3 = upd_th th (\<lambda>t. t\<lparr>run_start_tsc := min now (run_start_tsc t)\<rparr>) (upd_k me (\<lambda>_. k) s2)"
  define s4 where "s4 = upd_k me (\<lambda>k. k\<lparr>k_qp := (k_qp k)\<lparr>qp_run_start_tsc := run_start_tsc (uths s3 th), qp_rcu_gen := qp_rcu_gen (k_qp k) + 2\<rparr>,
                     k_rcu_gen := k_rcu_gen k + 2\<rparr>) s3"
  have eq: "enter_schedule me cur now env s = (if slow then do { (r, s) \<leftarrow> schedule me env s1; Some (Sched r, s) }
      else if th = cur then Some (Same, upd_th th (\<lambda>t. t\<lparr>th_ready := False\<rparr>) s4) else Some (Direct th, claim_thread me th s4))"
    unfolding enter_schedule_def Let_def s1_def [symmetric] slow_def [symmetric] s2_def [symmetric] p prod.case s3_def [symmetric] s4_def [symmetric]
    by (simp only:)
  have g1: "gens s1 = gens s" by (simp add: s1_def)
  show ?thesis
  proof (cases slow)
    case True
    then obtain r where "schedule me env s1 = Some (r, s')" "l = Sched r" using assms unfolding eq by (auto simp: Option.bind_eq_Some_conv)
    with schedule_gens [OF this(1)] g1 show ?thesis by simp
  next
    case False
    have "k_rcu_gen k = k_rcu_gen (kts s2 me)" using queue_gen(5) [of "uths s2" "kts s2 me"] p by simp
    then have "gens s3 = gens s2" unfolding s3_def by (simp add: gens_keep)
    moreover have "gens s4 = (gens s3)(me := gens s3 me + 2)" unfolding s4_def by (rule gens_add) simp
    ultimately have "gens s4 = (gens s)(me := gens s me + 2)" using g1 by (simp add: s2_def)
    with assms False show ?thesis unfolding eq by (auto split: if_splits)
  qed
qed

text \<open>
  A kthread is inside a thread, and stays there from one point to the next: it does not enter the
  scheduler (which is left through \<open>K_jump\<close>), nor switches to another thread directly, which it does
  from \<open>K_leave\<close>.
\<close>

definition in_thread :: "kpc \<Rightarrow> bool" where
  "in_thread p \<longleftrightarrow> p \<notin> {K_start, K_sched, K_idle, K_ceded}"

definition stays :: "kpc \<Rightarrow> kpc \<Rightarrow> bool" where
  "stays p p' \<longleftrightarrow> in_thread p \<and> in_thread p' \<and> (\<forall>th. p = K_leave th \<or> p' = K_jump th \<longrightarrow> p' = p)"

text \<open>The counter is odd exactly inside a thread, and changes when the kthread leaves it.\<close>

definition tick :: "kpc \<Rightarrow> kpc \<Rightarrow> u32 \<Rightarrow> u32 \<Rightarrow> bool" where
  "tick p p' g g' \<longleftrightarrow> (stays p p' \<longrightarrow> g' = g) \<and> ((odd g \<longleftrightarrow> in_thread p) \<longrightarrow> (odd g' \<longleftrightarrow> in_thread p'))"

definition ticks :: "nat \<Rightarrow> rsys \<Rightarrow> rsys \<Rightarrow> bool" where
  "ticks me s s' \<longleftrightarrow> tick (pc s me) (pc s' me) (gens s me) (gens s' me) \<and> (\<forall>j. j \<noteq> me \<longrightarrow> gens s' j = gens s j)"

lemma in_thread_simps [simp]:
  "in_thread (K_thread th)" "in_thread (K_wake th xs)" "in_thread (K_push th x i xs)" "in_thread (K_count th x b xs)" "in_thread (K_leave th)"
  "in_thread (K_switch th x)" "in_thread (K_save th x)" "in_thread (K_jump x)"
  "\<not> in_thread K_start" "\<not> in_thread K_sched" "\<not> in_thread K_idle" "\<not> in_thread K_ceded"
  by (simp_all add: in_thread_def)

lemma ticks_keep: "gens s' = gens s \<Longrightarrow> in_thread (pc s' me) = in_thread (pc s me) \<Longrightarrow> ticks me s s'"
  by (simp add: ticks_def tick_def)

lemma sched_call_ticks:
  assumes s': "sched_call me env f s = Some s'"
    and f: "\<And>r s1. f (set_pc me K_sched s) = Some (r, s1) \<Longrightarrow> (\<forall>j. j \<noteq> me \<longrightarrow> gens s1 j = gens s j) \<and>
      ((odd (gens s me) \<longleftrightarrow> in_thread (pc s me)) \<longrightarrow> (odd (gens s1 me) \<longleftrightarrow> r \<noteq> None))"
    and p: "\<forall>x. pc s me \<noteq> K_jump x"
  shows "ticks me s s'"
proof (cases "env_ok env s")
  case True
  then obtain r s1 where r: "f (set_pc me K_sched s) = Some (r, s1)" "s' = sched_pc me (r, s1)"
    using s' by (auto simp: sched_call_def Option.bind_eq_Some_conv)
  have "gens s' = gens s1" "pc s' me = (case r of None \<Rightarrow> K_idle | Some th \<Rightarrow> K_jump th)" using r(2) by (auto simp: sched_pc_def)
  with f [OF r(1)] p show ?thesis by (cases r) (simp_all add: ticks_def tick_def stays_def, metis)
qed (use s' in \<open>auto simp: sched_call_def ticks_keep\<close>)

lemma resume_ticks: "pc s me = K_idle \<Longrightarrow> sched_call me env (schedule_resume me env) s = Some s' \<Longrightarrow> ticks me s s'"
  by (erule sched_call_ticks) (auto dest!: resume_gens split: if_splits)

lemma after_cede_ticks:
  assumes "pc s me = K_ceded" "sched_call me env (thread_after_cede me env now) s = Some s'"
  shows "ticks me s s'"
  using assms(2)
proof (rule sched_call_ticks)
  fix r s1 assume "thread_after_cede me env now (set_pc me K_sched s) = Some (r, s1)"
  from schedule_gens [OF this [unfolded thread_after_cede_def]] assms(1)
  show "(\<forall>j. j \<noteq> me \<longrightarrow> gens s1 j = gens s j) \<and> ((odd (gens s me) \<longleftrightarrow> in_thread (pc s me)) \<longrightarrow> (odd (gens s1 me) \<longleftrightarrow> r \<noteq> None))"
    by (auto simp: gens_add)
qed (use assms in simp)

lemma exit_ticks:
  assumes "pc s me = K_thread th" "sched_call me env (\<lambda>s. thread_finish_exit me env (s\<lparr>alive := alive s - {th}\<rparr>)) s = Some s'"
  shows "ticks me s s'"
  using assms(2)
proof (rule sched_call_ticks)
  fix r s1 assume "thread_finish_exit me env ((set_pc me K_sched s)\<lparr>alive := alive (set_pc me K_sched s) - {th}\<rparr>) = Some (r, s1)"
  from schedule_gens [OF this [unfolded thread_finish_exit_def]] assms(1)
  show "(\<forall>j. j \<noteq> me \<longrightarrow> gens s1 j = gens s j) \<and> ((odd (gens s me) \<longleftrightarrow> in_thread (pc s me)) \<longrightarrow> (odd (gens s1 me) \<longleftrightarrow> r \<noteq> None))"
    by auto
qed (use assms in simp)

lemma boot_ticks:
  assumes "pc s me = K_start" "sched_call me env (schedule_start me env now) s = Some s'"
  shows "ticks me s s'"
  using assms(2)
proof (rule sched_call_ticks)
  fix r s1 assume "schedule_start me env now (set_pc me K_sched s) = Some (r, s1)"
  from schedule_gens [OF this [unfolded schedule_start_def]] assms(1)
  show "(\<forall>j. j \<noteq> me \<longrightarrow> gens s1 j = gens s j) \<and> ((odd (gens s me) \<longleftrightarrow> in_thread (pc s me)) \<longrightarrow> (odd (gens s1 me) \<longleftrightarrow> r \<noteq> None))"
    by (auto simp: gens_def)
qed (use assms in simp)

lemma leave_ticks:
  assumes "pc s me = K_leave th" "exec me (Leave now env) s = Some s'"
  shows "ticks me s s'"
proof (cases "env_ok env s")
  case True
  then obtain l s1 where l: "enter_schedule me th now env (set_pc me K_sched s) = Some (l, s1)"
    "s' = (case l of Same \<Rightarrow> set_pc me (K_thread th) s1 | Direct x \<Rightarrow> set_pc me (K_switch th x) s1 | Sched r \<Rightarrow> sched_pc me (r, s1))"
    using assms by (auto simp: exec_def Option.bind_eq_Some_conv)
  have g: "gens s' = gens s1" using l(2) by (simp add: sched_pc_def split: leave.splits)
  have "pc s' me = (case l of Same \<Rightarrow> K_thread th | Direct x \<Rightarrow> K_switch th x | Sched None \<Rightarrow> K_idle | Sched (Some x) \<Rightarrow> K_jump x)"
    using l(2) by (simp add: sched_pc_def split: leave.splits option.splits)
  then show ?thesis using enter_gens [OF l(1)] g assms(1) by (auto simp: ticks_def tick_def stays_def split: leave.splits option.splits)
qed (use assms in \<open>auto simp: exec_def ticks_keep\<close>)

lemma finish_cede_gens: "gens (thread_finish_cede me th s) = (gens s)(me := gens s me + 1)"
  by (simp add: thread_finish_cede_def Let_def gens_add)

lemma cede_ticks: "pc s me = K_thread th \<Longrightarrow> exec me (Cede h) s = Some s' \<Longrightarrow> ticks me s s'"
  by (cases h) (auto simp: exec_def ticks_def tick_def stays_def thread_cede_hard_def finish_cede_gens)

lemma begin_gens: "thread_ready_begin me x now s = Some (i, s') \<Longrightarrow> gens s' = gens s"
  by (auto simp: thread_ready_begin_def Option.bind_eq_Some_conv dest: prepare_gens)

lemma head_gens:
  assumes "thread_ready_head me x now s = Some s'"
  shows "gens s' = gens s"
proof -
  have "thread_ready_head me x now s = thread_ready_head_locked me x now s" by (simp only: thread_ready_head_def thread_ready_head_locked_def)
  with assms ready_head_gens show ?thesis by metis
qed

lemma publish_gens: "thread_ready_publish me x i s = (b, s') \<Longrightarrow> gens s' = gens s"
  using queue_gen(4) [of x i "kts s me"] by (cases "rq_publish x i (kts s me)") (auto simp: thread_ready_publish_def intro!: gens_keep)

lemma count_gens: "gens (thread_ready_count me x b s) = gens s"
  by (simp add: thread_ready_count_def)

lemma exec_ticks:
  assumes inv: "rt_inv s" and me: "me < nrks s" and e: "exec me a s = Some s'"
  shows "ticks me s s'"
proof (cases a)
  case (Softirq pend now)
  show ?thesis
  proof (cases "pc s me")
    case (K_thread th)
    then have "in_turn (pc s me)" by (simp add: in_turn_def)
    then obtain b s1 where s1: "softirq_run pend me now s = Some (b, s1)" "rt.more s1 = rt.more s"
      using softirq_each_inv [OF inv me _ me] inv unfolding softirq_run_def by (metis (full_types))
    then have "s' = s1" using e by (simp add: exec_def Softirq K_thread)
    then show ?thesis using s1 softirqs_gens(3) [OF s1(1)] rsys_more(1) [OF s1(2)] by (simp add: ticks_keep)
  qed (use Softirq e in \<open>auto simp: exec_def ticks_keep\<close>)
next
  case (Leave now env)
  show ?thesis
  proof (cases "pc s me")
    case (K_leave th)
    then show ?thesis using leave_ticks e Leave by blast
  qed (use Leave e in \<open>auto simp: exec_def ticks_keep\<close>)
next
  case (Cede h)
  show ?thesis
  proof (cases "pc s me")
    case (K_thread th)
    then show ?thesis using cede_ticks e Cede by blast
  qed (use Cede e in \<open>auto simp: exec_def ticks_keep\<close>)
next
  case (Resume env)
  then show ?thesis using e resume_ticks [of s me env s'] by (cases "pc s me") (auto simp: exec_def ticks_keep)
next
  case (Uncede now env)
  then show ?thesis using e after_cede_ticks [of s me env now s'] by (cases "pc s me") (auto simp: exec_def ticks_keep)
next
  case (Boot now env)
  then show ?thesis using e boot_ticks [of s me env now s'] by (cases "pc s me") (auto simp: exec_def ticks_keep)
next
  case (Exit env)
  then show ?thesis using e exit_ticks [of s me _ env s'] by (cases "pc s me") (auto simp: exec_def ticks_keep split: if_splits)
next
  case (Wake now)
  then show ?thesis using e
    by (cases "pc s me") (auto simp: exec_def Option.bind_eq_Some_conv intro!: ticks_keep split: list.splits dest!: begin_gens)
next
  case (Wake_head now)
  then show ?thesis using e
    by (cases "pc s me") (auto simp: exec_def Option.bind_eq_Some_conv intro!: ticks_keep split: list.splits dest!: head_gens)
next
  case Publish
  then show ?thesis using e
    by (cases "pc s me") (auto simp: exec_def intro!: ticks_keep split: prod.splits dest!: publish_gens)
next
  case Count
  then show ?thesis using e by (cases "pc s me") (auto simp: exec_def count_gens intro!: ticks_keep)
next
  case (Yield now)
  then show ?thesis using e
    by (cases "pc s me") (auto simp: exec_def Option.bind_eq_Some_conv intro!: ticks_keep dest!: begin_gens)
qed (use e in \<open>cases "pc s me"; auto simp: exec_def start_thread_def release_stack_def thread_create_def intro!: ticks_keep split: if_splits\<close>)+

section \<open>The worker beside the scheduler\<close>

text \<open>
  \<open>passed y x\<close>: the kthreads that were not inside a thread when \<open>x\<close> was queued, or have left the thread
  they were in since.
\<close>

record rcu_sys =
  sys :: rsys
  rcu_st :: rcu
  passed :: "rcu_cb \<Rightarrow> nat set"

definition taken :: "rcu_pc \<Rightarrow> rcu_cb list" where
  "taken p = (case p of R_top \<Rightarrow> [] | R_read h seen \<Rightarrow> h | R_sleep h seen \<Rightarrow> h | R_scan h seen i \<Rightarrow> h)"

definition queued :: "rcu \<Rightarrow> rcu_cb set" where
  "queued r = set (rcu_head r) \<union> set (taken (rcu_at r))"

text \<open>An entry that is queued is not queued again before it is called.\<close>

datatype rcu_act = Run nat action | Queue rcu_cb | Work

definition rcu_queue :: "rcu_cb \<Rightarrow> rcu \<Rightarrow> rcu" where
  "rcu_queue x = (case x of Release_obj i \<Rightarrow> rcu_free i | Wake_thread th \<Rightarrow> synchronize_rcu th)"

definition rcu_exec :: "nat \<Rightarrow> rcu_act \<Rightarrow> rcu_sys \<Rightarrow> rcu_sys option" where
  "rcu_exec maxks a y = (case a of
     Run me b \<Rightarrow> if me < nrks (sys y)
       then do {
         s \<leftarrow> exec me b (sys y);
         Some (y\<lparr>sys := s, passed := (\<lambda>x. if stays (pc (sys y) me) (pc s me) then passed y x else insert me (passed y x))\<rparr>) }
       else None
   | Queue x \<Rightarrow> if x \<in> queued (rcu_st y) then None
       else Some (y\<lparr>rcu_st := rcu_queue x (rcu_st y), passed := (passed y)(x := {k. k < nrks (sys y) \<and> \<not> in_thread (pc (sys y) k)})\<rparr>)
   | Work \<Rightarrow> Some (y\<lparr>rcu_st := rcu_worker maxks (nrks (sys y)) (gens (sys y)) (rcu_st y)\<rparr>))"

definition rcu_start :: "rsys \<Rightarrow> rcu_sys" where
  "rcu_start s = \<lparr>sys = s, rcu_st = \<lparr>rcu_head = [], rcu_at = R_top, rcu_called = []\<rparr>, passed = (\<lambda>_. {})\<rparr>"

inductive rcu_reach :: "nat \<Rightarrow> rsys \<Rightarrow> rcu_sys \<Rightarrow> bool" for maxks s0 where
  rcu_refl: "rcu_reach maxks s0 (rcu_start s0)"
| rcu_step: "rcu_reach maxks s0 y \<Longrightarrow> rcu_exec maxks a y = Some y' \<Longrightarrow> rcu_reach maxks s0 y'"

text \<open>What the worker knows of an entry it has taken.\<close>

definition seen_ok :: "rcu_sys \<Rightarrow> u32 list \<Rightarrow> rcu_cb \<Rightarrow> bool" where
  "seen_ok y seen x \<longleftrightarrow> (\<forall>i < length seen. i \<in> passed y x \<or> gens (sys y) i = seen ! i)"

definition worker_ok :: "nat \<Rightarrow> rcu_sys \<Rightarrow> bool" where
  "worker_ok n y \<longleftrightarrow> (case rcu_at (rcu_st y) of R_top \<Rightarrow> True
     | R_read h seen \<Rightarrow> length seen \<le> n \<and> (\<forall>x \<in> set h. seen_ok y seen x)
     | R_sleep h seen \<Rightarrow> length seen = n \<and> (\<forall>x \<in> set h. seen_ok y seen x)
     | R_scan h seen i \<Rightarrow> length seen = n \<and> i \<le> n \<and> (\<forall>x \<in> set h. seen_ok y seen x \<and> {..<i} \<subseteq> passed y x))"

definition parity_ok :: "rsys \<Rightarrow> bool" where
  "parity_ok s \<longleftrightarrow> (\<forall>k < nrks s. odd (gens s k) \<longleftrightarrow> in_thread (pc s k))"

definition rcu_inv :: "nat \<Rightarrow> rcu_sys \<Rightarrow> bool" where
  "rcu_inv n y \<longleftrightarrow> rt_inv (sys y) \<and> nrks (sys y) = n \<and> parity_ok (sys y) \<and> worker_ok n y \<and>
     (\<forall>x \<in> queued (rcu_st y). \<forall>k < n. in_thread (pc (sys y) k) \<or> k \<in> passed y x)"

lemma start_ready:
  assumes "thread_ready me x now s = Some s'"
  shows "gens s' = gens s" "pc s' = pc s"
proof -
  obtain i s1 where s1: "thread_ready_begin me x now s = Some (i, s1)" using assms by (auto simp: thread_ready_def Option.bind_eq_Some_conv)
  obtain b s2 where s2: "thread_ready_publish me x i s1 = (b, s2)" by force
  have s': "s' = thread_ready_count me x b s2" using assms s1 s2 by (simp add: thread_ready_def)
  show "gens s' = gens s" using begin_gens [OF s1] publish_gens [OF s2] by (simp add: s' count_gens)
  have "pc s1 = pc s" using s1 by (auto simp: thread_ready_begin_def thread_ready_prepare_def split: if_splits)
  moreover have "pc s2 = pc s1" using s2 by (auto simp: thread_ready_publish_def Let_def split: prod.splits)
  ultimately show "pc s' = pc s" by (simp add: s' thread_ready_count_def)
qed

lemma spawn_late_start: "spawn_late xs now s = Some s' \<Longrightarrow> gens s' = gens s \<and> pc s' = pc s"
proof (induction xs arbitrary: s)
  case (Cons x xs)
  then obtain s1 where s1: "thread_ready 0 x now (thread_create 0 x (s\<lparr>alive := insert x (alive s)\<rparr>)) = Some s1" "spawn_late xs now s1 = Some s'"
    by (auto simp: thread_spawn_def Option.bind_eq_Some_conv)
  with start_ready [OF s1(1)] Cons(1) [OF s1(2)] show ?case by (simp add: thread_create_def)
qed simp

lemma booted_parity: "booted n s0 \<Longrightarrow> parity_ok s0"
proof -
  assume "booted n s0"
  then obtain si ths main late now where "runtime_init n si ths main late now = Some s0" unfolding booted_def by blast
  then obtain s where s: "thread_spawn_main 0 main now ((kthreads_init n si ths)\<lparr>alive := insert main (alive (kthreads_init n si ths))\<rparr>) = Some s"
    "spawn_late late now s = Some s0" by (auto simp: runtime_init_def Option.bind_eq_Some_conv)
  have "gens (kthreads_init n si ths) = (\<lambda>_. 0)" "pc (kthreads_init n si ths) = (\<lambda>_. K_start)" by (auto simp: gens_def kthreads_init_def allock_def)
  then have "gens s0 = (\<lambda>_. 0)" "pc s0 = (\<lambda>_. K_start)"
    using start_ready [OF s(1) [unfolded thread_spawn_main_def]] spawn_late_start [OF s(2)] by (simp_all add: thread_create_def)
  then show ?thesis by (simp add: parity_ok_def)
qed

lemma worker_mono:
  assumes "worker_ok n y" "rcu_st y' = rcu_st y" "\<And>x. x \<in> queued (rcu_st y) \<Longrightarrow> passed y x \<subseteq> passed y' x"
    "\<And>x seen. x \<in> queued (rcu_st y) \<Longrightarrow> length seen \<le> n \<Longrightarrow> seen_ok y seen x \<Longrightarrow> seen_ok y' seen x"
  shows "worker_ok n y'"
  using assms by (cases "rcu_at (rcu_st y)") (auto simp: worker_ok_def queued_def taken_def, blast)

lemma rcu_run_inv:
  assumes inv: "rcu_inv n y" and e: "rcu_exec maxks (Run me a) y = Some y'"
  shows "rcu_inv n y'"
proof -
  from e obtain s where me: "me < nrks (sys y)" and s: "exec me a (sys y) = Some s"
    and y': "y' = y\<lparr>sys := s, passed := (\<lambda>x. if stays (pc (sys y) me) (pc s me) then passed y x else insert me (passed y x))\<rparr>"
    by (auto simp: rcu_exec_def Option.bind_eq_Some_conv split: if_splits)
  have i: "rt_inv (sys y)" "nrks (sys y) = n" "parity_ok (sys y)" "worker_ok n y"
    "\<And>x k. x \<in> queued (rcu_st y) \<Longrightarrow> k < n \<Longrightarrow> in_thread (pc (sys y) k) \<or> k \<in> passed y x"
    using inv by (auto simp: rcu_inv_def)
  have k: "rt_inv s" "nrks s = n" "\<And>j. j \<noteq> me \<Longrightarrow> pc s j = pc (sys y) j" using exec_inv [OF i(1) me, of a] s i(2) by (auto simp: step_kept_def)
  have g: "tick (pc (sys y) me) (pc s me) (gens (sys y) me) (gens s me)" "\<And>j. j \<noteq> me \<Longrightarrow> gens s j = gens (sys y) j"
    using exec_ticks [OF i(1) me s] by (auto simp: ticks_def)
  have p: "parity_ok s" unfolding parity_ok_def
  proof (intro allI impI)
    fix j assume "j < nrks s"
    then show "odd (gens s j) \<longleftrightarrow> in_thread (pc s j)" using i(2,3) k(2,3) g by (cases "j = me") (auto simp: parity_ok_def tick_def)
  qed
  have "worker_ok n y'"
  proof (rule worker_mono [OF i(4)])
    fix x seen assume "seen_ok y seen x"
    then show "seen_ok y' seen x" using g unfolding seen_ok_def y' tick_def by simp metis
  qed (auto simp: y')
  moreover have "in_thread (pc s k) \<or> k \<in> passed y' x" if "x \<in> queued (rcu_st y)" "k < n" for x k
    using i(5) [OF that] k(3) [of k] by (cases "k = me") (auto simp: y' stays_def)
  ultimately show ?thesis using k(1,2) p by (simp add: rcu_inv_def y')
qed

lemma rcu_queue_inv:
  assumes inv: "rcu_inv n y" and e: "rcu_exec maxks (Queue x) y = Some y'"
  shows "rcu_inv n y'"
proof -
  have x: "x \<notin> queued (rcu_st y)" and y': "y' = y\<lparr>rcu_st := rcu_queue x (rcu_st y), passed := (passed y)(x := {k. k < nrks (sys y) \<and> \<not> in_thread (pc (sys y) k)})\<rparr>"
    using e by (auto simp: rcu_exec_def split: if_splits)
  have q: "rcu_head (rcu_queue x (rcu_st y)) = x # rcu_head (rcu_st y)" "rcu_at (rcu_queue x (rcu_st y)) = rcu_at (rcu_st y)"
    by (simp_all add: rcu_queue_def rcu_free_def synchronize_rcu_def split: rcu_cb.split)
  have "worker_ok n y'" using inv x
    by (cases "rcu_at (rcu_st y)") (auto simp: rcu_inv_def worker_ok_def y' q seen_ok_def queued_def taken_def)
  then show ?thesis using inv x by (auto simp: rcu_inv_def y' q queued_def)
qed

lemma and_one_odd: "g AND 1 = 1 \<longleftrightarrow> odd (g :: u32)"
  by (simp add: and_one_eq odd_iff_mod_2_eq_one)

text \<open>The first look at a counter, and the second.\<close>

lemma seen_read: "seen_ok y seen x \<Longrightarrow> seen_ok y (seen @ [gens (sys y) (length seen)]) x"
  by (auto simp: seen_ok_def nth_append less_Suc_eq)

lemma scan_passed:
  assumes inv: "rcu_inv n y" and i: "i < n" "\<not> (gens (sys y) i AND 1 = 1 \<and> gens (sys y) i = seen ! i)"
    and x: "x \<in> queued (rcu_st y)" "seen_ok y seen x" "length seen = n"
  shows "i \<in> passed y x"
proof (cases "gens (sys y) i = seen ! i")
  case True
  then have "\<not> in_thread (pc (sys y) i)" using inv i by (auto simp: rcu_inv_def parity_ok_def and_one_odd)
  then show ?thesis using inv i(1) x(1) by (auto simp: rcu_inv_def)
next
  case False
  then show ?thesis using x(2,3) i(1) by (auto simp: seen_ok_def)
qed

lemma rcu_work_inv:
  assumes inv: "rcu_inv n y" and e: "rcu_exec maxks Work y = Some y'"
  shows "rcu_inv n y'"
proof -
  have y': "y' = y\<lparr>rcu_st := rcu_worker maxks n (gens (sys y)) (rcu_st y)\<rparr>" using e inv by (auto simp: rcu_exec_def rcu_inv_def)
  have q: "queued (rcu_st y') \<subseteq> queued (rcu_st y)"
    by (auto simp: y' rcu_worker_def queued_def taken_def split: rcu_pc.splits if_splits)
  have s: "seen_ok y' seen x = seen_ok y seen x" for seen x by (simp add: seen_ok_def y')
  have w: "worker_ok n y" using inv by (simp add: rcu_inv_def)
  have "worker_ok n y'"
  proof (cases "rcu_at (rcu_st y)")
    case (R_scan h seen i)
    have "i \<in> passed y x" if "i < n" "\<not> (gens (sys y) i AND 1 = 1 \<and> gens (sys y) i = seen ! i)" "x \<in> set h" for x
      using scan_passed [OF inv that(1,2)] that(3) w R_scan by (auto simp: worker_ok_def queued_def taken_def)
    then show ?thesis using w R_scan unfolding worker_ok_def s by (auto simp: y' rcu_worker_def lessThan_Suc)
  next
    case (R_read h seen)
    then show ?thesis using w seen_read unfolding worker_ok_def s by (auto simp: y' rcu_worker_def)
  qed (use w in \<open>auto simp: worker_ok_def s, auto simp: y' rcu_worker_def seen_ok_def\<close>)
  then show ?thesis using inv q by (auto simp: rcu_inv_def y')
qed

lemma rcu_reach_inv:
  assumes "rcu_reach maxks s0 y" "booted n s0"
  shows "rcu_inv n y"
  using assms(1)
proof induction
  case rcu_refl
  then show ?case using booted_inv [OF assms(2)] booted_parity [OF assms(2)]
    by (simp add: rcu_inv_def rcu_start_def worker_ok_def queued_def taken_def)
next
  case (rcu_step y a y')
  then show ?case using rcu_run_inv rcu_queue_inv rcu_work_inv by (cases a) blast+
qed

text \<open>
  The worker takes an entry while the first kthread runs the main thread, looks in vain, and calls it
  when that kthread has given its core back.
\<close>

primrec rcu_all :: "nat \<Rightarrow> rcu_act list \<Rightarrow> rcu_sys \<Rightarrow> rcu_sys option" where
  "rcu_all maxks [] y = Some y"
| "rcu_all maxks (a # as) y = do { y \<leftarrow> rcu_exec maxks a y; rcu_all maxks as y }"

lemma rcu_all_reach: "rcu_all maxks as y = Some y' \<Longrightarrow> rcu_reach maxks s0 y \<Longrightarrow> rcu_reach maxks s0 y'"
  by (induction as arbitrary: y) (auto simp: Option.bind_eq_Some_conv intro: rcu_step)

definition demo_rcu_run :: "rcu_act list" where
  "demo_rcu_run = [Run 0 (Boot 9 calm_env), Run 0 Claim, Queue (Release_obj 7), Work, Work, Work, Work, Work, Work, Run 0 (Cede False),
     Work, Work, Work]"

definition demo_rcu :: rcu_sys where
  "demo_rcu = the (rcu_all 2 demo_rcu_run (rcu_start demo_boot))"

definition demo_first :: rsys where
  "demo_first = the (exec 0 (Boot 9 calm_env) demo_boot)"

definition demo_main :: rsys where
  "demo_main = the (exec 0 Claim demo_first)"

definition demo_gone :: rsys where
  "demo_gone = set_pc 0 K_ceded (thread_finish_cede 0 1 demo_main)"

lemma demo_first_facts:
  "exec 0 (Boot 9 calm_env) demo_boot = Some demo_first" "pc demo_first 0 = K_jump 1" "\<not> th_running (uths demo_first 1)"
  "gens demo_first 0 = 3" "gens demo_first 1 = 0" "nrks demo_first = 2" "nrks demo_boot = 2"
  by (simp_all add: demo_first_def rt_eval demo_eval demo_boot_def demo_uth_def gens_def)

lemma demo_main_facts:
  "exec 0 Claim demo_first = Some demo_main" "pc demo_main 0 = K_thread 1" "exec 0 (Cede False) demo_main = Some demo_gone"
  "gens demo_main 0 = 3" "gens demo_main 1 = 0" "nrks demo_main = 2" "gens demo_gone 0 = 4" "gens demo_gone 1 = 0" "nrks demo_gone = 2"
  "pc demo_gone 0 = K_ceded"
proof -
  have m: "exec 0 Claim demo_first = Some (set_pc 0 (K_thread 1) (start_thread 1 demo_first))" by (simp add: exec_def demo_first_facts [simplified])
  then have d: "demo_main = set_pc 0 (K_thread 1) (start_thread 1 demo_first)" by (simp add: demo_main_def)
  from m d show "exec 0 Claim demo_first = Some demo_main" by simp
  show p: "pc demo_main 0 = K_thread 1" by (simp add: d)
  then show "exec 0 (Cede False) demo_main = Some demo_gone" by (simp add: exec_def demo_gone_def)
  show g: "gens demo_main 0 = 3" "gens demo_main 1 = 0" "nrks demo_main = 2" by (simp_all add: d start_thread_def demo_first_facts [simplified])
  show "pc demo_gone 0 = K_ceded" by (simp add: demo_gone_def)
  show "gens demo_gone 0 = 4" "gens demo_gone 1 = 0" "nrks demo_gone = 2"
    by (simp_all add: demo_gone_def finish_cede_gens g [simplified]) (simp add: thread_finish_cede_def Let_def g)
qed

lemma demo_run_step:
  "rcu_all 2 (Run 0 (Boot 9 calm_env) # as) \<lparr>sys = demo_boot, rcu_st = r, passed = f\<rparr> =
   rcu_all 2 as \<lparr>sys = demo_first, rcu_st = r, passed = (\<lambda>x. insert 0 (f x))\<rparr>"
  "rcu_all 2 (Run 0 Claim # as) \<lparr>sys = demo_first, rcu_st = r, passed = f\<rparr> = rcu_all 2 as \<lparr>sys = demo_main, rcu_st = r, passed = f\<rparr>"
  "rcu_all 2 (Run 0 (Cede False) # as) \<lparr>sys = demo_main, rcu_st = r, passed = f\<rparr> =
   rcu_all 2 as \<lparr>sys = demo_gone, rcu_st = r, passed = (\<lambda>x. insert 0 (f x))\<rparr>"
  using demo_facts(8) by (simp_all add: rcu_exec_def stays_def demo_first_facts [simplified] demo_main_facts [simplified])

lemma demo_work_step:
  "rcu_all 2 (Work # as) \<lparr>sys = s, rcu_st = r, passed = f\<rparr> = rcu_all 2 as \<lparr>sys = s, rcu_st = rcu_worker 2 (nrks s) (gens s) r, passed = f\<rparr>"
  "rcu_at r = R_top \<Longrightarrow> rcu_head r = [] \<Longrightarrow> rcu_all 2 (Queue (Release_obj 7) # as) \<lparr>sys = s, rcu_st = r, passed = f\<rparr> =
     rcu_all 2 as \<lparr>sys = s, rcu_st = rcu_free 7 r, passed = f(Release_obj 7 := {k. k < nrks s \<and> \<not> in_thread (pc s k)})\<rparr>"
  by (simp_all add: rcu_exec_def queued_def taken_def rcu_queue_def)

lemma demo_rcu_eval: "\<exists>f. rcu_all 2 demo_rcu_run (rcu_start demo_boot) =
  Some \<lparr>sys = demo_gone, rcu_st = \<lparr>rcu_head = [], rcu_at = R_scan [Release_obj 7] [3, 0] 2, rcu_called = []\<rparr>, passed = f\<rparr>"
proof -
  define r where "r = \<lparr>rcu_head = [], rcu_at = R_top, rcu_called = []\<rparr>"
  define u where "u = rcu_worker 2 (nrks demo_main) (gens demo_main)"
  define v where "v = rcu_worker 2 (nrks demo_gone) (gens demo_gone)"
  have r: "rcu_at r = R_top" "rcu_head r = []" by (simp_all add: r_def)
  have e: "\<exists>f. rcu_all 2 demo_rcu_run (rcu_start demo_boot) =
      Some \<lparr>sys = demo_gone, rcu_st = v (v (v (u (u (u (u (u (u (rcu_free 7 r))))))))), passed = f\<rparr>"
    unfolding demo_rcu_run_def rcu_start_def r_def [symmetric] u_def v_def
    by (simp only: demo_run_step demo_work_step r rcu_all.simps(1) option.inject rcu_sys.ext_inject simp_thms)
  have "u (u (u (u (u (u (rcu_free 7 r)))))) = \<lparr>rcu_head = [], rcu_at = R_sleep [Release_obj 7] [3, 0], rcu_called = []\<rparr>"
    by (simp add: u_def rcu_worker_def rcu_free_def r_def demo_main_facts [simplified])
  moreover have "v (v (v \<lparr>rcu_head = [], rcu_at = R_sleep [Release_obj 7] [3, 0], rcu_called = []\<rparr>)) =
      \<lparr>rcu_head = [], rcu_at = R_scan [Release_obj 7] [3, 0] 2, rcu_called = []\<rparr>"
    by (simp add: v_def rcu_worker_def demo_main_facts [simplified])
  ultimately show ?thesis using e by simp
qed

lemma demo_rcu_facts:
  "rcu_all 2 demo_rcu_run (rcu_start demo_boot) = Some demo_rcu" "rcu_at (rcu_st demo_rcu) = R_scan [Release_obj 7] [3, 0] 2" "rcu_called (rcu_st demo_rcu) = []"
  using demo_rcu_eval by (auto simp: demo_rcu_def)

text \<open>
  The worker does call what it has taken: once every kthread has left its thread, looking at the
  counters again is followed by the calls, when all kthreads the runtime may have are attached.
\<close>

lemma scan_calls:
  "rcu_at r = R_scan h seen i \<Longrightarrow> i \<le> n \<Longrightarrow> \<forall>k. i \<le> k \<and> k < n \<longrightarrow> \<not> (g k AND 1 = 1 \<and> g k = seen ! k) \<Longrightarrow>
   rcu_called ((rcu_worker n n g ^^ (n - i + 1)) r) = rcu_called r @ h"
proof (induction "n - i" arbitrary: i r)
  case 0
  then show ?case by (simp add: rcu_worker_def)
next
  case (Suc m)
  let ?r = "rcu_worker n n g r"
  have i: "i < n" using Suc(2) by simp
  then have r: "?r = r\<lparr>rcu_at := R_scan h seen (i + 1)\<rparr>" using Suc(3,5) by (simp add: rcu_worker_def)
  have "rcu_called ((rcu_worker n n g ^^ (n - (i + 1) + 1)) ?r) = rcu_called ?r @ h" using Suc(2,5) i r by (intro Suc(1)) auto
  moreover have "n - i + 1 = Suc (n - (i + 1) + 1)" using i by simp
  ultimately show ?case using r by (simp only: funpow_Suc_right o_apply) simp
qed

theorem rcu_worker_calls:
  assumes "rcu_at r = R_sleep h seen" "\<forall>k < n. \<not> (g k AND 1 = 1 \<and> g k = seen ! k)"
  shows "rcu_called ((rcu_worker n n g ^^ (n + 2)) r) = rcu_called r @ h"
proof -
  have "rcu_worker n n g r = r\<lparr>rcu_at := R_scan h seen 0\<rparr>" using assms(1) by (simp add: rcu_worker_def)
  then have "rcu_called ((rcu_worker n n g ^^ (n - 0 + 1)) (rcu_worker n n g r)) = rcu_called r @ h"
    using scan_calls [of "rcu_worker n n g r" h seen 0 n g] assms(2) by simp
  moreover have "n + 2 = Suc (n - 0 + 1)" by simp
  ultimately show ?thesis by (simp only: funpow_Suc_right o_apply)
qed

text \<open>
  C14: read-copy-update waits long enough. When the worker calls the release of an object or wakes a thread
  in \<^verbatim>\<open>synchronize_rcu\<close>, in whatever order the kthreads and the worker run, that entry was queued, and
  every kthread was outside all threads at some time since, or has left the thread that it was in.
\<close>

theorem rcu_grace_period:
  assumes "booted n s0" "n \<le> maxks" "rcu_reach maxks s0 y" "rcu_exec maxks Work y = Some y'"
    "rcu_called (rcu_st y') = rcu_called (rcu_st y) @ xs" "x \<in> set xs"
  shows "x \<in> queued (rcu_st y) \<and> {..<n} \<subseteq> passed y x"
proof -
  have inv: "rcu_inv n y" by (rule rcu_reach_inv [OF assms(3,1)])
  then have "rcu_called (rcu_worker maxks n (gens (sys y)) (rcu_st y)) = rcu_called (rcu_st y) @ xs"
    using assms(4,5) by (auto simp: rcu_exec_def rcu_inv_def)
  then obtain h seen i where "rcu_at (rcu_st y) = R_scan h seen i" "i = maxks" "h = xs"
    using assms(6) by (auto simp: rcu_worker_def split: rcu_pc.splits if_splits)
  then show ?thesis using inv assms(2,6) by (auto simp: rcu_inv_def worker_ok_def queued_def taken_def)
qed

theorem rcu_grace_period_witness:
  "\<exists>y. rcu_exec 2 Work demo_rcu = Some y \<and> rcu_called (rcu_st y) = [Release_obj 7] \<and> {..<2} \<subseteq> passed demo_rcu (Release_obj 7)"
proof -
  have r: "rcu_reach 2 demo_boot demo_rcu" by (rule rcu_all_reach [OF demo_rcu_facts(1) rcu_refl])
  define y where "y = demo_rcu\<lparr>rcu_st := rcu_worker 2 (nrks (sys demo_rcu)) (gens (sys demo_rcu)) (rcu_st demo_rcu)\<rparr>"
  have w: "rcu_exec 2 Work demo_rcu = Some y" by (simp add: rcu_exec_def y_def)
  have "nrks (sys demo_rcu) = 2" using rcu_reach_inv [OF r demo_booted] by (simp add: rcu_inv_def)
  then have c: "rcu_called (rcu_st y) = [Release_obj 7]" by (simp add: y_def rcu_worker_def demo_rcu_facts)
  from rcu_grace_period [OF demo_booted _ r w, of "[Release_obj 7]"] w c show ?thesis by (auto simp: demo_rcu_facts(3))
qed

end
