(* ===== verification/Sync.thy ===== *)
theory Sync
  imports Vprelude "HOL-Library.Monad_Syntax"
begin

text \<open>
  Mutexes and condition variables of user threads (\<^verbatim>\<open>runtime/sync.c\<close> and the inline functions of
  \<^verbatim>\<open>runtime/simple_sync.h\<close>). The model interleaves the threads at every access to the mutex word, the
  lists and the spin locks: \<open>sync_step\<close> is one such access. A spin lock is the thread that has it; a
  thread that spins or is parked has no step. \<^verbatim>\<open>thread_ready\<close> lets a parked thread go on; that a thread
  can be woken before it is off its stack is the matter of the scheduler's model.
\<close>

unbundle bit_operations_syntax

section \<open>State\<close>

record mutex =
  m_held :: u32
  waiter_lock :: "nat option"
  m_waiters :: "nat list"

record condvar =
  cv_lock :: "nat option"
  cv_waiters :: "nat list"

definition WAITER_FLAG :: u32 where "WAITER_FLAG = push_bit 31 1"

definition mutex_init :: mutex where
  "mutex_init = \<lparr>m_held = 0, waiter_lock = None, m_waiters = []\<rparr>"

definition condvar_init :: condvar where
  "condvar_init = \<lparr>cv_lock = None, cv_waiters = []\<rparr>"

text \<open>\<^verbatim>\<open>atomic_cmpxchg\<close> on the mutex word.\<close>

definition cmpxchg :: "u32 \<Rightarrow> u32 \<Rightarrow> mutex \<Rightarrow> bool \<times> mutex" where
  "cmpxchg old new m = (if m_held m = old then (True, m\<lparr>m_held := new\<rparr>) else (False, m))"

text \<open>
  Where a thread is. The points of \<^verbatim>\<open>mutex_lock\<close> begin with \<open>L\<close>, those of \<^verbatim>\<open>mutex_unlock\<close> with \<open>U\<close> (the flag
  says that \<^verbatim>\<open>condvar_wait\<close> called it), those of \<^verbatim>\<open>condvar_wait\<close> with \<open>W\<close>, and those of \<^verbatim>\<open>condvar_signal\<close>
  and \<^verbatim>\<open>condvar_broadcast\<close> with \<open>S\<close> (the flag says that the caller has the mutex).
\<close>

datatype spc = T_out | T_cs
  | L_fast | L_slow | L_locked | L_got | L_got_unlock | L_add | L_park | L_parked
  | U_fast bool | U_slow bool | U_locked bool | U_zero bool | U_zero_unlock bool | U_wake bool nat | U_ready bool nat
  | W_lock | W_add | W_park | W_parked
  | S_lock bool bool | S_locked bool bool | S_unlock bool "nat list" | S_ready bool "nat list"

record ssys =
  mtx :: mutex
  cvar :: condvar
  spc :: "nat \<Rightarrow> spc"

definition sgoto :: "nat \<Rightarrow> spc \<Rightarrow> ssys \<Rightarrow> ssys" where
  "sgoto t p s = s\<lparr>spc := (spc s)(t := p)\<rparr>"

definition upd_m :: "(mutex \<Rightarrow> mutex) \<Rightarrow> ssys \<Rightarrow> ssys" where
  "upd_m f s = s\<lparr>mtx := f (mtx s)\<rparr>"

definition upd_cv :: "(condvar \<Rightarrow> condvar) \<Rightarrow> ssys \<Rightarrow> ssys" where
  "upd_cv f s = s\<lparr>cvar := f (cvar s)\<rparr>"

section \<open>Steps\<close>

text \<open>\<^verbatim>\<open>mutex_lock\<close> with \<^verbatim>\<open>__mutex_lock\<close>.\<close>

definition lock_step :: "nat \<Rightarrow> ssys \<Rightarrow> ssys option" where
  "lock_step t s = (case spc s t of
     L_fast \<Rightarrow> (let (b, m) = cmpxchg 0 1 (mtx s) in Some (sgoto t (if b then T_cs else L_slow) (s\<lparr>mtx := m\<rparr>)))
   | L_slow \<Rightarrow> if waiter_lock (mtx s) = None then Some (sgoto t L_locked (upd_m (\<lambda>m. m\<lparr>waiter_lock := Some t\<rparr>) s)) else None
   | L_locked \<Rightarrow> Some (sgoto t (if m_held (mtx s) = 0 then L_got else L_add) (upd_m (\<lambda>m. m\<lparr>m_held := m_held m OR WAITER_FLAG\<rparr>) s))
   | L_got \<Rightarrow> Some (sgoto t L_got_unlock (upd_m (\<lambda>m. m\<lparr>m_held := 1\<rparr>) s))
   | L_got_unlock \<Rightarrow> Some (sgoto t T_cs (upd_m (\<lambda>m. m\<lparr>waiter_lock := None\<rparr>) s))
   | L_add \<Rightarrow> Some (sgoto t L_park (upd_m (\<lambda>m. m\<lparr>m_waiters := m_waiters m @ [t]\<rparr>) s))
   | L_park \<Rightarrow> Some (sgoto t L_parked (upd_m (\<lambda>m. m\<lparr>waiter_lock := None\<rparr>) s))
   | _ \<Rightarrow> None)"

text \<open>\<^verbatim>\<open>mutex_unlock\<close> with \<^verbatim>\<open>__mutex_unlock\<close>; the mutex passes to the thread that is woken.\<close>

definition after_unlock :: "bool \<Rightarrow> spc" where
  "after_unlock w = (if w then W_add else T_out)"

definition unlock_step :: "nat \<Rightarrow> ssys \<Rightarrow> ssys option" where
  "unlock_step t s = (case spc s t of
     U_fast w \<Rightarrow> (let (b, m) = cmpxchg 1 0 (mtx s) in Some (sgoto t (if b then after_unlock w else U_slow w) (s\<lparr>mtx := m\<rparr>)))
   | U_slow w \<Rightarrow> if waiter_lock (mtx s) = None then Some (sgoto t (U_locked w) (upd_m (\<lambda>m. m\<lparr>waiter_lock := Some t\<rparr>) s)) else None
   | U_locked w \<Rightarrow> (case m_waiters (mtx s) of
        [] \<Rightarrow> Some (sgoto t (U_zero w) s)
      | x # xs \<Rightarrow> Some (sgoto t (U_wake w x) (upd_m (\<lambda>m. m\<lparr>m_waiters := xs\<rparr>) s)))
   | U_zero w \<Rightarrow> Some (sgoto t (U_zero_unlock w) (upd_m (\<lambda>m. m\<lparr>m_held := 0\<rparr>) s))
   | U_zero_unlock w \<Rightarrow> Some (sgoto t (after_unlock w) (upd_m (\<lambda>m. m\<lparr>waiter_lock := None\<rparr>) s))
   | U_wake w x \<Rightarrow> Some (sgoto t (U_ready w x) (upd_m (\<lambda>m. m\<lparr>waiter_lock := None\<rparr>) s))
   | U_ready w x \<Rightarrow> Some (sgoto t (after_unlock w) (sgoto x T_cs s))
   | _ \<Rightarrow> None)"

text \<open>\<^verbatim>\<open>condvar_wait\<close>, which takes the mutex again once it is woken.\<close>

definition wait_step :: "nat \<Rightarrow> ssys \<Rightarrow> ssys option" where
  "wait_step t s = (case spc s t of
     W_lock \<Rightarrow> if cv_lock (cvar s) = None then Some (sgoto t (U_fast True) (upd_cv (\<lambda>c. c\<lparr>cv_lock := Some t\<rparr>) s)) else None
   | W_add \<Rightarrow> Some (sgoto t W_park (upd_cv (\<lambda>c. c\<lparr>cv_waiters := cv_waiters c @ [t]\<rparr>) s))
   | W_park \<Rightarrow> Some (sgoto t W_parked (upd_cv (\<lambda>c. c\<lparr>cv_lock := None\<rparr>) s))
   | _ \<Rightarrow> None)"

text \<open>\<^verbatim>\<open>condvar_signal\<close> and \<^verbatim>\<open>condvar_broadcast\<close>.\<close>

definition signal_step :: "nat \<Rightarrow> ssys \<Rightarrow> ssys option" where
  "signal_step t s = (case spc s t of
     S_lock c all \<Rightarrow> if cv_lock (cvar s) = None then Some (sgoto t (S_locked c all) (upd_cv (\<lambda>c. c\<lparr>cv_lock := Some t\<rparr>) s)) else None
   | S_locked c all \<Rightarrow> (let n = (if all then length (cv_waiters (cvar s)) else 1)
       in Some (sgoto t (S_unlock c (take n (cv_waiters (cvar s)))) (upd_cv (\<lambda>c. c\<lparr>cv_waiters := drop n (cv_waiters c)\<rparr>) s)))
   | S_unlock c xs \<Rightarrow> Some (sgoto t (S_ready c xs) (upd_cv (\<lambda>c. c\<lparr>cv_lock := None\<rparr>) s))
   | S_ready c [] \<Rightarrow> Some (sgoto t (if c then T_cs else T_out) s)
   | S_ready c (x # xs) \<Rightarrow> Some (sgoto t (S_ready c xs) (sgoto x L_fast s))
   | _ \<Rightarrow> None)"

text \<open>What a thread does next when it is in none of these functions.\<close>

datatype call = Lock | Try_lock | Unlock | Cv_wait | Cv_signal | Cv_broadcast

definition mutex_try_lock :: "mutex \<Rightarrow> bool \<times> mutex" where
  "mutex_try_lock m = cmpxchg 0 1 m"

definition call_step :: "nat \<Rightarrow> call \<Rightarrow> ssys \<Rightarrow> ssys option" where
  "call_step t a s = (case (spc s t, a) of
     (T_out, Lock) \<Rightarrow> Some (sgoto t L_fast s)
   | (T_out, Try_lock) \<Rightarrow> (let (b, m) = mutex_try_lock (mtx s) in Some (sgoto t (if b then T_cs else T_out) (s\<lparr>mtx := m\<rparr>)))
   | (T_cs, Unlock) \<Rightarrow> Some (sgoto t (U_fast False) s)
   | (T_cs, Cv_wait) \<Rightarrow> Some (sgoto t W_lock s)
   | (T_out, Cv_signal) \<Rightarrow> Some (sgoto t (S_lock False False) s)
   | (T_cs, Cv_signal) \<Rightarrow> Some (sgoto t (S_lock True False) s)
   | (T_out, Cv_broadcast) \<Rightarrow> Some (sgoto t (S_lock False True) s)
   | (T_cs, Cv_broadcast) \<Rightarrow> Some (sgoto t (S_lock True True) s)
   | _ \<Rightarrow> None)"

definition sync_steps :: "nat \<Rightarrow> ssys \<Rightarrow> ssys option list" where
  "sync_steps t s = [lock_step t s, unlock_step t s, wait_step t s, signal_step t s, call_step t Lock s, call_step t Try_lock s,
     call_step t Unlock s, call_step t Cv_wait s, call_step t Cv_signal s, call_step t Cv_broadcast s]"

definition sync_start :: ssys where
  "sync_start = \<lparr>mtx = mutex_init, cvar = condvar_init, spc = (\<lambda>_. T_out)\<rparr>"

inductive sync_reach :: "ssys \<Rightarrow> bool" where
  sync_init: "sync_reach sync_start"
| sync_next: "sync_reach s \<Longrightarrow> Some s' \<in> set (sync_steps t s) \<Longrightarrow> sync_reach s'"

section \<open>The invariant\<close>

text \<open>The thread has the mutex, or hands it over.\<close>

fun carries :: "spc \<Rightarrow> bool" where
  "carries T_cs = True" | "carries L_got = True" | "carries L_got_unlock = True"
| "carries (U_fast w) = True" | "carries (U_slow w) = True" | "carries (U_locked w) = True" | "carries (U_zero w) = True"
| "carries (U_wake w x) = True" | "carries (U_ready w x) = True" | "carries W_lock = True"
| "carries (S_lock c all) = c" | "carries (S_locked c all) = c" | "carries (S_unlock c xs) = c" | "carries (S_ready c xs) = c"
| "carries _ = False"

fun locks :: "spc \<Rightarrow> bool" where
  "locks L_locked = True" | "locks L_got = True" | "locks L_got_unlock = True" | "locks L_add = True" | "locks L_park = True"
| "locks (U_locked w) = True" | "locks (U_zero w) = True" | "locks (U_zero_unlock w) = True" | "locks (U_wake w x) = True"
| "locks _ = False"

fun wakes :: "spc \<Rightarrow> nat option" where
  "wakes (U_wake w x) = Some x" | "wakes (U_ready w x) = Some x" | "wakes _ = None"

definition parks :: "spc \<Rightarrow> bool" where
  "parks p \<longleftrightarrow> p = L_park \<or> p = L_parked"

definition empties :: "spc \<Rightarrow> bool" where
  "empties p \<longleftrightarrow> p = L_got \<or> p = L_got_unlock \<or> (\<exists>w. p = U_zero w)"

fun cv_locks :: "spc \<Rightarrow> bool" where
  "cv_locks (U_fast w) = w" | "cv_locks (U_slow w) = w" | "cv_locks (U_locked w) = w" | "cv_locks (U_zero w) = w"
| "cv_locks (U_zero_unlock w) = w" | "cv_locks (U_wake w x) = w" | "cv_locks (U_ready w x) = w"
| "cv_locks W_add = True" | "cv_locks W_park = True" | "cv_locks (S_locked c all) = True" | "cv_locks (S_unlock c xs) = True"
| "cv_locks _ = False"

fun cv_wakes :: "spc \<Rightarrow> nat list" where
  "cv_wakes (S_unlock c xs) = xs" | "cv_wakes (S_ready c xs) = xs" | "cv_wakes _ = []"

definition held_ok :: "u32 \<Rightarrow> (nat \<Rightarrow> spc) \<Rightarrow> bool" where
  "held_ok h p \<longleftrightarrow> (\<forall>t u. carries (p t) \<longrightarrow> carries (p u) \<longrightarrow> t = u) \<and> (h \<noteq> 0 \<longleftrightarrow> (\<exists>t. carries (p t)))"

definition lock_ok :: "nat option \<Rightarrow> (spc \<Rightarrow> bool) \<Rightarrow> (nat \<Rightarrow> spc) \<Rightarrow> bool" where
  "lock_ok l f p \<longleftrightarrow> (\<forall>t. l = Some t \<longleftrightarrow> f (p t))"

definition woken :: "(nat \<Rightarrow> spc) \<Rightarrow> nat set" where
  "woken p = {x. \<exists>u. wakes (p u) = Some x}"

definition list_ok :: "nat list \<Rightarrow> (nat \<Rightarrow> spc) \<Rightarrow> bool" where
  "list_ok ws p \<longleftrightarrow> distinct ws \<and> {t. parks (p t)} = set ws \<union> woken p \<and> woken p \<inter> set ws = {} \<and> (\<forall>x \<in> woken p. p x = L_parked)"

definition empty_ok :: "nat list \<Rightarrow> (nat \<Rightarrow> spc) \<Rightarrow> bool" where
  "empty_ok ws p \<longleftrightarrow> (\<forall>t. empties (p t) \<longrightarrow> ws = [])"

definition flag_ok :: "u32 \<Rightarrow> nat list \<Rightarrow> (nat \<Rightarrow> spc) \<Rightarrow> bool" where
  "flag_ok h ws p \<longleftrightarrow> (ws \<noteq> [] \<or> (\<exists>t. p t = L_add) \<longrightarrow> bit h 31)"

definition cv_woken :: "(nat \<Rightarrow> spc) \<Rightarrow> nat set" where
  "cv_woken p = {x. \<exists>u. x \<in> set (cv_wakes (p u))}"

definition cv_parks :: "spc \<Rightarrow> bool" where
  "cv_parks p \<longleftrightarrow> p = W_park \<or> p = W_parked"

definition cv_ok :: "nat list \<Rightarrow> (nat \<Rightarrow> spc) \<Rightarrow> bool" where
  "cv_ok ws p \<longleftrightarrow> distinct ws \<and> {t. cv_parks (p t)} = set ws \<union> cv_woken p \<and> cv_woken p \<inter> set ws = {} \<and> (\<forall>x \<in> cv_woken p. p x = W_parked) \<and>
     (\<forall>u. distinct (cv_wakes (p u))) \<and> (\<forall>u v. u \<noteq> v \<longrightarrow> set (cv_wakes (p u)) \<inter> set (cv_wakes (p v)) = {})"

definition sync_inv :: "ssys \<Rightarrow> bool" where
  "sync_inv s \<longleftrightarrow> held_ok (m_held (mtx s)) (spc s) \<and> lock_ok (waiter_lock (mtx s)) locks (spc s) \<and> list_ok (m_waiters (mtx s)) (spc s) \<and>
     empty_ok (m_waiters (mtx s)) (spc s) \<and> flag_ok (m_held (mtx s)) (m_waiters (mtx s)) (spc s) \<and> lock_ok (cv_lock (cvar s)) cv_locks (spc s) \<and> cv_ok (cv_waiters (cvar s)) (spc s)"

lemma flag_bits: "bit (h OR WAITER_FLAG) 31" "h OR WAITER_FLAG \<noteq> 0" "\<not> bit (1 :: u32) 31"
proof -
  show b: "bit (h OR WAITER_FLAG) 31" by (simp add: WAITER_FLAG_def bit_or_iff bit_push_bit_iff)
  then show "h OR WAITER_FLAG \<noteq> 0" by (metis bit_0_eq bot_apply bot_bool_def)
  show "\<not> bit (1 :: u32) 31" by (simp add: bit_1_iff)
qed

text \<open>How the parts change when one thread moves.\<close>

lemma held_move:
  assumes "held_ok h p" "\<not> carries (p t) \<Longrightarrow> carries q \<Longrightarrow> h = 0"
    "h' \<noteq> 0 \<longleftrightarrow> (if carries q then True else if carries (p t) then False else h \<noteq> 0)"
  shows "held_ok h' (p(t := q))"
  using assms unfolding held_ok_def by (auto split: if_splits)

lemma lock_move:
  assumes "lock_ok l f p" "l' = (if f q then Some t else if f (p t) then None else l)" "f q \<Longrightarrow> l = None \<or> l = Some t"
  shows "lock_ok l' f (p(t := q))"
proof -
  have "f (p a) \<Longrightarrow> f (p b) \<Longrightarrow> a = b" for a b using assms(1) unfolding lock_ok_def by (metis option.inject)
  then show ?thesis using assms unfolding lock_ok_def by (auto split: if_splits)
qed

lemma list_move:
  assumes l: "list_ok ws p" and q: "parks q = parks (p t)" "wakes q = wakes (p t)" "p t = L_parked \<Longrightarrow> q = L_parked"
  shows "list_ok ws (p(t := q))"
proof -
  have "wakes ((p(t := q)) u) = wakes (p u)" "parks ((p(t := q)) u) = parks (p u)" for u using q by simp_all
  then have "woken (p(t := q)) = woken p" "{u. parks ((p(t := q)) u)} = {u. parks (p u)}" unfolding woken_def by simp_all
  then show ?thesis using l q(3) unfolding list_ok_def by auto
qed

lemma list_add:
  assumes l: "list_ok ws p" and t: "p t = L_add"
  shows "list_ok (ws @ [t]) (p(t := L_park))"
proof -
  have "wakes ((p(t := L_park)) u) = wakes (p u)" for u using t by simp
  then have w: "woken (p(t := L_park)) = woken p" unfolding woken_def by simp
  have pk: "{u. parks ((p(t := L_park)) u)} = insert t {u. parks (p u)}" by (auto simp: parks_def)
  have "t \<notin> {u. parks (p u)}" using t by (simp add: parks_def)
  then have n: "t \<notin> set ws" "t \<notin> woken p" using l unfolding list_ok_def by auto
  then show ?thesis using l unfolding list_ok_def w pk by auto
qed

lemma list_pop:
  assumes l: "list_ok (x # xs) p" and t: "wakes (p t) = None" "\<not> parks (p t)" "p x \<noteq> L_park" "wakes q = Some x" "\<not> parks q"
  shows "list_ok xs (p(t := q))"
proof -
  have "parks (p x)" using l unfolding list_ok_def by auto
  then have px: "p x = L_parked" "x \<noteq> t" using t(2,3) by (auto simp: parks_def)
  have "wakes ((p(t := q)) u) = Some y \<longleftrightarrow> u = t \<and> y = x \<or> wakes (p u) = Some y" for u y using t(1,4) by auto
  then have w: "woken (p(t := q)) = insert x (woken p)" unfolding woken_def by auto
  have pk: "{u. parks ((p(t := q)) u)} = {u. parks (p u)}" using t(2,5) by auto
  have "t \<notin> woken p" using l t(2) unfolding list_ok_def by auto
  then show ?thesis using l px unfolding list_ok_def w pk by auto
qed

lemma list_wake:
  assumes l: "list_ok ws p" and t: "wakes (p t) = Some x" "\<And>u. wakes (p u) \<noteq> None \<Longrightarrow> u = t" "\<not> parks (p t)" "\<not> parks q" "wakes q = None" "\<not> parks r" "wakes r = None"
  shows "list_ok ws (p(x := r, t := q))"
proof -
  have w: "woken p = {x}" using t(1,2) by (auto simp: woken_def) (metis option.distinct(1) option.inject)
  have px: "p x = L_parked" "x \<notin> set ws" "x \<noteq> t" using l t(3) unfolding list_ok_def w by (auto simp: parks_def)
  have "wakes ((p(x := r, t := q)) u) = None" for u using t(2) [of u] t(5,7) by (cases "wakes (p u)") auto
  then have w': "woken (p(x := r, t := q)) = {}" unfolding woken_def by simp
  have pk: "{u. parks ((p(x := r, t := q)) u)} = {u. parks (p u)} - {x}" using t(3,4,6) by auto
  then show ?thesis using l px unfolding list_ok_def w w' by auto
qed

lemma cv_move:
  assumes c: "cv_ok ws p" and q: "cv_wakes q = cv_wakes (p t)" "cv_parks q = cv_parks (p t)" "p t = W_parked \<Longrightarrow> q = W_parked"
  shows "cv_ok ws (p(t := q))"
proof -
  have e: "cv_wakes ((p(t := q)) u) = cv_wakes (p u)" "cv_parks ((p(t := q)) u) = cv_parks (p u)" for u using q by simp_all
  then have "cv_woken (p(t := q)) = cv_woken p" unfolding cv_woken_def by simp
  then show ?thesis using c q(3) unfolding cv_ok_def e by auto
qed

lemma cv_add:
  assumes c: "cv_ok ws p" and t: "p t = W_add"
  shows "cv_ok (ws @ [t]) (p(t := W_park))"
proof -
  have e: "cv_wakes ((p(t := W_park)) u) = cv_wakes (p u)" for u using t by simp
  then have w: "cv_woken (p(t := W_park)) = cv_woken p" unfolding cv_woken_def by simp
  have pk: "{u. cv_parks ((p(t := W_park)) u)} = insert t {u. cv_parks (p u)}" by (auto simp: cv_parks_def)
  have "t \<notin> {u. cv_parks (p u)}" using t by (simp add: cv_parks_def)
  then have n: "t \<notin> set ws" "t \<notin> cv_woken p" using c unfolding cv_ok_def by auto
  then show ?thesis using c unfolding cv_ok_def w pk e by auto
qed

lemma cv_take:
  assumes c: "cv_ok (xs @ ws) p" and t: "cv_wakes (p t) = []" "\<not> cv_parks (p t)" "\<And>x. p x \<noteq> W_park" "cv_wakes q = xs" "\<not> cv_parks q"
  shows "cv_ok ws (p(t := q))"
proof -
  have "y \<in> set (cv_wakes ((p(t := q)) u)) \<longleftrightarrow> u = t \<and> y \<in> set xs \<or> y \<in> set (cv_wakes (p u))" for u y using t(1,4) by auto
  then have w: "cv_woken (p(t := q)) = set xs \<union> cv_woken p" unfolding cv_woken_def by auto
  have pk: "{u. cv_parks ((p(t := q)) u)} = {u. cv_parks (p u)}" using t(2,5) by auto
  have d: "set (cv_wakes (p u)) \<inter> set xs = {}" for u using c unfolding cv_ok_def cv_woken_def by auto
  have "x \<in> set xs \<Longrightarrow> cv_parks (p x)" for x using c unfolding cv_ok_def by auto
  then have px: "x \<in> set xs \<Longrightarrow> p x = W_parked" for x using t(3) by (auto simp: cv_parks_def)
  have nt: "t \<notin> set xs" "t \<notin> cv_woken p" using c t(2) unfolding cv_ok_def by auto
  have cc: "distinct xs" "distinct (cv_wakes (p u))" "u \<noteq> v \<Longrightarrow> set (cv_wakes (p u)) \<inter> set (cv_wakes (p v)) = {}" for u v
    using c unfolding cv_ok_def by auto
  have ds: "distinct (cv_wakes ((p(t := q)) u))" "u \<noteq> v \<Longrightarrow> set (cv_wakes ((p(t := q)) u)) \<inter> set (cv_wakes ((p(t := q)) v)) = {}" for u v
    using cc d [of u] d [of v] t(4) by (simp_all add: Int_commute)
  have "distinct ws" "{u. cv_parks (p u)} = set ws \<union> (set xs \<union> cv_woken p)" "(set xs \<union> cv_woken p) \<inter> set ws = {}"
    "\<forall>x \<in> set xs \<union> cv_woken p. (p(t := q)) x = W_parked"
    using c px nt unfolding cv_ok_def by auto
  then show ?thesis using ds unfolding cv_ok_def w pk by blast
qed

lemma cv_wake:
  assumes c: "cv_ok ws p" and t: "cv_wakes (p t) = x # xs" "cv_wakes q = xs" "\<not> cv_parks (p t)" "\<not> cv_parks q" "\<not> cv_parks r" "cv_wakes r = []"
  shows "cv_ok ws (p(x := r, t := q))"
proof -
  let ?p = "p(x := r, t := q)"
  have "x \<in> set (cv_wakes (p t))" using t(1) by simp
  then have xw: "x \<in> cv_woken p" unfolding cv_woken_def by blast
  then have px: "p x = W_parked" "x \<notin> set ws" using c unfolding cv_ok_def by blast+
  then have xt: "x \<noteq> t" using t(3) by (auto simp: cv_parks_def)
  have e: "cv_wakes (?p u) = (if u = t then xs else cv_wakes (p u))" for u using px t(2,6) by auto
  have dj: "distinct (cv_wakes (p u))" "u \<noteq> v \<Longrightarrow> set (cv_wakes (p u)) \<inter> set (cv_wakes (p v)) = {}" for u v using c unfolding cv_ok_def by blast+
  have cc: "x \<notin> set xs" "distinct xs" "u \<noteq> t \<Longrightarrow> set xs \<inter> set (cv_wakes (p u)) = {}" "u \<noteq> t \<Longrightarrow> x \<notin> set (cv_wakes (p u))" for u
    using dj(1) [of t] dj(2) [of t u] t(1) by auto
  have w: "cv_woken ?p = cv_woken p - {x}"
  proof -
    have "y \<in> cv_woken ?p \<longleftrightarrow> y \<noteq> x \<and> y \<in> cv_woken p" for y
      using cc(1,4) t(1) unfolding cv_woken_def mem_Collect_eq e by (metis list.set_intros(2) set_ConsD)
    then show ?thesis by auto
  qed
  have pk: "{u. cv_parks (?p u)} = {u. cv_parks (p u)} - {x}" using t(3-5) by auto
  have ds: "distinct (cv_wakes (?p u))" "u \<noteq> v \<Longrightarrow> set (cv_wakes (?p u)) \<inter> set (cv_wakes (?p v)) = {}" for u v
    unfolding e using cc(2) cc(3) [of u] cc(3) [of v] dj by (simp_all add: Int_commute)
  have "t \<notin> cv_woken p" using c t(3) unfolding cv_ok_def by (auto simp: cv_parks_def)
  then have "distinct ws" "{u. cv_parks (p u)} - {x} = set ws \<union> (cv_woken p - {x})" "(cv_woken p - {x}) \<inter> set ws = {}"
    "\<forall>y \<in> cv_woken p - {x}. ?p y = W_parked"
    using c px(2) xw unfolding cv_ok_def by auto
  then show ?thesis using ds unfolding cv_ok_def w pk by blast
qed

lemma empty_move:
  assumes "empty_ok ws p" "empties q \<Longrightarrow> ws' = []" "ws' = ws \<or> ws = [] \<and> ws' = [] \<or> (\<forall>u. u \<noteq> t \<longrightarrow> \<not> empties (p u))"
  shows "empty_ok ws' (p(t := q))"
  using assms unfolding empty_ok_def by auto

lemma flag_move:
  assumes "flag_ok h ws p" "ws' \<noteq> [] \<Longrightarrow> ws \<noteq> [] \<or> bit h' 31" "q = L_add \<Longrightarrow> bit h' 31"
    "bit h' 31 = bit h 31 \<or> bit h' 31 \<or> ws' = [] \<and> (\<forall>u. u \<noteq> t \<longrightarrow> p u \<noteq> L_add)"
  shows "flag_ok h' ws' (p(t := q))"
  using assms unfolding flag_ok_def by (auto split: if_splits)

lemma lockD: "lock_ok l f p \<Longrightarrow> f (p t) \<Longrightarrow> f (p u) \<Longrightarrow> u = t"
  unfolding lock_ok_def by (metis option.inject)

section \<open>Every step keeps the invariant\<close>

lemma sgoto_simps [simp]: "spc (sgoto t p s) = (spc s)(t := p)" "mtx (sgoto t p s) = mtx s" "cvar (sgoto t p s) = cvar s"
  "spc (upd_m f s) = spc s" "mtx (upd_m f s) = f (mtx s)" "cvar (upd_m f s) = cvar s"
  "spc (upd_cv g s) = spc s" "mtx (upd_cv g s) = mtx s" "cvar (upd_cv g s) = g (cvar s)"
  by (simp_all add: sgoto_def upd_m_def upd_cv_def)

lemma sync_invD:
  assumes "sync_inv s"
  shows "held_ok (m_held (mtx s)) (spc s)" "lock_ok (waiter_lock (mtx s)) locks (spc s)" "list_ok (m_waiters (mtx s)) (spc s)"
    "empty_ok (m_waiters (mtx s)) (spc s)" "flag_ok (m_held (mtx s)) (m_waiters (mtx s)) (spc s)"
    "lock_ok (cv_lock (cvar s)) cv_locks (spc s)" "cv_ok (cv_waiters (cvar s)) (spc s)"
  using assms by (simp_all add: sync_inv_def)

text \<open>A step that leaves the lists alone.\<close>

lemma move_inv:
  assumes inv: "sync_inv s" and s': "spc s' = (spc s)(t := q)" "m_waiters (mtx s') = m_waiters (mtx s)" "cv_waiters (cvar s') = cv_waiters (cvar s)"
    and h: "\<not> carries (spc s t) \<Longrightarrow> carries q \<Longrightarrow> m_held (mtx s) = 0"
      "m_held (mtx s') \<noteq> 0 \<longleftrightarrow> (if carries q then True else if carries (spc s t) then False else m_held (mtx s) \<noteq> 0)"
    and l: "waiter_lock (mtx s') = (if locks q then Some t else if locks (spc s t) then None else waiter_lock (mtx s))"
      "locks q \<Longrightarrow> waiter_lock (mtx s) = None \<or> waiter_lock (mtx s) = Some t"
    and w: "parks q = parks (spc s t)" "wakes q = wakes (spc s t)" "spc s t = L_parked \<Longrightarrow> q = L_parked"
    and e: "empties q \<Longrightarrow> m_waiters (mtx s) = []"
    and f: "q = L_add \<Longrightarrow> bit (m_held (mtx s')) 31"
      "bit (m_held (mtx s')) 31 = bit (m_held (mtx s)) 31 \<or> bit (m_held (mtx s')) 31 \<or> m_waiters (mtx s) = [] \<and> (\<forall>u. u \<noteq> t \<longrightarrow> spc s u \<noteq> L_add)"
    and c: "cv_lock (cvar s') = (if cv_locks q then Some t else if cv_locks (spc s t) then None else cv_lock (cvar s))"
      "cv_locks q \<Longrightarrow> cv_lock (cvar s) = None \<or> cv_lock (cvar s) = Some t"
    and d: "cv_wakes q = cv_wakes (spc s t)" "cv_parks q = cv_parks (spc s t)" "spc s t = W_parked \<Longrightarrow> q = W_parked"
  shows "sync_inv s'"
proof -
  note i = sync_invD [OF inv]
  show ?thesis unfolding sync_inv_def s'
    using held_move [OF i(1) h] lock_move [OF i(2) l] list_move [OF i(3) w] empty_move [OF i(4) e] flag_move [OF i(5) _ f]
      lock_move [OF i(6) c] cv_move [OF i(7) d] by simp
qed

lemma locksD:
  assumes inv: "sync_inv s"
  shows "locks (spc s t) \<Longrightarrow> waiter_lock (mtx s) = Some t" "locks (spc s t) \<Longrightarrow> locks (spc s u) \<Longrightarrow> u = t"
    "cv_locks (spc s t) \<Longrightarrow> cv_lock (cvar s) = Some t" "cv_locks (spc s t) \<Longrightarrow> cv_locks (spc s u) \<Longrightarrow> u = t"
    "carries (spc s t) \<Longrightarrow> m_held (mtx s) \<noteq> 0" "\<not> bit (m_held (mtx s)) 31 \<Longrightarrow> m_waiters (mtx s) = [] \<and> spc s u \<noteq> L_add"
    "empties (spc s t) \<Longrightarrow> m_waiters (mtx s) = []"
  using sync_invD [OF inv] lockD [of _ locks "spc s" t u] lockD [of _ cv_locks "spc s" t u]
  by (auto simp: lock_ok_def held_ok_def flag_ok_def empty_ok_def)

lemma lock_step_inv:
  assumes inv: "sync_inv s" and st: "lock_step t s = Some s'"
  shows "sync_inv s'"
proof (cases "spc s t")
  case L_fast
  show ?thesis
  proof (cases "m_held (mtx s) = 0")
    case True
    then have "s' = sgoto t T_cs (s\<lparr>mtx := (mtx s)\<lparr>m_held := 1\<rparr>\<rparr>)" using st L_fast by (simp add: lock_step_def cmpxchg_def)
    then show ?thesis using True L_fast locksD(6) [OF inv]
      by (intro move_inv [OF inv, of s' t T_cs]) (auto simp: parks_def empties_def cv_parks_def)
  next
    case False
    then have "s' = sgoto t L_slow s" using st L_fast by (simp add: lock_step_def cmpxchg_def)
    then show ?thesis using L_fast by (intro move_inv [OF inv, of s' t L_slow]) (auto simp: parks_def empties_def cv_parks_def)
  qed
next
  case L_slow
  then have "waiter_lock (mtx s) = None" "s' = sgoto t L_locked (upd_m (\<lambda>m. m\<lparr>waiter_lock := Some t\<rparr>) s)" using st by (auto simp: lock_step_def split: if_splits)
  then show ?thesis using L_slow by (intro move_inv [OF inv, of s' t L_locked]) (auto simp: parks_def empties_def cv_parks_def)
next
  case L_locked
  let ?q = "if m_held (mtx s) = 0 then L_got else L_add"
  have "s' = sgoto t ?q (upd_m (\<lambda>m. m\<lparr>m_held := m_held m OR WAITER_FLAG\<rparr>) s)" using st L_locked by (simp add: lock_step_def)
  then show ?thesis using L_locked locksD(1) [OF inv, of t] locksD(6) [OF inv] flag_bits
    by (intro move_inv [OF inv, of s' t ?q]) (auto simp: parks_def empties_def cv_parks_def split: if_splits)
next
  case L_got
  then have "s' = sgoto t L_got_unlock (upd_m (\<lambda>m. m\<lparr>m_held := 1\<rparr>) s)" using st by (simp add: lock_step_def)
  then show ?thesis using L_got locksD(1,2,7) [OF inv, of t] by (intro move_inv [OF inv, of s' t L_got_unlock]) (auto simp: parks_def empties_def cv_parks_def)
next
  case L_got_unlock
  then have "s' = sgoto t T_cs (upd_m (\<lambda>m. m\<lparr>waiter_lock := None\<rparr>) s)" using st by (simp add: lock_step_def)
  then show ?thesis using L_got_unlock locksD(5) [OF inv, of t] by (intro move_inv [OF inv, of s' t T_cs]) (auto simp: parks_def empties_def cv_parks_def)
next
  case L_park
  then have "s' = sgoto t L_parked (upd_m (\<lambda>m. m\<lparr>waiter_lock := None\<rparr>) s)" using st by (simp add: lock_step_def)
  then show ?thesis using L_park by (intro move_inv [OF inv, of s' t L_parked]) (auto simp: parks_def empties_def cv_parks_def)
next
  case L_add
  then have s': "s' = sgoto t L_park (upd_m (\<lambda>m. m\<lparr>m_waiters := m_waiters m @ [t]\<rparr>) s)" using st by (simp add: lock_step_def)
  note i = sync_invD [OF inv]
  have b: "bit (m_held (mtx s)) 31" using i(5) L_add by (auto simp: flag_ok_def)
  have e: "u \<noteq> t \<Longrightarrow> \<not> empties (spc s u)" for u using locksD(2) [OF inv, of t u] L_add by (auto simp: empties_def)
  show ?thesis unfolding sync_inv_def s'
    using held_move [OF i(1), of t L_park "m_held (mtx s)"] lock_move [OF i(2), of "Some t" L_park t] list_add [OF i(3) L_add] empty_move [OF i(4), of L_park _ t]
      flag_move [OF i(5), of _ "m_held (mtx s)" L_park t] lock_move [OF i(6), of "cv_lock (cvar s)" L_park t] cv_move [OF i(7), of L_park t] L_add b e locksD(1) [OF inv, of t]
    by (auto simp: empties_def cv_parks_def)
qed (use st in \<open>simp_all add: lock_step_def\<close>)

lemma after_simps [simp]:
  "\<not> carries (after_unlock w)" "\<not> locks (after_unlock w)" "wakes (after_unlock w) = None" "\<not> parks (after_unlock w)" "\<not> empties (after_unlock w)"
  "after_unlock w \<noteq> L_add" "after_unlock w \<noteq> L_park" "after_unlock w \<noteq> L_parked" "after_unlock w \<noteq> W_park" "after_unlock w \<noteq> W_parked" "cv_locks (after_unlock w) = w" "cv_wakes (after_unlock w) = []" "\<not> cv_parks (after_unlock w)"
  by (simp_all add: after_unlock_def parks_def empties_def cv_parks_def)

lemma wakes_one:
  assumes "sync_inv s" "wakes (spc s t) \<noteq> None" "wakes (spc s u) \<noteq> None"
  shows "u = t"
proof -
  have "wakes p \<noteq> None \<Longrightarrow> carries p" for p by (cases p) simp_all
  then show ?thesis using sync_invD(1) [OF assms(1)] assms(2,3) unfolding held_ok_def by blast
qed

lemma hand_over_inv:
  assumes inv: "sync_inv s" and p: "spc s t = U_ready w x"
  shows "sync_inv (sgoto t (after_unlock w) (sgoto x T_cs s))"
proof -
  note i = sync_invD [OF inv]
  have "wakes (spc s t) = Some x" using p by simp
  then have "x \<in> woken (spc s)" unfolding woken_def by blast
  then have px: "spc s x = L_parked" using i(3) unfolding list_ok_def by blast
  then have xt: "x \<noteq> t" using p by auto
  let ?p = "(spc s)(t := after_unlock w, x := T_cs)"
  have eq: "(spc s)(x := T_cs, t := after_unlock w) = ?p" using xt by (simp add: fun_upd_twist)
  have ca: "carries (?p u) \<longleftrightarrow> u = x" for u 
  proof -
    have "carries (spc s v) \<Longrightarrow> v = t" for v using i(1) p unfolding held_ok_def by (metis carries.simps(9))
    then show ?thesis using xt by auto
  qed
  have "held_ok (m_held (mtx s)) ?p" using locksD(5) [OF inv, of t] p unfolding held_ok_def ca by auto
  moreover have "locks (?p u) = locks (spc s u)" "cv_locks (?p u) = cv_locks (spc s u)" for u using p px by auto
  then have "lock_ok (waiter_lock (mtx s)) locks ?p" "lock_ok (cv_lock (cvar s)) cv_locks ?p" using i(2,6) unfolding lock_ok_def by blast+
  moreover have "list_ok (m_waiters (mtx s)) ?p" unfolding eq [symmetric]
    by (rule list_wake [OF i(3)]) (use p wakes_one [OF inv, of t] in \<open>auto simp: parks_def\<close>)
  moreover have "\<not> empties T_cs" by (simp add: empties_def)
  then have "empties (?p u) \<Longrightarrow> empties (spc s u)" for u by (auto split: if_splits)
  then have "empty_ok (m_waiters (mtx s)) ?p" using i(4) unfolding empty_ok_def by blast
  moreover have "flag_ok (m_held (mtx s)) (m_waiters (mtx s)) ?p" using i(5) unfolding flag_ok_def by (auto split: if_splits)
  moreover have "cv_ok (cv_waiters (cvar s)) ?p"
    using cv_move [OF cv_move [OF i(7), of "after_unlock w" t], of T_cs x] p px xt by (simp add: cv_parks_def)
  ultimately show ?thesis unfolding sync_inv_def using eq by simp
qed

lemma unlock_step_inv:
  assumes inv: "sync_inv s" and st: "unlock_step t s = Some s'"
  shows "sync_inv s'"
proof (cases "spc s t")
  case (U_fast w)
  have cv: "w \<Longrightarrow> cv_lock (cvar s) = Some t" using locksD(3) [OF inv, of t] U_fast by simp
  show ?thesis
  proof (cases "m_held (mtx s) = 1")
    case True
    then have "s' = sgoto t (after_unlock w) (s\<lparr>mtx := (mtx s)\<lparr>m_held := 0\<rparr>\<rparr>)" using st U_fast by (simp add: unlock_step_def cmpxchg_def)
    then show ?thesis using True U_fast locksD(6) [OF inv] cv flag_bits(3)
      by (intro move_inv [OF inv, of s' t "after_unlock w"]) (auto simp: parks_def cv_parks_def)
  next
    case False
    then have "s' = sgoto t (U_slow w) s" using st U_fast by (simp add: unlock_step_def cmpxchg_def)
    then show ?thesis using U_fast cv locksD(5) [OF inv, of t] by (intro move_inv [OF inv, of s' t "U_slow w"]) (auto simp: parks_def empties_def cv_parks_def)
  qed
next
  case (U_slow w)
  have cv: "w \<Longrightarrow> cv_lock (cvar s) = Some t" using locksD(3) [OF inv, of t] U_slow by simp
  have "waiter_lock (mtx s) = None" "s' = sgoto t (U_locked w) (upd_m (\<lambda>m. m\<lparr>waiter_lock := Some t\<rparr>) s)"
    using st U_slow by (auto simp: unlock_step_def split: if_splits)
  then show ?thesis using U_slow cv locksD(5) [OF inv, of t] by (intro move_inv [OF inv, of s' t "U_locked w"]) (auto simp: parks_def empties_def cv_parks_def)
next
  case (U_locked w)
  have cv: "w \<Longrightarrow> cv_lock (cvar s) = Some t" using locksD(3) [OF inv, of t] U_locked by simp
  show ?thesis
  proof (cases "m_waiters (mtx s)")
    case Nil
    then have "s' = sgoto t (U_zero w) s" using st U_locked by (simp add: unlock_step_def)
    then show ?thesis using U_locked Nil cv locksD(1,5) [OF inv, of t]
      by (intro move_inv [OF inv, of s' t "U_zero w"]) (auto simp: parks_def empties_def cv_parks_def)
  next
    case (Cons x xs)
    then have s': "s' = sgoto t (U_wake w x) (upd_m (\<lambda>m. m\<lparr>m_waiters := xs\<rparr>) s)" using st U_locked by (simp add: unlock_step_def)
    note i = sync_invD [OF inv]
    have b: "bit (m_held (mtx s)) 31" using i(5) Cons by (simp add: flag_ok_def)
    have e: "\<not> empties (spc s u)" for u using i(4) Cons by (auto simp: empty_ok_def)
    have px: "spc s x \<noteq> L_park" using locksD(2) [OF inv, of t x] U_locked by auto
    show ?thesis unfolding sync_inv_def s'
      using held_move [OF i(1), of t "U_wake w x" "m_held (mtx s)"] lock_move [OF i(2), of "Some t" "U_wake w x" t] list_pop [OF i(3) [unfolded Cons], of t "U_wake w x"]
        empty_move [OF i(4), of "U_wake w x" _ t] flag_move [OF i(5), of _ "m_held (mtx s)" "U_wake w x" t]
        lock_move [OF i(6), of "cv_lock (cvar s)" "U_wake w x" t] cv_move [OF i(7), of "U_wake w x" t] U_locked b e px cv locksD(1,5) [OF inv, of t]
      by (auto simp: parks_def empties_def cv_parks_def)
  qed
next
  case (U_zero w)
  have cv: "w \<Longrightarrow> cv_lock (cvar s) = Some t" using locksD(3) [OF inv, of t] U_zero by simp
  have "s' = sgoto t (U_zero_unlock w) (upd_m (\<lambda>m. m\<lparr>m_held := 0\<rparr>) s)" using st U_zero by (simp add: unlock_step_def)
  then show ?thesis using U_zero cv locksD(1,2,7) [OF inv, of t]
    by (intro move_inv [OF inv, of s' t "U_zero_unlock w"]) (auto simp: parks_def empties_def cv_parks_def)
next
  case (U_zero_unlock w)
  have cv: "w \<Longrightarrow> cv_lock (cvar s) = Some t" using locksD(3) [OF inv, of t] U_zero_unlock by simp
  have "s' = sgoto t (after_unlock w) (upd_m (\<lambda>m. m\<lparr>waiter_lock := None\<rparr>) s)" using st U_zero_unlock by (simp add: unlock_step_def)
  then show ?thesis using U_zero_unlock cv by (intro move_inv [OF inv, of s' t "after_unlock w"]) (auto simp: parks_def cv_parks_def)
next
  case (U_wake w x)
  have cv: "w \<Longrightarrow> cv_lock (cvar s) = Some t" using locksD(3) [OF inv, of t] U_wake by simp
  have "s' = sgoto t (U_ready w x) (upd_m (\<lambda>m. m\<lparr>waiter_lock := None\<rparr>) s)" using st U_wake by (simp add: unlock_step_def)
  then show ?thesis using U_wake cv locksD(5) [OF inv, of t] by (intro move_inv [OF inv, of s' t "U_ready w x"]) (auto simp: parks_def empties_def cv_parks_def)
next
  case (U_ready w x)
  then have "s' = sgoto t (after_unlock w) (sgoto x T_cs s)" using st by (simp add: unlock_step_def)
  then show ?thesis using hand_over_inv [OF inv U_ready] by simp
qed (use st in \<open>simp_all add: unlock_step_def\<close>)

lemma wait_step_inv:
  assumes inv: "sync_inv s" and st: "wait_step t s = Some s'"
  shows "sync_inv s'"
proof (cases "spc s t")
  case W_lock
  then have "cv_lock (cvar s) = None" "s' = sgoto t (U_fast True) (upd_cv (\<lambda>c. c\<lparr>cv_lock := Some t\<rparr>) s)" using st by (auto simp: wait_step_def split: if_splits)
  then show ?thesis using W_lock locksD(5) [OF inv, of t] by (intro move_inv [OF inv, of s' t "U_fast True"]) (auto simp: parks_def empties_def cv_parks_def)
next
  case W_add
  then have s': "s' = sgoto t W_park (upd_cv (\<lambda>c. c\<lparr>cv_waiters := cv_waiters c @ [t]\<rparr>) s)" using st by (simp add: wait_step_def)
  note i = sync_invD [OF inv]
  show ?thesis unfolding sync_inv_def s'
    using held_move [OF i(1), of t W_park "m_held (mtx s)"] lock_move [OF i(2), of "waiter_lock (mtx s)" W_park t] list_move [OF i(3), of W_park t]
      empty_move [OF i(4), of W_park "m_waiters (mtx s)" t] flag_move [OF i(5), of "m_waiters (mtx s)" "m_held (mtx s)" W_park t]
      lock_move [OF i(6), of "Some t" W_park t] cv_add [OF i(7) W_add] W_add locksD(3) [OF inv, of t]
    by (auto simp: parks_def empties_def)
next
  case W_park
  then have "s' = sgoto t W_parked (upd_cv (\<lambda>c. c\<lparr>cv_lock := None\<rparr>) s)" using st by (simp add: wait_step_def)
  then show ?thesis using W_park by (intro move_inv [OF inv, of s' t W_parked]) (auto simp: parks_def empties_def cv_parks_def)
qed (use st in \<open>simp_all add: wait_step_def\<close>)

lemma cv_ready_inv:
  assumes inv: "sync_inv s" and p: "spc s t = S_ready c (x # xs)"
  shows "sync_inv (sgoto t (S_ready c xs) (sgoto x L_fast s))"
proof -
  note i = sync_invD [OF inv]
  have "x \<in> set (cv_wakes (spc s t))" using p by simp
  then have "x \<in> cv_woken (spc s)" unfolding cv_woken_def by blast
  then have px: "spc s x = W_parked" using i(7) unfolding cv_ok_def by blast
  then have xt: "x \<noteq> t" using p by auto
  let ?p = "(spc s)(x := L_fast, t := S_ready c xs)"
  have e: "carries (?p u) = carries (spc s u)" "locks (?p u) = locks (spc s u)" "wakes (?p u) = wakes (spc s u)" "parks (?p u) = parks (spc s u)"
    "empties (?p u) = empties (spc s u)" "?p u = L_add \<longleftrightarrow> spc s u = L_add" "cv_locks (?p u) = cv_locks (spc s u)" "?p u = L_parked \<longleftrightarrow> spc s u = L_parked" for u
    using p px by (auto simp: parks_def empties_def)
  have "woken ?p = woken (spc s)" unfolding woken_def e(3) ..
  then have "list_ok (m_waiters (mtx s)) ?p" using i(3) unfolding list_ok_def e(4,8) by simp
  moreover have "cv_ok (cv_waiters (cvar s)) ?p" by (rule cv_wake [OF i(7)]) (use p in \<open>auto simp: cv_parks_def\<close>)
  ultimately show ?thesis using i unfolding sync_inv_def held_ok_def lock_ok_def empty_ok_def flag_ok_def sgoto_simps e by blast
qed

lemma signal_step_inv:
  assumes inv: "sync_inv s" and st: "signal_step t s = Some s'"
  shows "sync_inv s'"
proof (cases "spc s t")
  case (S_lock c all)
  then have "cv_lock (cvar s) = None" "s' = sgoto t (S_locked c all) (upd_cv (\<lambda>c. c\<lparr>cv_lock := Some t\<rparr>) s)" using st by (auto simp: signal_step_def split: if_splits)
  then show ?thesis using S_lock locksD(5) [OF inv, of t] by (intro move_inv [OF inv, of s' t "S_locked c all"]) (auto simp: parks_def empties_def cv_parks_def)
next
  case (S_locked c all)
  define n where "n = (if all then length (cv_waiters (cvar s)) else 1)"
  define xs where "xs = take n (cv_waiters (cvar s))"
  define ws where "ws = drop n (cv_waiters (cvar s))"
  have s': "s' = sgoto t (S_unlock c xs) (upd_cv (\<lambda>c. c\<lparr>cv_waiters := ws\<rparr>) s)" using st S_locked by (auto simp: signal_step_def n_def xs_def ws_def upd_cv_def)
  note i = sync_invD [OF inv]
  have c7: "cv_ok (xs @ ws) (spc s)" using i(7) by (simp add: xs_def ws_def)
  have np: "spc s u \<noteq> W_park" for u using locksD(4) [OF inv, of t u] S_locked by auto
  show ?thesis unfolding sync_inv_def s'
    using held_move [OF i(1), of t "S_unlock c xs" "m_held (mtx s)"] lock_move [OF i(2), of "waiter_lock (mtx s)" "S_unlock c xs" t] list_move [OF i(3), of "S_unlock c xs" t]
      empty_move [OF i(4), of "S_unlock c xs" "m_waiters (mtx s)" t] flag_move [OF i(5), of "m_waiters (mtx s)" "m_held (mtx s)" "S_unlock c xs" t]
      lock_move [OF i(6), of "Some t" "S_unlock c xs" t] cv_take [OF c7, of t "S_unlock c xs"] S_locked np locksD(3,5) [OF inv, of t]
    by (auto simp: parks_def empties_def cv_parks_def)
next
  case (S_unlock c xs)
  then have "s' = sgoto t (S_ready c xs) (upd_cv (\<lambda>c. c\<lparr>cv_lock := None\<rparr>) s)" using st by (simp add: signal_step_def)
  then show ?thesis using S_unlock locksD(5) [OF inv, of t] by (intro move_inv [OF inv, of s' t "S_ready c xs"]) (auto simp: parks_def empties_def cv_parks_def)
next
  case (S_ready c xs)
  show ?thesis
  proof (cases xs)
    case Nil
    then have "s' = sgoto t (if c then T_cs else T_out) s" using st S_ready by (simp add: signal_step_def)
    then show ?thesis using S_ready Nil locksD(5) [OF inv, of t]
      by (intro move_inv [OF inv, of s' t "if c then T_cs else T_out"]) (auto simp: parks_def empties_def cv_parks_def split: if_splits)
  next
    case (Cons x ys)
    then have "s' = sgoto t (S_ready c ys) (sgoto x L_fast s)" using st S_ready by (simp add: signal_step_def)
    then show ?thesis using cv_ready_inv [OF inv, of t c x ys] S_ready Cons by simp
  qed
qed (use st in \<open>simp_all add: signal_step_def\<close>)

lemma call_step_inv:
  assumes inv: "sync_inv s" and st: "call_step t a s = Some s'"
  shows "sync_inv s'"
proof -
  consider q where "s' = sgoto t q s" "spc s t = T_out" "q \<in> {L_fast, S_lock False False, S_lock False True, T_out}"
    | q where "s' = sgoto t q s" "spc s t = T_cs" "q \<in> {U_fast False, W_lock, S_lock True False, S_lock True True}"
    | "s' = sgoto t T_cs (s\<lparr>mtx := (mtx s)\<lparr>m_held := 1\<rparr>\<rparr>)" "spc s t = T_out" "m_held (mtx s) = 0"
    using st by (cases "spc s t"; cases a) (auto simp: call_step_def mutex_try_lock_def cmpxchg_def split: if_splits)
  then show ?thesis
  proof cases
    case 1
    then show ?thesis by (intro move_inv [OF inv, of s' t q]) (auto simp: parks_def empties_def cv_parks_def)
  next
    case 2
    then show ?thesis using locksD(5) [OF inv, of t] by (intro move_inv [OF inv, of s' t q]) (auto simp: parks_def empties_def cv_parks_def)
  next
    case 3
    then show ?thesis using locksD(6) [OF inv] by (intro move_inv [OF inv, of s' t T_cs]) (auto simp: parks_def empties_def cv_parks_def)
  qed
qed

lemma sync_reach_inv: "sync_reach s \<Longrightarrow> sync_inv s"
proof (induction rule: sync_reach.induct)
  case sync_init
  show ?case by (simp add: sync_inv_def sync_start_def mutex_init_def condvar_init_def held_ok_def lock_ok_def list_ok_def woken_def empty_ok_def empties_def flag_ok_def
        cv_ok_def cv_woken_def parks_def cv_parks_def)
next
  case (sync_next s s' t)
  then have "lock_step t s = Some s' \<or> unlock_step t s = Some s' \<or> wait_step t s = Some s' \<or> signal_step t s = Some s' \<or> (\<exists>a. call_step t a s = Some s')"
    by (simp add: sync_steps_def) metis
  then show ?case using lock_step_inv unlock_step_inv wait_step_inv signal_step_inv call_step_inv sync_next.IH by blast
qed

section \<open>Properties\<close>

text \<open>
  C10: at most one thread has the mutex, at every point of every interleaving of \<^verbatim>\<open>mutex_lock\<close>,
  \<^verbatim>\<open>mutex_try_lock\<close>, \<^verbatim>\<open>mutex_unlock\<close>, \<^verbatim>\<open>condvar_wait\<close>, \<^verbatim>\<open>condvar_signal\<close> and \<^verbatim>\<open>condvar_broadcast\<close>; and no
  thread sleeps on a mutex that is free: while one is parked, another has the mutex or hands it over.
\<close>

theorem mutex_correct:
  assumes "sync_reach s"
  shows "(carries (spc s t) \<longrightarrow> carries (spc s u) \<longrightarrow> t = u) \<and> (spc s t = L_parked \<longrightarrow> (\<exists>v. carries (spc s v)))"
proof -
  note i = sync_invD [OF sync_reach_inv [OF assms]]
  have "\<exists>v. carries (spc s v)" if "spc s t = L_parked"
  proof -
    have w: "wakes p = Some x \<Longrightarrow> carries p" for p x by (cases p) simp_all
    have "m_waiters (mtx s) \<noteq> [] \<Longrightarrow> m_held (mtx s) \<noteq> 0" using i(5) unfolding flag_ok_def by auto
    then have m: "m_waiters (mtx s) \<noteq> [] \<Longrightarrow> \<exists>v. carries (spc s v)" using i(1) unfolding held_ok_def by blast
    have "t \<in> set (m_waiters (mtx s)) \<or> t \<in> woken (spc s)" using i(3) that unfolding list_ok_def parks_def by blast
    then show ?thesis
    proof
      assume "t \<in> woken (spc s)"
      then show ?thesis using w unfolding woken_def by blast
    next
      assume "t \<in> set (m_waiters (mtx s))"
      then have "m_waiters (mtx s) \<noteq> []" by auto
      then show ?thesis by (rule m)
    qed
  qed
  then show ?thesis using i(1) unfolding held_ok_def by blast
qed

text \<open>Thread 0 has the mutex, thread 1 sleeps on it.\<close>

fun sync_run :: "(nat \<times> nat) list \<Rightarrow> ssys \<Rightarrow> ssys option" where
  "sync_run [] s = Some s"
| "sync_run ((t, n) # xs) s = (if n < 10 then do { s \<leftarrow> sync_steps t s ! n; sync_run xs s } else None)"

lemma sync_run_reach: "sync_run xs s = Some s' \<Longrightarrow> sync_reach s \<Longrightarrow> sync_reach s'"
proof (induction xs s rule: sync_run.induct)
  case (2 t n xs s)
  then obtain s1 where s1: "n < 10" "sync_steps t s ! n = Some s1" "sync_run xs s1 = Some s'" by (auto simp: Option.bind_eq_Some_conv split: if_splits)
  have "length (sync_steps t s) = 10" by (simp add: sync_steps_def)
  then have "Some s1 \<in> set (sync_steps t s)" using s1(1,2) by (metis nth_mem)
  with 2 s1 show ?case by (auto intro: sync_next)
qed simp

lemma sync_run_the: "sync_run xs sync_start \<noteq> None \<Longrightarrow> sync_reach (the (sync_run xs sync_start))"
  using sync_run_reach [OF _ sync_init] by (cases "sync_run xs sync_start") simp_all

definition demo_mutex :: ssys where
  "demo_mutex = the (sync_run [(0, 4), (0, 0), (1, 4), (1, 0), (1, 0), (1, 0), (1, 0), (1, 0)] sync_start)"

lemma demo_mutex_facts: "sync_reach demo_mutex" "spc demo_mutex 0 = T_cs" "spc demo_mutex 1 = L_parked"
proof -
  have "sync_run [(0, 4), (0, 0), (1, 4), (1, 0), (1, 0), (1, 0), (1, 0), (1, 0)] sync_start \<noteq> None" by code_simp
  then show "sync_reach demo_mutex" unfolding demo_mutex_def by (rule sync_run_the)
  show "spc demo_mutex 0 = T_cs" "spc demo_mutex 1 = L_parked" by code_simp+
qed

theorem mutex_correct_witness: "spc demo_mutex 1 = L_parked \<and> {v. carries (spc demo_mutex v)} = {0}"
  using mutex_correct [OF demo_mutex_facts(1), of 1 0] mutex_correct [OF demo_mutex_facts(1), of 0] demo_mutex_facts(2,3) by auto

text \<open>Inside \<^verbatim>\<open>condvar_wait\<close>, without the mutex and not woken.\<close>

definition waits_cv :: "spc \<Rightarrow> bool" where
  "waits_cv p \<longleftrightarrow> p \<in> {U_zero_unlock True, W_add, W_park, W_parked} \<or> (\<exists>x. p = U_ready True x)"

text \<open>
  C19: no signal is lost. When a thread that signals looks at the list of a condition variable, every
  thread that has released the mutex inside \<^verbatim>\<open>condvar_wait\<close> and has not been woken is on the list, so
  the signal wakes one of them and a broadcast wakes them all.
\<close>

theorem signal_not_lost:
  assumes "sync_reach s" "spc s t = S_locked c all" "waits_cv (spc s u)" "\<forall>v. u \<notin> set (cv_wakes (spc s v))"
  shows "u \<in> set (cv_waiters (cvar s)) \<and> (\<exists>s' x xs. signal_step t s = Some s' \<and> spc s' t = S_unlock c (x # xs) \<and> (all \<longrightarrow> u \<in> set (x # xs)))"
proof -
  note i = sync_invD [OF sync_reach_inv [OF assms(1)]]
  have "\<not> cv_locks (spc s u)" using lockD [OF i(6), of t u] assms(2,3) by (auto simp: waits_cv_def)
  then have "spc s u = W_parked" using assms(3) by (auto simp: waits_cv_def)
  then have "u \<in> set (cv_waiters (cvar s)) \<union> cv_woken (spc s)" using i(7) unfolding cv_ok_def cv_parks_def by blast
  then have u: "u \<in> set (cv_waiters (cvar s))" using assms(4) unfolding cv_woken_def by blast
  then obtain x xs where x: "cv_waiters (cvar s) = x # xs" by (cases "cv_waiters (cvar s)") auto
  show ?thesis using u x assms(2) by (cases all) (auto simp: signal_step_def Let_def)
qed

text \<open>Thread 0 waits for the condition; thread 1 takes the mutex and signals.\<close>

definition demo_cv :: ssys where
  "demo_cv = the (sync_run [(0, 4), (0, 0), (0, 7), (0, 2), (0, 1), (0, 2), (0, 2), (1, 4), (1, 0), (1, 8), (1, 3)] sync_start)"

lemma demo_cv_facts: "sync_reach demo_cv" "spc demo_cv 0 = W_parked" "spc demo_cv 1 = S_locked True False" "cv_waiters (cvar demo_cv) = [0]"
proof -
  have "sync_run [(0, 4), (0, 0), (0, 7), (0, 2), (0, 1), (0, 2), (0, 2), (1, 4), (1, 0), (1, 8), (1, 3)] sync_start \<noteq> None" by code_simp
  then show "sync_reach demo_cv" unfolding demo_cv_def by (rule sync_run_the)
  show "spc demo_cv 0 = W_parked" "spc demo_cv 1 = S_locked True False" "cv_waiters (cvar demo_cv) = [0]" by code_simp+
qed

theorem signal_not_lost_witness: "\<exists>s x xs. signal_step 1 demo_cv = Some s \<and> spc s 1 = S_unlock True (x # xs)"
proof -
  have "cv_ok [0] (spc demo_cv)" using sync_invD(7) [OF sync_reach_inv [OF demo_cv_facts(1)]] demo_cv_facts(4) by simp
  then have "\<forall>v. 0 \<notin> set (cv_wakes (spc demo_cv v))" unfolding cv_ok_def cv_woken_def by auto
  then show ?thesis using signal_not_lost [OF demo_cv_facts(1,3), of 0] demo_cv_facts(2) by (auto simp: waits_cv_def)
qed

end
