(* ===== verification/Rwmutex.thy ===== *)
theory Rwmutex
  imports Vprelude "HOL-Library.Monad_Syntax"
begin

text \<open>
  Read-write mutexes, wait groups and barriers of user threads (\<^verbatim>\<open>runtime/sync.c\<close>). Every operation is
  one critical section of the object's spin lock, so it is one step here; the threads it wakes with
  \<^verbatim>\<open>thread_ready\<close> after the lock is released are part of its result. The C integers that count threads
  are integers: their values are bounded by the number of threads.
\<close>

section \<open>Read-write mutexes\<close>

record rwmutex =
  rw_count :: int
  read_waiters :: "nat list"
  write_waiters :: "nat list"
  read_waiter_count :: int

definition rwmutex_init :: rwmutex where
  "rwmutex_init = \<lparr>rw_count = 0, read_waiters = [], write_waiters = [], read_waiter_count = 0\<rparr>"

text \<open>The first result says whether the caller goes on; otherwise it is parked.\<close>

definition rwmutex_rdlock :: "nat \<Rightarrow> rwmutex \<Rightarrow> bool \<times> rwmutex" where
  "rwmutex_rdlock th m =
     (if 0 \<le> rw_count m then (True, m\<lparr>rw_count := rw_count m + 1\<rparr>)
      else (False, m\<lparr>read_waiter_count := read_waiter_count m + 1, read_waiters := read_waiters m @ [th]\<rparr>))"

definition rwmutex_try_rdlock :: "rwmutex \<Rightarrow> bool \<times> rwmutex" where
  "rwmutex_try_rdlock m = (if 0 \<le> rw_count m then (True, m\<lparr>rw_count := rw_count m + 1\<rparr>) else (False, m))"

definition rwmutex_wrlock :: "nat \<Rightarrow> rwmutex \<Rightarrow> bool \<times> rwmutex" where
  "rwmutex_wrlock th m =
     (if rw_count m = 0 then (True, m\<lparr>rw_count := - 1\<rparr>) else (False, m\<lparr>write_waiters := write_waiters m @ [th]\<rparr>))"

definition rwmutex_try_wrlock :: "rwmutex \<Rightarrow> bool \<times> rwmutex" where
  "rwmutex_try_wrlock m = (if rw_count m = 0 then (True, m\<lparr>rw_count := - 1\<rparr>) else (False, m))"

definition rwmutex_unlock :: "rwmutex \<Rightarrow> nat list \<times> rwmutex" where
  "rwmutex_unlock m =
     (let m = (if rw_count m < 0 then m\<lparr>rw_count := 0\<rparr> else m\<lparr>rw_count := rw_count m - 1\<rparr>)
      in if rw_count m = 0 \<and> 0 < read_waiter_count m
         then (read_waiters m, m\<lparr>rw_count := read_waiter_count m, read_waiter_count := 0, read_waiters := []\<rparr>)
         else if rw_count m = 0 then
           (case write_waiters m of [] \<Rightarrow> ([], m) | th # ths \<Rightarrow> ([th], m\<lparr>write_waiters := ths, rw_count := - 1\<rparr>))
         else ([], m))"

text \<open>What a thread has, and a system of threads that use one mutex.\<close>

datatype rw_state = Rw_none | Rw_read | Rw_write | Rw_wait_read | Rw_wait_write

datatype rw_call = Rd_lock | Rd_try | Wr_lock | Wr_try | Rw_unlock

record rw_sys =
  rwm :: rwmutex
  rws :: "nat \<Rightarrow> rw_state"

definition rw_wake :: "rw_state \<Rightarrow> rw_state" where
  "rw_wake x = (case x of Rw_wait_read \<Rightarrow> Rw_read | Rw_wait_write \<Rightarrow> Rw_write | _ \<Rightarrow> x)"

definition rw_step :: "nat \<Rightarrow> rw_call \<Rightarrow> rw_sys \<Rightarrow> rw_sys option" where
  "rw_step t a s = (case (rws s t, a) of
     (Rw_none, Rd_lock) \<Rightarrow> (let (b, m) = rwmutex_rdlock t (rwm s) in Some \<lparr>rwm = m, rws = (rws s)(t := if b then Rw_read else Rw_wait_read)\<rparr>)
   | (Rw_none, Rd_try) \<Rightarrow> (let (b, m) = rwmutex_try_rdlock (rwm s) in Some \<lparr>rwm = m, rws = (rws s)(t := if b then Rw_read else Rw_none)\<rparr>)
   | (Rw_none, Wr_lock) \<Rightarrow> (let (b, m) = rwmutex_wrlock t (rwm s) in Some \<lparr>rwm = m, rws = (rws s)(t := if b then Rw_write else Rw_wait_write)\<rparr>)
   | (Rw_none, Wr_try) \<Rightarrow> (let (b, m) = rwmutex_try_wrlock (rwm s) in Some \<lparr>rwm = m, rws = (rws s)(t := if b then Rw_write else Rw_none)\<rparr>)
   | (Rw_read, Rw_unlock) \<Rightarrow> (let (xs, m) = rwmutex_unlock (rwm s)
        in Some \<lparr>rwm = m, rws = (\<lambda>u. if u = t then Rw_none else if u \<in> set xs then rw_wake (rws s u) else rws s u)\<rparr>)
   | (Rw_write, Rw_unlock) \<Rightarrow> (let (xs, m) = rwmutex_unlock (rwm s)
        in Some \<lparr>rwm = m, rws = (\<lambda>u. if u = t then Rw_none else if u \<in> set xs then rw_wake (rws s u) else rws s u)\<rparr>)
   | _ \<Rightarrow> None)"

inductive rw_reach :: "rw_sys \<Rightarrow> bool" where
  rw_start: "rw_reach \<lparr>rwm = rwmutex_init, rws = (\<lambda>_. Rw_none)\<rparr>"
| rw_next: "rw_reach s \<Longrightarrow> rw_step t a s = Some s' \<Longrightarrow> rw_reach s'"

text \<open>The count is that of the readers, or the mutex has one writer; threads wait only while it is taken.\<close>

definition rw_in :: "rw_sys \<Rightarrow> rw_state \<Rightarrow> nat set" where
  "rw_in s x = {t. rws s t = x}"

definition rw_inv :: "rw_sys \<Rightarrow> bool" where
  "rw_inv s \<longleftrightarrow> finite (rw_in s Rw_read) \<and>
     (rw_count (rwm s) = - 1 \<and> rw_in s Rw_read = {} \<and> (\<exists>t. rw_in s Rw_write = {t}) \<or>
      rw_count (rwm s) = int (card (rw_in s Rw_read)) \<and> rw_in s Rw_write = {}) \<and>
     distinct (read_waiters (rwm s)) \<and> set (read_waiters (rwm s)) = rw_in s Rw_wait_read \<and> read_waiter_count (rwm s) = int (length (read_waiters (rwm s))) \<and>
     distinct (write_waiters (rwm s)) \<and> set (write_waiters (rwm s)) = rw_in s Rw_wait_write \<and>
     (read_waiters (rwm s) \<noteq> [] \<longrightarrow> rw_count (rwm s) = - 1) \<and> (write_waiters (rwm s) \<noteq> [] \<longrightarrow> rw_count (rwm s) \<noteq> 0)"

lemma rw_in_upd:
  assumes "rws s t = y"
  shows "rw_in (s\<lparr>rwm := m, rws := (rws s)(t := z)\<rparr>) x = (if x = z then insert t (rw_in s x) else rw_in s x - {t})"
    "t \<in> rw_in s y" "x \<noteq> y \<Longrightarrow> t \<notin> rw_in s x"
  using assms by (auto simp: rw_in_def)

lemma rw_lock_inv:
  assumes inv: "rw_inv s" and t: "rws s t = Rw_none" and st: "rw_step t a s = Some s'"
  shows "rw_inv s'"
proof -
  have n: "t \<notin> rw_in s Rw_read" "t \<notin> rw_in s Rw_write" "t \<notin> rw_in s Rw_wait_read" "t \<notin> rw_in s Rw_wait_write" using t by (simp_all add: rw_in_def)
  consider "0 \<le> rw_count (rwm s)" "s' = s\<lparr>rwm := (rwm s)\<lparr>rw_count := rw_count (rwm s) + 1\<rparr>, rws := (rws s)(t := Rw_read)\<rparr>"
    | "rw_count (rwm s) < 0" "s' = s\<lparr>rwm := (rwm s)\<lparr>read_waiter_count := read_waiter_count (rwm s) + 1, read_waiters := read_waiters (rwm s) @ [t]\<rparr>, rws := (rws s)(t := Rw_wait_read)\<rparr>"
    | "rw_count (rwm s) = 0" "s' = s\<lparr>rwm := (rwm s)\<lparr>rw_count := - 1\<rparr>, rws := (rws s)(t := Rw_write)\<rparr>"
    | "rw_count (rwm s) \<noteq> 0" "s' = s\<lparr>rwm := (rwm s)\<lparr>write_waiters := write_waiters (rwm s) @ [t]\<rparr>, rws := (rws s)(t := Rw_wait_write)\<rparr>"
    | "s' = s\<lparr>rwm := rwm s, rws := (rws s)(t := Rw_none)\<rparr>"
    using st t by (cases a) (auto simp: rw_step_def rwmutex_rdlock_def rwmutex_try_rdlock_def rwmutex_wrlock_def rwmutex_try_wrlock_def split: if_splits)
  then show ?thesis
  proof cases
    case 5
    then have "s' = s" using t by (cases s) (auto simp: fun_upd_idem)
    then show ?thesis using inv by simp
  qed (use inv n t in \<open>auto simp: rw_inv_def rw_in_upd [OF t]\<close>)
qed

text \<open>What an unlock does to the sets of threads.\<close>

lemma rw_unlock_in:
  assumes "s' = \<lparr>rwm = m, rws = (\<lambda>u. if u = t then Rw_none else if u \<in> set xs then rw_wake (rws s u) else rws s u)\<rparr>"
    and "\<forall>u \<in> set xs. u \<noteq> t \<and> rws s u = w" "w = Rw_wait_read \<or> w = Rw_wait_write"
  shows "x \<noteq> Rw_none \<Longrightarrow> rw_in s' x = (if x = w then rw_in s x - {t} - set xs else if x = rw_wake w then (rw_in s x - {t}) \<union> set xs else rw_in s x - {t})"
  using assms by (auto simp: rw_in_def rw_wake_def)

lemma rw_unlock_inv:
  assumes inv: "rw_inv s" and t: "rws s t = Rw_read \<or> rws s t = Rw_write" and st: "rw_step t a s = Some s'"
  shows "rw_inv s'"
proof -
  let ?m = "rwm s" and ?c = "if rw_count (rwm s) < 0 then 0 else rw_count (rwm s) - 1"
  obtain xs m where u: "rwmutex_unlock ?m = (xs, m)" by fastforce
  have s': "s' = \<lparr>rwm = m, rws = (\<lambda>u. if u = t then Rw_none else if u \<in> set xs then rw_wake (rws s u) else rws s u)\<rparr>"
    using st t u by (cases a; cases "rws s t") (auto simp: rw_step_def)
  then have rm: "rwm s' = m" by simp
  have i: "finite (rw_in s Rw_read)" "distinct (read_waiters ?m)" "set (read_waiters ?m) = rw_in s Rw_wait_read" "read_waiter_count ?m = int (length (read_waiters ?m))"
    "distinct (write_waiters ?m)" "set (write_waiters ?m) = rw_in s Rw_wait_write" "read_waiters ?m \<noteq> [] \<Longrightarrow> rw_count ?m = - 1" "write_waiters ?m \<noteq> [] \<Longrightarrow> rw_count ?m \<noteq> 0"
    using inv by (auto simp: rw_inv_def)
  have after: "rw_in s Rw_write - {t} = {}" "?c = int (card (rw_in s Rw_read - {t}))" "read_waiters ?m \<noteq> [] \<Longrightarrow> rw_in s Rw_read - {t} = {} \<and> ?c = 0"
  proof -
    have "t \<in> rw_in s Rw_read \<or> t \<in> rw_in s Rw_write" using t by (auto simp: rw_in_def)
    then show "rw_in s Rw_write - {t} = {}" "?c = int (card (rw_in s Rw_read - {t}))"
      using inv card_gt_0_iff [of "rw_in s Rw_read"] by (auto simp: rw_inv_def card_Diff_singleton_if)
    show "rw_in s Rw_read - {t} = {} \<and> ?c = 0" if "read_waiters ?m \<noteq> []" using i(7) [OF that] inv by (auto simp: rw_inv_def)
  qed
  have nt: "t \<notin> rw_in s Rw_wait_read" "t \<notin> rw_in s Rw_wait_write" using t by (auto simp: rw_in_def)
  consider "read_waiters ?m \<noteq> []" "xs = read_waiters ?m" "m = ?m\<lparr>rw_count := read_waiter_count ?m, read_waiter_count := 0, read_waiters := []\<rparr>"
    | th ths where "read_waiters ?m = []" "?c = 0" "write_waiters ?m = th # ths" "xs = [th]" "m = ?m\<lparr>write_waiters := ths, rw_count := - 1\<rparr>"
    | "read_waiters ?m = []" "?c = 0 \<longrightarrow> write_waiters ?m = []" "xs = []" "m = ?m\<lparr>rw_count := ?c\<rparr>"
    using u i(4) after(3) by (cases "read_waiters ?m = []"; cases "?c = 0"; cases "write_waiters ?m") (auto simp: rwmutex_unlock_def Let_def split: if_splits)
  then show ?thesis
  proof cases
    case 1
    then have "\<forall>u \<in> set xs. u \<noteq> t \<and> rws s u = Rw_wait_read" using i(3) nt by (auto simp: rw_in_def)
    note e = rw_unlock_in [OF s' this]
    have "length (read_waiters ?m) = card (rw_in s Rw_wait_read)" "finite (rw_in s Rw_wait_read)" using i(2,3) distinct_card by (metis, metis List.finite_set)
    moreover have "rw_in s Rw_read - {t} \<union> rw_in s Rw_wait_read = rw_in s Rw_wait_read" using after(3) [OF 1(1)] by blast
    moreover have "rw_in s Rw_wait_read \<noteq> {}" using i(3) 1(1) by auto
    ultimately show ?thesis unfolding rw_inv_def using 1 i nt after(1) by (simp add: e rm rw_wake_def)
  next
    case 2
    then have "\<forall>u \<in> set xs. u \<noteq> t \<and> rws s u = Rw_wait_write" using i(6) nt by (auto simp: rw_in_def)
    note e = rw_unlock_in [OF s' this]
    have "card (rw_in s Rw_read - {t}) = 0" using after(2) 2 by simp
    then have "rw_in s Rw_read - {t} = {}" using i(1) by simp
    then show ?thesis unfolding rw_inv_def using 2 i nt after(1) by (auto simp: e rm rw_wake_def)
  next
    case 3
    then have "\<forall>u \<in> set xs. u \<noteq> t \<and> rws s u = Rw_wait_read" by simp
    note e = rw_unlock_in [OF s' this]
    show ?thesis unfolding rw_inv_def using 3 i nt after(1,2) by (auto simp: e rm rw_wake_def)
  qed
qed

lemma rw_reach_inv: "rw_reach s \<Longrightarrow> rw_inv s"
proof (induction rule: rw_reach.induct)
  case rw_start
  show ?case by (simp add: rw_inv_def rw_in_def rwmutex_init_def)
next
  case (rw_next s t a s')
  show ?case
  proof (cases "rws s t")
    case Rw_none
    then show ?thesis using rw_lock_inv [OF rw_next.IH] rw_next(2) by blast
  next
    case Rw_read
    then show ?thesis using rw_unlock_inv [OF rw_next.IH] rw_next(2) by blast
  next
    case Rw_write
    then show ?thesis using rw_unlock_inv [OF rw_next.IH] rw_next(2) by blast
  qed (use rw_next(2) in \<open>simp_all add: rw_step_def\<close>)
qed

text \<open>
  C20: a read-write mutex excludes: a thread that has it for writing is the only one that has it, in
  every interleaving; the count is the number of readers, or -1 with a writer; and no thread sleeps on a
  mutex that it could take: readers wait only for a writer, writers only while someone has it.
\<close>

theorem rwmutex_correct:
  assumes "rw_reach s"
  shows "(rws s t = Rw_write \<longrightarrow> rws s u = Rw_write \<or> rws s u = Rw_read \<longrightarrow> t = u) \<and>
    (if rw_in s Rw_write = {} then rw_count (rwm s) = int (card {u. rws s u = Rw_read}) else rw_count (rwm s) = - 1) \<and>
    (rws s t = Rw_wait_read \<longrightarrow> (\<exists>v. rws s v = Rw_write)) \<and> (rws s t = Rw_wait_write \<longrightarrow> (\<exists>v. rws s v = Rw_write \<or> rws s v = Rw_read))"
proof -
  have inv: "rw_inv s" by (rule rw_reach_inv [OF assms])
  have w: "rws s t = Rw_wait_read \<Longrightarrow> rw_count (rwm s) = - 1" "rws s t = Rw_wait_write \<Longrightarrow> rw_count (rwm s) \<noteq> 0"
  proof -
    assume "rws s t = Rw_wait_read"
    then have "t \<in> set (read_waiters (rwm s))" using inv by (auto simp: rw_inv_def rw_in_def)
    then have "read_waiters (rwm s) \<noteq> []" by auto
    then show "rw_count (rwm s) = - 1" using inv by (simp add: rw_inv_def)
  next
    assume "rws s t = Rw_wait_write"
    then have "t \<in> set (write_waiters (rwm s))" using inv by (auto simp: rw_inv_def rw_in_def)
    then have "write_waiters (rwm s) \<noteq> []" by auto
    then show "rw_count (rwm s) \<noteq> 0" using inv by (simp add: rw_inv_def)
  qed
  have "rw_count (rwm s) = - 1 \<and> rw_in s Rw_read = {} \<and> (\<exists>t. rw_in s Rw_write = {t}) \<or> rw_count (rwm s) = int (card (rw_in s Rw_read)) \<and> rw_in s Rw_write = {}"
    using inv by (simp add: rw_inv_def)
  then show ?thesis
  proof (elim disjE conjE exE)
    fix v assume v: "rw_count (rwm s) = - 1" "rw_in s Rw_read = {}" "rw_in s Rw_write = {v}"
    have "rws s x = Rw_write \<longleftrightarrow> x = v" "rws s x \<noteq> Rw_read" for x using v(2,3) by (auto simp: rw_in_def set_eq_iff)
    then show ?thesis using v by auto
  next
    assume c: "rw_count (rwm s) = int (card (rw_in s Rw_read))" "rw_in s Rw_write = {}"
    then have "rws s t \<noteq> Rw_wait_read" using w(1) by auto
    moreover have "rws s t = Rw_wait_write \<Longrightarrow> rw_in s Rw_read \<noteq> {}" using w(2) c(1) by auto
    ultimately show ?thesis using c by (auto simp: rw_in_def)
  qed
qed

definition rw_demo :: rw_sys where
  "rw_demo = the (do { s \<leftarrow> rw_step 0 Wr_lock \<lparr>rwm = rwmutex_init, rws = (\<lambda>_. Rw_none)\<rparr>; s \<leftarrow> rw_step 1 Rd_lock s; s \<leftarrow> rw_step 2 Rd_lock s;
     s \<leftarrow> rw_step 3 Wr_lock s; rw_step 0 Rw_unlock s })"

lemma rw_demo_reach: "rw_reach rw_demo" "rws rw_demo 1 = Rw_read" "rws rw_demo 3 = Rw_wait_write"
proof -
  let ?s0 = "\<lparr>rwm = rwmutex_init, rws = (\<lambda>_. Rw_none)\<rparr>"
  obtain s1 s2 s3 s4 s5 where s: "rw_step 0 Wr_lock ?s0 = Some s1" "rw_step 1 Rd_lock s1 = Some s2" "rw_step 2 Rd_lock s2 = Some s3" "rw_step 3 Wr_lock s3 = Some s4"
    "rw_step 0 Rw_unlock s4 = Some s5"
    by (simp add: rw_step_def rwmutex_init_def rwmutex_rdlock_def rwmutex_wrlock_def rwmutex_unlock_def)
  then have "rw_demo = s5" by (simp add: rw_demo_def)
  then show "rw_reach rw_demo" using s rw_next [OF rw_next [OF rw_next [OF rw_next [OF rw_next [OF rw_start]]]]] by blast
  show "rws rw_demo 1 = Rw_read" "rws rw_demo 3 = Rw_wait_write" by code_simp+
qed

theorem rwmutex_correct_witness: "(\<forall>u. rws rw_demo u \<noteq> Rw_write) \<and> rw_count (rwm rw_demo) = int (card {u. rws rw_demo u = Rw_read})"
proof -
  have n: "rws rw_demo u \<noteq> Rw_write" for u using rwmutex_correct [OF rw_demo_reach(1), of u 1] rw_demo_reach(2) by auto
  then have "rw_in rw_demo Rw_write = {}" by (simp add: rw_in_def)
  then show ?thesis using n rwmutex_correct [OF rw_demo_reach(1)] by simp
qed

section \<open>Wait groups\<close>

record waitgroup =
  wg_cnt :: int
  wg_waiters :: "nat list"

definition waitgroup_init :: waitgroup where
  "waitgroup_init = \<lparr>wg_cnt = 0, wg_waiters = []\<rparr>"

text \<open>\<open>None\<close> is the failed \<^verbatim>\<open>BUG_ON\<close>; a count of zero wakes all waiters.\<close>

definition waitgroup_add :: "int \<Rightarrow> waitgroup \<Rightarrow> (nat list \<times> waitgroup) option" where
  "waitgroup_add cnt wg =
     (let wg = wg\<lparr>wg_cnt := wg_cnt wg + cnt\<rparr>
      in if wg_cnt wg < 0 then None
         else if wg_cnt wg = 0 then Some (wg_waiters wg, wg\<lparr>wg_waiters := []\<rparr>) else Some ([], wg))"

definition waitgroup_done :: "waitgroup \<Rightarrow> (nat list \<times> waitgroup) option" where
  "waitgroup_done wg = waitgroup_add (- 1) wg"

definition waitgroup_wait :: "nat \<Rightarrow> waitgroup \<Rightarrow> bool \<times> waitgroup" where
  "waitgroup_wait th wg = (if wg_cnt wg = 0 then (True, wg) else (False, wg\<lparr>wg_waiters := wg_waiters wg @ [th]\<rparr>))"

text \<open>A sequence of calls: the threads that went on or were woken, in order.\<close>

datatype wg_call = Wg_add int | Wg_wait nat

primrec wg_run :: "wg_call list \<Rightarrow> waitgroup \<Rightarrow> (nat list \<times> waitgroup) option" where
  "wg_run [] wg = Some ([], wg)"
| "wg_run (c # cs) wg =
     (case c of
        Wg_add n \<Rightarrow> do { (xs, wg) \<leftarrow> waitgroup_add n wg; (ys, wg) \<leftarrow> wg_run cs wg; Some (xs @ ys, wg) }
      | Wg_wait th \<Rightarrow> (let (b, wg) = waitgroup_wait th wg in do { (ys, wg) \<leftarrow> wg_run cs wg; Some ((if b then [th] else []) @ ys, wg) }))"

definition wg_waited :: "wg_call list \<Rightarrow> nat list" where
  "wg_waited cs = concat (map (\<lambda>c. case c of Wg_wait th \<Rightarrow> [th] | _ \<Rightarrow> []) cs)"

definition wg_total :: "wg_call list \<Rightarrow> int" where
  "wg_total cs = sum_list (map (\<lambda>c. case c of Wg_add n \<Rightarrow> n | _ \<Rightarrow> 0) cs)"

lemma wg_run_waiters:
  assumes "wg_run cs wg = Some (xs, wg')" "wg_waiters wg \<noteq> [] \<Longrightarrow> wg_cnt wg \<noteq> 0"
  shows "xs @ wg_waiters wg' = wg_waiters wg @ wg_waited cs \<and> (wg_waiters wg' \<noteq> [] \<longrightarrow> wg_cnt wg' \<noteq> 0) \<and> wg_cnt wg' = wg_cnt wg + wg_total cs"
  using assms
proof (induction cs arbitrary: wg xs)
  case (Cons c cs)
  show ?case
  proof (cases c)
    case (Wg_add n)
    then obtain ys wg1 zs where w: "waitgroup_add n wg = Some (ys, wg1)" "wg_run cs wg1 = Some (zs, wg')" "xs = ys @ zs"
      using Cons(2) by (auto simp: Option.bind_eq_Some_conv)
    have "ys @ wg_waiters wg1 = wg_waiters wg" "wg_waiters wg1 \<noteq> [] \<longrightarrow> wg_cnt wg1 \<noteq> 0" "wg_cnt wg1 = wg_cnt wg + n"
      using w(1) by (auto simp: waitgroup_add_def Let_def split: if_splits)
    then show ?thesis using Cons(1) [OF w(2)] w(3) Wg_add by (auto simp: wg_waited_def wg_total_def)
  next
    case (Wg_wait th)
    obtain b wg1 where b: "waitgroup_wait th wg = (b, wg1)" by fastforce
    then obtain zs where w: "wg_run cs wg1 = Some (zs, wg')" "xs = (if b then [th] else []) @ zs" using Cons(2) Wg_wait by (auto simp: Option.bind_eq_Some_conv)
    have "wg_waiters wg1 = (if b then [] else wg_waiters wg @ [th])" "b \<Longrightarrow> wg_waiters wg = []" "wg_waiters wg1 \<noteq> [] \<longrightarrow> wg_cnt wg1 \<noteq> 0" "wg_cnt wg1 = wg_cnt wg"
      using b Cons(3) by (auto simp: waitgroup_wait_def split: if_splits)
    then show ?thesis using Cons(1) [OF w(1)] w(2) Wg_wait by (auto simp: wg_waited_def wg_total_def split: if_splits)
  qed
qed (simp add: wg_waited_def wg_total_def)



section \<open>Barriers\<close>

record barrier =
  b_waiting :: int
  b_count :: int
  b_waiters :: "nat list"

definition barrier_init :: "int \<Rightarrow> barrier" where
  "barrier_init count = \<lparr>b_waiting = 0, b_count = count, b_waiters = []\<rparr>"

text \<open>The result says whether the caller releases the barrier, and which threads it wakes.\<close>

definition barrier_wait :: "nat \<Rightarrow> barrier \<Rightarrow> (bool \<times> nat list) \<times> barrier" where
  "barrier_wait th b =
     (let b = b\<lparr>b_waiting := b_waiting b + 1\<rparr>
      in if b_count b \<le> b_waiting b then ((True, b_waiters b), b\<lparr>b_waiters := [], b_waiting := 0\<rparr>)
         else ((False, []), b\<lparr>b_waiters := b_waiters b @ [th]\<rparr>))"

primrec barrier_run :: "nat list \<Rightarrow> barrier \<Rightarrow> (bool \<times> nat list) list \<times> barrier" where
  "barrier_run [] b = ([], b)"
| "barrier_run (th # ths) b = (let (r, b) = barrier_wait th b; (rs, b) = barrier_run ths b in (r # rs, b))"

lemma barrier_run_append: "barrier_run (xs @ ys) b = (let (rs, b) = barrier_run xs b; (rs', b) = barrier_run ys b in (rs @ rs', b))"
  by (induction xs arbitrary: b) (simp_all add: Let_def case_prod_beta)

lemma barrier_fill:
  assumes "b_waiting b = int (length (b_waiters b))" "length (b_waiters b) + length ths < nat (b_count b)"
  shows "barrier_run ths b = (replicate (length ths) (False, []), b\<lparr>b_waiters := b_waiters b @ ths, b_waiting := b_waiting b + int (length ths)\<rparr>)"
  using assms
proof (induction ths arbitrary: b)
  case (Cons th ths)
  have "barrier_wait th b = ((False, []), b\<lparr>b_waiters := b_waiters b @ [th], b_waiting := b_waiting b + 1\<rparr>)"
    using Cons(2,3) by (simp add: barrier_wait_def Let_def)
  then show ?case using Cons(1) [of "b\<lparr>b_waiters := b_waiters b @ [th], b_waiting := b_waiting b + 1\<rparr>"] Cons(2,3) by (simp add: Let_def)
qed simp

text \<open>
  C36: a barrier releases its threads in rounds. Of as many threads as the count all but the last are
  parked, the last one releases the barrier and wakes exactly the others in their order, and the
  barrier is as new, so that the next round begins.
\<close>

theorem barrier_round:
  assumes "length ths = nat count" "0 < count"
  shows "barrier_run ths (barrier_init count) = (replicate (length ths - 1) (False, []) @ [(True, butlast ths)], barrier_init count)"
proof -
  have ne: "ths \<noteq> []" using assms by auto
  let ?b = "barrier_init count"
  have "barrier_run (butlast ths) ?b = (replicate (length ths - 1) (False, []), ?b\<lparr>b_waiters := butlast ths, b_waiting := int (length ths - 1)\<rparr>)"
    using barrier_fill [of ?b "butlast ths"] assms by (simp add: barrier_init_def)
  moreover have "barrier_wait (last ths) (?b\<lparr>b_waiters := butlast ths, b_waiting := int (length ths - 1)\<rparr>) = ((True, butlast ths), ?b)"
    using assms by (simp add: barrier_wait_def barrier_init_def Let_def)
  ultimately have "barrier_run (butlast ths @ [last ths]) ?b = (replicate (length ths - 1) (False, []) @ [(True, butlast ths)], ?b)"
    unfolding barrier_run_append by simp
  then show ?thesis using ne by simp
qed

theorem barrier_round_witness: "barrier_run [4, 5, 6] (barrier_init 3) = ([(False, []), (False, []), (True, [4, 5])], barrier_init 3)"
  using barrier_round [of "[4, 5, 6]" 3] by (simp add: numeral_eq_Suc)

end
