(* ===== verification/Spec2Isabelle.thy ===== *)
theory Spec2Isabelle
  imports Cpulist Lrpc Timer_Heap Chunk_Mem Start_Alloc Tcache Csched Control Simple_Policy Numa_Policy Rcu Sync Rwmutex
begin

text \<open>
  A verification of Vessel, which runs several user-space processes (uProcesses) in one address space
  and moves cores between them in user space. All paths below are under \<^verbatim>\<open>src/vessel/src/\<close> unless they
  start with \<^verbatim>\<open>include/\<close>, which is \<^verbatim>\<open>src/vessel/include/\<close>.

  \<^bold>\<open>The program.\<close> Three layers share memory.

  \<^item> The core library (\<^verbatim>\<open>core/\<close>, \<^verbatim>\<open>apis/\<close>, with \<^verbatim>\<open>base/\<close> below it) holds the tables of uProcesses (tasks),
    of their clusters (contexts that run user code) and of the kthreads that run clusters. On every core
    it runs a cluster scheduler, \<^verbatim>\<open>core/csched.c\<close>, which switches between clusters of different tasks and
    sets the protection-key register so that the running task reaches its own memory only.
  \<^item> The scheduler process (\<^verbatim>\<open>iokernel/\<close>) measures how long work waits in each runtime, decides by a
    policy which process gets which core, and posts a request to that core in shared memory, with a user
    interrupt when the core is busy. Its control plane accepts new runtimes.
  \<^item> The runtime (\<^verbatim>\<open>runtime/\<close>) is the user-level threading library inside a uProcess: per-kthread run
    queues with work stealing, timers, thread caches and synchronization. The lengths of its queues are
    published in the memory that the scheduler process reads.

  \<^bold>\<open>Conventions.\<close> A definition has the name of the C function or structure it translates, with a suffix
  where the name is taken. C integers are words of their width where they can wrap, and \<open>nat\<close> or \<open>int\<close>
  where their values are bounded by a table size. Pointers to objects are numbers that name them, linked
  lists are HOL lists, an array of bits is a function from the word index. The result \<open>None\<close> of an
  operation is what the C code must never do: an access through a bad pointer or outside an array, a
  failing \<^verbatim>\<open>BUG_ON\<close>, \<^verbatim>\<open>abort\<close>, an undefined shift, or a wait that cannot end. \<^verbatim>\<open>assert\<close> is compiled out in
  the release build and is no branch. Errors the code returns are values of \<open>ret\<close>. \<^verbatim>\<open>NCPU\<close>, \<^verbatim>\<open>NNUMA\<close> and
  other constants of the build are arguments, as are the results of system calls, of \<^verbatim>\<open>malloc\<close>, of the
  clock and of try-locks. Memory is sequentially consistent: a model that interleaves agents at single
  accesses does not show the reorderings of a weaker memory.

  \<^bold>\<open>Base.\<close>
  \<^item> \<open>Vprelude\<close>: integer types, error codes, \<^verbatim>\<open>inc/base/stddef.h\<close>, first index that satisfies a predicate.
  \<^item> \<open>Interfaces\<close>: the contracts as locales: \<open>bounded_fifo\<close>, \<open>deadline_queue\<close>, \<open>allocator\<close>, \<open>item_source\<close>. Two
    more stand with their clients, \<open>sched_policy\<close> in \<open>Iok_Policy\<close> and \<open>implements\<close> in \<open>Uthread_Correct\<close>.
  \<^item> \<open>Bitmap\<close>, \<open>Cpulist\<close>: \<^verbatim>\<open>inc/base/bitmap.h\<close> and \<^verbatim>\<open>base/bitmap.c\<close>. The search by words finds what a scan by
    bits finds; a printed list of CPUs is parsed back to the same set.
  \<^item> \<open>Cpu_Info\<close>: \<^verbatim>\<open>base/cpu.c\<close> and the part of \<^verbatim>\<open>base/sysfs.c\<close> it uses. A successful allocation grants exactly
    what was asked for; two exclusive allocations can share a CPU, which is a defect.
  \<^item> \<open>Lrpc\<close>: \<^verbatim>\<open>inc/base/lrpc.h\<close>, \<^verbatim>\<open>base/lrpc.c\<close>. The ring with parity bits and wrapping counters implements
    \<open>bounded_fifo\<close>; in every interleaving of single accesses of the two ends the messages received are a
    prefix of those sent.

  \<^bold>\<open>Core library.\<close>
  \<^item> \<open>Chunk_Mem\<close>, \<open>Start_Alloc\<close>: \<^verbatim>\<open>core/mem.c\<close>, \<^verbatim>\<open>core/startalloc.c\<close>. A chunk has one owner; an allocation
    finds a free run when there is one; leaving releases what the task has and nothing else.
  \<^item> \<open>Uproc\<close>: \<^verbatim>\<open>core/cluster.c\<close>, \<^verbatim>\<open>core/task.c\<close>, \<^verbatim>\<open>core/kthread.c\<close>, \<^verbatim>\<open>core/init.c\<close>, \<^verbatim>\<open>apis/apis.c\<close>. \<open>utab_ok\<close> says
    that the tables agree; every call keeps it. The register value of a task denies all others.
  \<^item> \<open>Csched\<close>: \<^verbatim>\<open>core/csched.c\<close>, \<^verbatim>\<open>core/uipi.c\<close>. A core is a state machine with a program counter between two
    accesses to memory that others write. No cluster runs on two cores, a core that runs a cluster has
    the register of its task, and a requested cluster is entered within six steps and acknowledged.

  \<^bold>\<open>Scheduler process.\<close>
  \<^item> \<open>Ksched\<close>: \<^verbatim>\<open>inc/scheds/state.h\<close>, \<^verbatim>\<open>iokernel/ksched.h\<close>, \<^verbatim>\<open>iokernel/ksched.c\<close>: the words shared with a core.
  \<^item> \<open>Iok_Delay\<close>: how \<^verbatim>\<open>iokernel/sched.c\<close> reads queues, rings and timers; when it takes a kthread for busy.
  \<^item> \<open>Iosched\<close>: the rest of \<^verbatim>\<open>iokernel/sched.c\<close>, \<^verbatim>\<open>iokernel/dp_clients.c\<close> and the loop of \<^verbatim>\<open>iokernel/main.c\<close>. The
    policy is a table of operations, as in the code. \<open>Iok_Policy\<close> is its contract and what the loop then
    promises; \<open>Core_Ledger\<close> is the bookkeeping of two policies.
  \<^item> \<open>Simple_Policy\<close>, \<open>Numa_Policy\<close>: \<^verbatim>\<open>iokernel/simple.c\<close>, \<^verbatim>\<open>iokernel/numa.c\<close>. Both interpret the contract, so
    the scheduler process never fails with them and its books agree with the cores. No process loses a
    core that is in its guarantee.
  \<^item> \<open>Control\<close>: \<^verbatim>\<open>iokernel/control.c\<close>, \<^verbatim>\<open>inc/iokernel/shm.h\<close>. What a new process shares lies in its region,
    whatever the runtime wrote there; the table of clients and the sum of guarantees agree.
  \<^item> This theory: the scheduler process keeps the protocol of requests that \<open>Csched\<close> relies on.

  \<^bold>\<open>Runtime.\<close>
  \<^item> \<open>Runq\<close>, \<open>Uthread\<close>, \<open>Uthread_Inv\<close>, \<open>Uthread_Correct\<close>: \<^verbatim>\<open>runtime/sched.c\<close>, \<^verbatim>\<open>runtime/softirq.c\<close>, parts of
    \<^verbatim>\<open>runtime/kthread.c\<close> and \<^verbatim>\<open>runtime/init.c\<close>. \<open>Runq\<close> is the ring with its overflow list; \<open>Uthread\<close> has the
    operations and the relation \<open>rt_reach\<close> that interleaves the kthreads; \<open>rt_inv\<close> of \<open>Uthread_Inv\<close> holds from
    \<open>runtime_init\<close> on. No thread is lost or on two stacks, no check fails, no kthreads wait for each other
    in a circle, and the counters the scheduler process reads are right. The queue implements a list.
  \<^item> \<open>Rcu\<close>: \<^verbatim>\<open>runtime/rcu.c\<close>. The worker runs beside that relation; what it calls waited until every kthread
    had left its thread, because the counter of a kthread is odd exactly inside a thread.
  \<^item> \<open>Timer_Heap\<close>: \<^verbatim>\<open>runtime/timer.c\<close>. The heaps implement \<open>deadline_queue\<close>; one race in it is a defect.
  \<^item> \<open>Mempool\<close>, \<open>Tcache\<close>: \<^verbatim>\<open>runtime/mmem/mempool.c\<close>, \<^verbatim>\<open>runtime/tls/tcache.c\<close>. Pools and caches over any
    \<open>item_source\<close> implement \<open>allocator\<close>: no item is handed out twice.
  \<^item> \<open>Sync\<close>, \<open>Rwmutex\<close>: \<^verbatim>\<open>runtime/sync.c\<close>, \<^verbatim>\<open>include/vessel/runtime/simple_sync.h\<close>. Mutual exclusion, no
    sleeper on a free mutex, no lost signal; the exact wake-ups of the other primitives.

  \<^bold>\<open>Loops and bounds.\<close> Loops over tables are recursion on lists or on a counter with a termination proof;
  the loops of the code that end only on good data (\<open>fill_range\<close>, \<open>collect\<close>, \<open>reclaim_loop\<close>, \<open>find_slot\<close>) are
  partial functions whose result \<open>None\<close> is a run that never ends, and are shown to end on well-formed
  data. The one bound is the budget of the timer softirq, which is the code's own. The
  endless loops of the cores, the scheduler process and the kthreads are step relations (\<open>cstep\<close>,
  \<open>io_step\<close>, \<open>rt_reach\<close>, \<open>rcu_reach\<close>), and a spin loop is a step that is not enabled. That a core serves a request is
  proved with the exact number of steps, six, and that a kthread stops waiting for a stack by a measure.

  \<^bold>\<open>Not modelled.\<close> Assembly, the ELF loader, the daemon, the network stack, DPDK and storage: input and
  output, or code around devices and libraries that are not part of the repository. The
  interference-aware policy \<^verbatim>\<open>iokernel/ias*.c\<close>: its decisions rest on hardware counters. The transport over
  CXL memory, pages, slabs and the small allocators of the runtime; garbage collection, which no build
  enables; the reentrant variants and the pthread shims. Of the files above: statistics, logging,
  floating-point load averages, the saving of registers, and the counting of disabled preemption.
\<close>

section \<open>The scheduler process and the cores\<close>

lemma run_on_core_posts:
  assumes inv: "sched_inv s" and a: "sched_run_on_core nc p core s = Some (r, s')"
  shows "posts_guarded (cs_map (ks s)) (cs_map (ks s'))"
proof -
  have k: "kinv (cstate s) (ks s) (sched_allowed_cores s)" using inv by (simp add: sched_inv_def)
  obtain q i where "s' = s \<or> sched_run core (Some (p, i)) (upd_proc p q s) = Some s'"
    using a by (auto simp: sched_run_on_core_def proc_get_def opt_run split: if_splits option.splits)
  then show ?thesis using sched_run_posts [of "upd_proc p q s" "sched_allowed_cores s" core "Some (p, i)" s'] k by auto
qed

lemma idle_on_core_posts:
  assumes inv: "sched_inv s" and a: "sched_idle_on_core nc hint core s = Some (r, s')"
  shows "posts_guarded (cs_map (ks s)) (cs_map (ks s'))"
proof -
  have k: "kinv (cstate s) (ks s) (sched_allowed_cores s)" using inv by (simp add: sched_inv_def)
  have "s' = s \<or> sched_run core None (s\<lparr>ks := ks s\<rparr>) = Some s'"
    using a by (auto simp: sched_idle_on_core_def ksched_idle_hint_def Option.bind_eq_Some_conv split: if_splits)
  then show ?thesis using sched_run_posts [of "s\<lparr>ks := ks s\<rparr>" "sched_allowed_cores s" core None s'] k by auto
qed

text \<open>
  C17: the scheduler process keeps the protocol the cores rely on: whichever of its operations it
  runs, it changes a word of a core's request only when the core has acknowledged the last one.
\<close>

theorem requests_follow_protocol:
  assumes "sched_inv s" "conn c = cs_map (ks s)"
    "sched_run_on_core nc p core s = Some (r, s') \<or> sched_idle_on_core nc hint core s = Some (r, s') \<or>
     poll_done core s = Some s' \<or> poll_idle core s = Some (b, s')"
  shows "posts_ok c (c\<lparr>conn := cs_map (ks s')\<rparr>)"
  using assms run_on_core_posts idle_on_core_posts poll_posts by (simp add: posts_ok_def) blast

theorem requests_follow_protocol_witness:
  "\<exists>s'. sched_run_on_core 4 0 2 demo_simple = Some (Ok, s') \<and>
    posts_ok (demo_csys\<lparr>conn := cs_map (ks demo_simple)\<rparr>) (demo_csys\<lparr>conn := cs_map (ks s')\<rparr>)"
proof -
  have "bitmap_test (sched_allowed_cores demo_simple) 2" "idle_threads (procs demo_simple 0) = [0]"
    by (simp_all add: demo_simple_def demo_ledger_def demo_proc_def bitmap_test_bit)
  with sched_run_on_core_inv [OF demo_simple_sched, of 4 0 2]
  obtain s' where s': "sched_run_on_core 4 0 2 demo_simple = Some (Ok, s')" by fastforce
  with requests_follow_protocol [OF demo_simple_sched, of "demo_csys\<lparr>conn := cs_map (ks demo_simple)\<rparr>" 4 0 2 Ok s' 0 False]
  show ?thesis by (cases demo_csys) auto
qed

end
